(* ===== verification/Prelude.thy ===== *)
theory Prelude
  imports Main "HOL-Library.Word"
begin

text \<open>
  What every component of the kernel model shares: the fixed-width integer types of
  \<^verbatim>\<open>kernel/include/types.h\<close>, the error codes of \<^verbatim>\<open>kernel/include/errors.h\<close> and
  \<^verbatim>\<open>kernel/core/errors.c\<close>, the two shapes of counting loop the kernel is written with
  (\<open>first_index\<close> for a search that stops at the first hit, \<open>for_range\<close> for a loop that runs to
  its bound), C arrays as total functions with the list of their first cells as abstraction, and
  the generic lemmas on these.

  A loop counter of the source is a local variable that starts at 0 (or at a constant) and is
  compared with the loop's bound before each round, so it never passes the bound and never
  wraps: it is a \<open>nat\<close> here. Every counter that is kept in a structure keeps its width.
\<close>

unbundle bit_operations_syntax

section \<open>Integer types\<close>

type_synonym u8 = "8 word"
type_synonym u16 = "16 word"
type_synonym u32 = "32 word"
type_synonym u64 = "64 word"
type_synonym size_t = "64 word"
type_synonym paddr_t = "64 word"
type_synonym vaddr_t = "64 word"
type_synonym pfn_t = "64 word"
type_synonym pid_t = "32 word"

text \<open>The alignment macros of \<^verbatim>\<open>types.h\<close>; \<open>al\<close> is the alignment.\<close>

definition ALIGN_UP :: "u64 \<Rightarrow> u64 \<Rightarrow> u64" where
  "ALIGN_UP x al = (x + (al - 1)) AND NOT (al - 1)"

definition ALIGN_DOWN :: "u64 \<Rightarrow> u64 \<Rightarrow> u64" where
  "ALIGN_DOWN x al = x AND NOT (al - 1)"

definition IS_ALIGNED :: "u64 \<Rightarrow> u64 \<Rightarrow> bool" where
  "IS_ALIGNED x al \<longleftrightarrow> x AND (al - 1) = 0"

section \<open>Error codes\<close>

datatype error_code_t =
    ERR_OK
  | ERR_INVALID_ARG | ERR_OUT_OF_MEMORY | ERR_NOT_FOUND | ERR_ALREADY_EXISTS | ERR_NOT_EMPTY
  | ERR_PERMISSION_DENIED | ERR_NOT_SUPPORTED | ERR_TIMEOUT | ERR_INTERRUPTED
  | ERR_INVALID_STATE | ERR_AGAIN | ERR_FAILED | ERR_NOT_INITIALIZED
  | ERR_INVALID_ADDRESS | ERR_PAGE_FAULT | ERR_OUT_OF_PAGES | ERR_MAPPING_FAILED
  | ERR_INVALID_PID | ERR_PROCESS_NOT_FOUND | ERR_PROCESS_ALREADY_RUNNING
  | ERR_CANNOT_CREATE_PROCESS
  | ERR_FILE_NOT_FOUND | ERR_FILE_EXISTS | ERR_DIRECTORY_NOT_FOUND | ERR_NOT_A_DIRECTORY
  | ERR_NOT_DIRECTORY | ERR_IS_DIRECTORY | ERR_END_OF_FILE | ERR_READ_ONLY | ERR_DISK_FULL
  | ERR_IO_ERROR | ERR_DEVICE_NOT_FOUND | ERR_DEVICE_BUSY
  | ERR_INVALID_SYSCALL | ERR_SYSCALL_FAILED
  | ERR_INVALID_ELF | ERR_ELF_NOT_EXECUTABLE | ERR_ELF_LOAD_FAILED
  | ERR_UNKNOWN

text \<open>The numeric value the enumeration gives each code.\<close>

fun error_value :: "error_code_t \<Rightarrow> int" where
  "error_value ERR_OK = 0"
| "error_value ERR_INVALID_ARG = -1"
| "error_value ERR_OUT_OF_MEMORY = -2"
| "error_value ERR_NOT_FOUND = -3"
| "error_value ERR_ALREADY_EXISTS = -4"
| "error_value ERR_NOT_EMPTY = -39"
| "error_value ERR_PERMISSION_DENIED = -5"
| "error_value ERR_NOT_SUPPORTED = -6"
| "error_value ERR_TIMEOUT = -7"
| "error_value ERR_INTERRUPTED = -8"
| "error_value ERR_INVALID_STATE = -9"
| "error_value ERR_AGAIN = -10"
| "error_value ERR_FAILED = -11"
| "error_value ERR_NOT_INITIALIZED = -100"
| "error_value ERR_INVALID_ADDRESS = -12"
| "error_value ERR_PAGE_FAULT = -13"
| "error_value ERR_OUT_OF_PAGES = -14"
| "error_value ERR_MAPPING_FAILED = -15"
| "error_value ERR_INVALID_PID = -30"
| "error_value ERR_PROCESS_NOT_FOUND = -31"
| "error_value ERR_PROCESS_ALREADY_RUNNING = -32"
| "error_value ERR_CANNOT_CREATE_PROCESS = -33"
| "error_value ERR_FILE_NOT_FOUND = -40"
| "error_value ERR_FILE_EXISTS = -41"
| "error_value ERR_DIRECTORY_NOT_FOUND = -42"
| "error_value ERR_NOT_A_DIRECTORY = -43"
| "error_value ERR_NOT_DIRECTORY = -44"
| "error_value ERR_IS_DIRECTORY = -45"
| "error_value ERR_END_OF_FILE = -46"
| "error_value ERR_READ_ONLY = -47"
| "error_value ERR_DISK_FULL = -48"
| "error_value ERR_IO_ERROR = -50"
| "error_value ERR_DEVICE_NOT_FOUND = -51"
| "error_value ERR_DEVICE_BUSY = -52"
| "error_value ERR_INVALID_SYSCALL = -60"
| "error_value ERR_SYSCALL_FAILED = -61"
| "error_value ERR_INVALID_ELF = -70"
| "error_value ERR_ELF_NOT_EXECUTABLE = -71"
| "error_value ERR_ELF_LOAD_FAILED = -72"
| "error_value ERR_UNKNOWN = -999"

definition is_error :: "error_code_t \<Rightarrow> bool" where
  "is_error err \<longleftrightarrow> error_value err < 0"

definition is_success :: "error_code_t \<Rightarrow> bool" where
  "is_success err \<longleftrightarrow> error_value err = error_value ERR_OK"

section \<open>Counting loops\<close>

text \<open>
  \<open>first_index P i n\<close> is the loop \<^verbatim>\<open>for (k = i; k < n; k++) if (P(k)) { ... break; }\<close>: the index
  at which it stops, \<open>None\<close> when it runs to the end. \<open>for_range i n f s\<close> is the loop
  \<^verbatim>\<open>for (k = i; k < n; k++) s = f(k, s);\<close>.
\<close>

definition first_index :: "(nat \<Rightarrow> bool) \<Rightarrow> nat \<Rightarrow> nat \<Rightarrow> nat option" where
  "first_index P i n = find P [i..<n]"

definition for_range :: "nat \<Rightarrow> nat \<Rightarrow> (nat \<Rightarrow> 's \<Rightarrow> 's) \<Rightarrow> 's \<Rightarrow> 's" where
  "for_range i n f s = fold f [i..<n] s"

section \<open>Arrays\<close>

text \<open>
  A C array is a total function on indices: what lies beyond the cells a component uses is
  arbitrary. \<open>cells a n\<close> is the list of its first \<open>n\<close> cells. \<open>shift_down a i n\<close> is the loop that
  removes cell \<open>i\<close> of \<open>n\<close> by moving the later cells one place down.
\<close>

type_synonym 'a array = "nat \<Rightarrow> 'a"

definition cells :: "'a array \<Rightarrow> nat \<Rightarrow> 'a list" where
  "cells a n = map a [0..<n]"

definition shift_down :: "'a array \<Rightarrow> nat \<Rightarrow> nat \<Rightarrow> 'a array" where
  "shift_down a i n = for_range i (n - 1) (\<lambda>j b. b(j := b (Suc j))) a"

section \<open>Lemmas on words\<close>

lemma unat_pred: "0 < unat (w :: 'a :: len word) \<Longrightarrow> unat (w - 1) = unat w - 1"
  by (metis One_nat_def Suc_leI unat_1 unat_sub word_le_nat_alt)

lemma unat_succ:
  assumes "unat (w :: 'a :: len word) < 2 ^ LENGTH('a) - 1"
  shows "unat (w + 1) = Suc (unat w)"
  using assms by (simp add: unat_word_ariths)

lemma unat_succ_less:
  assumes "w < (v :: 'a :: len word)"
  shows "unat (w + 1) = Suc (unat w)"
proof (rule unat_succ)
  have "unat w < unat v" "unat v < 2 ^ LENGTH('a)"
    using assms by (simp_all add: word_less_nat_alt)
  then show "unat w < 2 ^ LENGTH('a) - 1" by linarith
qed

lemma unat_and_not_mask:
  fixes x :: u64
  assumes "n < 64"
  shows "unat (x AND NOT (mask n)) = unat x div 2 ^ n * 2 ^ n"
proof -
  have "(2 :: nat) ^ n < 2 ^ 64" using assms by (rule power_strict_increasing) simp
  then have pow: "unat (2 ^ n :: u64) = 2 ^ n"
    using unat_of_nat [where 'a = 64, of "2 ^ n"] by simp
  have low: "unat (x AND mask n) = unat x mod 2 ^ n"
    by (simp add: take_bit_eq_mask [symmetric] take_bit_eq_mod unat_mod pow)
  have high: "x AND NOT (mask n) = push_bit n (drop_bit n x)"
    by (rule bit_word_eqI) (auto simp: bit_simps)
  have eq: "x AND NOT (mask n) = x - (x AND mask n)"
    using bits_ident [of n x] unfolding high take_bit_eq_mask [symmetric]
    by (metis add_diff_cancel_right')
  have "unat (x AND NOT (mask n)) = unat x - unat x mod 2 ^ n"
    using low by (simp add: eq unat_sub word_le_nat_alt)
  then show ?thesis by (simp add: minus_mod_eq_div_mult)
qed

section \<open>Lemmas on loops\<close>

lemma first_index_None_iff:
  "first_index P i n = None \<longleftrightarrow> (\<forall>k. i \<le> k \<and> k < n \<longrightarrow> \<not> P k)"
  by (auto simp: first_index_def find_None_iff)

lemma first_index_Some_iff:
  "first_index P i n = Some k \<longleftrightarrow> i \<le> k \<and> k < n \<and> P k \<and> (\<forall>j. i \<le> j \<and> j < k \<longrightarrow> \<not> P j)"
proof
  assume "first_index P i n = Some k"
  then obtain m where m: "m < length [i..<n]" "P ([i..<n] ! m)" "k = [i..<n] ! m"
    and before: "\<forall>j<m. \<not> P ([i..<n] ! j)"
    by (auto simp: first_index_def find_Some_iff)
  have "\<not> P j" if "i \<le> j" "j < k" for j
    using before [rule_format, of "j - i"] m that by simp
  with m show "i \<le> k \<and> k < n \<and> P k \<and> (\<forall>j. i \<le> j \<and> j < k \<longrightarrow> \<not> P j)"
    by auto
next
  assume R: "i \<le> k \<and> k < n \<and> P k \<and> (\<forall>j. i \<le> j \<and> j < k \<longrightarrow> \<not> P j)"
  then show "first_index P i n = Some k"
    by (auto simp: first_index_def find_Some_iff intro!: exI [of _ "k - i"])
qed

lemmas first_index_iff = first_index_None_iff first_index_Some_iff

lemma first_index_SomeD:
  assumes "first_index P i n = Some k"
  shows "i \<le> k" "k < n" "P k"
  using assms by (auto simp: first_index_Some_iff)

lemma first_index_cong:
  assumes "\<And>k. i \<le> k \<Longrightarrow> k < n \<Longrightarrow> P k = Q k"
  shows "first_index P i n = first_index Q i n"
  using assms unfolding first_index_def by (intro find_cong) auto

lemma for_range_empty [simp]: "n \<le> i \<Longrightarrow> for_range i n f s = s"
  by (simp add: for_range_def)

lemma for_range_Suc: "i \<le> n \<Longrightarrow> for_range i (Suc n) f s = f n (for_range i n f s)"
  by (simp add: for_range_def)

text \<open>The loop rule: \<open>I k s\<close> holds before the round with counter \<open>k\<close>.\<close>

lemma for_range_induct [consumes 1, case_names start round]:
  assumes "i \<le> n" and "I i s"
    and "\<And>k t. i \<le> k \<Longrightarrow> k < n \<Longrightarrow> I k t \<Longrightarrow> I (Suc k) (f k t)"
  shows "I n (for_range i n f s)"
  using assms
proof (induction n rule: nat_induct_at_least)
  case base
  then show ?case by simp
next
  case (Suc n)
  then show ?case by (simp add: for_range_Suc)
qed

lemma for_range_invariant:
  assumes "I s" and "\<And>k t. i \<le> k \<Longrightarrow> k < n \<Longrightarrow> I t \<Longrightarrow> I (f k t)"
  shows "I (for_range i n f s)"
proof (cases "i \<le> n")
  case True
  then show ?thesis
    by (induction rule: for_range_induct [where I = "\<lambda>_. I"]) (auto simp: assms)
next
  case False
  with assms(1) show ?thesis by simp
qed

text \<open>Loops over the cells of a list.\<close>

lemma for_range_fold: "for_range i n f s = fold f [i..<n] s"
  by (simp add: for_range_def)

lemma for_range_0_4: "for_range 0 4 f s = f 3 (f 2 (f 1 (f 0 s)))"
proof -
  have "[0..<4] = [0, 1, 2, 3 :: nat]" by (simp add: upt_rec)
  then show ?thesis by (simp add: for_range_fold)
qed

lemma for_range_map:
  assumes "length xs = n"
  shows "for_range 0 n (\<lambda>i s. s[i := f (s ! i)]) xs = map f xs"
proof -
  have "k \<le> n \<Longrightarrow> for_range 0 k (\<lambda>i s. s[i := f (s ! i)]) xs = map f (take k xs) @ drop k xs" for k
  proof (induction k)
    case (Suc k)
    then have "drop k xs = xs ! k # drop (Suc k) xs" "length (take k xs) = k"
      using assms by (simp_all add: Cons_nth_drop_Suc)
    with Suc show ?case
      using assms by (simp add: for_range_Suc take_Suc_conv_app_nth nth_append list_update_append)
  qed simp
  from this [of n] assms show ?thesis by simp
qed

lemma length_for_range:
  assumes "\<And>i s. length s = k \<Longrightarrow> length (f i s) = k" "length s = k"
  shows "length (for_range i n f s) = k"
  unfolding for_range_fold by (rule fold_invariant [where Q = "\<lambda>_. True"]) (use assms in auto)

lemma for_range_write:
  assumes "off + m \<le> length xs"
  shows "length (for_range 0 m (\<lambda>i p. p[off + i := g i]) xs) = length xs"
    "j < length xs \<Longrightarrow> for_range 0 m (\<lambda>i p. p[off + i := g i]) xs ! j =
       (if off \<le> j \<and> j < off + m then g (j - off) else xs ! j)"
proof -
  have "length (for_range 0 m (\<lambda>i p. p[off + i := g i]) xs) = length xs \<and>
    (\<forall>j < length xs. for_range 0 m (\<lambda>i p. p[off + i := g i]) xs ! j =
       (if off \<le> j \<and> j < off + m then g (j - off) else xs ! j))"
    using assms by (induction m) (auto simp: for_range_Suc nth_list_update)
  then show "length (for_range 0 m (\<lambda>i p. p[off + i := g i]) xs) = length xs"
    "j < length xs \<Longrightarrow> for_range 0 m (\<lambda>i p. p[off + i := g i]) xs ! j =
       (if off \<le> j \<and> j < off + m then g (j - off) else xs ! j)" by blast+
qed

section \<open>Copying into a buffer\<close>

text \<open>\<^verbatim>\<open>memcpy\<close> into an array at an offset.\<close>

definition blit :: "'a list \<Rightarrow> nat \<Rightarrow> 'a list \<Rightarrow> 'a list" where
  "blit dst off src = take off dst @ src @ drop (off + length src) dst"

lemma length_blit: "off + length src \<le> length dst \<Longrightarrow> length (blit dst off src) = length dst"
  by (simp add: blit_def)

lemma nth_blit:
  "off + length src \<le> length dst \<Longrightarrow> i < length dst \<Longrightarrow>
   blit dst off src ! i = (if off \<le> i \<and> i < off + length src then src ! (i - off) else dst ! i)"
  by (auto simp: blit_def nth_append)

section \<open>Lemmas on arrays\<close>

lemma length_cells [simp]: "length (cells a n) = n"
  by (simp add: cells_def)

lemma nth_cells [simp]: "i < n \<Longrightarrow> cells a n ! i = a i"
  by (simp add: cells_def)

lemma set_cells: "set (cells a n) = a ` {..<n}"
  by (auto simp: cells_def)

lemma cells_0 [simp]: "cells a 0 = []"
  by (simp add: cells_def)

lemma cells_push: "cells (a(n := x)) (Suc n) = cells a n @ [x]"
  by (simp add: cells_def)

lemma cells_upd: "i < n \<Longrightarrow> cells (a(i := x)) n = (cells a n)[i := x]"
  by (rule nth_equalityI) (auto simp: nth_list_update)

lemma cells_upd_beyond [simp]: "n \<le> i \<Longrightarrow> cells (a(i := x)) n = cells a n"
  by (simp add: cells_def)

lemma shift_down_apply:
  "shift_down a i n k = (if i \<le> k \<and> k < n - 1 then a (Suc k) else a k)"
proof (cases "i \<le> n - 1")
  case True
  then have "\<forall>k. for_range i (n - 1) (\<lambda>j b. b(j := b (Suc j))) a k
      = (if i \<le> k \<and> k < n - 1 then a (Suc k) else a k)"
    by (induction rule: for_range_induct
        [where I = "\<lambda>m b. \<forall>k. b k = (if i \<le> k \<and> k < m then a (Suc k) else a k)"]) auto
  then show ?thesis by (simp add: shift_down_def)
next
  case False
  then show ?thesis by (auto simp: shift_down_def)
qed

lemma cells_shift_down:
  assumes "i < n"
  shows "cells (shift_down a i n) (n - 1) = take i (cells a n) @ drop (Suc i) (cells a n)"
  using assms by (intro nth_equalityI) (auto simp: shift_down_apply nth_append)

lemma find_map_eq: "find P (map f xs) = map_option f (find (\<lambda>x. P (f x)) xs)"
  by (induction xs) auto

lemma find_cells:
  "find P (cells a n) = map_option a (first_index (\<lambda>i. P (a i)) 0 n)"
  by (simp add: cells_def first_index_def find_map_eq)

lemma first_index_cells_None:
  "first_index (\<lambda>i. P (a i)) 0 n = None \<longleftrightarrow> (\<forall>x \<in> set (cells a n). \<not> P x)"
  by (auto simp: first_index_None_iff set_cells)

section \<open>Threads at program points\<close>

text \<open>Threads are numbered by 64-bit words; \<open>at_pc f y\<close> counts the threads that are at point \<open>y\<close>.\<close>

definition at_pc :: "(u64 \<Rightarrow> 'p) \<Rightarrow> 'p \<Rightarrow> nat" where
  "at_pc f y = card {t. f t = y}"

lemma at_pc_enter: "f t \<noteq> y \<Longrightarrow> at_pc (f(t := y)) y = Suc (at_pc f y)"
proof -
  assume "f t \<noteq> y"
  then have "{u. (f(t := y)) u = y} = insert t {u. f u = y}" "t \<notin> {u. f u = y}" by auto
  then show ?thesis by (simp add: at_pc_def)
qed

lemma at_pc_leave: "f t = y \<Longrightarrow> x \<noteq> y \<Longrightarrow> Suc (at_pc (f(t := x)) y) = at_pc f y"
proof -
  assume "f t = y" "x \<noteq> y"
  then have "{u. f u = y} = insert t {u. (f(t := x)) u = y}" "t \<notin> {u. (f(t := x)) u = y}" by auto
  then show ?thesis by (simp add: at_pc_def)
qed

lemma at_pc_other: "f t \<noteq> y \<Longrightarrow> x \<noteq> y \<Longrightarrow> at_pc (f(t := x)) y = at_pc f y"
  by (auto simp: at_pc_def intro!: arg_cong [where f = card])

lemma at_pc_pos: "f t = y \<Longrightarrow> 0 < at_pc f y"
  by (auto simp: at_pc_def card_gt_0_iff)

lemma at_pc_0: "(\<And>t. f t \<noteq> y) \<Longrightarrow> at_pc f y = 0"
  by (simp add: at_pc_def)

lemma at_pc_le: "(\<And>t. f t = y \<Longrightarrow> t \<in> T) \<Longrightarrow> finite T \<Longrightarrow> at_pc f y \<le> card T"
  by (auto simp: at_pc_def intro: card_mono)

section \<open>Transition systems\<close>

lemma run_step_ex: "r s t \<Longrightarrow> \<exists>u. r\<^sup>*\<^sup>* t u \<and> P u \<Longrightarrow> \<exists>u. r\<^sup>*\<^sup>* s u \<and> P u"
  by (meson converse_rtranclp_into_rtranclp)

lemma run_ex_refl: "P s \<Longrightarrow> \<exists>u. r\<^sup>*\<^sup>* s u \<and> P u"
  by blast

text \<open>
  The shape of every concurrency argument: an invariant that holds at the start and is kept by every
  step holds in every reachable state. \<open>exclusive\<close> adds the threads that are inside a critical
  section.
\<close>

locale transition_system =
  fixes init :: "'s \<Rightarrow> bool" and step :: "'s \<Rightarrow> 's \<Rightarrow> bool" and inv :: "'s \<Rightarrow> bool"
  assumes init_inv: "init s \<Longrightarrow> inv s"
    and step_inv: "inv s \<Longrightarrow> step s t \<Longrightarrow> inv t"
begin

lemma reachable_inv:
  assumes "step\<^sup>*\<^sup>* s0 s" "init s0"
  shows "inv s"
  using assms by (induction rule: rtranclp_induct) (auto intro: init_inv step_inv)

end

locale exclusive = transition_system +
  fixes inside :: "'s \<Rightarrow> 't set"
  assumes inv_inside: "inv s \<Longrightarrow> t \<in> inside s \<Longrightarrow> u \<in> inside s \<Longrightarrow> t = u"
begin

lemma mutual_exclusion:
  assumes "step\<^sup>*\<^sup>* s0 s" "init s0" "t \<in> inside s" "u \<in> inside s"
  shows "t = u"
  using reachable_inv [OF assms(1,2)] assms(3,4) by (rule inv_inside)

end

end
