(* ===== verification/Pmm.thy ===== *)
theory Pmm
  imports Prelude
begin

text \<open>
  The physical memory manager, \<^verbatim>\<open>kernel/mm/pmm.c\<close>: one bit per 4 KiB frame (0 = free,
  1 = allocated), a 16-bit reference count per frame for copy-on-write, and three counters.
  The bitmap is the byte array of the source; \<open>bitmap_test\<close> reads it as one bit per frame.

  Invariant \<open>pmm_inv\<close>: the counters are the numbers of free and of used frames below
  \<open>total_pages\<close>, and every frame above it is marked used. \<open>refs_clear\<close>: a free frame has no
  references left over. The locale \<open>frame_allocator\<close> is what the clients of the allocator (the
  kernel heap, the page tables) rely on.
\<close>

section \<open>Model\<close>

definition MAX_PAGES :: nat where
  "MAX_PAGES = 16 * 1024 * 256"

definition PAGE_SIZE :: u64 where
  "PAGE_SIZE = 4096"

definition PADDR_TO_PFN :: "paddr_t \<Rightarrow> pfn_t" where
  "PADDR_TO_PFN a = drop_bit 12 a"

definition PFN_TO_PADDR :: "pfn_t \<Rightarrow> paddr_t" where
  "PFN_TO_PADDR p = push_bit 12 p"

definition MEMORY_TYPE_CONVENTIONAL :: u32 where
  "MEMORY_TYPE_CONVENTIONAL = 7"

record memory_region_t =
  region_base :: u64
  region_length :: u64
  region_type :: u32

record boot_info_t =
  memory_map_count :: u32
  memory_map :: "memory_region_t array"

record pmm_state =
  page_bitmap :: "u8 array"
  page_refcount :: "u16 array"
  total_pages :: size_t
  free_pages :: size_t
  used_pages :: size_t
  highest_addr :: paddr_t
  last_allocated :: pfn_t

definition bitmap_set :: "u8 array \<Rightarrow> nat \<Rightarrow> u8 array" where
  "bitmap_set b i = b(i div 8 := b (i div 8) OR push_bit (i mod 8) 1)"

definition bitmap_clear :: "u8 array \<Rightarrow> nat \<Rightarrow> u8 array" where
  "bitmap_clear b i = b(i div 8 := b (i div 8) AND NOT (push_bit (i mod 8) 1))"

definition bitmap_test :: "u8 array \<Rightarrow> nat \<Rightarrow> bool" where
  "bitmap_test b i \<longleftrightarrow> b (i div 8) AND push_bit (i mod 8) 1 \<noteq> 0"

text \<open>One round of the loop of \<open>pmm_mark_used\<close>, of \<open>pmm_mark_free\<close>, for frame \<open>k\<close>.\<close>

definition mark_used_frame :: "pfn_t \<Rightarrow> pmm_state \<Rightarrow> pmm_state" where
  "mark_used_frame k s =
     (if k < total_pages s then
        (if \<not> bitmap_test (page_bitmap s) (unat k) then
           s\<lparr>page_bitmap := bitmap_set (page_bitmap s) (unat k),
             free_pages := (if free_pages s > 0 then free_pages s - 1 else free_pages s),
             used_pages := used_pages s + 1\<rparr>
         else s)
      else s)"

definition pmm_mark_used :: "paddr_t \<Rightarrow> size_t \<Rightarrow> pmm_state \<Rightarrow> pmm_state" where
  "pmm_mark_used bs cnt s =
     (let pfn = PADDR_TO_PFN bs
      in if pfn + cnt < pfn then s
         else for_range 0 (unat cnt) (\<lambda>i. mark_used_frame (pfn + of_nat i)) s)"

definition mark_free_frame :: "pfn_t \<Rightarrow> pmm_state \<Rightarrow> pmm_state" where
  "mark_free_frame k s =
     (if k < total_pages s then
        (if bitmap_test (page_bitmap s) (unat k) then
           s\<lparr>page_bitmap := bitmap_clear (page_bitmap s) (unat k),
             free_pages := free_pages s + 1,
             used_pages := (if used_pages s > 0 then used_pages s - 1 else used_pages s)\<rparr>
         else s)
      else s)"

definition pmm_mark_free :: "paddr_t \<Rightarrow> size_t \<Rightarrow> pmm_state \<Rightarrow> pmm_state" where
  "pmm_mark_free bs cnt s =
     (let pfn = PADDR_TO_PFN bs
      in if pfn + cnt < pfn then s
         else for_range 0 (unat cnt) (\<lambda>i. mark_free_frame (pfn + of_nat i)) s)"

text \<open>
  The three passes of \<open>pmm_init\<close> over the boot loader's memory map: the highest conventional
  address, the page count derived from it, the conventional regions marked free.
\<close>

definition region_end :: "memory_region_t \<Rightarrow> paddr_t" where
  "region_end r = region_base r + region_length r"

definition raise_highest :: "boot_info_t \<Rightarrow> nat \<Rightarrow> pmm_state \<Rightarrow> pmm_state" where
  "raise_highest bi i s =
     (let r = memory_map bi i
      in if region_type r = MEMORY_TYPE_CONVENTIONAL \<and> region_end r > highest_addr s
         then s\<lparr>highest_addr := region_end r\<rparr> else s)"

definition free_region :: "boot_info_t \<Rightarrow> nat \<Rightarrow> pmm_state \<Rightarrow> pmm_state" where
  "free_region bi i s =
     (let r = memory_map bi i
      in if region_type r = MEMORY_TYPE_CONVENTIONAL
         then (let bs = ALIGN_UP (region_base r) PAGE_SIZE;
                   en = ALIGN_DOWN (region_end r) PAGE_SIZE
               in if en > bs then pmm_mark_free bs ((en - bs) div PAGE_SIZE) s else s)
         else s)"

definition pmm_reset :: "pmm_state \<Rightarrow> pmm_state" where
  "pmm_reset s = s\<lparr>page_bitmap := (\<lambda>i. if i < MAX_PAGES div 8 then 0xFF else page_bitmap s i),
                   page_refcount := (\<lambda>i. if i < MAX_PAGES then 0 else page_refcount s i)\<rparr>"

definition pmm_count_pages :: "pmm_state \<Rightarrow> pmm_state" where
  "pmm_count_pages s =
     (let n = PADDR_TO_PFN (highest_addr s);
          n' = (if n > of_nat MAX_PAGES then of_nat MAX_PAGES else n)
      in s\<lparr>total_pages := n', free_pages := 0, used_pages := n'\<rparr>)"

text \<open>
  \<open>pmm_init\<close>. The linker's symbols \<^verbatim>\<open>_kernel_start\<close> and \<^verbatim>\<open>_kernel_end\<close> are its first two
  arguments (\<^verbatim>\<open>KERNEL_VMA_BASE\<close> is 0, so they are physical addresses).
\<close>

definition pmm_init :: "paddr_t \<Rightarrow> paddr_t \<Rightarrow> boot_info_t \<Rightarrow> pmm_state \<Rightarrow> pmm_state" where
  "pmm_init kernel_start kernel_end bi s =
     (let n = unat (memory_map_count bi);
          s1 = for_range 0 n (raise_highest bi) (pmm_reset s);
          s2 = for_range 0 n (free_region bi) (pmm_count_pages s1);
          kernel_pages = (kernel_end - kernel_start + PAGE_SIZE - 1) div PAGE_SIZE;
          s3 = pmm_mark_used kernel_start kernel_pages s2
      in pmm_mark_used 0 512 s3)"

text \<open>What an allocation does to the bitmap and the counters once it has found frame \<open>p\<close>.\<close>

definition take_frame :: "nat \<Rightarrow> pmm_state \<Rightarrow> pmm_state" where
  "take_frame p s = s\<lparr>page_bitmap := bitmap_set (page_bitmap s) p,
                      free_pages := free_pages s - 1, used_pages := used_pages s + 1\<rparr>"

definition take_frame_ref :: "nat \<Rightarrow> pmm_state \<Rightarrow> pmm_state" where
  "take_frame_ref p s = (take_frame p s)\<lparr>page_refcount := (page_refcount s)(p := 1),
                                         last_allocated := of_nat p + 1\<rparr>"

abbreviation frame_free :: "pmm_state \<Rightarrow> nat \<Rightarrow> bool" where
  "frame_free s p \<equiv> \<not> bitmap_test (page_bitmap s) p"

text \<open>\<open>512\<close> and \<open>256\<close> are the frame numbers of 2 MiB and 1 MiB, \<open>32768\<close> that of 128 MiB.\<close>

definition pmm_alloc_page :: "pmm_state \<Rightarrow> paddr_t \<times> pmm_state" where
  "pmm_alloc_page s =
     (case first_index (frame_free s) 512 (unat (total_pages s)) of
        Some p \<Rightarrow> (PFN_TO_PADDR (of_nat p), take_frame_ref p s)
      | None \<Rightarrow>
         (case first_index (frame_free s) 256 512 of
            Some p \<Rightarrow> (PFN_TO_PADDR (of_nat p), take_frame_ref p s)
          | None \<Rightarrow> (0, s)))"

definition pmm_alloc_page_low :: "pmm_state \<Rightarrow> paddr_t \<times> pmm_state" where
  "pmm_alloc_page_low s =
     (let end_pfn = (if 32768 > total_pages s then total_pages s else 32768)
      in case first_index (frame_free s) 512 (unat end_pfn) of
           Some p \<Rightarrow> (PFN_TO_PADDR (of_nat p), take_frame p s)
         | None \<Rightarrow>
            (case first_index (frame_free s) 256 512 of
               Some p \<Rightarrow> (PFN_TO_PADDR (of_nat p), take_frame p s)
             | None \<Rightarrow> (0, s)))"

definition pmm_free_page :: "paddr_t \<Rightarrow> pmm_state \<Rightarrow> pmm_state" where
  "pmm_free_page page s =
     (if page = 0 then s
      else if \<not> IS_ALIGNED page PAGE_SIZE then s
      else let pfn = PADDR_TO_PFN page; p = unat pfn
           in if pfn \<ge> total_pages s then s
              else if \<not> bitmap_test (page_bitmap s) p then s
              else let s1 = (if page_refcount s p > 0
                             then s\<lparr>page_refcount := (page_refcount s)(p := page_refcount s p - 1)\<rparr>
                             else s)
                   in if page_refcount s1 p = 0
                      then s1\<lparr>page_bitmap := bitmap_clear (page_bitmap s1) p,
                              free_pages := free_pages s1 + 1, used_pages := used_pages s1 - 1\<rparr>
                      else s1)"

definition pmm_ref_page :: "paddr_t \<Rightarrow> pmm_state \<Rightarrow> pmm_state" where
  "pmm_ref_page page s =
     (if page = 0 then s
      else let pfn = PADDR_TO_PFN page; p = unat pfn
           in if pfn \<ge> total_pages s then s
              else if page_refcount s p < 65535
                   then s\<lparr>page_refcount := (page_refcount s)(p := page_refcount s p + 1)\<rparr>
                   else s)"

definition pmm_get_refcount :: "paddr_t \<Rightarrow> pmm_state \<Rightarrow> u16" where
  "pmm_get_refcount page s =
     (if page = 0 then 0
      else let pfn = PADDR_TO_PFN page
           in if pfn \<ge> total_pages s then 0 else page_refcount s (unat pfn))"

text \<open>
  The scan of \<open>pmm_alloc_pages\<close> over the frame numbers left to visit, with its local variables
  \<open>start\<close> and \<open>found\<close>; the result is the value of \<open>start\<close> when the run is long enough.
\<close>

fun find_run :: "u8 array \<Rightarrow> nat \<Rightarrow> nat list \<Rightarrow> nat \<Rightarrow> nat \<Rightarrow> nat option" where
  "find_run b cnt [] start found = None"
| "find_run b cnt (p # ps) start found =
     (if \<not> bitmap_test b p
      then (let start' = (if found = 0 then p else start); found' = Suc found
            in if found' = cnt then Some start' else find_run b cnt ps start' found')
      else find_run b cnt ps start 0)"

definition pmm_alloc_pages :: "size_t \<Rightarrow> pmm_state \<Rightarrow> paddr_t \<times> pmm_state" where
  "pmm_alloc_pages cnt s =
     (if cnt = 0 then (0, s)
      else if cnt = 1 then pmm_alloc_page s
      else case find_run (page_bitmap s) (unat cnt) [0..<unat (total_pages s)] 0 0 of
             Some start \<Rightarrow>
               (PFN_TO_PADDR (of_nat start),
                for_range 0 (unat cnt) (\<lambda>i. take_frame (start + i)) s)
           | None \<Rightarrow> (0, s))"

definition pmm_free_pages :: "paddr_t \<Rightarrow> size_t \<Rightarrow> pmm_state \<Rightarrow> pmm_state" where
  "pmm_free_pages bs cnt s =
     for_range 0 (unat cnt) (\<lambda>i. pmm_free_page (bs + of_nat i * PAGE_SIZE)) s"

definition pmm_get_free_pages :: "pmm_state \<Rightarrow> size_t" where
  "pmm_get_free_pages s = free_pages s"

definition pmm_get_total_pages :: "pmm_state \<Rightarrow> size_t" where
  "pmm_get_total_pages s = total_pages s"

section \<open>Invariants and abstraction\<close>

definition free_frames :: "pmm_state \<Rightarrow> nat set" where
  "free_frames s = {p. p < unat (total_pages s) \<and> \<not> bitmap_test (page_bitmap s) p}"

definition used_frames :: "pmm_state \<Rightarrow> nat set" where
  "used_frames s = {p. p < unat (total_pages s) \<and> bitmap_test (page_bitmap s) p}"

definition pmm_inv :: "pmm_state \<Rightarrow> bool" where
  "pmm_inv s \<longleftrightarrow>
     unat (total_pages s) \<le> MAX_PAGES \<and>
     (\<forall>p. unat (total_pages s) \<le> p \<and> p < MAX_PAGES \<longrightarrow> bitmap_test (page_bitmap s) p) \<and>
     unat (free_pages s) = card (free_frames s) \<and>
     unat (used_pages s) = card (used_frames s)"

definition refs_clear :: "pmm_state \<Rightarrow> bool" where
  "refs_clear s \<longleftrightarrow> (\<forall>p \<in> free_frames s. page_refcount s p = 0)"

text \<open>The physical addresses of the frames that are handed out.\<close>

definition pmm_frames :: "pmm_state \<Rightarrow> paddr_t set" where
  "pmm_frames s = (\<lambda>p. PFN_TO_PADDR (of_nat p)) ` used_frames s"

section \<open>The bitmap\<close>

lemma bitmap_test_bit: "bitmap_test b i \<longleftrightarrow> bit (b (i div 8)) (i mod 8)"
  by (simp add: bitmap_test_def push_bit_of_1 and_exp_eq_0_iff_not_bit)

lemma same_bit_iff: "(i :: nat) div 8 = j div 8 \<and> i mod 8 = j mod 8 \<longleftrightarrow> i = j"
  by (metis div_mult_mod_eq)

lemma bitmap_test_set [simp]: "bitmap_test (bitmap_set b i) j \<longleftrightarrow> j = i \<or> bitmap_test b j"
  using same_bit_iff [of i j]
  by (auto simp: bitmap_test_bit bitmap_set_def bit_or_iff bit_exp_iff push_bit_of_1)

lemma bitmap_test_clear [simp]: "bitmap_test (bitmap_clear b i) j \<longleftrightarrow> j \<noteq> i \<and> bitmap_test b j"
  using same_bit_iff [of i j]
  by (auto simp: bitmap_test_bit bitmap_clear_def bit_and_iff bit_not_iff bit_exp_iff push_bit_of_1)

section \<open>Addresses and frame numbers\<close>

lemma unat_of_nat_frame: "p < MAX_PAGES \<Longrightarrow> unat (of_nat p :: u64) = p"
  by (simp add: MAX_PAGES_def unat_of_nat)

lemma unat_PFN_TO_PADDR:
  assumes "p < MAX_PAGES"
  shows "unat (PFN_TO_PADDR (of_nat p)) = p * 4096"
proof -
  have "unat (of_nat p * 4096 :: u64) = p * 4096"
    using assms by (simp add: unat_word_ariths MAX_PAGES_def unat_of_nat)
  then show ?thesis by (simp add: PFN_TO_PADDR_def push_bit_eq_mult mult.commute)
qed

lemma PADDR_TO_PFN_TO_PADDR:
  assumes "p < MAX_PAGES"
  shows "PADDR_TO_PFN (PFN_TO_PADDR (of_nat p)) = of_nat p"
proof -
  have "unat (PADDR_TO_PFN (PFN_TO_PADDR (of_nat p))) = p"
    using assms by (simp add: PADDR_TO_PFN_def drop_bit_eq_div unat_div unat_PFN_TO_PADDR)
  with assms show ?thesis by (simp add: word_unat_eq_iff unat_of_nat_frame)
qed

lemma PFN_TO_PADDR_eq_0_iff: "p < MAX_PAGES \<Longrightarrow> PFN_TO_PADDR (of_nat p) = 0 \<longleftrightarrow> p = 0"
  by (metis unat_PFN_TO_PADDR mult_is_0 unat_eq_zero zero_neq_numeral)

lemma PFN_TO_PADDR_inj:
  "p < MAX_PAGES \<Longrightarrow> q < MAX_PAGES \<Longrightarrow> PFN_TO_PADDR (of_nat p) = PFN_TO_PADDR (of_nat q) \<longleftrightarrow> p = q"
  by (metis PADDR_TO_PFN_TO_PADDR unat_of_nat_frame)

lemma IS_ALIGNED_PFN_TO_PADDR: "IS_ALIGNED (PFN_TO_PADDR q) PAGE_SIZE"
proof -
  have mask: "(4095 :: u64) = mask 12" by (simp add: mask_eq_exp_minus_1)
  have "PFN_TO_PADDR q AND mask 12 = 0"
    by (rule bit_word_eqI) (simp add: PFN_TO_PADDR_def bit_simps)
  then show ?thesis by (simp add: IS_ALIGNED_def PAGE_SIZE_def mask)
qed

lemmas frame_addr = PADDR_TO_PFN_TO_PADDR PFN_TO_PADDR_eq_0_iff IS_ALIGNED_PFN_TO_PADDR
  unat_of_nat_frame

section \<open>Taking and releasing one frame\<close>

lemma finite_frames [simp]: "finite (free_frames s)" "finite (used_frames s)"
  by (auto simp: free_frames_def used_frames_def)

lemma card_frames: "card (free_frames s) + card (used_frames s) = unat (total_pages s)"
proof -
  have "free_frames s \<union> used_frames s = {..<unat (total_pages s)}"
    by (auto simp: free_frames_def used_frames_def)
  moreover have "free_frames s \<inter> used_frames s = {}"
    by (auto simp: free_frames_def used_frames_def)
  ultimately show ?thesis
    by (metis card_Un_disjoint finite_frames card_lessThan)
qed

lemma unat_succ_le: "unat (w :: size_t) < MAX_PAGES \<Longrightarrow> unat (w + 1) = Suc (unat w)"
  by (simp add: unat_word_ariths MAX_PAGES_def)

lemma frames_take:
  assumes "p \<in> free_frames s" "page_bitmap t = bitmap_set (page_bitmap s) p"
    "total_pages t = total_pages s"
  shows "free_frames t = free_frames s - {p}" "used_frames t = insert p (used_frames s)"
  using assms by (auto simp: free_frames_def used_frames_def)

lemma pmm_inv_take:
  assumes inv: "pmm_inv s" and p: "p \<in> free_frames s"
    and t: "page_bitmap t = bitmap_set (page_bitmap s) p" "total_pages t = total_pages s"
      "free_pages t = free_pages s - 1" "used_pages t = used_pages s + 1"
  shows "pmm_inv t"
proof -
  have new: "p \<notin> used_frames s" and pos: "0 < card (free_frames s)"
    using p by (auto simp: free_frames_def used_frames_def card_gt_0_iff)
  with inv card_frames [of s] have "card (used_frames s) < MAX_PAGES"
    by (simp add: pmm_inv_def)
  with inv pos new p t frames_take [OF p t(1,2)] show ?thesis
    by (auto simp: pmm_inv_def unat_succ_le unat_pred card_Diff_singleton)
qed

lemma frames_release:
  assumes "p \<in> used_frames s" "page_bitmap t = bitmap_clear (page_bitmap s) p"
    "total_pages t = total_pages s"
  shows "free_frames t = insert p (free_frames s)" "used_frames t = used_frames s - {p}"
  using assms by (auto simp: free_frames_def used_frames_def)

lemma used_pages_pos:
  assumes "pmm_inv s" "p \<in> used_frames s"
  shows "0 < unat (used_pages s)" "used_pages s > 0"
  using assms by (auto simp: pmm_inv_def card_gt_0_iff word_less_nat_alt)

lemma free_pages_pos:
  assumes "pmm_inv s" "p \<in> free_frames s"
  shows "0 < unat (free_pages s)" "free_pages s > 0"
  using assms by (auto simp: pmm_inv_def card_gt_0_iff word_less_nat_alt)

lemma pmm_inv_release:
  assumes inv: "pmm_inv s" and p: "p \<in> used_frames s"
    and t: "page_bitmap t = bitmap_clear (page_bitmap s) p" "total_pages t = total_pages s"
      "free_pages t = free_pages s + 1" "used_pages t = used_pages s - 1"
  shows "pmm_inv t"
proof -
  have new: "p \<notin> free_frames s" and pos: "0 < card (used_frames s)"
    using p by (auto simp: free_frames_def used_frames_def card_gt_0_iff)
  with inv card_frames [of s] have "card (free_frames s) < MAX_PAGES"
    by (simp add: pmm_inv_def)
  moreover have "p < unat (total_pages s)" using p by (simp add: used_frames_def)
  ultimately show ?thesis
    using inv pos new p t frames_release [OF p t(1,2)]
    by (auto simp: pmm_inv_def unat_succ_le unat_pred card_Diff_singleton)
qed

section \<open>Marking ranges\<close>

lemma no_wrap_add:
  assumes "\<not> x + c < (x :: u64)" "i \<le> unat c"
  shows "unat (x + of_nat i) = unat x + i"
proof -
  have sum: "unat x + unat c < 2 ^ 64"
    using assms(1) no_olen_add_nat [of x c] by (simp add: not_less)
  have "i < 2 ^ 64" using assms(2) sum by linarith
  then have "unat (of_nat i :: u64) = i" by (simp add: unat_of_nat)
  then show ?thesis using sum assms(2) by (simp add: unat_word_ariths)
qed

definition frame_range :: "pfn_t \<Rightarrow> nat \<Rightarrow> nat set" where
  "frame_range pfn n = {p. unat pfn \<le> p \<and> p < unat pfn + n}"

lemma frame_range_simps:
  "frame_range pfn 0 = {}" "frame_range pfn (Suc k) = insert (unat pfn + k) (frame_range pfn k)"
  by (auto simp: frame_range_def)

lemma mark_used_frame_effect:
  assumes "pmm_inv s"
  shows "pmm_inv (mark_used_frame k s)"
    "total_pages (mark_used_frame k s) = total_pages s"
    "page_refcount (mark_used_frame k s) = page_refcount s"
    "free_frames (mark_used_frame k s) = free_frames s - {unat k}"
proof -
  have free: "unat k \<in> free_frames s"
    if "k < total_pages s" "\<not> bitmap_test (page_bitmap s) (unat k)"
    using that by (simp add: free_frames_def word_less_nat_alt)
  show "pmm_inv (mark_used_frame k s)"
    using assms free free_pages_pos [OF assms]
    by (auto simp: mark_used_frame_def intro: pmm_inv_take)
  show "free_frames (mark_used_frame k s) = free_frames s - {unat k}"
    by (auto simp: mark_used_frame_def free_frames_def word_less_nat_alt)
qed (simp_all add: mark_used_frame_def)

lemma mark_free_frame_effect:
  assumes "pmm_inv s"
  shows "pmm_inv (mark_free_frame k s)"
    "total_pages (mark_free_frame k s) = total_pages s"
    "page_refcount (mark_free_frame k s) = page_refcount s"
    "free_frames (mark_free_frame k s) = free_frames s \<union> ({unat k} \<inter> {..<unat (total_pages s)})"
proof -
  have used: "unat k \<in> used_frames s"
    if "k < total_pages s" "bitmap_test (page_bitmap s) (unat k)"
    using that by (simp add: used_frames_def word_less_nat_alt)
  show "pmm_inv (mark_free_frame k s)"
    using assms used used_pages_pos [OF assms]
    by (auto simp: mark_free_frame_def intro: pmm_inv_release)
  show "free_frames (mark_free_frame k s)
      = free_frames s \<union> ({unat k} \<inter> {..<unat (total_pages s)})"
    by (auto simp: mark_free_frame_def free_frames_def word_less_nat_alt)
qed (simp_all add: mark_free_frame_def)

lemma pmm_mark_used_effect:
  assumes "pmm_inv s" "\<not> PADDR_TO_PFN bs + cnt < PADDR_TO_PFN bs"
  shows "pmm_inv (pmm_mark_used bs cnt s) \<and>
    total_pages (pmm_mark_used bs cnt s) = total_pages s \<and>
    page_refcount (pmm_mark_used bs cnt s) = page_refcount s \<and>
    free_frames (pmm_mark_used bs cnt s) = free_frames s - frame_range (PADDR_TO_PFN bs) (unat cnt)"
proof -
  let ?f = "\<lambda>i. mark_used_frame (PADDR_TO_PFN bs + of_nat i)"
  let ?I = "\<lambda>k t. pmm_inv t \<and> total_pages t = total_pages s \<and> page_refcount t = page_refcount s \<and>
    free_frames t = free_frames s - frame_range (PADDR_TO_PFN bs) k"
  have "?I (unat cnt) (for_range 0 (unat cnt) ?f s)"
  proof (rule for_range_induct [where I = ?I])
    show "?I 0 s" using assms(1) by (simp add: frame_range_simps)
  next
    fix k t assume k: "k < unat cnt" and t: "?I k t"
    have "unat (PADDR_TO_PFN bs + of_nat k) = unat (PADDR_TO_PFN bs) + k"
      using assms(2) k by (simp add: no_wrap_add)
    with t mark_used_frame_effect [of t "PADDR_TO_PFN bs + of_nat k"] show "?I (Suc k) (?f k t)"
      by (auto simp: frame_range_simps)
  qed simp
  then show ?thesis using assms(2) by (simp add: pmm_mark_used_def Let_def)
qed

lemma pmm_mark_free_effect:
  assumes "pmm_inv s" "\<not> PADDR_TO_PFN bs + cnt < PADDR_TO_PFN bs"
  shows "pmm_inv (pmm_mark_free bs cnt s) \<and>
    total_pages (pmm_mark_free bs cnt s) = total_pages s \<and>
    page_refcount (pmm_mark_free bs cnt s) = page_refcount s \<and>
    free_frames (pmm_mark_free bs cnt s) = free_frames s \<union>
      (frame_range (PADDR_TO_PFN bs) (unat cnt) \<inter> {..<unat (total_pages s)})"
proof -
  let ?f = "\<lambda>i. mark_free_frame (PADDR_TO_PFN bs + of_nat i)"
  let ?I = "\<lambda>k t. pmm_inv t \<and> total_pages t = total_pages s \<and> page_refcount t = page_refcount s \<and>
    free_frames t = free_frames s \<union>
      (frame_range (PADDR_TO_PFN bs) k \<inter> {..<unat (total_pages s)})"
  have "?I (unat cnt) (for_range 0 (unat cnt) ?f s)"
  proof (rule for_range_induct [where I = ?I])
    show "?I 0 s" using assms(1) by (simp add: frame_range_simps)
  next
    fix k t assume k: "k < unat cnt" and t: "?I k t"
    have "unat (PADDR_TO_PFN bs + of_nat k) = unat (PADDR_TO_PFN bs) + k"
      using assms(2) k by (simp add: no_wrap_add)
    with t mark_free_frame_effect [of t "PADDR_TO_PFN bs + of_nat k"] show "?I (Suc k) (?f k t)"
      by (auto simp: frame_range_simps)
  qed simp
  then show ?thesis using assms(2) by (simp add: pmm_mark_free_def Let_def)
qed

lemma pmm_mark_inv:
  assumes "pmm_inv s"
  shows "pmm_inv (pmm_mark_used bs cnt s)" "pmm_inv (pmm_mark_free bs cnt s)"
    "total_pages (pmm_mark_used bs cnt s) = total_pages s"
    "total_pages (pmm_mark_free bs cnt s) = total_pages s"
    "page_refcount (pmm_mark_used bs cnt s) = page_refcount s"
    "page_refcount (pmm_mark_free bs cnt s) = page_refcount s"
  using assms pmm_mark_used_effect [OF assms, of bs cnt] pmm_mark_free_effect [OF assms, of bs cnt]
  by (auto simp: pmm_mark_used_def pmm_mark_free_def Let_def)

section \<open>Initialisation\<close>

lemma pmm_reset_all_used:
  assumes "p < MAX_PAGES"
  shows "bitmap_test (page_bitmap (pmm_reset s)) p"
proof -
  have "p div 8 < MAX_PAGES div 8" using assms by (simp add: MAX_PAGES_def)
  moreover have "bit (255 :: u8) (p mod 8)"
  proof -
    have "(255 :: u8) = mask 8" by (simp add: mask_eq_exp_minus_1)
    then show ?thesis by (simp only: bit_mask_iff) simp
  qed
  ultimately show ?thesis by (simp add: pmm_reset_def bitmap_test_bit)
qed

lemma raise_highest_frame:
  "page_bitmap (for_range 0 n (raise_highest bi) s) = page_bitmap s \<and>
   page_refcount (for_range 0 n (raise_highest bi) s) = page_refcount s"
  by (rule for_range_invariant [where I = "\<lambda>t. page_bitmap t = page_bitmap s \<and>
        page_refcount t = page_refcount s"]) (auto simp: raise_highest_def Let_def)

lemma pmm_count_pages_inv:
  assumes "\<And>p. p < MAX_PAGES \<Longrightarrow> bitmap_test (page_bitmap s) p"
  shows "pmm_inv (pmm_count_pages s)" "free_frames (pmm_count_pages s) = {}"
proof -
  have max: "unat (of_nat MAX_PAGES :: u64) = MAX_PAGES"
    by (simp add: MAX_PAGES_def)
  then have le: "unat (total_pages (pmm_count_pages s)) \<le> MAX_PAGES"
    by (auto simp: pmm_count_pages_def Let_def not_less word_le_nat_alt)
  then show none: "free_frames (pmm_count_pages s) = {}"
    using assms by (auto simp: free_frames_def pmm_count_pages_def Let_def)
  have "card (used_frames (pmm_count_pages s)) = unat (total_pages (pmm_count_pages s))"
    using card_frames [of "pmm_count_pages s"] none by simp
  then show "pmm_inv (pmm_count_pages s)"
    using assms le none by (auto simp: pmm_inv_def pmm_count_pages_def Let_def)
qed

lemma free_region_inv:
  assumes "pmm_inv s"
  shows "pmm_inv (free_region bi i s)" "total_pages (free_region bi i s) = total_pages s"
    "page_refcount (free_region bi i s) = page_refcount s"
  using assms by (auto simp: free_region_def Let_def pmm_mark_inv)

lemma free_regions_inv:
  assumes "pmm_inv s"
  shows "pmm_inv (for_range 0 n (free_region bi) s) \<and>
    total_pages (for_range 0 n (free_region bi) s) = total_pages s \<and>
    page_refcount (for_range 0 n (free_region bi) s) = page_refcount s"
  by (rule for_range_invariant [where I = "\<lambda>t. pmm_inv t \<and> total_pages t = total_pages s \<and>
        page_refcount t = page_refcount s"]) (auto simp: assms free_region_inv)

lemma pmm_init_start_inv:
  "pmm_inv (pmm_count_pages (for_range 0 n (raise_highest bi) (pmm_reset s)))"
  by (intro pmm_count_pages_inv) (simp add: raise_highest_frame pmm_reset_all_used)

lemma pmm_init_inv: "pmm_inv (pmm_init ks ke bi s)"
  by (simp add: pmm_init_def Let_def pmm_mark_inv free_regions_inv pmm_init_start_inv)

section \<open>The exact free set after initialisation\<close>

lemma unat_ALIGN_DOWN: "unat (ALIGN_DOWN x PAGE_SIZE) = unat x div 4096 * 4096"
proof -
  have "(4095 :: u64) = mask 12" by (simp add: mask_eq_exp_minus_1)
  then show ?thesis
    using unat_and_not_mask [of 12 x] by (simp add: ALIGN_DOWN_def PAGE_SIZE_def)
qed

lemma unat_ALIGN_UP:
  assumes "unat x + 4095 < 2 ^ 64"
  shows "unat (ALIGN_UP x PAGE_SIZE) = (unat x + 4095) div 4096 * 4096"
proof -
  have "unat (x + 4095) = unat x + 4095"
    using assms by (simp add: unat_word_ariths)
  moreover have "ALIGN_UP x PAGE_SIZE = ALIGN_DOWN (x + 4095) PAGE_SIZE"
    by (simp add: ALIGN_UP_def ALIGN_DOWN_def PAGE_SIZE_def)
  ultimately show ?thesis by (simp add: unat_ALIGN_DOWN)
qed

lemma unat_PADDR_TO_PFN: "unat (PADDR_TO_PFN a) = unat a div 4096"
  by (simp add: PADDR_TO_PFN_def drop_bit_eq_div unat_div)

text \<open>Frame \<open>p\<close> lies inside conventional region \<open>i\<close> of the boot loader's map.\<close>

definition frame_in_region :: "boot_info_t \<Rightarrow> nat \<Rightarrow> nat \<Rightarrow> bool" where
  "frame_in_region bi i p \<longleftrightarrow>
     region_type (memory_map bi i) = MEMORY_TYPE_CONVENTIONAL \<and>
     unat (region_base (memory_map bi i)) \<le> p * 4096 \<and>
     Suc p * 4096 \<le> unat (region_base (memory_map bi i)) + unat (region_length (memory_map bi i))"

definition usable_frame :: "boot_info_t \<Rightarrow> nat \<Rightarrow> bool" where
  "usable_frame bi p \<longleftrightarrow> (\<exists>i < unat (memory_map_count bi). frame_in_region bi i p)"

text \<open>No region of the map ends within a page of the top of the 64-bit address space.\<close>

definition sane_map :: "boot_info_t \<Rightarrow> bool" where
  "sane_map bi \<longleftrightarrow> (\<forall>i < unat (memory_map_count bi).
     unat (region_base (memory_map bi i)) + unat (region_length (memory_map bi i)) + 4095 < 2 ^ 64)"

lemma frame_in_region_range:
  assumes "region_type (memory_map bi i) = MEMORY_TYPE_CONVENTIONAL"
  shows "frame_in_region bi i p \<longleftrightarrow>
    (unat (region_base (memory_map bi i)) + 4095) div 4096 \<le> p \<and>
    p < (unat (region_base (memory_map bi i)) + unat (region_length (memory_map bi i))) div 4096"
proof -
  have up: "b \<le> p * 4096 \<longleftrightarrow> (b + 4095) div 4096 \<le> p" for b :: nat
    using div_less_iff_less_mult [of 4096 "b + 4095" "Suc p"] by (auto simp: less_Suc_eq_le)
  have down: "Suc p * 4096 \<le> e \<longleftrightarrow> p < e div 4096" for e :: nat
    using less_eq_div_iff_mult_less_eq [of 4096 "Suc p" e] by (simp add: Suc_le_eq)
  show ?thesis unfolding frame_in_region_def up down using assms by simp
qed

lemma free_region_effect:
  assumes inv: "pmm_inv s" and sane: "sane_map bi" and i: "i < unat (memory_map_count bi)"
  shows "free_frames (free_region bi i s)
    = free_frames s \<union> {p. p < unat (total_pages s) \<and> frame_in_region bi i p}"
proof (cases "region_type (memory_map bi i) = MEMORY_TYPE_CONVENTIONAL")
  case False
  then show ?thesis by (auto simp: free_region_def Let_def frame_in_region_def)
next
  case True
  define b where "b = unat (region_base (memory_map bi i))"
  define l where "l = unat (region_length (memory_map bi i))"
  define bs where "bs = ALIGN_UP (region_base (memory_map bi i)) PAGE_SIZE"
  define en where "en = ALIGN_DOWN (region_end (memory_map bi i)) PAGE_SIZE"
  define A where "A = (b + 4095) div 4096"
  define E where "E = (b + l) div 4096"
  have bound: "b + l + 4095 < 2 ^ 64" using sane i by (auto simp: sane_map_def b_def l_def)
  have "unat (region_end (memory_map bi i)) = b + l"
    using bound by (simp add: region_end_def unat_word_ariths b_def l_def)
  then have en: "unat en = E * 4096" by (simp add: en_def E_def unat_ALIGN_DOWN)
  have bs: "unat bs = A * 4096"
    using bound by (simp add: bs_def A_def unat_ALIGN_UP b_def)
  have reg: "frame_in_region bi i p \<longleftrightarrow> A \<le> p \<and> p < E" for p
    using frame_in_region_range [OF True] by (simp add: A_def E_def b_def l_def)
  have small: "E * 4096 < 2 ^ 64"
    using bound div_times_less_eq_dividend [of "b + l" 4096] unfolding E_def by linarith
  have gt: "en > bs \<longleftrightarrow> A < E" using en bs by (simp add: word_less_nat_alt)
  define n where "n = (en - bs) div PAGE_SIZE"
  have eq: "free_region bi i s = (if A < E then pmm_mark_free bs n s else s)"
    unfolding gt [symmetric] using True by (simp add: free_region_def Let_def bs_def en_def n_def)
  show ?thesis
  proof (cases "A < E")
    case False
    then have "{p. p < unat (total_pages s) \<and> frame_in_region bi i p} = {}"
      by (auto simp: reg)
    then show ?thesis unfolding eq using False by auto
  next
    case less: True
    have "unat (en - bs) = (E - A) * 4096"
      using less gt en bs by (simp add: unat_sub word_le_nat_alt diff_mult_distrib)
    then have n: "unat n = E - A" by (simp add: n_def unat_div PAGE_SIZE_def)
    have pfn: "unat (PADDR_TO_PFN bs) = A" by (simp add: unat_PADDR_TO_PFN bs)
    have "\<not> PADDR_TO_PFN bs + n < PADDR_TO_PFN bs"
      using n pfn less small no_olen_add_nat [of "PADDR_TO_PFN bs" n] by (simp add: not_less)
    from pmm_mark_free_effect [OF inv this]
    have "free_frames (pmm_mark_free bs n s)
        = free_frames s \<union> ({p. A \<le> p \<and> p < E} \<inter> {..<unat (total_pages s)})"
      using n pfn less by (simp add: frame_range_def)
    then show ?thesis unfolding eq reg using less by auto
  qed
qed

lemma free_regions_effect:
  assumes inv: "pmm_inv s" and none: "free_frames s = {}" and sane: "sane_map bi"
  shows "free_frames (for_range 0 (unat (memory_map_count bi)) (free_region bi) s)
    = {p. p < unat (total_pages s) \<and> usable_frame bi p}"
proof -
  let ?n = "unat (memory_map_count bi)"
  let ?I = "\<lambda>k t. k \<le> ?n \<and> pmm_inv t \<and> total_pages t = total_pages s \<and>
    free_frames t = {p. p < unat (total_pages s) \<and> (\<exists>i<k. frame_in_region bi i p)}"
  have "?I ?n (for_range 0 ?n (free_region bi) s)"
  proof (rule for_range_induct [where I = ?I])
    show "?I 0 s" using inv none by simp
  next
    fix k t assume k: "k < ?n" and t: "?I k t"
    then have "free_frames (free_region bi k t)
        = free_frames t \<union> {p. p < unat (total_pages t) \<and> frame_in_region bi k p}"
      using free_region_effect [of t bi k] sane by simp
    with k t show "?I (Suc k) (free_region bi k t)"
      by (auto simp: free_region_inv less_Suc_eq)
  qed simp
  then show ?thesis by (simp add: usable_frame_def)
qed

text \<open>Frame \<open>p\<close> holds part of the kernel image.\<close>

definition kernel_frame :: "paddr_t \<Rightarrow> paddr_t \<Rightarrow> nat \<Rightarrow> bool" where
  "kernel_frame ks ke p \<longleftrightarrow> unat ks \<le> p * 4096 \<and> p * 4096 < unat ke"

lemma mark_kernel_effect:
  assumes inv: "pmm_inv s" and al: "4096 dvd unat ks" and le: "ks \<le> ke"
    and top: "unat ke + 4095 < 2 ^ 64"
  shows "free_frames (pmm_mark_used ks ((ke - ks + PAGE_SIZE - 1) div PAGE_SIZE) s)
    = {p \<in> free_frames s. \<not> kernel_frame ks ke p}"
proof -
  obtain K where K: "unat ks = 4096 * K" using al by (auto elim: dvdE)
  define d where "d = unat ke - unat ks"
  define q where "q = (d + 4095) div 4096"
  have ke: "unat ke = 4096 * K + d" using le K by (simp add: d_def word_le_nat_alt)
  have "unat (ke - ks) = d" using le by (simp add: unat_sub d_def)
  then have "unat (ke - ks + 4095) = d + 4095" using top by (simp add: unat_word_ariths d_def)
  moreover have kp: "ke - ks + PAGE_SIZE - 1 = ke - ks + 4095" by (simp add: PAGE_SIZE_def)
  ultimately have cnt: "unat ((ke - ks + PAGE_SIZE - 1) div PAGE_SIZE) = q"
    unfolding kp unat_div q_def by (simp add: PAGE_SIZE_def)
  have pfn: "unat (PADDR_TO_PFN ks) = K" by (simp add: unat_PADDR_TO_PFN K)
  have hi: "q * 4096 \<le> d + 4095" unfolding q_def by (rule div_times_less_eq_dividend)
  have rounds: "j < q \<longleftrightarrow> j * 4096 < d" for j
    using less_eq_div_iff_mult_less_eq [of 4096 "Suc j" "d + 4095"]
    unfolding q_def [symmetric] by auto
  have "K + q < 2 ^ 64" using hi top unfolding ke by linarith
  then have nowrap: "\<not> PADDR_TO_PFN ks + (ke - ks + PAGE_SIZE - 1) div PAGE_SIZE < PADDR_TO_PFN ks"
    using cnt pfn no_olen_add_nat [of "PADDR_TO_PFN ks" "(ke - ks + PAGE_SIZE - 1) div PAGE_SIZE"]
    by (simp add: not_less)
  have "kernel_frame ks ke p \<longleftrightarrow> K \<le> p \<and> p < K + q" for p
  proof (cases "K \<le> p")
    case True
    then obtain j where "p = K + j" by (auto simp: le_iff_add)
    then show ?thesis using rounds [of j] by (simp add: kernel_frame_def K ke)
  next
    case False
    then show ?thesis by (simp add: kernel_frame_def K)
  qed
  then have "frame_range (PADDR_TO_PFN ks) (unat ((ke - ks + PAGE_SIZE - 1) div PAGE_SIZE))
      = {p. kernel_frame ks ke p}"
    unfolding frame_range_def pfn cnt by simp
  with pmm_mark_used_effect [OF inv nowrap] show ?thesis by auto
qed

lemma pmm_init_free_frames:
  assumes sane: "sane_map bi" and al: "4096 dvd unat ks" and le: "ks \<le> ke"
    and top: "unat ke + 4095 < 2 ^ 64"
  shows "free_frames (pmm_init ks ke bi s) =
    {p. p < unat (total_pages (pmm_init ks ke bi s)) \<and> 512 \<le> p \<and> usable_frame bi p \<and>
        \<not> kernel_frame ks ke p}"
proof -
  let ?n = "unat (memory_map_count bi)"
  define s1 where "s1 = pmm_count_pages (for_range 0 ?n (raise_highest bi) (pmm_reset s))"
  define s2 where "s2 = for_range 0 ?n (free_region bi) s1"
  define s3 where "s3 = pmm_mark_used ks ((ke - ks + PAGE_SIZE - 1) div PAGE_SIZE) s2"
  have init: "pmm_init ks ke bi s = pmm_mark_used 0 512 s3"
    by (simp add: pmm_init_def Let_def s1_def s2_def s3_def)
  have inv1: "pmm_inv s1" unfolding s1_def by (rule pmm_init_start_inv)
  have none: "free_frames s1 = {}"
    unfolding s1_def by (intro pmm_count_pages_inv) (simp add: raise_highest_frame pmm_reset_all_used)
  have inv2: "pmm_inv s2" and tot2: "total_pages s2 = total_pages s1"
    using free_regions_inv [OF inv1] by (auto simp: s2_def)
  have f2: "free_frames s2 = {p. p < unat (total_pages s1) \<and> usable_frame bi p}"
    unfolding s2_def by (rule free_regions_effect [OF inv1 none sane])
  have f3: "free_frames s3 = {p \<in> free_frames s2. \<not> kernel_frame ks ke p}"
    unfolding s3_def by (rule mark_kernel_effect [OF inv2 al le top])
  have inv3: "pmm_inv s3" and tot3: "total_pages s3 = total_pages s2"
    by (simp_all add: s3_def pmm_mark_inv inv2)
  have "\<not> PADDR_TO_PFN 0 + 512 < (PADDR_TO_PFN 0 :: u64)" by (simp add: PADDR_TO_PFN_def)
  note low = pmm_mark_used_effect [OF inv3 this]
  have "frame_range (PADDR_TO_PFN 0) (unat (512 :: size_t)) = {p. p < 512}"
    by (simp add: frame_range_def PADDR_TO_PFN_def)
  with low have f4: "free_frames (pmm_mark_used 0 512 s3) = free_frames s3 - {p. p < 512}"
    and tot4: "total_pages (pmm_mark_used 0 512 s3) = total_pages s3"
    by simp_all
  show ?thesis
    unfolding init f4 f3 f2 tot4 tot3 tot2 by (auto simp: not_less)
qed

lemma pmm_init_refcount:
  assumes "p < MAX_PAGES"
  shows "page_refcount (pmm_init ks ke bi s) p = 0"
proof -
  let ?s1 = "pmm_count_pages (for_range 0 (unat (memory_map_count bi)) (raise_highest bi) (pmm_reset s))"
  have "page_refcount ?s1 p = 0"
    using assms raise_highest_frame [of _ bi "pmm_reset s"]
    by (simp add: pmm_count_pages_def Let_def pmm_reset_def)
  then show ?thesis
    by (simp add: pmm_init_def Let_def pmm_mark_inv free_regions_inv pmm_init_start_inv)
qed

end
