(* ===== verification/Pmm_Alloc.thy ===== *)
theory Pmm_Alloc
  imports Pmm
begin

text \<open>
  Correctness of the frame allocator of \<open>Pmm\<close>: single frames, contiguous runs, reference counts,
  and the contract \<open>frame_allocator\<close> that clients use, interpreted for both single-frame
  allocators of the source.
\<close>

section \<open>Allocation and release of single frames\<close>

lemma take_frame_effect:
  assumes "pmm_inv s" "p \<in> free_frames s"
  shows "pmm_inv (take_frame p s)" "pmm_inv (take_frame_ref p s)"
    "free_frames (take_frame p s) = free_frames s - {p}"
    "free_frames (take_frame_ref p s) = free_frames s - {p}"
    "used_frames (take_frame p s) = insert p (used_frames s)"
    "used_frames (take_frame_ref p s) = insert p (used_frames s)"
    "total_pages (take_frame p s) = total_pages s"
    "total_pages (take_frame_ref p s) = total_pages s"
    "page_refcount (take_frame p s) = page_refcount s"
  using assms
  by (auto simp: take_frame_def take_frame_ref_def frames_take intro!: pmm_inv_take [OF assms])

lemma free_frames_below:
  "pmm_inv s \<Longrightarrow> p \<in> free_frames s \<Longrightarrow> p < unat (total_pages s) \<and> p < MAX_PAGES"
  by (auto simp: pmm_inv_def free_frames_def)

lemma frame_free_iff:
  assumes "pmm_inv s" "p < MAX_PAGES"
  shows "frame_free s p \<longleftrightarrow> p \<in> free_frames s"
  using assms by (auto simp: pmm_inv_def free_frames_def not_less)

text \<open>
  The frame an allocation chooses: the lowest free frame in \<open>[512, lim)\<close>, else the lowest in
  \<open>[256, 512)\<close>.
\<close>

definition best_frame :: "nat \<Rightarrow> pmm_state \<Rightarrow> nat \<Rightarrow> bool" where
  "best_frame lim s p \<longleftrightarrow> p \<in> free_frames s \<and>
     (512 \<le> p \<and> p < lim \<and> (\<forall>q \<in> free_frames s. 512 \<le> q \<longrightarrow> p \<le> q) \<or>
      256 \<le> p \<and> p < 512 \<and> (\<forall>q \<in> free_frames s. 256 \<le> q \<and> q < lim \<longrightarrow> p \<le> q \<and> q < 512))"

lemma search_best_frame:
  assumes inv: "pmm_inv s" and lim: "lim \<le> unat (total_pages s)"
  shows "first_index (frame_free s) 512 lim = Some p \<Longrightarrow> best_frame lim s p"
    and "first_index (frame_free s) 512 lim = None \<Longrightarrow> first_index (frame_free s) 256 512 = Some p
      \<Longrightarrow> best_frame lim s p"
    and "first_index (frame_free s) 512 lim = None \<Longrightarrow> first_index (frame_free s) 256 512 = None
      \<Longrightarrow> \<forall>q \<in> free_frames s. \<not> (256 \<le> q \<and> q < 512 \<or> 512 \<le> q \<and> q < lim)"
proof -
  have max: "lim \<le> MAX_PAGES" "(512::nat) \<le> MAX_PAGES"
    using inv lim by (auto simp: pmm_inv_def MAX_PAGES_def)
  have free: "frame_free s q" if "q \<in> free_frames s" for q
    using that by (simp add: free_frames_def)
  have mem: "q \<in> free_frames s" if "frame_free s q" "q < lim \<or> q < 512" for q
    using that max frame_free_iff [OF inv, of q] by linarith
  show "best_frame lim s p" if some: "first_index (frame_free s) 512 lim = Some p"
  proof -
    have p: "512 \<le> p" "p < lim" "p \<in> free_frames s"
      using first_index_SomeD [OF some] mem by auto
    moreover have "p \<le> q" if "q \<in> free_frames s" "512 \<le> q" for q
      using some free [OF that(1)] that by (meson first_index_Some_iff not_le)
    ultimately show ?thesis by (simp add: best_frame_def)
  qed
  show "best_frame lim s p"
    if none: "first_index (frame_free s) 512 lim = None"
      and some: "first_index (frame_free s) 256 512 = Some p"
  proof -
    have p: "p \<in> free_frames s" "256 \<le> p" "p < 512"
      using first_index_SomeD [OF some] mem by auto
    have "q < 512" if "q \<in> free_frames s" "q < lim" for q
      using none free [OF that(1)] that by (meson first_index_None_iff not_le)
    moreover have "p \<le> q" if "q \<in> free_frames s" "256 \<le> q" for q
      using some free [OF that(1)] that by (meson first_index_Some_iff not_le)
    ultimately show ?thesis using p by (simp add: best_frame_def)
  qed
  show "\<forall>q \<in> free_frames s. \<not> (256 \<le> q \<and> q < 512 \<or> 512 \<le> q \<and> q < lim)"
    if none: "first_index (frame_free s) 512 lim = None" "first_index (frame_free s) 256 512 = None"
    using none free unfolding first_index_None_iff by blast
qed

lemma pmm_alloc_page_cases:
  assumes "pmm_inv s"
  obtains (found) p where "best_frame (unat (total_pages s)) s p"
      "pmm_alloc_page s = (PFN_TO_PADDR (of_nat p), take_frame_ref p s)"
    | (none) "\<forall>q \<in> free_frames s. q < 256" "pmm_alloc_page s = (0, s)"
proof (cases "first_index (frame_free s) 512 (unat (total_pages s))")
  case (Some p)
  with search_best_frame(1) [OF assms order_refl Some] found show ?thesis
    by (simp add: pmm_alloc_page_def)
next
  case 512: None
  show ?thesis
  proof (cases "first_index (frame_free s) 256 512")
    case (Some p)
    with search_best_frame(2) [OF assms order_refl 512 Some] 512 found show ?thesis
      by (simp add: pmm_alloc_page_def)
  next
    case None
    have "\<forall>q \<in> free_frames s. q < 256"
      using search_best_frame(3) [OF assms order_refl 512 None] free_frames_below [OF assms]
      by (meson not_le)
    with 512 None none show ?thesis by (simp add: pmm_alloc_page_def)
  qed
qed

lemma pmm_alloc_page_low_cases:
  assumes "pmm_inv s"
  obtains (found) p where "best_frame (min 32768 (unat (total_pages s))) s p"
      "pmm_alloc_page_low s = (PFN_TO_PADDR (of_nat p), take_frame p s)"
    | (none) "\<forall>q \<in> free_frames s. q < 256 \<or> 32768 \<le> q" "pmm_alloc_page_low s = (0, s)"
proof -
  define lim where "lim = min 32768 (unat (total_pages s))"
  have lim: "lim \<le> unat (total_pages s)" by (simp add: lim_def)
  have e: "unat (if 32768 > total_pages s then total_pages s else 32768) = lim"
    by (auto simp: lim_def word_less_nat_alt)
  have alloc: "pmm_alloc_page_low s =
     (case first_index (frame_free s) 512 lim of
        Some p \<Rightarrow> (PFN_TO_PADDR (of_nat p), take_frame p s)
      | None \<Rightarrow> (case first_index (frame_free s) 256 512 of
                  Some p \<Rightarrow> (PFN_TO_PADDR (of_nat p), take_frame p s) | None \<Rightarrow> (0, s)))"
    unfolding pmm_alloc_page_low_def Let_def e ..
  show ?thesis
  proof (cases "first_index (frame_free s) 512 lim")
    case (Some p)
    with search_best_frame(1) [OF assms lim Some] found show ?thesis
      by (simp add: alloc lim_def)
  next
    case 512: None
    show ?thesis
    proof (cases "first_index (frame_free s) 256 512")
      case (Some p)
      with search_best_frame(2) [OF assms lim 512 Some] 512 found show ?thesis
        by (simp add: alloc lim_def)
    next
      case None
      have "\<forall>q \<in> free_frames s. q < 256 \<or> 32768 \<le> q"
        using search_best_frame(3) [OF assms lim 512 None] free_frames_below [OF assms]
        by (auto simp: lim_def not_le)
      with 512 None none show ?thesis by (simp add: alloc)
    qed
  qed
qed

lemma best_frame_range:
  assumes "pmm_inv s" "best_frame lim s p"
  shows "p \<in> free_frames s" "256 \<le> p" "p < MAX_PAGES" "PFN_TO_PADDR (of_nat p) \<noteq> 0"
  using assms free_frames_below [OF assms(1), of p]
  by (auto simp: best_frame_def PFN_TO_PADDR_eq_0_iff)

lemma pmm_alloc_page_inv:
  assumes "pmm_inv s"
  shows "pmm_inv (snd (pmm_alloc_page s))" "pmm_inv (snd (pmm_alloc_page_low s))"
  using pmm_alloc_page_cases [OF assms] pmm_alloc_page_low_cases [OF assms]
    best_frame_range(1) [OF assms] take_frame_effect(1,2) [OF assms] assms
  by (metis snd_conv)+

text \<open>Releasing: what \<open>pmm_free_page\<close> does at the address of a used frame.\<close>

definition release_frame :: "nat \<Rightarrow> pmm_state \<Rightarrow> pmm_state" where
  "release_frame p s = s\<lparr>page_bitmap := bitmap_clear (page_bitmap s) p,
     page_refcount := (page_refcount s)(p := 0),
     free_pages := free_pages s + 1, used_pages := used_pages s - 1\<rparr>"

definition with_refs :: "nat \<Rightarrow> u16 \<Rightarrow> pmm_state \<Rightarrow> pmm_state" where
  "with_refs p c s = s\<lparr>page_refcount := (page_refcount s)(p := c)\<rparr>"

lemma with_refs_simps [simp]:
  "page_bitmap (with_refs p c s) = page_bitmap s" "total_pages (with_refs p c s) = total_pages s"
  "free_frames (with_refs p c s) = free_frames s" "used_frames (with_refs p c s) = used_frames s"
  "page_refcount (with_refs p c s) p = c" "with_refs p d (with_refs p c s) = with_refs p d s"
  "with_refs p (page_refcount s p) s = s" "pmm_inv (with_refs p c s) = pmm_inv s"
  by (simp_all add: with_refs_def free_frames_def used_frames_def pmm_inv_def)

lemma release_frame_effect:
  assumes "pmm_inv s" "p \<in> used_frames s"
  shows "pmm_inv (release_frame p s)" "free_frames (release_frame p s) = insert p (free_frames s)"
    "used_frames (release_frame p s) = used_frames s - {p}"
    "total_pages (release_frame p s) = total_pages s"
  using assms by (auto simp: release_frame_def frames_release intro!: pmm_inv_release [OF assms])

lemma used_frame_below:
  "pmm_inv s \<Longrightarrow> p \<in> used_frames s \<Longrightarrow> p < unat (total_pages s) \<and> p < MAX_PAGES \<and>
     of_nat p < total_pages s \<and> bitmap_test (page_bitmap s) p"
  using unat_of_nat_frame by (auto simp: pmm_inv_def used_frames_def word_less_nat_alt)

lemma pmm_free_page_used:
  assumes inv: "pmm_inv s" and p: "p \<in> used_frames s" "p \<noteq> 0"
  shows "pmm_free_page (PFN_TO_PADDR (of_nat p)) s =
    (if page_refcount s p \<le> 1 then release_frame p s
     else with_refs p (page_refcount s p - 1) s)"
proof -
  note b = used_frame_below [OF inv p(1)]
  consider (zero) "page_refcount s p = 0" | (one) "page_refcount s p = 1"
    | (more) "\<not> page_refcount s p \<le> 1" by (metis word_le_less_eq word_less_1)
  then show ?thesis
  proof cases
    case zero
    then have "(page_refcount s)(p := 0) = page_refcount s" by auto
    with zero b p show ?thesis
      by (cases s) (auto simp: pmm_free_page_def Let_def frame_addr release_frame_def not_less)
  next
    case one
    with b p show ?thesis
      by (auto simp: pmm_free_page_def Let_def frame_addr release_frame_def not_less)
  next
    case more
    then have "page_refcount s p \<noteq> 1" "page_refcount s p > 0" by (auto simp: word_gt_0)
    with more b p show ?thesis
      by (auto simp: pmm_free_page_def Let_def frame_addr with_refs_def not_less)
  qed
qed

text \<open>At any other address nothing changes.\<close>

lemma pmm_free_page_cases:
  assumes "pmm_inv s"
  obtains (noop) "pmm_free_page a s = s"
    | (used) p where "p \<in> used_frames s" "p \<noteq> 0" "a = PFN_TO_PADDR (of_nat p)"
proof (cases "a = 0 \<or> \<not> IS_ALIGNED a PAGE_SIZE \<or> PADDR_TO_PFN a \<ge> total_pages s \<or>
    \<not> bitmap_test (page_bitmap s) (unat (PADDR_TO_PFN a))")
  case True
  then have "pmm_free_page a s = s" by (auto simp: pmm_free_page_def Let_def)
  then show ?thesis by (rule noop)
next
  case False
  define p where "p = unat (PADDR_TO_PFN a)"
  have m: "(4095 :: u64) = mask 12" by (simp add: mask_eq_exp_minus_1)
  have "take_bit 12 a = 0" using False by (simp add: IS_ALIGNED_def PAGE_SIZE_def m take_bit_eq_mask)
  with bits_ident [of 12 a] have "a = PFN_TO_PADDR (PADDR_TO_PFN a)"
    by (simp add: PFN_TO_PADDR_def PADDR_TO_PFN_def)
  then have a: "a = PFN_TO_PADDR (of_nat p)" by (simp add: p_def)
  have "p \<in> used_frames s"
    using False by (simp add: used_frames_def p_def not_le word_less_nat_alt)
  moreover have "p \<noteq> 0"
  proof
    assume "p = 0"
    with a have "a = 0" by (simp add: PFN_TO_PADDR_def)
    with False show False by simp
  qed
  ultimately show ?thesis using a by (rule used)
qed

lemma pmm_free_page_inv:
  assumes "pmm_inv s"
  shows "pmm_inv (pmm_free_page a s)"
  using assms
proof (cases rule: pmm_free_page_cases [of s a])
  case (used p)
  with assms show ?thesis by (simp add: pmm_free_page_used release_frame_effect)
qed (use assms in simp_all)

lemma pmm_ref_page_inv:
  assumes "pmm_inv s"
  shows "pmm_inv (pmm_ref_page a s)"
proof -
  have "pmm_ref_page a s = s \<or> (\<exists>p c. pmm_ref_page a s = with_refs p c s)"
    by (auto simp: pmm_ref_page_def Let_def with_refs_def)
  with assms show ?thesis by auto
qed

lemma pmm_ref_page_used:
  assumes "pmm_inv s" "p \<in> used_frames s" "p \<noteq> 0" "page_refcount s p < 65535"
  shows "pmm_ref_page (PFN_TO_PADDR (of_nat p)) s = with_refs p (page_refcount s p + 1) s"
  using used_frame_below [OF assms(1,2)] assms(3,4)
  by (simp add: pmm_ref_page_def Let_def frame_addr with_refs_def not_less [symmetric])

section \<open>Contiguous runs\<close>

text \<open>\<open>j\<close> starts a run of \<open>cnt\<close> free frames below \<open>n\<close>.\<close>

definition free_run :: "u8 array \<Rightarrow> nat \<Rightarrow> nat \<Rightarrow> nat \<Rightarrow> bool" where
  "free_run b n cnt j \<longleftrightarrow> j + cnt \<le> n \<and> (\<forall>i < cnt. \<not> bitmap_test b (j + i))"

text \<open>
  The scan's invariant: before frame \<open>k\<close>, the last \<open>found\<close> frames are free, \<open>start\<close> is the first of
  them, and no run starts before them.
\<close>

definition scan_inv :: "u8 array \<Rightarrow> nat \<Rightarrow> nat \<Rightarrow> nat \<Rightarrow> nat \<Rightarrow> nat \<Rightarrow> bool" where
  "scan_inv b n cnt k start found \<longleftrightarrow>
     found < cnt \<and> found \<le> k \<and> k \<le> n \<and> (0 < found \<longrightarrow> start = k - found) \<and>
     (\<forall>i. k - found \<le> i \<and> i < k \<longrightarrow> \<not> bitmap_test b i) \<and>
     (\<forall>j < k - found. \<not> free_run b n cnt j)"

lemma scan_inv_used:
  assumes "scan_inv b n cnt k start found" "k < n" "bitmap_test b k"
  shows "scan_inv b n cnt (Suc k) start 0"
proof -
  have "\<not> free_run b n cnt j" if j: "j < Suc k" for j
  proof (cases "j < k - found")
    case True
    with assms(1) show ?thesis by (simp add: scan_inv_def)
  next
    case False
    with assms(1) j have "k = j + (k - j)" "k - j < cnt" by (auto simp: scan_inv_def)
    with assms(3) show ?thesis by (metis free_run_def)
  qed
  with assms show ?thesis by (auto simp: scan_inv_def)
qed

lemma find_run_spec:
  assumes "scan_inv b n cnt k start found"
  shows "(\<forall>st. find_run b cnt [k..<n] start found = Some st \<longrightarrow>
            free_run b n cnt st \<and> (\<forall>j < st. \<not> free_run b n cnt j)) \<and>
         (find_run b cnt [k..<n] start found = None \<longrightarrow> (\<forall>j. \<not> free_run b n cnt j))"
  using assms
proof (induction "n - k" arbitrary: k start found)
  case 0
  then have "k = n" by (simp add: scan_inv_def)
  with 0 have "\<not> free_run b n cnt j" for j
    by (cases "j < n - found") (auto simp: scan_inv_def free_run_def)
  with \<open>k = n\<close> show ?case by simp
next
  case (Suc m)
  then have k: "k < n" "m = n - Suc k" by auto
  then have upt: "[k..<n] = k # [Suc k..<n]" by (simp add: upt_conv_Cons)
  let ?start = "if found = 0 then k else start"
  have st: "?start = k - found" using Suc.prems by (auto simp: scan_inv_def)
  show ?case
  proof (cases "bitmap_test b k")
    case True
    from Suc.hyps(1) [OF k(2) scan_inv_used [OF Suc.prems k(1) True]] True show ?thesis
      by (simp add: upt)
  next
    case False
    show ?thesis
    proof (cases "Suc found = cnt")
      case fin: True
      have "\<not> bitmap_test b i" if "k - found \<le> i" "i < Suc k" for i
        using Suc.prems False that by (cases "i = k") (auto simp: scan_inv_def)
      then have "free_run b n cnt (k - found)"
        using Suc.prems k fin by (auto simp: free_run_def scan_inv_def)
      moreover have "\<forall>j < k - found. \<not> free_run b n cnt j" using Suc.prems by (simp add: scan_inv_def)
      ultimately show ?thesis using False fin st by (simp add: upt Let_def)
    next
      case more: False
      have "scan_inv b n cnt (Suc k) ?start (Suc found)"
        using Suc.prems False k more st by (auto simp: scan_inv_def less_Suc_eq)
      from Suc.hyps(1) [OF k(2) this] False more show ?thesis by (simp add: upt Let_def)
    qed
  qed
qed

lemma find_run_start: "0 < cnt \<Longrightarrow> scan_inv b n cnt 0 start 0"
  by (simp add: scan_inv_def)

lemma take_run_effect:
  assumes inv: "pmm_inv s" and free: "\<And>i. i < n \<Longrightarrow> st + i \<in> free_frames s"
  shows "pmm_inv (for_range 0 n (\<lambda>i. take_frame (st + i)) s) \<and>
    total_pages (for_range 0 n (\<lambda>i. take_frame (st + i)) s) = total_pages s \<and>
    page_refcount (for_range 0 n (\<lambda>i. take_frame (st + i)) s) = page_refcount s \<and>
    free_frames (for_range 0 n (\<lambda>i. take_frame (st + i)) s) = free_frames s - {st..<st + n}"
proof -
  let ?I = "\<lambda>k t. pmm_inv t \<and> total_pages t = total_pages s \<and> page_refcount t = page_refcount s \<and>
    free_frames t = free_frames s - {st..<st + k}"
  show ?thesis
  proof (rule for_range_induct [where I = ?I])
    show "?I 0 s" using inv by simp
  next
    fix k t assume k: "k < n" and t: "?I k t"
    then have f: "st + k \<in> free_frames t" using free by simp
    have "A - {st..<st + k} - {st + k} = A - {st..<st + Suc k}" for A by auto
    with t take_frame_effect [OF _ f] show "?I (Suc k) (take_frame (st + k) t)" by metis
  qed simp
qed

lemma free_run_frames:
  "free_run (page_bitmap s) (unat (total_pages s)) n st \<longleftrightarrow>
     st + n \<le> unat (total_pages s) \<and> {st..<st + n} \<subseteq> free_frames s"
proof -
  have "(\<forall>i < n. \<not> bitmap_test b (st + i)) \<longleftrightarrow> (\<forall>p \<in> {st..<st + n}. \<not> bitmap_test b p)" for b
    by (metis atLeastLessThan_iff le_add1 le_Suc_ex nat_add_left_cancel_less)
  then show ?thesis by (auto simp: free_run_def free_frames_def)
qed

lemma pmm_alloc_pages_cases:
  assumes inv: "pmm_inv s" and cnt: "2 \<le> unat cnt"
  obtains (found) st where "free_run (page_bitmap s) (unat (total_pages s)) (unat cnt) st"
      "\<forall>j < st. \<not> free_run (page_bitmap s) (unat (total_pages s)) (unat cnt) j"
      "pmm_alloc_pages cnt s = (PFN_TO_PADDR (of_nat st),
         for_range 0 (unat cnt) (\<lambda>i. take_frame (st + i)) s)"
    | (none) "\<forall>j. \<not> free_run (page_bitmap s) (unat (total_pages s)) (unat cnt) j"
      "pmm_alloc_pages cnt s = (0, s)"
proof -
  have "scan_inv (page_bitmap s) (unat (total_pages s)) (unat cnt) 0 0 0"
    using cnt by (intro find_run_start) simp
  from find_run_spec [OF this] have spec:
    "(\<forall>st. find_run (page_bitmap s) (unat cnt) [0..<unat (total_pages s)] 0 0 = Some st \<longrightarrow>
       free_run (page_bitmap s) (unat (total_pages s)) (unat cnt) st \<and>
       (\<forall>j < st. \<not> free_run (page_bitmap s) (unat (total_pages s)) (unat cnt) j))"
    "find_run (page_bitmap s) (unat cnt) [0..<unat (total_pages s)] 0 0 = None \<longrightarrow>
       (\<forall>j. \<not> free_run (page_bitmap s) (unat (total_pages s)) (unat cnt) j)" by blast+
  have c: "cnt \<noteq> 0" "cnt \<noteq> 1" using cnt by auto
  show ?thesis
  proof (cases "find_run (page_bitmap s) (unat cnt) [0..<unat (total_pages s)] 0 0")
    case None
    with spec(2) c show ?thesis by (intro none) (simp_all add: pmm_alloc_pages_def)
  next
    case (Some st)
    with spec(1) c show ?thesis by (intro found [of st]) (simp_all add: pmm_alloc_pages_def)
  qed
qed

lemma pmm_alloc_pages_inv:
  assumes "pmm_inv s"
  shows "pmm_inv (snd (pmm_alloc_pages cnt s))"
proof (cases "unat cnt < 2")
  case True
  then have "unat cnt = 0 \<or> unat cnt = 1" by linarith
  then have "cnt = 0 \<or> cnt = 1" by (auto simp: word_unat_eq_iff)
  with assms pmm_alloc_page_inv(1) show ?thesis by (auto simp: pmm_alloc_pages_def)
next
  case False
  then have "2 \<le> unat cnt" by simp
  with assms show ?thesis
  proof (cases rule: pmm_alloc_pages_cases)
    case (found st)
    then have "\<And>i. i < unat cnt \<Longrightarrow> st + i \<in> free_frames s"
      unfolding free_run_frames by fastforce
    with found(3) take_run_effect [OF assms] show ?thesis by (metis snd_conv)
  qed (use assms in simp)
qed

lemma pmm_free_pages_inv: "pmm_inv s \<Longrightarrow> pmm_inv (pmm_free_pages a cnt s)"
  unfolding pmm_free_pages_def by (rule for_range_invariant) (auto intro: pmm_free_page_inv)

text \<open>Releasing a run that carries no references: each frame goes back at once.\<close>

lemma pmm_free_pages_run:
  assumes inv: "pmm_inv s" and st: "st \<noteq> 0" "{st..<st + n} \<subseteq> used_frames s"
    and refs: "\<And>p. p \<in> {st..<st + n} \<Longrightarrow> page_refcount s p = 0" and cnt: "unat cnt = n"
  shows "pmm_inv (pmm_free_pages (PFN_TO_PADDR (of_nat st)) cnt s) \<and>
    free_frames (pmm_free_pages (PFN_TO_PADDR (of_nat st)) cnt s) = free_frames s \<union> {st..<st + n}"
proof -
  let ?I = "\<lambda>k t. pmm_inv t \<and> (\<forall>p \<in> {st..<st + n}. page_refcount t p = 0) \<and>
    free_frames t = free_frames s \<union> {st..<st + k} \<and> used_frames t = used_frames s - {st..<st + k}"
  have addr: "PFN_TO_PADDR (of_nat st) + of_nat k * PAGE_SIZE = PFN_TO_PADDR (of_nat (st + k))" for k
    by (simp add: PFN_TO_PADDR_def PAGE_SIZE_def push_bit_eq_mult algebra_simps)
  have "?I n (pmm_free_pages (PFN_TO_PADDR (of_nat st)) cnt s)"
    unfolding pmm_free_pages_def cnt addr
  proof (rule for_range_induct [where I = ?I])
    show "?I 0 s" using inv refs by simp
  next
    fix k t assume k: "k < n" and t: "?I k t"
    have used: "st + k \<in> used_frames t" using t k st(2) by auto
    have "page_refcount t (st + k) = 0" using t k by simp
    with pmm_free_page_used [OF _ used] t st(1)
    have "pmm_free_page (PFN_TO_PADDR (of_nat (st + k))) t = release_frame (st + k) t" by simp
    moreover have "A \<union> {st..<st + Suc k} = insert (st + k) (A \<union> {st..<st + k})"
      "A - {st..<st + Suc k} = A - {st..<st + k} - {st + k}" for A :: "nat set" by auto
    moreover have "page_refcount (release_frame (st + k) t) = (page_refcount t)(st + k := 0)"
      by (simp add: release_frame_def)
    ultimately show "?I (Suc k) (pmm_free_page (PFN_TO_PADDR (of_nat (st + k))) t)"
      using t release_frame_effect(1-3) [OF _ used] by simp
  qed simp
  then show ?thesis by blast
qed

section \<open>Histories of calls\<close>

datatype pmm_op = Alloc_page | Alloc_page_low | Alloc_pages size_t
  | Free_page paddr_t | Free_pages paddr_t size_t | Ref_page paddr_t

primrec pmm_step :: "pmm_op \<Rightarrow> pmm_state \<Rightarrow> pmm_state" where
  "pmm_step Alloc_page s = snd (pmm_alloc_page s)"
| "pmm_step Alloc_page_low s = snd (pmm_alloc_page_low s)"
| "pmm_step (Alloc_pages cnt) s = snd (pmm_alloc_pages cnt s)"
| "pmm_step (Free_page a) s = pmm_free_page a s"
| "pmm_step (Free_pages a cnt) s = pmm_free_pages a cnt s"
| "pmm_step (Ref_page a) s = pmm_ref_page a s"

lemma pmm_step_inv: "pmm_inv s \<Longrightarrow> pmm_inv (pmm_step op s)"
  by (cases op) (simp_all add: pmm_alloc_page_inv pmm_alloc_pages_inv pmm_free_page_inv
      pmm_free_pages_inv pmm_ref_page_inv)

lemma pmm_steps_inv: "pmm_inv s \<Longrightarrow> pmm_inv (fold pmm_step ops s)"
  by (induction ops arbitrary: s) (simp_all add: pmm_step_inv)

text \<open>
  Frame 0 is never handed out: \<open>pmm_init\<close> marks it used and \<open>pmm_free_page\<close> refuses address 0. So
  the address 0 that reports a failed allocation is never the address of a frame.
\<close>

lemma bitmap_0_free_page:
  assumes "bitmap_test (page_bitmap s) 0"
  shows "bitmap_test (page_bitmap (pmm_free_page a s)) 0"
proof (cases "a = 0 \<or> \<not> IS_ALIGNED a PAGE_SIZE")
  case True
  with assms show ?thesis by (auto simp: pmm_free_page_def)
next
  case False
  have m: "(4095 :: u64) = mask 12" by (simp add: mask_eq_exp_minus_1)
  have "take_bit 12 a = 0" using False by (simp add: IS_ALIGNED_def PAGE_SIZE_def m take_bit_eq_mask)
  with bits_ident [of 12 a] False have "PADDR_TO_PFN a \<noteq> 0"
    by (auto simp: PADDR_TO_PFN_def)
  with assms show ?thesis by (auto simp: pmm_free_page_def Let_def unat_eq_zero)
qed

lemma bitmap_0_take_run:
  "bitmap_test (page_bitmap s) 0 \<Longrightarrow>
     bitmap_test (page_bitmap (for_range 0 n (\<lambda>i. take_frame (st + i)) s)) 0"
  by (rule for_range_invariant) (auto simp: take_frame_def)

lemma bitmap_0_alloc_page:
  "bitmap_test (page_bitmap s) 0 \<Longrightarrow> bitmap_test (page_bitmap (snd (pmm_alloc_page s))) 0"
  by (simp add: pmm_alloc_page_def take_frame_def take_frame_ref_def split: option.splits)

lemma bitmap_0_step:
  assumes "bitmap_test (page_bitmap s) 0"
  shows "bitmap_test (page_bitmap (pmm_step op s)) 0"
proof (cases op)
  case Alloc_page_low
  with assms show ?thesis
    by (simp add: pmm_alloc_page_low_def Let_def take_frame_def split: option.splits)
next
  case (Free_pages a cnt)
  have "bitmap_test (page_bitmap (pmm_free_pages a cnt s)) 0"
    unfolding pmm_free_pages_def
    by (rule for_range_invariant [where I = "\<lambda>t. bitmap_test (page_bitmap t) 0"])
      (use assms bitmap_0_free_page in auto)
  with Free_pages show ?thesis by simp
next
  case (Ref_page a)
  with assms show ?thesis by (simp add: pmm_ref_page_def Let_def)
qed (use assms in \<open>simp_all add: bitmap_0_alloc_page bitmap_0_free_page pmm_alloc_pages_def
      bitmap_0_take_run split: option.split\<close>)

lemma bitmap_0_steps:
  "bitmap_test (page_bitmap s) 0 \<Longrightarrow> bitmap_test (page_bitmap (fold pmm_step ops s)) 0"
  by (induction ops arbitrary: s) (simp_all add: bitmap_0_step)

end
