(* ===== verification/Pmm_Props.thy ===== *)
theory Pmm_Props
  imports Pmm_Alloc
begin

text \<open>
  What the physical memory manager promises. The locale \<open>frame_allocator\<close> is the contract its
  clients use: an allocation hands out one of the available frames, and no frame twice. It is
  interpreted for \<open>pmm_alloc_page\<close> and for \<open>pmm_alloc_page_low\<close>. The properties at the end cover
  initialisation, histories of calls, both single-frame allocators, contiguous runs and shared
  frames.
\<close>

section \<open>The contract of a frame allocator\<close>

text \<open>A client's sequence of \<open>n\<close> allocations: the addresses it got and the state it leaves.\<close>

primrec alloc_seq :: "('s \<Rightarrow> paddr_t \<times> 's) \<Rightarrow> nat \<Rightarrow> 's \<Rightarrow> paddr_t list \<times> 's" where
  "alloc_seq alloc 0 s = ([], s)"
| "alloc_seq alloc (Suc n) s =
     (let (a, t) = alloc s; (as, u) = alloc_seq alloc n t in (a # as, u))"

definition granted :: "paddr_t list \<Rightarrow> paddr_t list" where
  "granted as = filter (\<lambda>a. a \<noteq> 0) as"

locale frame_allocator =
  fixes alloc :: "'s \<Rightarrow> paddr_t \<times> 's"
    and inv :: "'s \<Rightarrow> bool"
    and avail :: "'s \<Rightarrow> paddr_t set"
  assumes alloc_inv: "inv s \<Longrightarrow> alloc s = (a, t) \<Longrightarrow> inv t"
    and alloc_fresh: "inv s \<Longrightarrow> alloc s = (a, t) \<Longrightarrow> a \<noteq> 0 \<Longrightarrow> a \<in> avail s \<and> avail t = avail s - {a}"
    and alloc_fail: "inv s \<Longrightarrow> alloc s = (0, t) \<Longrightarrow> t = s \<and> avail s = {}"
    and avail_frames: "inv s \<Longrightarrow> a \<in> avail s \<Longrightarrow> IS_ALIGNED a PAGE_SIZE"
    and avail_finite: "finite (avail s)"
begin

lemma seq_inv: "inv s \<Longrightarrow> alloc_seq alloc n s = (as, t) \<Longrightarrow> inv t"
  by (induction n arbitrary: s as) (auto simp: Let_def split: prod.splits intro: alloc_inv)

lemma seq_granted:
  assumes "inv s" "alloc_seq alloc n s = (as, t)"
  shows "distinct (granted as) \<and> set (granted as) \<subseteq> avail s \<and> avail t = avail s - set (granted as)"
  using assms
proof (induction n arbitrary: s as)
  case 0
  then show ?case by (simp add: granted_def)
next
  case (Suc n)
  obtain a u where a: "alloc s = (a, u)" by fastforce
  obtain bs where bs: "alloc_seq alloc n u = (bs, t)" "as = a # bs"
    using Suc.prems(2) a by (auto simp: Let_def split: prod.splits)
  have IH: "distinct (granted bs) \<and> set (granted bs) \<subseteq> avail u \<and> avail t = avail u - set (granted bs)"
    using Suc.IH alloc_inv [OF Suc.prems(1) a] bs(1) by blast
  show ?case
  proof (cases "a = 0")
    case True
    with alloc_fail [OF Suc.prems(1)] a IH bs(2) show ?thesis by (simp add: granted_def)
  next
    case False
    with alloc_fresh [OF Suc.prems(1) a] have u: "avail u = avail s - {a}" "a \<in> avail s" by auto
    have g: "granted as = a # granted bs" using False bs(2) by (simp add: granted_def)
    show ?thesis using IH u unfolding g by auto
  qed
qed

text \<open>A request is refused only when every available frame has been handed out.\<close>

lemma seq_exhaust:
  assumes "inv s" "alloc_seq alloc n s = (as, t)"
  shows "length (granted as) = min n (card (avail s))"
  using assms
proof (induction n arbitrary: s as)
  case 0
  then show ?case by (simp add: granted_def)
next
  case (Suc n)
  obtain a u where a: "alloc s = (a, u)" by fastforce
  obtain bs where bs: "alloc_seq alloc n u = (bs, t)" "as = a # bs"
    using Suc.prems(2) a by (auto simp: Let_def split: prod.splits)
  have IH: "length (granted bs) = min n (card (avail u))"
    using Suc.IH alloc_inv [OF Suc.prems(1) a] bs(1) by blast
  show ?case
  proof (cases "a = 0")
    case True
    with alloc_fail [OF Suc.prems(1)] a have "u = s" "avail s = {}" by auto
    with True IH bs(2) show ?thesis by (simp add: granted_def)
  next
    case False
    with alloc_fresh [OF Suc.prems(1) a] have u: "avail u = avail s - {a}" "a \<in> avail s" by auto
    then have "card (avail s) = Suc (card (avail u))"
      using avail_finite [of s] by (metis card_Suc_Diff1)
    with False IH bs(2) show ?thesis by (simp add: granted_def)
  qed
qed

lemma seq_aligned:
  assumes "inv s" "alloc_seq alloc n s = (as, t)" "a \<in> set (granted as)"
  shows "IS_ALIGNED a PAGE_SIZE"
  using seq_granted [OF assms(1,2)] assms(3) avail_frames [OF assms(1)] by blast

end

text \<open>The frames each allocator of the source may return, as addresses.\<close>

definition frame_addrs :: "nat set \<Rightarrow> paddr_t set" where
  "frame_addrs A = (\<lambda>p. PFN_TO_PADDR (of_nat p)) ` A"

definition page_avail :: "pmm_state \<Rightarrow> paddr_t set" where
  "page_avail s = frame_addrs {p \<in> free_frames s. 256 \<le> p}"

definition low_avail :: "pmm_state \<Rightarrow> paddr_t set" where
  "low_avail s = frame_addrs {p \<in> free_frames s. 256 \<le> p \<and> p < 32768}"

lemma frame_addrs_remove:
  assumes "A \<subseteq> {..<MAX_PAGES}" "p < MAX_PAGES"
  shows "frame_addrs (A - {p}) = frame_addrs A - {PFN_TO_PADDR (of_nat p)}"
  using assms PFN_TO_PADDR_inj unfolding frame_addrs_def by blast

lemma free_frames_max: "pmm_inv s \<Longrightarrow> {p \<in> free_frames s. Q p} \<subseteq> {..<MAX_PAGES}"
  using free_frames_below by blast

lemma frame_addrs_aligned: "a \<in> frame_addrs A \<Longrightarrow> IS_ALIGNED a PAGE_SIZE"
  by (auto simp: frame_addrs_def IS_ALIGNED_PFN_TO_PADDR)

lemma frame_addrs_finite [simp]: "finite A \<Longrightarrow> finite (frame_addrs A)"
  by (simp add: frame_addrs_def)

lemma avail_take:
  assumes inv: "pmm_inv s" and p: "best_frame lim s p" "Q p"
    and t: "free_frames t = free_frames s - {p}"
  shows "PFN_TO_PADDR (of_nat p) \<in> frame_addrs {p \<in> free_frames s. Q p} \<and>
    frame_addrs {p \<in> free_frames t. Q p} = frame_addrs {p \<in> free_frames s. Q p} - {PFN_TO_PADDR (of_nat p)}"
proof -
  have "{q \<in> free_frames t. Q q} = {q \<in> free_frames s. Q q} - {p}" using t by auto
  with frame_addrs_remove [OF free_frames_max [OF inv]] best_frame_range(1,3) [OF inv p(1)] p(2)
  show ?thesis by (auto simp: frame_addrs_def)
qed

interpretation page: frame_allocator pmm_alloc_page pmm_inv page_avail
proof
  fix s a t assume s: "pmm_inv s" and a: "pmm_alloc_page s = (a, t)"
  show "pmm_inv t" using pmm_alloc_page_inv(1) [OF s] a by simp
  show "a \<in> page_avail s \<and> page_avail t = page_avail s - {a}" if "a \<noteq> 0"
    using s
  proof (cases rule: pmm_alloc_page_cases)
    case (found p)
    note p = best_frame_range [OF s found(1)]
    from avail_take [OF s found(1), of "(\<le>) 256"] p take_frame_effect(4) [OF s p(1)] found a
    show ?thesis by (auto simp: page_avail_def)
  qed (use a that in simp)
next
  fix s t assume s: "pmm_inv s" and a: "pmm_alloc_page s = (0, t)"
  from s show "t = s \<and> page_avail s = {}"
  proof (cases rule: pmm_alloc_page_cases)
    case (found p)
    with best_frame_range(4) [OF s found(1)] a show ?thesis by simp
  next
    case none
    with a show ?thesis by (force simp: page_avail_def frame_addrs_def)
  qed
qed (auto simp: page_avail_def dest: frame_addrs_aligned)

interpretation low: frame_allocator pmm_alloc_page_low pmm_inv low_avail
proof
  fix s a t assume s: "pmm_inv s" and a: "pmm_alloc_page_low s = (a, t)"
  show "pmm_inv t" using pmm_alloc_page_inv(2) [OF s] a by simp
  show "a \<in> low_avail s \<and> low_avail t = low_avail s - {a}" if "a \<noteq> 0"
    using s
  proof (cases rule: pmm_alloc_page_low_cases)
    case (found p)
    note p = best_frame_range [OF s found(1)]
    have "p < 32768" using found(1) by (auto simp: best_frame_def)
    with avail_take [OF s found(1), of "\<lambda>p. 256 \<le> p \<and> p < 32768"] p
      take_frame_effect(3) [OF s p(1)] found a
    show ?thesis by (auto simp: low_avail_def)
  qed (use a that in simp)
next
  fix s t assume s: "pmm_inv s" and a: "pmm_alloc_page_low s = (0, t)"
  from s show "t = s \<and> low_avail s = {}"
  proof (cases rule: pmm_alloc_page_low_cases)
    case (found p)
    with best_frame_range(4) [OF s found(1)] a show ?thesis by simp
  next
    case none
    with a show ?thesis by (force simp: low_avail_def frame_addrs_def)
  qed
qed (auto simp: low_avail_def dest: frame_addrs_aligned)

section \<open>A small machine\<close>

text \<open>
  For the concrete instances below: one conventional region from 1 MiB to 2 MiB + 64 KiB, one
  reserved region, and a kernel image of two pages at 2 MiB.
\<close>

definition small_map :: boot_info_t where
  "small_map = \<lparr>memory_map_count = 2,
     memory_map = (\<lambda>i. if i = 0 then \<lparr>region_base = 0x100000, region_length = 0x110000, region_type = 7\<rparr>
                       else \<lparr>region_base = 0x300000, region_length = 0x10000, region_type = 2\<rparr>)\<rparr>"

definition blank_pmm :: pmm_state where
  "blank_pmm = \<lparr>page_bitmap = (\<lambda>_. 0), page_refcount = (\<lambda>_. 0), total_pages = 0, free_pages = 0,
     used_pages = 0, highest_addr = 0, last_allocated = 0\<rparr>"

definition small_pmm :: pmm_state where
  "small_pmm = pmm_init 0x200000 0x202000 small_map blank_pmm"

lemma small_map_sane: "sane_map small_map"
  by (simp add: sane_map_def small_map_def)

lemma pmm_init_total:
  "total_pages (pmm_init ks ke bi s) = total_pages (pmm_count_pages
     (for_range 0 (unat (memory_map_count bi)) (raise_highest bi) (pmm_reset s)))"
  by (simp add: pmm_init_def Let_def pmm_mark_inv free_regions_inv pmm_init_start_inv)

lemma small_pmm_total: "unat (total_pages small_pmm) = 528"
proof -
  have "[0..<2] = [0, Suc 0]" by (simp add: upt_rec)
  then show ?thesis
    by (simp add: small_pmm_def pmm_init_total small_map_def blank_pmm_def for_range_def
        raise_highest_def region_end_def MEMORY_TYPE_CONVENTIONAL_def pmm_count_pages_def
        pmm_reset_def PADDR_TO_PFN_def MAX_PAGES_def drop_bit_eq_div)
qed

lemma pmm_init_frame_0: "bitmap_test (page_bitmap (pmm_init ks ke bi s)) 0"
proof -
  let ?s2 = "for_range 0 (unat (memory_map_count bi)) (free_region bi)
    (pmm_count_pages (for_range 0 (unat (memory_map_count bi)) (raise_highest bi) (pmm_reset s)))"
  let ?s3 = "pmm_mark_used ks ((ke - ks + PAGE_SIZE - 1) div PAGE_SIZE) ?s2"
  have "pmm_inv ?s3" by (simp add: pmm_mark_inv free_regions_inv pmm_init_start_inv)
  moreover have "\<not> PADDR_TO_PFN 0 + 512 < (PADDR_TO_PFN 0 :: u64)" by (simp add: PADDR_TO_PFN_def)
  ultimately have "free_frames (pmm_init ks ke bi s) =
      free_frames ?s3 - frame_range (PADDR_TO_PFN 0) (unat (512 :: size_t))"
    using pmm_mark_used_effect unfolding pmm_init_def Let_def by blast
  moreover have "0 \<in> frame_range (PADDR_TO_PFN 0) (unat (512 :: size_t))"
    by (simp add: frame_range_def PADDR_TO_PFN_def)
  ultimately show ?thesis
    using frame_free_iff [OF pmm_init_inv, of 0] by (auto simp: MAX_PAGES_def)
qed

lemma small_pmm_inv: "pmm_inv small_pmm"
  by (simp add: small_pmm_def pmm_init_inv)

lemma small_usable: "usable_frame small_map p \<longleftrightarrow> 256 \<le> p \<and> p < 528"
proof -
  have "usable_frame small_map p \<longleftrightarrow> frame_in_region small_map 0 p \<or> frame_in_region small_map 1 p"
    by (simp add: usable_frame_def small_map_def less_2_cases_iff ex_disj_distrib conj_disj_distribR)
  then show ?thesis
    by (auto simp: frame_in_region_def small_map_def MEMORY_TYPE_CONVENTIONAL_def)
qed

lemma small_pmm_free: "free_frames small_pmm = {514..<528}"
proof -
  have "4096 dvd unat (0x200000 :: u64)" by (simp add: dvd_def)
  from pmm_init_free_frames [OF small_map_sane this, where ke = "0x202000" and s = blank_pmm]
  have "free_frames small_pmm = {p. p < 528 \<and> 512 \<le> p \<and> usable_frame small_map p \<and>
      \<not> kernel_frame 0x200000 0x202000 p}"
    unfolding small_pmm_def [symmetric] small_pmm_total by simp
  also have "\<dots> = {514..<528}"
  proof (rule set_eqI)
    fix p :: nat
    have "2097152 \<le> p * 4096 \<longleftrightarrow> 512 \<le> p" "p * 4096 < 2105344 \<longleftrightarrow> p < 514" by linarith+
    then have "kernel_frame 0x200000 0x202000 p \<longleftrightarrow> 512 \<le> p \<and> p < 514"
      by (simp add: kernel_frame_def)
    then show "p \<in> {p. p < 528 \<and> 512 \<le> p \<and> usable_frame small_map p \<and>
        \<not> kernel_frame 0x200000 0x202000 p} \<longleftrightarrow> p \<in> {514..<528}"
      unfolding small_usable mem_Collect_eq atLeastLessThan_iff by linarith
  qed
  finally show ?thesis .
qed

lemma small_pmm_run: "free_run (page_bitmap small_pmm) (unat (total_pages small_pmm)) 2 514"
  unfolding free_run_frames unfolding small_pmm_total small_pmm_free by auto

lemma small_pmm_refs: "refs_clear small_pmm"
  by (simp add: refs_clear_def small_pmm_free) (simp add: small_pmm_def pmm_init_refcount MAX_PAGES_def)

section \<open>Properties\<close>



text \<open>
  C1: histories. Whatever sequence of allocations, frees and reference increments follows
  \<open>pmm_init\<close>, with whatever arguments, the counters stay the exact numbers of free and used frames,
  their sum is the page count, and frame 0 is never free, so that a returned address 0 always means
  failure.
\<close>

theorem pmm_history_consistent:
  "let s = fold pmm_step ops (pmm_init ks ke bi s0) in
     pmm_inv s \<and>
     unat (pmm_get_free_pages s) + unat (used_pages s) = unat (pmm_get_total_pages s) \<and>
     0 \<notin> free_frames s"
proof -
  define s where "s = fold pmm_step ops (pmm_init ks ke bi s0)"
  have inv: "pmm_inv s" unfolding s_def by (intro pmm_steps_inv pmm_init_inv)
  have "bitmap_test (page_bitmap (pmm_init ks ke bi s0)) 0"
    by (rule pmm_init_frame_0)
  then have "bitmap_test (page_bitmap s) 0" unfolding s_def by (rule bitmap_0_steps)
  with inv card_frames [of s] show ?thesis
    unfolding s_def [symmetric] Let_def
    by (simp add: pmm_get_free_pages_def pmm_get_total_pages_def pmm_inv_def) (simp add: free_frames_def)
qed

text \<open>
  C2: single frames. \<open>n\<close> successive calls of \<open>pmm_alloc_page\<close> hand out pairwise distinct,
  page-aligned frames that were free and at or above 1 MiB, and a call is refused (returns 0) only
  when no such frame is left.
\<close>

theorem pmm_alloc_page_distinct:
  assumes "pmm_inv s" "alloc_seq pmm_alloc_page n s = (as, t)"
  shows "distinct (granted as) \<and> set (granted as) \<subseteq> page_avail s \<and>
    page_avail t = page_avail s - set (granted as) \<and>
    length (granted as) = min n (card (page_avail s)) \<and>
    (\<forall>a. a \<in> set (granted as) \<longrightarrow> IS_ALIGNED a PAGE_SIZE) \<and> pmm_inv t"
  using page.seq_granted [OF assms] page.seq_exhaust [OF assms] page.seq_aligned [OF assms]
    page.seq_inv [OF assms] by blast

theorem pmm_alloc_page_distinct_witness:
  "distinct (granted (fst (alloc_seq pmm_alloc_page 3 small_pmm))) \<and>
   length (granted (fst (alloc_seq pmm_alloc_page 3 small_pmm))) = 3"
proof -
  have "{p \<in> free_frames small_pmm. 256 \<le> p} = {514..<528}" by (auto simp: small_pmm_free)
  moreover have "inj_on (\<lambda>p. PFN_TO_PADDR (of_nat p)) {514..<528}"
    by (auto simp: inj_on_def MAX_PAGES_def intro!: PFN_TO_PADDR_inj [THEN iffD1])
  ultimately have "card (page_avail small_pmm) = 14"
    by (simp add: page_avail_def frame_addrs_def card_image)
  then show ?thesis
    using pmm_alloc_page_distinct [OF small_pmm_inv, of 3 "fst (alloc_seq pmm_alloc_page 3 small_pmm)"
        "snd (alloc_seq pmm_alloc_page 3 small_pmm)"] by simp
qed

lemma take_run_used:
  assumes "pmm_inv s" "free_run (page_bitmap s) (unat (total_pages s)) n st"
  shows "{st..<st + n} \<subseteq> free_frames s"
    "pmm_inv (for_range 0 n (\<lambda>i. take_frame (st + i)) s)"
    "page_refcount (for_range 0 n (\<lambda>i. take_frame (st + i)) s) = page_refcount s"
    "free_frames (for_range 0 n (\<lambda>i. take_frame (st + i)) s) = free_frames s - {st..<st + n}"
    "{st..<st + n} \<subseteq> used_frames (for_range 0 n (\<lambda>i. take_frame (st + i)) s)"
proof -
  let ?t = "for_range 0 n (\<lambda>i. take_frame (st + i)) s"
  show run: "{st..<st + n} \<subseteq> free_frames s" using assms(2) by (simp add: free_run_frames)
  then have "\<And>i. i < n \<Longrightarrow> st + i \<in> free_frames s" by auto
  note t = take_run_effect [OF assms(1) this]
  show "pmm_inv ?t" "page_refcount ?t = page_refcount s"
    "free_frames ?t = free_frames s - {st..<st + n}" using t by simp_all
  show "{st..<st + n} \<subseteq> used_frames ?t"
  proof
    fix p assume p: "p \<in> {st..<st + n}"
    then have "p \<in> free_frames s" "p \<notin> free_frames ?t" using run t by auto
    then show "p \<in> used_frames ?t" using t by (auto simp: free_frames_def used_frames_def)
  qed
qed



lemma unat_of_nat_refs: "m < 65536 \<Longrightarrow> unat (of_nat m :: u16) = m"
  by (simp add: unat_of_nat)

lemma pmm_ref_page_n:
  assumes "pmm_inv s" "p \<in> used_frames s" "p \<noteq> 0" "page_refcount s p = 1" "n < 65535"
  shows "(pmm_ref_page (PFN_TO_PADDR (of_nat p)) ^^ n) s = with_refs p (of_nat (Suc n)) s"
  using assms(5)
proof (induction n)
  case 0
  then show ?case using with_refs_simps(7) [of p s] assms(4) by simp
next
  case (Suc n)
  let ?t = "with_refs p (of_nat (Suc n)) s"
  have "(of_nat (Suc n) :: u16) < 65535"
    using Suc.prems by (simp add: word_less_nat_alt unat_of_nat del: of_nat_Suc)
  then have "pmm_ref_page (PFN_TO_PADDR (of_nat p)) ?t = with_refs p (of_nat (Suc (Suc n))) s"
    using assms(1-3) pmm_ref_page_used [of ?t p] by (simp add: add.commute)
  with Suc show ?case by simp
qed

lemma pmm_free_page_n:
  assumes "pmm_inv s" "p \<in> used_frames s" "p \<noteq> 0" "n < 65535" "k \<le> n"
  shows "(pmm_free_page (PFN_TO_PADDR (of_nat p)) ^^ k) (with_refs p (of_nat (Suc n)) s) =
    with_refs p (of_nat (Suc n - k)) s"
  using assms(5)
proof (induction k)
  case (Suc k)
  let ?t = "with_refs p (of_nat (Suc n - k)) s"
  have more: "\<not> (of_nat (Suc n - k) :: u16) \<le> 1"
    using Suc.prems assms(4) unat_of_nat_refs [of "Suc n - k"] unfolding word_le_nat_alt by simp
  have dec: "(of_nat (Suc n - k) :: u16) - 1 = of_nat (Suc n - Suc k)"
    using Suc.prems by (simp add: of_nat_diff)
  have "pmm_free_page (PFN_TO_PADDR (of_nat p)) ?t = with_refs p (of_nat (Suc n - Suc k)) s"
    using assms(1-3) more dec pmm_free_page_used [of ?t p] by simp
  with Suc show ?case by simp
qed simp

text \<open>
  C4: shared frames. A frame that \<open>pmm_alloc_page\<close> handed out (reference count 1) and that was
  then shared \<open>n\<close> times stays allocated through the first \<open>n\<close> calls of \<open>pmm_free_page\<close>, with one
  reference less after each, and the next call releases it: it, and only it, becomes free.
\<close>

theorem pmm_shared_frame:
  assumes "pmm_inv s" "p \<in> used_frames s" "p \<noteq> 0" "page_refcount s p = 1" "n < 65535" "k \<le> n"
  defines "a \<equiv> PFN_TO_PADDR (of_nat p)"
  defines "shared \<equiv> (pmm_ref_page a ^^ n) s"
  shows "used_frames ((pmm_free_page a ^^ k) shared) = used_frames s \<and>
    unat (pmm_get_refcount a ((pmm_free_page a ^^ k) shared)) = Suc n - k \<and>
    free_frames ((pmm_free_page a ^^ Suc n) shared) = insert p (free_frames s) \<and>
    pmm_inv ((pmm_free_page a ^^ Suc n) shared)"
proof -
  note b = used_frame_below [OF assms(1,2)]
  have kth: "(pmm_free_page a ^^ j) shared = with_refs p (of_nat (Suc n - j)) s" if "j \<le> n" for j
    unfolding a_def shared_def pmm_ref_page_n [OF assms(1-5)]
    by (rule pmm_free_page_n [OF assms(1-3,5) that])
  have "pmm_get_refcount a (with_refs p c s) = c" for c
    using b assms(3) by (simp add: pmm_get_refcount_def Let_def a_def frame_addr not_less [symmetric])
  moreover have "unat (of_nat (Suc n - k) :: u16) = Suc n - k"
    using assms(5) by (intro unat_of_nat_refs) simp
  moreover have "(pmm_free_page a ^^ Suc n) shared = release_frame p (with_refs p 1 s)"
    using kth [of n] pmm_free_page_used [of "with_refs p 1 s" p] assms(1-3) by (simp add: a_def)
  ultimately show ?thesis
    using kth [OF assms(6)] release_frame_effect [of "with_refs p 1 s" p] assms(1,2) by simp
qed

theorem pmm_shared_frame_witness:
  "514 \<in> used_frames ((pmm_free_page (PFN_TO_PADDR (of_nat 514)) ^^ 1)
      ((pmm_ref_page (PFN_TO_PADDR (of_nat 514)) ^^ 2) (take_frame_ref 514 small_pmm))) \<and>
   514 \<in> free_frames ((pmm_free_page (PFN_TO_PADDR (of_nat 514)) ^^ Suc 2)
      ((pmm_ref_page (PFN_TO_PADDR (of_nat 514)) ^^ 2) (take_frame_ref 514 small_pmm)))"
proof -
  have f: "514 \<in> free_frames small_pmm" by (simp add: small_pmm_free)
  note t = take_frame_effect [OF small_pmm_inv f]
  have used: "514 \<in> used_frames (take_frame_ref 514 small_pmm)" unfolding t(6) by simp
  have rc: "page_refcount (take_frame_ref 514 small_pmm) 514 = 1" by (simp add: take_frame_ref_def)
  have nums: "514 \<noteq> (0::nat)" "2 < (65535::nat)" "1 \<le> (2::nat)" by simp_all
  from pmm_shared_frame [OF t(2) used nums(1) rc nums(2,3)] used show ?thesis by blast
qed

text \<open>
  Frames of a run carry no reference of their own: \<open>pmm_alloc_pages\<close> (for two frames or more)
  leaves their reference count at 0. So when a second owner takes a reference with \<open>pmm_ref_page\<close>
  and then drops it, the frame is released although the first owner still holds it.
\<close>

theorem pmm_run_released_early:
  assumes inv: "pmm_inv s" and refs: "refs_clear s" and zero: "0 \<notin> free_frames s"
    and cnt: "2 \<le> unat count" and alloc: "pmm_alloc_pages count s = (a, t)" "a \<noteq> 0"
    and i: "i < unat count"
  defines "b \<equiv> a + of_nat i * PAGE_SIZE"
  shows "bitmap_test (page_bitmap t) (unat (PADDR_TO_PFN b)) \<and> pmm_get_refcount b t = 0 \<and>
    \<not> bitmap_test (page_bitmap (pmm_free_page b (pmm_ref_page b t))) (unat (PADDR_TO_PFN b))"
  using inv cnt
proof (cases rule: pmm_alloc_pages_cases)
  case (found st)
  note run = take_run_used [OF inv found(1)]
  let ?p = "st + i"
  have t: "t = for_range 0 (unat count) (\<lambda>i. take_frame (st + i)) s" "a = PFN_TO_PADDR (of_nat st)"
    using found(3) alloc by simp_all
  have b: "b = PFN_TO_PADDR (of_nat ?p)"
    by (simp add: b_def t(2) PFN_TO_PADDR_def PAGE_SIZE_def push_bit_eq_mult algebra_simps)
  have p: "?p \<in> free_frames s" "?p \<in> used_frames t" using run(1,5) i by (auto simp: t(1))
  have "?p \<noteq> 0" using p(1) zero by metis
  have rc: "page_refcount t ?p = 0" using p(1) refs run(3) by (simp add: refs_clear_def t(1))
  have inv_t: "pmm_inv t" using run(2) by (simp add: t(1))
  note below = used_frame_below [OF inv_t p(2)]
  have pfn: "PADDR_TO_PFN b = of_nat ?p" "unat (PADDR_TO_PFN b) = ?p" "b \<noteq> 0"
    unfolding b using below \<open>?p \<noteq> 0\<close> by (simp_all only: frame_addr not_False_eq_True)
  have "pmm_ref_page b t = with_refs ?p 1 t"
    unfolding b using pmm_ref_page_used [OF inv_t p(2) \<open>?p \<noteq> 0\<close>] rc by simp
  then have "pmm_free_page b (pmm_ref_page b t) = release_frame ?p (with_refs ?p 1 t)"
    unfolding b using pmm_free_page_used [of "with_refs ?p 1 t" ?p] inv_t p(2) \<open>?p \<noteq> 0\<close> by simp
  moreover have "pmm_get_refcount b t = 0"
    using pfn below rc by (simp add: pmm_get_refcount_def Let_def not_less [symmetric])
  ultimately show ?thesis using pfn(2) below by (simp add: release_frame_def)
qed (use alloc in simp)

theorem pmm_run_released_early_witness:
  "\<not> bitmap_test (page_bitmap (pmm_free_page (fst (pmm_alloc_pages 2 small_pmm) + of_nat 1 * PAGE_SIZE)
       (pmm_ref_page (fst (pmm_alloc_pages 2 small_pmm) + of_nat 1 * PAGE_SIZE)
         (snd (pmm_alloc_pages 2 small_pmm)))))
     (unat (PADDR_TO_PFN (fst (pmm_alloc_pages 2 small_pmm) + of_nat 1 * PAGE_SIZE)))"
proof -
  have two: "2 \<le> unat (2 :: size_t)" "1 < unat (2 :: size_t)" and zero: "0 \<notin> free_frames small_pmm"
    by (simp_all add: small_pmm_free)
  have "fst (pmm_alloc_pages 2 small_pmm) \<noteq> 0"
    using small_pmm_inv two(1)
  proof (cases rule: pmm_alloc_pages_cases)
    case (found st)
    note run = take_run_used [OF small_pmm_inv found(1)]
    have "st \<in> {514..<528}" using run(1) two unfolding small_pmm_free by auto
    then show ?thesis using found(3) by (simp add: PFN_TO_PADDR_eq_0_iff MAX_PAGES_def)
  next
    case none
    then show ?thesis using small_pmm_run by simp
  qed
  from pmm_run_released_early [OF small_pmm_inv small_pmm_refs zero two(1) prod.collapse [symmetric]
      this two(2)] show ?thesis by blast
qed

end
