(* ===== verification/Capability.thy ===== *)
theory Capability
  imports Prelude
begin

text \<open>
  Capability tables, \<^verbatim>\<open>kernel/security/capability.c\<close>: one growing table per process, a global
  counter that numbers capabilities, and the operations create, check, transfer, revoke and
  find-for-port on behalf of the current process.

  The current process (\<^verbatim>\<open>process_get_current\<close>) is an argument, \<open>None\<close> for the NULL pointer. The
  outcome of \<^verbatim>\<open>kmalloc\<close> is an argument too: a function from the number of elements asked for to
  the new array with arbitrary contents, or \<open>None\<close> for NULL. Each call runs between
  \<^verbatim>\<open>spinlock_lock\<close> and \<^verbatim>\<open>spinlock_unlock\<close> of the table it works on and is one step here.

  The abstraction \<open>caps_of\<close> is the list of a process's capabilities; \<open>cap_inv\<close> says that the tables
  stay within their arrays and that no two capabilities of the system have the same number.
\<close>

section \<open>Model\<close>

definition CAP_TYPE_IPC_PORT :: u32 where "CAP_TYPE_IPC_PORT = 1"
definition CAP_RIGHT_READ :: u32 where "CAP_RIGHT_READ = 1"
definition CAP_RIGHT_WRITE :: u32 where "CAP_RIGHT_WRITE = 2"
definition CAP_RIGHT_TRANSFER :: u32 where "CAP_RIGHT_TRANSFER = 16"
definition MAX_CAPABILITIES_PER_PROCESS :: size_t where "MAX_CAPABILITIES_PER_PROCESS = 256"
definition INITIAL_CAPACITY :: size_t where "INITIAL_CAPACITY = 16"
definition MAX_PROCESSES :: nat where "MAX_PROCESSES = 32768"
definition IPC_INLINE_SIZE :: u32 where "IPC_INLINE_SIZE = 64"

record capability =
  cap_id :: u64
  cap_type :: u32
  resource_id :: u64
  rights :: u32

record capability_table_t =
  capabilities :: "capability array option"
  cap_count :: size_t
  capacity :: size_t
  initialized :: bool

record cap_state =
  capability_tables :: "capability_table_t array"
  next_cap_id :: u64
  capability_system_initialized :: bool

text \<open>The message structure of \<^verbatim>\<open>kernel/include/ipc/ipc.h\<close>; \<open>buffer\<close> is an address.\<close>

record ipc_message_t =
  sender_tid :: u64
  msg_id :: u64
  msg_type :: u32
  inline_size :: u32
  inline_data :: "u8 array"
  buffer :: vaddr_t
  buffer_size :: size_t

type_synonym cap_alloc = "size_t \<Rightarrow> capability array option"

text \<open>\<^verbatim>\<open>pid_t\<close> is a signed 32-bit integer.\<close>

definition get_process_table :: "pid_t \<Rightarrow> nat option" where
  "get_process_table pid =
     (if sint pid < 0 \<or> sint pid \<ge> int MAX_PROCESSES then None else Some (nat (sint pid)))"

definition capability_init :: "cap_state \<Rightarrow> cap_state" where
  "capability_init s = s\<lparr>next_cap_id := 1,
     capability_tables := (\<lambda>i. if i < MAX_PROCESSES
       then \<lparr>capabilities = None, cap_count = 0, capacity = 0, initialized = False\<rparr>
       else capability_tables s i),
     capability_system_initialized := True\<rparr>"

definition ensure_table_initialized ::
  "cap_alloc \<Rightarrow> capability_table_t \<Rightarrow> int \<times> capability_table_t" where
  "ensure_table_initialized kmalloc t =
     (if initialized t \<and> \<not> Option.is_none (capabilities t) then (0, t)
      else if \<not> initialized t then
        (let t1 = t\<lparr>capacity := INITIAL_CAPACITY, capabilities := kmalloc INITIAL_CAPACITY\<rparr>
         in if Option.is_none (capabilities t1) then (-1, t1)
            else (0, t1\<lparr>cap_count := 0, initialized := True\<rparr>))
      else (0, t))"

text \<open>The resizing step of \<open>capability_create\<close>; \<open>None\<close> where it returns 0.\<close>

definition resize_table :: "cap_alloc \<Rightarrow> capability_table_t \<Rightarrow> capability_table_t option" where
  "resize_table kmalloc t =
     (if cap_count t \<ge> capacity t then
        (let dbl = capacity t * 2;
             new_cap = (if dbl > MAX_CAPABILITIES_PER_PROCESS
                        then MAX_CAPABILITIES_PER_PROCESS else dbl)
         in if cap_count t \<ge> new_cap then None
            else case kmalloc new_cap of
                   None \<Rightarrow> None
                 | Some new_arr \<Rightarrow>
                     Some (t\<lparr>capabilities := Some (for_range 0 (unat (cap_count t))
                              (\<lambda>i a. a(i := the (capabilities t) i)) new_arr),
                            capacity := new_cap\<rparr>))
      else Some t)"

definition capability_create ::
  "cap_alloc \<Rightarrow> pid_t option \<Rightarrow> u32 \<Rightarrow> u64 \<Rightarrow> u32 \<Rightarrow> cap_state \<Rightarrow> u64 \<times> cap_state" where
  "capability_create kmalloc proc type res rs s =
     (case proc of None \<Rightarrow> (0, s) | Some pid \<Rightarrow>
      case get_process_table pid of None \<Rightarrow> (0, s) | Some p \<Rightarrow>
      (let (rc, t1) = ensure_table_initialized kmalloc (capability_tables s p);
           s1 = s\<lparr>capability_tables := (capability_tables s)(p := t1)\<rparr>
       in if rc \<noteq> 0 then (0, s1)
          else case resize_table kmalloc t1 of None \<Rightarrow> (0, s1) | Some t2 \<Rightarrow>
           (let cid = next_cap_id s1;
                slot = \<lparr>cap_id = cid, cap_type = type, resource_id = res, rights = rs\<rparr>;
                t3 = t2\<lparr>capabilities := Some ((the (capabilities t2))(unat (cap_count t2) := slot)),
                        cap_count := cap_count t2 + 1\<rparr>
            in (cid, s1\<lparr>next_cap_id := cid + 1,
                       capability_tables := (capability_tables s1)(p := t3)\<rparr>))))"

text \<open>The search every other operation starts with: the first entry of the table that satisfies \<open>P\<close>.\<close>

definition find_entry :: "(capability \<Rightarrow> bool) \<Rightarrow> capability_table_t \<Rightarrow> nat option" where
  "find_entry P t = first_index (\<lambda>i. P (the (capabilities t) i)) 0 (unat (cap_count t))"

text \<open>The table of the current process if it has an initialised one.\<close>

definition current_table :: "pid_t option \<Rightarrow> cap_state \<Rightarrow> nat option" where
  "current_table proc s =
     (case proc of None \<Rightarrow> None | Some pid \<Rightarrow>
      case get_process_table pid of None \<Rightarrow> None | Some p \<Rightarrow>
      if initialized (capability_tables s p) then Some p else None)"

definition capability_check :: "pid_t option \<Rightarrow> u64 \<Rightarrow> u32 \<Rightarrow> cap_state \<Rightarrow> bool" where
  "capability_check proc cid right s =
     (case current_table proc s of None \<Rightarrow> False | Some p \<Rightarrow>
      (let t = capability_tables s p in
      case find_entry (\<lambda>c. cap_id c = cid) t of
        None \<Rightarrow> False
      | Some i \<Rightarrow> rights (the (capabilities t) i) AND right = right))"

text \<open>A little-endian store of a 64-bit value at byte offset \<open>k\<close>.\<close>

definition store_u64 :: "nat \<Rightarrow> u64 \<Rightarrow> u8 array \<Rightarrow> u8 array" where
  "store_u64 k v a = for_range 0 8 (\<lambda>j b. b(k + j := ucast (drop_bit (8 * j) v))) a"

definition CAP_MAGIC :: u64 where "CAP_MAGIC = 0xCAFEBABECAFEBABE"

definition capability_transfer ::
  "pid_t option \<Rightarrow> ipc_message_t option \<Rightarrow> u64 \<Rightarrow> cap_state \<Rightarrow> int \<times> ipc_message_t option" where
  "capability_transfer proc msg cid s =
     (case msg of None \<Rightarrow> (-1, None) | Some m \<Rightarrow>
      case current_table proc s of None \<Rightarrow> (-1, msg) | Some p \<Rightarrow>
      (let t = capability_tables s p in
      case find_entry (\<lambda>c. cap_id c = cid) t of None \<Rightarrow> (-1, msg) | Some i \<Rightarrow>
      (let c = the (capabilities t) i in
      if rights c AND CAP_RIGHT_TRANSFER = CAP_RIGHT_TRANSFER then
        if inline_size m + 32 \<le> IPC_INLINE_SIZE then
          (let k = unat (inline_size m)
           in (0, Some (m\<lparr>inline_data :=
                  store_u64 (k + 24) (ucast (rights c))
                   (store_u64 (k + 16) (resource_id c)
                    (store_u64 (k + 8) (ucast (cap_type c))
                     (store_u64 k CAP_MAGIC (inline_data m)))),
                inline_size := inline_size m + 32\<rparr>)))
        else (-1, msg)
      else (-1, msg))))"

definition capability_revoke :: "pid_t option \<Rightarrow> u64 \<Rightarrow> cap_state \<Rightarrow> int \<times> cap_state" where
  "capability_revoke proc cid s =
     (case current_table proc s of None \<Rightarrow> (-1, s) | Some p \<Rightarrow>
      (let t = capability_tables s p in
      case find_entry (\<lambda>c. cap_id c = cid) t of
        None \<Rightarrow> (-1, s)
      | Some i \<Rightarrow>
          (let a = the (capabilities t);
               t1 = t\<lparr>capabilities := Some (a(i := a (unat (cap_count t - 1)))),
                      cap_count := cap_count t - 1\<rparr>
           in (0, s\<lparr>capability_tables := (capability_tables s)(p := t1)\<rparr>))))"

definition capability_find_for_port :: "pid_t option \<Rightarrow> u64 \<Rightarrow> cap_state \<Rightarrow> u64" where
  "capability_find_for_port proc port s =
     (case current_table proc s of None \<Rightarrow> 0 | Some p \<Rightarrow>
      (let t = capability_tables s p in
      case find_entry (\<lambda>c. cap_type c = CAP_TYPE_IPC_PORT \<and> resource_id c = port) t of
        None \<Rightarrow> 0
      | Some i \<Rightarrow> cap_id (the (capabilities t) i)))"

section \<open>Abstraction and invariant\<close>

definition table_caps :: "capability_table_t \<Rightarrow> capability list" where
  "table_caps t = (if initialized t then cells (the (capabilities t)) (unat (cap_count t)) else [])"

definition caps_of :: "cap_state \<Rightarrow> nat \<Rightarrow> capability list" where
  "caps_of s p = table_caps (capability_tables s p)"

definition table_wf :: "capability_table_t \<Rightarrow> bool" where
  "table_wf t \<longleftrightarrow> (initialized t \<longrightarrow> capabilities t \<noteq> None \<and> cap_count t \<le> capacity t \<and>
     INITIAL_CAPACITY \<le> capacity t \<and> capacity t \<le> MAX_CAPABILITIES_PER_PROCESS)"

text \<open>The numbers of all capabilities of process \<open>p\<close>.\<close>

definition ids_of :: "cap_state \<Rightarrow> nat \<Rightarrow> u64 list" where
  "ids_of s p = map cap_id (caps_of s p)"

definition cap_inv :: "cap_state \<Rightarrow> bool" where
  "cap_inv s \<longleftrightarrow>
     (\<forall>p < MAX_PROCESSES. table_wf (capability_tables s p) \<and> distinct (ids_of s p) \<and>
        (\<forall>i \<in> set (ids_of s p). 0 < i \<and> i < next_cap_id s)) \<and>
     (\<forall>p < MAX_PROCESSES. \<forall>q < MAX_PROCESSES. p \<noteq> q \<longrightarrow> set (ids_of s p) \<inter> set (ids_of s q) = {}) \<and>
     0 < next_cap_id s"

section \<open>Tables\<close>

lemma get_process_table_bound: "get_process_table pid = Some p \<Longrightarrow> p < MAX_PROCESSES"
  by (auto simp: get_process_table_def split: if_splits)

lemma ensure_table_effect:
  assumes "table_wf t" "ensure_table_initialized kmalloc t = (rc, t1)"
  shows "table_wf t1 \<and> table_caps t1 = table_caps t \<and> (rc = 0 \<longrightarrow> initialized t1)"
  using assms
  by (auto simp: ensure_table_initialized_def table_wf_def table_caps_def Let_def INITIAL_CAPACITY_def
      MAX_CAPABILITIES_PER_PROCESS_def Option.is_none_def split: if_splits)

lemma copy_loop_cells: "cells (for_range 0 n (\<lambda>i a. a(i := b i)) c) n = cells b n"
proof -
  have "\<forall>k < n. for_range 0 n (\<lambda>i a. a(i := b i)) c k = b k"
    by (rule for_range_induct [where I = "\<lambda>m a. \<forall>k < m. a k = b k"]) (auto simp: less_Suc_eq)
  then show ?thesis by (auto intro: nth_equalityI)
qed

lemma double_capacity:
  assumes "cap \<le> 256" "n \<le> cap" "cap \<le> n" "16 \<le> cap"
    and "new = (if cap * 2 > 256 then 256 else cap * 2)" "\<not> n \<ge> (new :: size_t)"
  shows "n < new \<and> 16 \<le> new \<and> new \<le> 256"
proof -
  have "unat (cap * 2) = unat cap * 2" using assms(1) by (simp add: unat_word_ariths word_le_nat_alt)
  then have "16 \<le> cap * 2" using assms(4) by (simp add: word_le_nat_alt)
  with assms show ?thesis by (auto simp: not_le not_less)
qed

lemma resize_table_effect:
  assumes wf: "table_wf t" "initialized t" and res: "resize_table kmalloc t = Some t2"
  shows "table_wf t2 \<and> initialized t2 \<and> table_caps t2 = table_caps t \<and> cap_count t2 = cap_count t \<and>
    cap_count t2 < capacity t2"
proof (cases "cap_count t \<ge> capacity t")
  case False
  with res wf show ?thesis by (auto simp: resize_table_def not_le)
next
  case True
  define new where "new = (if capacity t * 2 > 256 then 256 else capacity t * 2)"
  have new: "(let dbl = capacity t * 2 in if dbl > MAX_CAPABILITIES_PER_PROCESS
      then MAX_CAPABILITIES_PER_PROCESS else dbl) = new"
    by (simp add: new_def MAX_CAPABILITIES_PER_PROCESS_def)
  from res True obtain a where a: "\<not> cap_count t \<ge> new"
    "t2 = t\<lparr>capabilities := Some (for_range 0 (unat (cap_count t))
        (\<lambda>i a. a(i := the (capabilities t) i)) a), capacity := new\<rparr>"
    unfolding resize_table_def new [symmetric] Let_def by (auto split: if_splits option.splits)
  have "cap_count t < new \<and> 16 \<le> new \<and> new \<le> 256"
    using wf True a(1) by (intro double_capacity [OF _ _ _ _ new_def])
      (auto simp: table_wf_def MAX_CAPABILITIES_PER_PROCESS_def INITIAL_CAPACITY_def)
  with a(2) wf show ?thesis
    by (auto simp: table_wf_def table_caps_def copy_loop_cells MAX_CAPABILITIES_PER_PROCESS_def
        INITIAL_CAPACITY_def)
qed

text \<open>The search of a table is the search of its list.\<close>

lemma find_entry_caps:
  assumes "initialized t"
  shows "find_entry P t = None \<longleftrightarrow> find P (table_caps t) = None"
    "find_entry P t = Some i \<Longrightarrow> find P (table_caps t) = Some (the (capabilities t) i)"
    "find_entry P t = Some i \<Longrightarrow> i < length (table_caps t) \<and> table_caps t ! i = the (capabilities t) i"
  using assms by (auto simp: find_entry_def table_caps_def find_cells dest: first_index_SomeD)

lemma current_table_SomeD:
  assumes "current_table proc s = Some p"
  obtains pid where "proc = Some pid" "get_process_table pid = Some p" "p < MAX_PROCESSES"
    "initialized (capability_tables s p)"
  using assms by (auto simp: current_table_def get_process_table_bound split: option.splits if_splits)

text \<open>The capabilities of the current process; none when there is no process or no table.\<close>

definition current_caps :: "pid_t option \<Rightarrow> cap_state \<Rightarrow> capability list" where
  "current_caps proc s = (case proc of None \<Rightarrow> [] | Some pid \<Rightarrow>
     (case get_process_table pid of None \<Rightarrow> [] | Some p \<Rightarrow> caps_of s p))"

lemma current_caps_table:
  "current_caps proc s = (case current_table proc s of None \<Rightarrow> [] | Some p \<Rightarrow> caps_of s p)"
  by (auto simp: current_caps_def current_table_def caps_of_def table_caps_def split: option.splits)

lemma capability_check_find:
  "capability_check proc cid right s =
     (case find (\<lambda>c. cap_id c = cid) (current_caps proc s) of
        None \<Rightarrow> False | Some c \<Rightarrow> rights c AND right = right)"
proof (cases "current_table proc s")
  case None
  then show ?thesis by (simp add: capability_check_def current_caps_table)
next
  case (Some p)
  then have init: "initialized (capability_tables s p)" by (rule current_table_SomeD)
  show ?thesis
    using find_entry_caps [OF init, of "\<lambda>c. cap_id c = cid"]
    by (cases "find_entry (\<lambda>c. cap_id c = cid) (capability_tables s p)")
      (simp_all add: Some capability_check_def current_caps_table caps_of_def)
qed

lemma capability_find_for_port_find:
  "capability_find_for_port proc port s =
     (case find (\<lambda>c. cap_type c = CAP_TYPE_IPC_PORT \<and> resource_id c = port) (current_caps proc s) of
        None \<Rightarrow> 0 | Some c \<Rightarrow> cap_id c)"
proof (cases "current_table proc s")
  case None
  then show ?thesis by (simp add: capability_find_for_port_def current_caps_table)
next
  case (Some p)
  let ?P = "\<lambda>c. cap_type c = CAP_TYPE_IPC_PORT \<and> resource_id c = port"
  from Some have init: "initialized (capability_tables s p)" by (rule current_table_SomeD)
  show ?thesis
    using find_entry_caps [OF init, of ?P]
    by (cases "find_entry ?P (capability_tables s p)")
      (simp_all add: Some capability_find_for_port_def current_caps_table caps_of_def)
qed

section \<open>Operations that change a table\<close>

definition tables_wf :: "cap_state \<Rightarrow> bool" where
  "tables_wf s \<longleftrightarrow> (\<forall>p < MAX_PROCESSES. table_wf (capability_tables s p))"

definition new_capability :: "cap_state \<Rightarrow> u32 \<Rightarrow> u64 \<Rightarrow> u32 \<Rightarrow> capability" where
  "new_capability s type res rs =
     \<lparr>cap_id = next_cap_id s, cap_type = type, resource_id = res, rights = rs\<rparr>"

lemma table_caps_push:
  assumes "table_wf t" "initialized t" "cap_count t < capacity t"
  shows "table_caps (t\<lparr>capabilities := Some ((the (capabilities t))(unat (cap_count t) := c)),
      cap_count := cap_count t + 1\<rparr>) = table_caps t @ [c]"
    "table_wf (t\<lparr>capabilities := Some ((the (capabilities t))(unat (cap_count t) := c)),
      cap_count := cap_count t + 1\<rparr>)"
proof -
  have n: "unat (cap_count t + 1) = Suc (unat (cap_count t))"
    using assms(3) by (rule unat_succ_less)
  then show "table_caps (t\<lparr>capabilities := Some ((the (capabilities t))(unat (cap_count t) := c)),
      cap_count := cap_count t + 1\<rparr>) = table_caps t @ [c]"
    using assms(2) by (simp add: table_caps_def cells_push)
  show "table_wf (t\<lparr>capabilities := Some ((the (capabilities t))(unat (cap_count t) := c)),
      cap_count := cap_count t + 1\<rparr>)"
    using assms n by (auto simp: table_wf_def word_le_nat_alt word_less_nat_alt)
qed

lemma capability_create_cases:
  assumes wf: "tables_wf s"
  obtains (created) pid p s' where "proc = Some pid" "get_process_table pid = Some p"
      "capability_create kmalloc proc type res rs s = (next_cap_id s, s')"
      "caps_of s' = (caps_of s)(p := caps_of s p @ [new_capability s type res rs])"
      "next_cap_id s' = next_cap_id s + 1" "tables_wf s'"
    | (refused) s' where "capability_create kmalloc proc type res rs s = (0, s')"
      "caps_of s' = caps_of s" "next_cap_id s' = next_cap_id s" "tables_wf s'"
proof (cases "\<exists>pid p. proc = Some pid \<and> get_process_table pid = Some p")
  case False
  then have "capability_create kmalloc proc type res rs s = (0, s)"
    by (auto simp: capability_create_def split: option.splits)
  with wf refused show ?thesis by blast
next
  case True
  then obtain pid p where p: "proc = Some pid" "get_process_table pid = Some p" by blast
  then have "p < MAX_PROCESSES" by (simp add: get_process_table_bound)
  with wf have tp: "table_wf (capability_tables s p)" by (simp add: tables_wf_def)
  obtain rc t1 where e: "ensure_table_initialized kmalloc (capability_tables s p) = (rc, t1)" by fastforce
  note t1 = ensure_table_effect [OF tp e]
  let ?s1 = "s\<lparr>capability_tables := (capability_tables s)(p := t1)\<rparr>"
  have s1: "tables_wf ?s1" "caps_of ?s1 = caps_of s"
    using wf t1 by (auto simp: tables_wf_def caps_of_def)
  show ?thesis
  proof (cases "rc = 0 \<and> resize_table kmalloc t1 \<noteq> None")
    case False
    then have "capability_create kmalloc proc type res rs s = (0, ?s1)"
      using p e by (auto simp: capability_create_def Let_def)
    with s1 refused show ?thesis by simp
  next
    case True
    then obtain t2 where t2: "rc = 0" "resize_table kmalloc t1 = Some t2" by auto
    note r = resize_table_effect [OF _ _ t2(2)]
    define t3 where "t3 = t2\<lparr>capabilities := Some ((the (capabilities t2))(unat (cap_count t2) :=
        new_capability s type res rs)), cap_count := cap_count t2 + 1\<rparr>"
    let ?s' = "?s1\<lparr>next_cap_id := next_cap_id s + 1,
        capability_tables := (capability_tables ?s1)(p := t3)\<rparr>"
    have t3: "table_wf t3" "table_caps t3 = caps_of s p @ [new_capability s type res rs]"
      using table_caps_push [of t2 "new_capability s type res rs"] r t1 t2(1)
      by (auto simp: t3_def caps_of_def)
    have "capability_create kmalloc proc type res rs s = (next_cap_id s, ?s')"
      using p e t2 by (simp add: capability_create_def Let_def t3_def new_capability_def)
    moreover have "caps_of ?s' = (caps_of s)(p := caps_of s p @ [new_capability s type res rs])"
      using t3(2) by (auto simp: caps_of_def)
    moreover have "tables_wf ?s'" using s1(1) t3(1) by (auto simp: tables_wf_def)
    ultimately show ?thesis using created [OF p] by simp
  qed
qed

text \<open>Revoking moves the last capability into the place of the revoked one.\<close>

definition swap_remove :: "nat \<Rightarrow> 'a list \<Rightarrow> 'a list" where
  "swap_remove i xs = butlast (xs[i := last xs])"

lemma set_swap_remove:
  assumes "i < length xs" "distinct xs"
  shows "set (swap_remove i xs) = set xs - {xs ! i}" "distinct (swap_remove i xs)"
proof -
  obtain ys z where xs: "xs = ys @ [z]" using assms by (metis list.size(3) not_less0 rev_exhaust)
  have "set (swap_remove i xs) = set xs - {xs ! i} \<and> distinct (swap_remove i xs)"
  proof (cases "i = length ys")
    case True
    with assms xs show ?thesis by (auto simp: swap_remove_def)
  next
    case False
    with assms xs have i: "i < length ys" by simp
    then have sr: "swap_remove i xs = ys[i := z]"
      using xs by (simp add: swap_remove_def list_update_append butlast_append)
    from assms xs i have "distinct ys" "z \<notin> set ys" by auto
    with i xs show ?thesis
      unfolding sr by (auto simp: set_update_distinct nth_append distinct_list_update)
  qed
  then show "set (swap_remove i xs) = set xs - {xs ! i}" "distinct (swap_remove i xs)" by auto
qed

lemma capability_revoke_cases:
  assumes wf: "tables_wf s"
  obtains (revoked) pid p i s' where "proc = Some pid" "get_process_table pid = Some p"
      "i < length (caps_of s p)" "cap_id (caps_of s p ! i) = cid"
      "capability_revoke proc cid s = (0, s')"
      "caps_of s' = (caps_of s)(p := swap_remove i (caps_of s p))"
      "next_cap_id s' = next_cap_id s" "tables_wf s'"
    | (absent) "\<forall>c \<in> set (current_caps proc s). cap_id c \<noteq> cid"
      "capability_revoke proc cid s = (-1, s)"
proof (cases "current_table proc s")
  case None
  then show ?thesis by (intro absent) (simp_all add: current_caps_table capability_revoke_def)
next
  case (Some p)
  then obtain pid where p: "proc = Some pid" "get_process_table pid = Some p" "p < MAX_PROCESSES"
    and init: "initialized (capability_tables s p)" by (rule current_table_SomeD)
  let ?t = "capability_tables s p"
  show ?thesis
  proof (cases "find_entry (\<lambda>c. cap_id c = cid) ?t")
    case None
    then have "find (\<lambda>c. cap_id c = cid) (current_caps proc s) = None"
      using find_entry_caps(1) [OF init] Some by (simp add: current_caps_table caps_of_def)
    then show ?thesis
      using None Some by (intro absent) (auto simp: find_None_iff capability_revoke_def)
  next
    case i: (Some i)
    let ?a = "the (capabilities ?t)"
    let ?t1 = "?t\<lparr>capabilities := Some (?a(i := ?a (unat (cap_count ?t - 1)))),
        cap_count := cap_count ?t - 1\<rparr>"
    let ?s' = "s\<lparr>capability_tables := (capability_tables s)(p := ?t1)\<rparr>"
    have len: "length (caps_of s p) = unat (cap_count ?t)"
      using init by (simp add: caps_of_def table_caps_def)
    have i_lt: "i < unat (cap_count ?t)" and cidi: "cap_id (?a i) = cid"
      using i by (auto simp: find_entry_def dest: first_index_SomeD)
    then have n: "unat (cap_count ?t - 1) = unat (cap_count ?t) - 1"
      by (intro unat_pred) simp
    have "last (cells ?a (unat (cap_count ?t))) = ?a (unat (cap_count ?t) - 1)"
      using i_lt by (subst last_conv_nth) (auto simp: cells_def)
    then have "table_caps ?t1 = swap_remove i (caps_of s p)"
      using init i_lt by (simp add: caps_of_def table_caps_def n swap_remove_def)
        (rule nth_equalityI, auto simp: nth_butlast nth_list_update)
    then have caps: "caps_of ?s' = (caps_of s)(p := swap_remove i (caps_of s p))"
      by (auto simp: caps_of_def)
    have "table_wf ?t1" using wf p(3) i_lt n by (auto simp: tables_wf_def table_wf_def word_le_nat_alt)
    then have "tables_wf ?s'" using wf by (auto simp: tables_wf_def)
    moreover have "caps_of s p ! i = ?a i" using find_entry_caps(3) [OF init i] by (simp add: caps_of_def)
    moreover have "capability_revoke proc cid s = (0, ?s')"
      using Some i by (simp add: capability_revoke_def Let_def)
    ultimately show ?thesis
      using i_lt len cidi caps by (intro revoked [OF p(1,2)]) simp_all
  qed
qed

section \<open>The invariant\<close>

lemma cap_inv_iff:
  "cap_inv s \<longleftrightarrow> tables_wf s \<and> 0 < next_cap_id s \<and>
     (\<forall>p < MAX_PROCESSES. distinct (ids_of s p) \<and> (\<forall>i \<in> set (ids_of s p). 0 < i \<and> i < next_cap_id s)) \<and>
     (\<forall>p < MAX_PROCESSES. \<forall>q < MAX_PROCESSES. p \<noteq> q \<longrightarrow> set (ids_of s p) \<inter> set (ids_of s q) = {})"
  by (auto simp: cap_inv_def tables_wf_def)

lemma ids_of_cong: "caps_of s p = caps_of t p \<Longrightarrow> ids_of s p = ids_of t p"
  by (simp add: ids_of_def)

lemma cap_inv_create:
  assumes inv: "cap_inv s" and room: "unat (next_cap_id s) < 2 ^ 64 - 1"
  shows "cap_inv (snd (capability_create kmalloc proc type res rs s))"
proof -
  from inv have wf: "tables_wf s" by (simp add: cap_inv_iff)
  show ?thesis
    using wf
  proof (cases rule: capability_create_cases [where kmalloc = kmalloc and proc = proc and type = type
        and res = res and rs = rs])
    case (refused s')
    with inv show ?thesis by (simp add: cap_inv_iff ids_of_def)
  next
    case (created pid p s')
    have "unat (next_cap_id s + 1) = Suc (unat (next_cap_id s))" using room by (intro unat_succ) simp
    then have up: "next_cap_id s < next_cap_id s'" by (simp add: created word_less_nat_alt)
    have ids: "ids_of s' q = (if q = p then ids_of s p @ [next_cap_id s] else ids_of s q)" for q
      by (simp add: ids_of_def created new_capability_def)
    have old: "\<forall>i \<in> set (ids_of s q). 0 < i \<and> i < next_cap_id s" "distinct (ids_of s q)"
      if "q < MAX_PROCESSES" for q using inv that by (simp_all add: cap_inv_iff)
    then have new: "next_cap_id s \<notin> set (ids_of s q)" if "q < MAX_PROCESSES" for q
      using that by (metis less_irrefl)
    have pos: "0 < next_cap_id s" using inv by (simp add: cap_inv_iff)
    have "cap_inv s'"
      unfolding cap_inv_iff ids
    proof (intro conjI allI impI)
      show "tables_wf s'" by fact
      show "0 < next_cap_id s'" using up pos by simp
    next
      fix q assume q: "q < MAX_PROCESSES"
      show "distinct (if q = p then ids_of s p @ [next_cap_id s] else ids_of s q)"
        using old(2) [OF q] new [OF q] by auto
      show "\<forall>i \<in> set (if q = p then ids_of s p @ [next_cap_id s] else ids_of s q).
          0 < i \<and> i < next_cap_id s'"
        using old(1) [OF q] up pos by (auto intro: less_trans)
    next
      fix q r assume "q < MAX_PROCESSES" "r < MAX_PROCESSES" "q \<noteq> r"
      then show "set (if q = p then ids_of s p @ [next_cap_id s] else ids_of s q) \<inter>
          set (if r = p then ids_of s p @ [next_cap_id s] else ids_of s r) = {}"
        using inv new by (auto simp: cap_inv_iff)
    qed
    with created(3) show ?thesis by simp
  qed
qed

lemma ids_swap_remove:
  assumes "distinct (map cap_id cs)" "i < length cs"
  shows "set (map cap_id (swap_remove i cs)) = set (map cap_id cs) - {cap_id (cs ! i)}"
    "distinct (map cap_id (swap_remove i cs))"
proof -
  have "map cap_id (swap_remove i cs) = swap_remove i (map cap_id cs)"
    using assms(2) by (cases "cs = []") (simp_all add: swap_remove_def map_butlast map_update last_map)
  with set_swap_remove [of i "map cap_id cs"] assms
  show "set (map cap_id (swap_remove i cs)) = set (map cap_id cs) - {cap_id (cs ! i)}"
    "distinct (map cap_id (swap_remove i cs))" by simp_all
qed

lemma cap_inv_revoke:
  assumes inv: "cap_inv s"
  shows "cap_inv (snd (capability_revoke proc cid s))"
proof -
  from inv have wf: "tables_wf s" by (simp add: cap_inv_iff)
  show ?thesis
    using wf
  proof (cases rule: capability_revoke_cases [where proc = proc and cid = cid])
    case (revoked pid p i s')
    then have p: "p < MAX_PROCESSES" by (simp add: get_process_table_bound)
    have "distinct (ids_of s p)" using inv p by (simp add: cap_inv_iff)
    note rm = ids_swap_remove [OF this [unfolded ids_of_def] revoked(3)]
    have ids: "set (ids_of s' q) \<subseteq> set (ids_of s q)" "distinct (ids_of s' q)"
      if "q < MAX_PROCESSES" for q
      using rm inv that by (auto simp: ids_of_def revoked(6) cap_inv_iff)
    have "cap_inv s'"
      unfolding cap_inv_iff revoked(7)
      using inv ids revoked(8) unfolding cap_inv_iff by blast
    with revoked(5) show ?thesis by simp
  qed (use inv in simp)
qed

lemma cap_inv_init: "cap_inv (capability_init s)"
  by (simp add: cap_inv_def capability_init_def ids_of_def caps_of_def table_caps_def table_wf_def)

text \<open>Histories of calls by any processes.\<close>

datatype cap_op = Cap_create cap_alloc "pid_t option" u32 u64 u32 | Cap_revoke "pid_t option" u64

primrec cap_step :: "cap_op \<Rightarrow> cap_state \<Rightarrow> cap_state" where
  "cap_step (Cap_create kmalloc proc type res rs) s = snd (capability_create kmalloc proc type res rs s)"
| "cap_step (Cap_revoke proc cid) s = snd (capability_revoke proc cid s)"

lemma cap_step_next:
  assumes "cap_inv s" "unat (next_cap_id s) < 2 ^ 64 - 1"
  shows "unat (next_cap_id (cap_step op s)) \<le> Suc (unat (next_cap_id s))"
proof (cases op)
  case (Cap_create kmalloc proc type res rs)
  have "tables_wf s" using assms(1) by (simp add: cap_inv_iff)
  then show ?thesis
  proof (cases rule: capability_create_cases [where kmalloc = kmalloc and proc = proc and type = type
        and res = res and rs = rs])
    case (created pid p s')
    with assms(2) unat_succ [of "next_cap_id s"] Cap_create show ?thesis by simp
  qed (use Cap_create in simp)
next
  case (Cap_revoke proc cid)
  then show ?thesis by (simp add: capability_revoke_def Let_def split: option.splits)
qed

lemma cap_steps_inv:
  assumes "cap_inv s" "unat (next_cap_id s) + length ops < 2 ^ 64"
  shows "cap_inv (fold cap_step ops s)"
  using assms
proof (induction ops arbitrary: s)
  case (Cons op ops)
  have room: "unat (next_cap_id s) < 2 ^ 64 - 1" using Cons.prems(2) by simp
  have "cap_inv (cap_step op s)"
    using cap_inv_create [OF Cons.prems(1) room] cap_inv_revoke [OF Cons.prems(1)] by (cases op) simp_all
  moreover have "unat (next_cap_id (cap_step op s)) + length ops < 2 ^ 64"
    using cap_step_next [OF Cons.prems(1) room, of op] Cons.prems(2) by simp
  ultimately show ?case using Cons.IH by simp
qed simp

end
