(* ===== verification/Msg_Queue.thy ===== *)
theory Msg_Queue
  imports Capability
begin

text \<open>
  The message queue of an IPC port, \<^verbatim>\<open>kernel/ipc/ipc.c\<close>: a singly linked list of heap nodes with a
  head and a tail pointer and a size. The port structure carries the part of the kernel heap that
  holds its nodes, as a map from addresses to nodes; the address 0 is NULL.

  \<open>queue_rep\<close> relates the pointers to the list of node addresses, \<open>queue_msgs\<close> is the list of queued
  messages. The locale \<open>fifo\<close> is the contract of such a queue: what goes in comes out once and in
  order. It is interpreted on the linked list.
\<close>

section \<open>Model\<close>

type_synonym addr = u64

record message_node_t =
  message :: ipc_message_t
  next_node :: addr

record ipc_port_internal =
  port_id :: u64
  owner_tid :: u64
  nodes :: "addr \<Rightarrow> message_node_t option"
  queue_head :: addr
  queue_tail :: addr
  queue_size :: size_t
  queue_max :: size_t
  waiting_receivers :: "u64 list"
  waiting_senders :: "u64 list"

text \<open>Linking the node \<open>a\<close>, just allocated for message \<open>m\<close>, at the tail.\<close>

definition enqueue_node :: "addr \<Rightarrow> ipc_message_t \<Rightarrow> ipc_port_internal \<Rightarrow> ipc_port_internal" where
  "enqueue_node a m p =
     (let p1 = p\<lparr>nodes := (nodes p)(a \<mapsto> \<lparr>message = m, next_node = 0\<rparr>)\<rparr>;
          p2 = (if queue_tail p1 \<noteq> 0
                then p1\<lparr>nodes := (nodes p1)(queue_tail p1 \<mapsto>
                          (the (nodes p1 (queue_tail p1)))\<lparr>next_node := a\<rparr>),
                        queue_tail := a\<rparr>
                else p1\<lparr>queue_head := a, queue_tail := a\<rparr>)
      in p2\<lparr>queue_size := queue_size p2 + 1\<rparr>)"

text \<open>Unlinking and freeing the node at the head, which is not NULL.\<close>

definition dequeue_node :: "ipc_port_internal \<Rightarrow> ipc_message_t \<times> ipc_port_internal" where
  "dequeue_node p =
     (let a = queue_head p; nd = the (nodes p a);
          p1 = p\<lparr>queue_head := next_node nd\<rparr>;
          p2 = (if queue_head p1 = 0 then p1\<lparr>queue_tail := 0\<rparr> else p1)
      in (message nd, p2\<lparr>queue_size := queue_size p2 - 1, nodes := (nodes p2)(a := None)\<rparr>))"

section \<open>Chains of nodes\<close>

fun chain :: "(addr \<Rightarrow> message_node_t option) \<Rightarrow> addr \<Rightarrow> addr list \<Rightarrow> bool" where
  "chain h a [] \<longleftrightarrow> a = 0"
| "chain h a (x # xs) \<longleftrightarrow> a = x \<and> x \<noteq> 0 \<and> (case h x of None \<Rightarrow> False | Some n \<Rightarrow> chain h (next_node n) xs)"

definition queue_rep :: "addr list \<Rightarrow> ipc_port_internal \<Rightarrow> bool" where
  "queue_rep as p \<longleftrightarrow> chain (nodes p) (queue_head p) as \<and> distinct as \<and>
     queue_tail p = (if as = [] then 0 else last as) \<and> dom (nodes p) = set as \<and>
     unat (queue_size p) = length as"

definition queue_inv :: "ipc_port_internal \<Rightarrow> bool" where
  "queue_inv p \<longleftrightarrow> (\<exists>as. queue_rep as p)"

primrec msgs_from :: "nat \<Rightarrow> (addr \<Rightarrow> message_node_t option) \<Rightarrow> addr \<Rightarrow> ipc_message_t list" where
  "msgs_from 0 h a = []"
| "msgs_from (Suc n) h a =
     (case h a of None \<Rightarrow> [] | Some nd \<Rightarrow> message nd # msgs_from n h (next_node nd))"

definition queue_msgs :: "ipc_port_internal \<Rightarrow> ipc_message_t list" where
  "queue_msgs p = msgs_from (unat (queue_size p)) (nodes p) (queue_head p)"

text \<open>What \<^verbatim>\<open>kmalloc\<close> guarantees of a new node's address.\<close>

definition node_fresh :: "addr \<Rightarrow> ipc_port_internal \<Rightarrow> bool" where
  "node_fresh a p \<longleftrightarrow> a \<noteq> 0 \<and> nodes p a = None"

lemma chain_cong:
  "(\<And>x. x \<in> set as \<Longrightarrow> h x = g x) \<Longrightarrow> chain h a as \<longleftrightarrow> chain g a as"
  by (induction as arbitrary: a) (auto split: option.splits)

lemma chain_upd: "x \<notin> set as \<Longrightarrow> chain (h(x := v)) a as \<longleftrightarrow> chain h a as"
  by (rule chain_cong) auto

lemma chain_not_0: "chain h a as \<Longrightarrow> 0 \<notin> set as"
  by (induction as arbitrary: a) (auto split: option.splits)

lemma chain_dom: "chain h a as \<Longrightarrow> x \<in> set as \<Longrightarrow> h x \<noteq> None"
  by (induction as arbitrary: a) (auto split: option.splits)

lemma chain_head: "chain h a as \<Longrightarrow> a = (if as = [] then 0 else hd as)"
  by (cases as) auto

lemma chain_msgs: "chain h a as \<Longrightarrow> msgs_from (length as) h a = map (\<lambda>x. message (the (h x))) as"
  by (induction as arbitrary: a) (auto split: option.splits)

text \<open>Appending a node: the last node of the chain now points to it.\<close>

lemma chain_append:
  assumes "chain h a as" "as \<noteq> []" "distinct as" "b \<notin> set as" "b \<noteq> 0" "h b = Some nb" "next_node nb = 0"
  shows "chain (h(last as \<mapsto> (the (h (last as)))\<lparr>next_node := b\<rparr>)) a (as @ [b])"
  using assms
proof (induction as arbitrary: a)
  case (Cons x xs)
  then obtain n where n: "a = x" "x \<noteq> 0" "h x = Some n" "chain h (next_node n) xs"
    by (auto split: option.splits)
  show ?case
  proof (cases "xs = []")
    case True
    with Cons.prems n show ?thesis by auto
  next
    case False
    then have "last xs \<noteq> x" using Cons.prems(3) by auto
    moreover have "chain (h(last xs \<mapsto> (the (h (last xs)))\<lparr>next_node := b\<rparr>)) (next_node n) (xs @ [b])"
      by (rule Cons.IH [OF n(4) False]) (use Cons.prems in auto)
    ultimately show ?thesis using n False by (simp add: fun_upd_def)
  qed
qed simp

section \<open>The linked list implements a queue\<close>

lemma queue_msgs_rep: "queue_rep as p \<Longrightarrow> queue_msgs p = map (\<lambda>x. message (the (nodes p x))) as"
  by (simp add: queue_rep_def queue_msgs_def chain_msgs)

lemma length_queue_msgs: "queue_inv p \<Longrightarrow> length (queue_msgs p) = unat (queue_size p)"
  by (auto simp: queue_inv_def queue_msgs_rep) (simp add: queue_rep_def)

text \<open>A queue never holds as many nodes as there are addresses, so its size does not wrap.\<close>

lemma queue_size_room:
  assumes "queue_rep as p" "node_fresh a p"
  shows "unat (queue_size p + 1) = Suc (unat (queue_size p))"
proof (rule unat_succ)
  have "a \<notin> set as" "0 \<notin> set as" "a \<noteq> 0" "distinct as"
    using assms chain_not_0 by (auto simp: queue_rep_def node_fresh_def)
  then have "length as + 2 = card (insert 0 (insert a (set as)))" by (simp add: distinct_card)
  also have "\<dots> \<le> card (UNIV :: addr set)" by (rule card_mono) simp_all
  also have "\<dots> = 2 ^ 64" by (simp add: card_word)
  finally show "unat (queue_size p) < 2 ^ LENGTH(64) - 1" using assms(1) by (simp add: queue_rep_def)
qed

lemma enqueue_node_rep:
  assumes rep: "queue_rep as p" and fresh: "node_fresh a p"
  shows "queue_rep (as @ [a]) (enqueue_node a m p)"
    "queue_msgs (enqueue_node a m p) = queue_msgs p @ [m]"
proof -
  let ?h = "(nodes p)(a \<mapsto> \<lparr>message = m, next_node = 0\<rparr>)"
  let ?q = "enqueue_node a m p"
  have a: "a \<notin> set as" "a \<noteq> 0" using rep fresh by (auto simp: queue_rep_def node_fresh_def)
  have ch: "chain ?h (queue_head p) as"
    using rep a by (simp add: queue_rep_def chain_upd)
  have size: "unat (queue_size ?q) = Suc (length as)"
    using queue_size_room [OF rep fresh] rep by (auto simp: enqueue_node_def Let_def queue_rep_def)
  show rep': "queue_rep (as @ [a]) ?q"
  proof (cases "as = []")
    case True
    with rep a size show ?thesis by (auto simp: queue_rep_def enqueue_node_def Let_def)
  next
    case False
    then have tail: "queue_tail p = last as" using rep by (simp add: queue_rep_def)
    then have "queue_tail p \<noteq> 0" using chain_not_0 [OF ch] last_in_set [OF False] by metis
    moreover have "chain (?h(last as \<mapsto> (the (?h (last as)))\<lparr>next_node := a\<rparr>)) (queue_head p) (as @ [a])"
      using a rep by (intro chain_append [OF ch False]) (auto simp: queue_rep_def)
    ultimately show ?thesis
      using rep a size False tail by (auto simp: queue_rep_def enqueue_node_def Let_def)
  qed
  have "message (the (nodes ?q x)) = message (the (nodes p x))" if "x \<in> set as" for x
    using that a rep by (auto simp: enqueue_node_def Let_def queue_rep_def)
  moreover have "message (the (nodes ?q a)) = m"
    using a rep chain_not_0 [OF ch] by (auto simp: enqueue_node_def Let_def queue_rep_def)
  ultimately show "queue_msgs ?q = queue_msgs p @ [m]"
    by (simp add: queue_msgs_rep [OF rep] queue_msgs_rep [OF rep'])
qed

lemma dequeue_node_rep:
  assumes rep: "queue_rep (a # as) p"
  shows "queue_rep as (snd (dequeue_node p))"
    "queue_msgs p = fst (dequeue_node p) # queue_msgs (snd (dequeue_node p))"
proof -
  let ?q = "snd (dequeue_node p)"
  obtain n where n: "queue_head p = a" "a \<noteq> 0" "nodes p a = Some n" "chain (nodes p) (next_node n) as"
    using rep by (auto simp: queue_rep_def split: option.splits)
  have a: "a \<notin> set as" "distinct as" using rep by (auto simp: queue_rep_def)
  have size: "unat (queue_size p - 1) = length as"
    using rep by (subst unat_pred) (auto simp: queue_rep_def)
  have ch: "chain ((nodes p)(a := None)) (next_node n) as"
    using n(4) a(1) by (simp add: chain_upd)
  have q: "nodes ?q = (nodes p)(a := None)" "queue_head ?q = next_node n"
    "queue_size ?q = queue_size p - 1"
    "queue_tail ?q = (if next_node n = 0 then 0 else queue_tail p)"
    using n by (auto simp: dequeue_node_def Let_def)
  have "next_node n = 0 \<longleftrightarrow> as = []"
    using chain_head [OF n(4)] chain_not_0 [OF n(4)] by (cases as) auto
  then show rep': "queue_rep as ?q"
    unfolding queue_rep_def q using rep ch a size by (auto simp: queue_rep_def)
  have "fst (dequeue_node p) = message (the (nodes p a))" using n by (simp add: dequeue_node_def Let_def)
  moreover have "map (\<lambda>x. message (the (nodes ?q x))) as = map (\<lambda>x. message (the (nodes p x))) as"
    using a(1) by (auto simp: q)
  ultimately show "queue_msgs p = fst (dequeue_node p) # queue_msgs ?q"
    by (simp add: queue_msgs_rep [OF rep] queue_msgs_rep [OF rep'])
qed

section \<open>The contract\<close>

text \<open>
  A first-in first-out queue whose insertions need a resource \<open>'a\<close> (here: a node's address). A
  history is a list of insertions and removals; a removal on an empty queue does nothing.
\<close>

datatype ('a, 'm) queue_op = Enq 'a 'm | Deq

locale fifo =
  fixes enq :: "'a \<Rightarrow> 'm \<Rightarrow> 'q \<Rightarrow> 'q"
    and deq :: "'q \<Rightarrow> 'm \<times> 'q"
    and inv :: "'q \<Rightarrow> bool"
    and fresh :: "'a \<Rightarrow> 'q \<Rightarrow> bool"
    and elems :: "'q \<Rightarrow> 'm list"
  assumes enq_inv: "inv q \<Longrightarrow> fresh a q \<Longrightarrow> inv (enq a m q)"
    and enq_elems: "inv q \<Longrightarrow> fresh a q \<Longrightarrow> elems (enq a m q) = elems q @ [m]"
    and deq_inv: "inv q \<Longrightarrow> elems q \<noteq> [] \<Longrightarrow> inv (snd (deq q))"
    and deq_elems: "inv q \<Longrightarrow> elems q \<noteq> [] \<Longrightarrow> elems q = fst (deq q) # elems (snd (deq q))"
begin

text \<open>Running a history: what was removed, and the queue left; \<open>None\<close> if a resource was not fresh.\<close>

fun run :: "('a, 'm) queue_op list \<Rightarrow> 'q \<Rightarrow> ('m list \<times> 'q) option" where
  "run [] q = Some ([], q)"
| "run (Enq a m # ops) q = (if fresh a q then run ops (enq a m q) else None)"
| "run (Deq # ops) q =
     (if elems q = [] then run ops q
      else map_option (\<lambda>(ms, r). (fst (deq q) # ms, r)) (run ops (snd (deq q))))"

fun inserted :: "('a, 'm) queue_op list \<Rightarrow> 'm list" where
  "inserted [] = []"
| "inserted (Enq a m # ops) = m # inserted ops"
| "inserted (Deq # ops) = inserted ops"

lemma run_fifo:
  assumes "inv q" "run ops q = Some (ms, r)"
  shows "elems q @ inserted ops = ms @ elems r \<and> inv r"
  using assms
proof (induction ops q arbitrary: ms rule: run.induct)
  case (2 a m ops q)
  then have "fresh a q" "run ops (enq a m q) = Some (ms, r)" by (auto split: if_splits)
  with 2 enq_inv enq_elems show ?case by fastforce
next
  case (3 ops q)
  show ?case
  proof (cases "elems q = []")
    case True
    with 3 show ?thesis by simp
  next
    case False
    then obtain ns where ns: "run ops (snd (deq q)) = Some (ns, r)" "ms = fst (deq q) # ns"
      using 3 by auto
    have "elems (snd (deq q)) @ inserted ops = ns @ elems r \<and> inv r"
      by (rule 3(2) [OF False deq_inv [OF 3(3) False] ns(1)])
    with deq_elems [OF 3(3) False] ns(2) show ?thesis by (metis append_Cons inserted.simps(3))
  qed
qed simp

end

lemma queue_inv_nonempty:
  assumes "queue_inv p" "queue_msgs p \<noteq> []"
  obtains a as where "queue_rep (a # as) p"
proof -
  obtain as where as: "queue_rep as p" using assms(1) by (auto simp: queue_inv_def)
  with assms(2) have "as \<noteq> []" by (auto simp: queue_msgs_rep)
  then obtain b bs where "as = b # bs" by (cases as) auto
  with as that show ?thesis by blast
qed

interpretation linked: fifo enqueue_node dequeue_node queue_inv node_fresh queue_msgs
proof
  fix q a m assume "queue_inv q" "node_fresh a q"
  then show "queue_inv (enqueue_node a m q)" "queue_msgs (enqueue_node a m q) = queue_msgs q @ [m]"
    using enqueue_node_rep unfolding queue_inv_def by blast+
next
  fix q assume "queue_inv q" "queue_msgs q \<noteq> []"
  then obtain a as where "queue_rep (a # as) q" by (rule queue_inv_nonempty)
  then show "queue_inv (snd (dequeue_node q))"
    "queue_msgs q = fst (dequeue_node q) # queue_msgs (snd (dequeue_node q))"
    using dequeue_node_rep unfolding queue_inv_def by blast+
qed

lemma queue_empty_iff:
  assumes "queue_inv p"
  shows "queue_msgs p = [] \<longleftrightarrow> queue_size p = 0" "queue_msgs p = [] \<longleftrightarrow> queue_head p = 0"
proof -
  obtain as where as: "queue_rep as p" using assms by (auto simp: queue_inv_def)
  then have "as = [] \<longleftrightarrow> queue_head p = 0"
    by (cases as) (auto simp: queue_rep_def)
  with as show "queue_msgs p = [] \<longleftrightarrow> queue_size p = 0" "queue_msgs p = [] \<longleftrightarrow> queue_head p = 0"
    by (auto simp: queue_msgs_rep) (auto simp: queue_rep_def unat_eq_zero)
qed

end
