(* ===== verification/Capability_Props.thy ===== *)
theory Capability_Props
  imports Capability
begin

text \<open>
  What the capability system promises. A ledger maps each process to its capabilities by number;
  creating a capability adds one entry to it, revoking deletes one, and a check reads it. The
  transfer of a capability into a message is the last part.
\<close>

section \<open>The ledger\<close>

definition ledger :: "cap_state \<Rightarrow> nat \<Rightarrow> u64 \<Rightarrow> capability option" where
  "ledger s p = (\<lambda>i. find (\<lambda>c. cap_id c = i) (caps_of s p))"

lemma find_append: "find P (xs @ ys) = (case find P xs of None \<Rightarrow> find P ys | Some x \<Rightarrow> Some x)"
  by (induction xs) auto

lemma find_cap_iff:
  assumes "distinct (map cap_id cs)"
  shows "find (\<lambda>c. cap_id c = i) cs = Some c \<longleftrightarrow> c \<in> set cs \<and> cap_id c = i"
  using assms by (induction cs) auto

lemma find_cap_cong:
  assumes "distinct (map cap_id cs)" "distinct (map cap_id ds)"
    "\<And>c. cap_id c = i \<Longrightarrow> c \<in> set cs \<longleftrightarrow> c \<in> set ds"
  shows "find (\<lambda>c. cap_id c = i) cs = find (\<lambda>c. cap_id c = i) ds"
proof (cases "find (\<lambda>c. cap_id c = i) cs")
  case None
  then have "find (\<lambda>c. cap_id c = i) ds = None" using assms(3) by (auto simp: find_None_iff)
  with None show ?thesis by simp
next
  case (Some c)
  then have "find (\<lambda>c. cap_id c = i) ds = Some c"
    using assms(3) [of c] by (simp add: find_cap_iff [OF assms(1)] find_cap_iff [OF assms(2)])
  with Some show ?thesis by simp
qed

lemma ledger_iff:
  assumes "cap_inv s" "p < MAX_PROCESSES"
  shows "ledger s p i = Some c \<longleftrightarrow> c \<in> set (caps_of s p) \<and> cap_id c = i"
  using assms by (simp add: ledger_def find_cap_iff cap_inv_iff ids_of_def)

lemma capability_check_ledger:
  "capability_check (Some pid) cid right s \<longleftrightarrow>
     (\<exists>p c. get_process_table pid = Some p \<and> ledger s p cid = Some c \<and> rights c AND right = right)"
  by (auto simp: capability_check_find current_caps_def ledger_def split: option.splits)

lemma ledger_create:
  assumes inv: "cap_inv s" and ok: "capability_create kmalloc (Some pid) type res rs s = (cid, s')"
    "cid \<noteq> 0" and p: "get_process_table pid = Some p"
  shows "cid = next_cap_id s"
    "ledger s' = (ledger s)(p := (ledger s p)(cid \<mapsto> new_capability s type res rs))"
proof -
  have wf: "tables_wf s" using inv by (simp add: cap_inv_iff)
  have bound: "p < MAX_PROCESSES" using p by (rule get_process_table_bound)
  from wf have "cid = next_cap_id s \<and>
    ledger s' = (ledger s)(p := (ledger s p)(cid \<mapsto> new_capability s type res rs))"
  proof (cases rule: capability_create_cases [where kmalloc = kmalloc and proc = "Some pid"
        and type = type and res = res and rs = rs])
    case (created pid' p' t)
    with ok p have eq: "p' = p" "t = s'" "cid = next_cap_id s" by auto
    have "cid \<notin> set (ids_of s p)"
      using inv bound eq(3) unfolding cap_inv_iff by (metis less_irrefl)
    then have "\<forall>c \<in> set (caps_of s p). cap_id c \<noteq> cid" by (auto simp: ids_of_def)
    then have "ledger s p cid = None" by (simp add: ledger_def find_None_iff)
    then have "ledger s' q i = ((ledger s)(p := (ledger s p)(cid \<mapsto> new_capability s type res rs))) q i" for q i
      using created(4) eq
      by (auto simp: ledger_def find_append new_capability_def split: option.splits)
    with eq(3) show ?thesis by blast
  qed (use ok in simp)
  then show "cid = next_cap_id s"
    "ledger s' = (ledger s)(p := (ledger s p)(cid \<mapsto> new_capability s type res rs))" by auto
qed

lemma ledger_revoke:
  assumes inv: "cap_inv s" and p: "get_process_table pid = Some p"
  shows "ledger (snd (capability_revoke (Some pid) cid s)) = (ledger s)(p := (ledger s p)(cid := None))"
    "fst (capability_revoke (Some pid) cid s) = (if ledger s p cid = None then -1 else 0)"
proof -
  have wf: "tables_wf s" using inv by (simp add: cap_inv_iff)
  have bound: "p < MAX_PROCESSES" using p by (rule get_process_table_bound)
  have dist: "distinct (map cap_id (caps_of s p))" using inv bound by (simp add: cap_inv_iff ids_of_def)
  from wf have "ledger (snd (capability_revoke (Some pid) cid s)) = (ledger s)(p := (ledger s p)(cid := None))
    \<and> fst (capability_revoke (Some pid) cid s) = (if ledger s p cid = None then -1 else 0)"
  proof (cases rule: capability_revoke_cases [where proc = "Some pid" and cid = cid])
    case (revoked pid' p' i t)
    with p have eq: "p' = p" by simp
    have i: "i < length (caps_of s p)" "cap_id (caps_of s p ! i) = cid" using revoked eq by simp_all
    note rm = set_swap_remove [OF i(1) dist [unfolded distinct_map, THEN conjunct1]] ids_swap_remove [OF dist i(1)]
    have found: "ledger s p cid = Some (caps_of s p ! i)"
      using i by (simp add: ledger_iff [OF inv bound])
    have "ledger t q j = ((ledger s)(p := (ledger s p)(cid := None))) q j" for q j
    proof (cases "q = p")
      case True
      have same: "c \<in> set (swap_remove i (caps_of s p)) \<longleftrightarrow> c \<in> set (caps_of s p)"
        if "cap_id c \<noteq> cid" for c using rm(1) i that by auto
      have gone: "\<forall>c \<in> set (swap_remove i (caps_of s p)). cap_id c \<noteq> cid"
        using rm(3) i by (metis DiffD2 image_eqI list.set_map singletonI)
      show ?thesis
      proof (cases "j = cid")
        case True
        with \<open>q = p\<close> gone revoked(6) eq show ?thesis by (auto simp: ledger_def find_None_iff)
      next
        case False
        with \<open>q = p\<close> find_cap_cong [OF rm(4) dist, of j] same revoked(6) eq show ?thesis
          by (auto simp: ledger_def)
      qed
    next
      case False
      with revoked(6) eq show ?thesis by (simp add: ledger_def)
    qed
    then have "ledger t = (ledger s)(p := (ledger s p)(cid := None))" by blast
    with revoked(5) found show ?thesis by simp
  next
    case absent
    then have "ledger s p cid = None" using p by (simp add: current_caps_def ledger_def find_None_iff)
    moreover from this have "(ledger s)(p := (ledger s p)(cid := None)) = ledger s"
      by (metis fun_upd_triv)
    ultimately show ?thesis using absent(2) by simp
  qed
  then show "ledger (snd (capability_revoke (Some pid) cid s)) = (ledger s)(p := (ledger s p)(cid := None))"
    "fst (capability_revoke (Some pid) cid s) = (if ledger s p cid = None then -1 else 0)" by auto
qed

text \<open>With memory available a capability is refused only to a process that holds 256 of them.\<close>

lemma resize_table_None:
  assumes "table_wf t" "initialized t" "resize_table kmalloc t = None" "\<And>n. kmalloc n \<noteq> None"
  shows "length (table_caps t) = 256"
proof -
  have full: "capacity t \<le> cap_count t" using assms(3) by (simp add: resize_table_def split: if_splits)
  have wf: "cap_count t = capacity t" "16 \<le> unat (capacity t)" "unat (capacity t) \<le> 256"
    using assms(1,2) full
    by (auto simp: table_wf_def INITIAL_CAPACITY_def MAX_CAPABILITIES_PER_PROCESS_def word_le_nat_alt
        intro: word_unat_eq_iff [THEN iffD2])
  have dbl: "unat (capacity t * 2) = unat (capacity t) * 2" using wf(3) by (simp add: unat_word_ariths)
  have "cap_count t \<ge> (if capacity t * 2 > 256 then 256 else capacity t * 2)"
  proof (rule ccontr)
    let ?new = "if capacity t * 2 > 256 then 256 else capacity t * 2"
    assume "\<not> cap_count t \<ge> ?new"
    moreover obtain a where "kmalloc ?new = Some a" using assms(4) by blast
    ultimately show False
      using assms(3) full unfolding resize_table_def Let_def MAX_CAPABILITIES_PER_PROCESS_def by simp
  qed
  then have "256 \<le> unat (capacity t)"
    using wf dbl by (auto simp: word_le_nat_alt word_less_nat_alt split: if_splits)
  with wf assms(2) show ?thesis by (simp add: table_caps_def)
qed

lemma capability_create_refused:
  assumes "tables_wf s" "get_process_table pid = Some p" "\<And>n. kmalloc n \<noteq> None"
    "length (caps_of s p) \<noteq> 256"
  shows "fst (capability_create kmalloc (Some pid) type res rs s) = next_cap_id s"
proof -
  have "table_wf (capability_tables s p)"
    using assms(1,2) by (simp add: tables_wf_def get_process_table_bound)
  moreover obtain rc t1 where e: "ensure_table_initialized kmalloc (capability_tables s p) = (rc, t1)"
    by fastforce
  ultimately have t1: "table_wf t1" "table_caps t1 = caps_of s p" "rc = 0 \<longrightarrow> initialized t1"
    using ensure_table_effect by (auto simp: caps_of_def)
  have rc: "rc = 0"
    using e assms(3) [of INITIAL_CAPACITY]
    by (auto simp: ensure_table_initialized_def Let_def Option.is_none_def split: if_splits)
  have "resize_table kmalloc t1 \<noteq> None"
    using resize_table_None [OF t1(1)] t1 rc assms(3,4) by auto
  then show ?thesis using assms(2) e rc by (auto simp: capability_create_def Let_def)
qed

section \<open>A small history\<close>

definition all_memory :: cap_alloc where
  "all_memory n = Some (\<lambda>_. \<lparr>cap_id = 0, cap_type = 0, resource_id = 0, rights = 0\<rparr>)"

definition blank_caps :: cap_state where
  "blank_caps = capability_init \<lparr>capability_tables = (\<lambda>_. \<lparr>capabilities = None, cap_count = 0, capacity = 0,
     initialized = False\<rparr>), next_cap_id = 0, capability_system_initialized = False\<rparr>"

text \<open>Process 7 creates a read-write capability for port 3.\<close>

definition one_cap :: cap_state where
  "one_cap = snd (capability_create all_memory (Some 7) CAP_TYPE_IPC_PORT 3 3 blank_caps)"

lemma blank_caps_inv: "cap_inv blank_caps"
  by (simp add: blank_caps_def cap_inv_init)

lemma process_7: "get_process_table 7 = Some 7" "get_process_table 8 = Some 8"
  by (simp_all add: get_process_table_def MAX_PROCESSES_def)

lemma blank_caps_next: "next_cap_id blank_caps = 1" "caps_of blank_caps 7 = []"
  by (simp_all add: blank_caps_def capability_init_def caps_of_def table_caps_def MAX_PROCESSES_def)

lemma one_cap_create:
  "capability_create all_memory (Some 7) CAP_TYPE_IPC_PORT 3 3 blank_caps = (1, one_cap)"
proof -
  have "tables_wf blank_caps" using blank_caps_inv by (simp add: cap_inv_iff)
  from capability_create_refused [OF this process_7(1), of all_memory]
  have "fst (capability_create all_memory (Some 7) CAP_TYPE_IPC_PORT 3 3 blank_caps) = 1"
    by (simp add: all_memory_def blank_caps_next)
  then show ?thesis unfolding one_cap_def by (metis prod.collapse)
qed

lemma one_cap_inv: "cap_inv one_cap"
  unfolding one_cap_def by (rule cap_inv_create [OF blank_caps_inv]) (simp add: blank_caps_next)

section \<open>Properties\<close>

text \<open>
  C7: numbers are unforgeable. After \<open>capability_init\<close> and any history of creations and revocations by
  any processes, shorter than the number of 64-bit values, every capability in the system has a
  number of its own: no two in one table and none shared by two processes, all of them non-zero and
  below the counter; and every table stays within its array and within 256 entries.
\<close>

theorem capability_history_inv:
  assumes "length ops < 2 ^ 64 - 1"
  shows "cap_inv (fold cap_step ops (capability_init s))"
  using assms by (intro cap_steps_inv cap_inv_init) (simp add: capability_init_def)

theorem capability_history_inv_witness:
  "cap_inv (fold cap_step [Cap_create all_memory (Some 7) CAP_TYPE_IPC_PORT 3 3, Cap_revoke (Some 7) 1]
     (capability_init blank_caps))"
  by (rule capability_history_inv) simp

text \<open>
  C8: what a created capability grants. A successful \<open>capability_create\<close> returns a number with which
  the creating process passes \<open>capability_check\<close> for exactly the rights it asked for, with which no
  process of another table passes any check, and which changes the outcome of no other check.
\<close>

theorem capability_create_grants:
  assumes inv: "cap_inv s" and ok: "capability_create kmalloc (Some pid) type res rs s = (cid, s')"
    "cid \<noteq> 0" and other: "get_process_table pid' \<noteq> get_process_table pid"
  shows "(capability_check (Some pid) cid right s' \<longleftrightarrow> rs AND right = right) \<and>
    \<not> capability_check (Some pid') cid right s' \<and>
    (i \<noteq> cid \<longrightarrow> capability_check (Some pid) i right s' = capability_check (Some pid) i right s) \<and>
    capability_check (Some pid') i right s' = capability_check (Some pid') i right s"
proof -
  obtain p where p: "get_process_table pid = Some p"
    using ok by (cases "get_process_table pid") (auto simp: capability_create_def)
  note l = ledger_create [OF inv ok p]
  have "ledger s q cid = None" if "q < MAX_PROCESSES" for q
  proof (rule ccontr)
    assume "ledger s q cid \<noteq> None"
    then obtain c where "c \<in> set (caps_of s q)" "cap_id c = cid"
      using ledger_iff [OF inv \<open>q < MAX_PROCESSES\<close>] by auto
    then have "cid \<in> set (ids_of s q)" by (auto simp: ids_of_def)
    with inv \<open>q < MAX_PROCESSES\<close> l(1) show False unfolding cap_inv_iff by (metis less_irrefl)
  qed
  with other p l(2) show ?thesis
    by (auto simp: capability_check_ledger new_capability_def get_process_table_bound)
qed

theorem capability_create_grants_witness:
  "capability_check (Some 7) 1 CAP_RIGHT_WRITE one_cap \<and> \<not> capability_check (Some 8) 1 CAP_RIGHT_WRITE one_cap"
proof -
  have "(3 :: u32) AND CAP_RIGHT_WRITE = CAP_RIGHT_WRITE" by (simp add: CAP_RIGHT_WRITE_def)
  with capability_create_grants [OF blank_caps_inv one_cap_create, of 8 CAP_RIGHT_WRITE 1]
  show ?thesis by (simp add: process_7)
qed

text \<open>
  C9: revocation. \<open>capability_revoke\<close> reports success exactly when the process holds the capability;
  afterwards the process passes no check with that number, and every other check of every process
  has the outcome it had before.
\<close>

theorem capability_revoke_exact:
  assumes inv: "cap_inv s" and revoke: "capability_revoke (Some pid) cid s = (rc, s')"
    and p: "get_process_table pid = Some p"
  shows "(rc = 0 \<longleftrightarrow> cid \<in> set (ids_of s p)) \<and> (rc \<noteq> 0 \<longrightarrow> s' = s) \<and>
    \<not> capability_check (Some pid) cid right s' \<and>
    (i \<noteq> cid \<or> get_process_table pid' \<noteq> get_process_table pid \<longrightarrow>
       capability_check (Some pid') i right s' = capability_check (Some pid') i right s)"
proof -
  note l = ledger_revoke [OF inv p, of cid, unfolded revoke fst_conv snd_conv]
  have "ledger s p cid = None \<longleftrightarrow> cid \<notin> set (ids_of s p)"
    by (auto simp: ledger_def find_None_iff ids_of_def)
  moreover have "rc \<noteq> 0 \<longrightarrow> s' = s"
    using revoke by (auto simp: capability_revoke_def Let_def split: option.splits)
  ultimately show ?thesis using l p by (auto simp: capability_check_ledger)
qed

theorem capability_revoke_exact_witness:
  "\<not> capability_check (Some 7) 1 CAP_RIGHT_READ (snd (capability_revoke (Some 7) 1 one_cap))"
  using capability_revoke_exact [OF one_cap_inv prod.collapse [symmetric] process_7(1)] by blast

text \<open>
  with memory available, \<open>capability_create\<close> is refused only to a process that already holds
  256 capabilities; it never loses or reorders the ones the process has.
\<close>

theorem capability_create_complete:
  assumes "cap_inv s" "get_process_table pid = Some p" "\<And>n. kmalloc n \<noteq> None"
    "length (caps_of s p) < 256"
  shows "fst (capability_create kmalloc (Some pid) type res rs s) = next_cap_id s \<and>
    caps_of (snd (capability_create kmalloc (Some pid) type res rs s)) p =
      caps_of s p @ [new_capability s type res rs]"
proof -
  have wf: "tables_wf s" and pos: "next_cap_id s \<noteq> 0" using assms(1) by (auto simp: cap_inv_iff)
  have ok: "fst (capability_create kmalloc (Some pid) type res rs s) = next_cap_id s"
    using assms(3,4) by (intro capability_create_refused [OF wf assms(2)]) simp_all
  from wf show ?thesis
  proof (cases rule: capability_create_cases [where kmalloc = kmalloc and proc = "Some pid"
        and type = type and res = res and rs = rs])
    case (created pid' p' s')
    with assms(2) show ?thesis by simp
  next
    case (refused s')
    with ok pos assms(4) show ?thesis by simp
  qed
qed

theorem capability_create_complete_witness:
  "fst (capability_create all_memory (Some 7) CAP_TYPE_IPC_PORT 3 3 blank_caps) = 1"
  using capability_create_complete [OF blank_caps_inv process_7(1), of all_memory CAP_TYPE_IPC_PORT 3 3]
  by (simp add: all_memory_def blank_caps_next)

section \<open>Transfer\<close>

text \<open>The 64-bit value stored little-endian at byte offset \<open>k\<close>.\<close>

definition load_u64 :: "u8 array \<Rightarrow> nat \<Rightarrow> u64" where
  "load_u64 a k = fold (\<lambda>j v. v OR push_bit (8 * j) (ucast (a (k + j)))) [0..<8] 0"

lemma store_u64_apply:
  "store_u64 k v a i = (if k \<le> i \<and> i < k + 8 then ucast (drop_bit (8 * (i - k)) v) else a i)"
proof -
  have "\<forall>i. store_u64 k v a i =
      (if k \<le> i \<and> i < k + 8 then ucast (drop_bit (8 * (i - k)) v) else a i)"
    unfolding store_u64_def
    by (rule for_range_induct [where I = "\<lambda>m b. \<forall>i. b i =
          (if k \<le> i \<and> i < k + m then ucast (drop_bit (8 * (i - k)) v) else a i)"]) auto
  then show ?thesis by simp
qed

lemma load_u64_stored:
  assumes "\<And>j. j < 8 \<Longrightarrow> a (k + j) = ucast (drop_bit (8 * j) v)"
  shows "load_u64 a k = v"
proof -
  let ?f = "\<lambda>j w. w OR push_bit (8 * j) (ucast (a (k + j)))"
  have "fold ?f [0..<m] 0 = take_bit (8 * m) v" if "m \<le> 8" for m
    using that
  proof (induction m)
    case (Suc m)
    then have "fold ?f [0..<Suc m] 0 =
        take_bit (8 * m) v OR push_bit (8 * m) (ucast (ucast (drop_bit (8 * m) v) :: u8))"
      using assms by simp
    also have "\<dots> = take_bit (8 * Suc m) v"
      by (rule bit_word_eqI) (auto simp: bit_simps)
    finally show ?case .
  qed simp
  from this [of 8] have "load_u64 a k = take_bit 64 v" by (simp add: load_u64_def)
  also have "\<dots> = v" by (rule bit_word_eqI) (simp add: bit_simps)
  finally show ?thesis .
qed

lemma load_store_u64:
  "load_u64 (store_u64 k v a) k = v"
  "k + 8 \<le> l \<or> l + 8 \<le> k \<Longrightarrow> load_u64 (store_u64 k v a) l = load_u64 a l"
  by (rule load_u64_stored, simp add: store_u64_apply)
    (auto simp: load_u64_def store_u64_apply intro!: fold_cong)

text \<open>
  transfer. For a message whose inline part is within bounds, \<open>capability_transfer\<close> succeeds
  exactly when the current process holds the capability with the transfer right and 32 bytes are
  left; then it appends the magic number and the type, resource and rights of that capability, keeps
  the bytes before them and stays within the 64 inline bytes. Otherwise the message is unchanged.
\<close>

theorem capability_transfer_correct:
  assumes bound: "unat (inline_size m) \<le> 64"
    and res: "capability_transfer proc (Some m) cid s = (rc, Some m')"
  shows "if \<exists>c. find (\<lambda>c. cap_id c = cid) (current_caps proc s) = Some c \<and>
        rights c AND CAP_RIGHT_TRANSFER = CAP_RIGHT_TRANSFER \<and> unat (inline_size m) \<le> 32
    then rc = 0 \<and> unat (inline_size m') = unat (inline_size m) + 32 \<and> unat (inline_size m') \<le> 64 \<and>
      (\<forall>i. i < unat (inline_size m) \<or> unat (inline_size m') \<le> i \<longrightarrow> inline_data m' i = inline_data m i) \<and>
      (let k = unat (inline_size m); c = the (find (\<lambda>c. cap_id c = cid) (current_caps proc s))
       in map (load_u64 (inline_data m')) [k, k + 8, k + 16, k + 24] =
            [CAP_MAGIC, ucast (cap_type c), resource_id c, ucast (rights c)])
    else rc = -1 \<and> m' = m"
proof -
  let ?P = "\<lambda>c. cap_id c = cid"
  have size: "unat (inline_size m + 32) = unat (inline_size m) + 32"
    using bound by (simp add: unat_word_ariths)
  have fits: "inline_size m + 32 \<le> IPC_INLINE_SIZE \<longleftrightarrow> unat (inline_size m) \<le> 32"
    using size by (simp add: IPC_INLINE_SIZE_def word_le_nat_alt)
  show ?thesis
  proof (cases "current_table proc s")
    case None
    with res show ?thesis by (auto simp: capability_transfer_def current_caps_table)
  next
    case (Some p)
    let ?t = "capability_tables s p"
    from Some have init: "initialized ?t" by (rule current_table_SomeD)
    have caps: "current_caps proc s = table_caps ?t" by (simp add: current_caps_table Some caps_of_def)
    show ?thesis
    proof (cases "find_entry ?P ?t")
      case None
      with res Some find_entry_caps(1) [OF init, of ?P] show ?thesis
        by (auto simp: capability_transfer_def caps)
    next
      case i: (Some i)
      define c where "c = the (capabilities ?t) i"
      have found: "find ?P (current_caps proc s) = Some c"
        unfolding caps c_def by (rule find_entry_caps(2) [OF init i])
      let ?m = "m\<lparr>inline_data := store_u64 (unat (inline_size m) + 24) (ucast (rights c))
          (store_u64 (unat (inline_size m) + 16) (resource_id c)
           (store_u64 (unat (inline_size m) + 8) (ucast (cap_type c))
            (store_u64 (unat (inline_size m)) CAP_MAGIC (inline_data m)))),
          inline_size := inline_size m + 32\<rparr>"
      have "capability_transfer proc (Some m) cid s =
          (if rights c AND CAP_RIGHT_TRANSFER = CAP_RIGHT_TRANSFER \<and> unat (inline_size m) \<le> 32
           then (0, Some ?m) else (-1, Some m))"
        unfolding capability_transfer_def Let_def option.case Some i c_def [symmetric] fits by simp
      with res found size show ?thesis
        by (auto simp: load_store_u64 store_u64_apply)
    qed
  qed
qed

text \<open>Process 7 with a transferable read capability for port 3, and an empty message.\<close>

definition transfer_cap :: cap_state where
  "transfer_cap = snd (capability_create all_memory (Some 7) CAP_TYPE_IPC_PORT 3 17 blank_caps)"

definition empty_message :: ipc_message_t where
  "empty_message = \<lparr>sender_tid = 0, msg_id = 0, msg_type = 0, inline_size = 0, inline_data = (\<lambda>_. 0),
     buffer = 0, buffer_size = 0\<rparr>"

lemma transfer_cap_caps:
  "current_caps (Some 7) transfer_cap =
     [\<lparr>cap_id = 1, cap_type = CAP_TYPE_IPC_PORT, resource_id = 3, rights = 17\<rparr>]"
proof -
  have "tables_wf blank_caps" using blank_caps_inv by (simp add: cap_inv_iff)
  then show ?thesis
  proof (cases rule: capability_create_cases [where kmalloc = all_memory and proc = "Some 7"
        and type = CAP_TYPE_IPC_PORT and res = 3 and rs = 17])
    case (created pid p s')
    then show ?thesis
      by (auto simp: transfer_cap_def current_caps_def process_7 blank_caps_next new_capability_def)
  next
    case (refused s')
    with capability_create_refused [OF \<open>tables_wf blank_caps\<close> process_7(1), of all_memory CAP_TYPE_IPC_PORT 3 17]
    show ?thesis by (simp add: all_memory_def blank_caps_next)
  qed
qed

lemma capability_transfer_keeps_pointer:
  "\<exists>m'. snd (capability_transfer proc (Some m) cid s) = Some m'"
  by (auto simp: capability_transfer_def Let_def split: option.splits)

theorem capability_transfer_correct_witness:
  "\<exists>m'. capability_transfer (Some 7) (Some empty_message) 1 transfer_cap = (0, Some m') \<and>
     unat (inline_size m') = 32 \<and>
     map (load_u64 (inline_data m')) [0, 8, 16, 24] = [CAP_MAGIC, 1, 3, 17]"
proof -
  obtain m' where m': "snd (capability_transfer (Some 7) (Some empty_message) 1 transfer_cap) = Some m'"
    using capability_transfer_keeps_pointer by blast
  have right: "(17 :: u32) AND CAP_RIGHT_TRANSFER = CAP_RIGHT_TRANSFER" by (simp add: CAP_RIGHT_TRANSFER_def)
  have size: "inline_size empty_message = 0" by (simp add: empty_message_def)
  have "capability_transfer (Some 7) (Some empty_message) 1 transfer_cap =
      (fst (capability_transfer (Some 7) (Some empty_message) 1 transfer_cap), Some m')"
    using m' by (metis prod.collapse)
  from capability_transfer_correct [OF _ this] this show ?thesis
    by (auto simp: transfer_cap_caps right size CAP_TYPE_IPC_PORT_def)
qed

text \<open>
  The addition in the space check wraps: an inline size within 32 of the top of its range passes the
  check, and the descriptor is written at that offset, far behind the 64 bytes of the message.
\<close>

theorem capability_transfer_overflow:
  assumes c: "find (\<lambda>c. cap_id c = cid) (current_caps proc s) = Some c"
    "rights c AND CAP_RIGHT_TRANSFER = CAP_RIGHT_TRANSFER"
    and big: "2 ^ 32 - 32 \<le> unat (inline_size m)"
  shows "\<exists>m'. capability_transfer proc (Some m) cid s = (0, Some m') \<and>
    load_u64 (inline_data m') (unat (inline_size m)) = CAP_MAGIC"
proof -
  obtain p where p: "current_table proc s = Some p"
    using c(1) by (cases "current_table proc s") (auto simp: current_caps_table)
  then have init: "initialized (capability_tables s p)" by (rule current_table_SomeD)
  have caps: "current_caps proc s = table_caps (capability_tables s p)"
    by (simp add: current_caps_table p caps_of_def)
  obtain i where i: "find_entry (\<lambda>c. cap_id c = cid) (capability_tables s p) = Some i"
    using find_entry_caps(1) [OF init, of "\<lambda>c. cap_id c = cid"] c(1) caps by auto
  have ci: "the (capabilities (capability_tables s p)) i = c"
    using find_entry_caps(2) [OF init i] c(1) caps by simp
  have lt: "unat (inline_size m) < 2 ^ 32" using unsigned_less [of "inline_size m"] by simp
  have "unat (inline_size m + 32) = unat (inline_size m) + 32 - 2 ^ 32"
    using big lt by (simp add: unat_word_ariths mod_if)
  then have "inline_size m + 32 \<le> IPC_INLINE_SIZE"
    using lt by (simp add: IPC_INLINE_SIZE_def word_le_nat_alt)
  then show ?thesis
    using c(2) by (simp add: capability_transfer_def Let_def p i ci load_store_u64)
qed

end
