(* ===== verification/Ipc.thy ===== *)
theory Ipc
  imports Msg_Queue Capability_Props
begin

text \<open>
  Message passing, \<^verbatim>\<open>kernel/ipc/ipc.c\<close>: the port table, the operations on ports, and the system of
  threads that run them.

  A blocking call is cut where the source gives up the processor. The part before the port's lock
  is taken (\<open>ipc_send_enter\<close>), the part under the lock up to a registration in a waiting list
  (\<open>ipc_send_locked\<close>), and the part after \<^verbatim>\<open>thread_block\<close> returns (\<open>ipc_send_enqueue\<close>) are functions;
  \<open>ipc_step\<close> interleaves them between threads, \<open>ipc_pc\<close> being where a thread is. Between the release
  of the lock and \<^verbatim>\<open>thread_block\<close> other threads can run, as in the source. A thread whose port has
  been destroyed under it dereferences freed memory; it goes to \<open>Faulted\<close>.

  Outcomes of \<^verbatim>\<open>kmalloc\<close> are arguments: a truth value for the waiting-list nodes, an address for a
  message node. \<^verbatim>\<open>thread_unblock\<close> acts only on threads that are blocked, as
  \<^verbatim>\<open>kernel/sched/scheduler.c\<close> has it.
\<close>

section \<open>Ports\<close>

definition MAX_PORTS :: nat where "MAX_PORTS = 256"
definition MAX_QUEUE_SIZE :: size_t where "MAX_QUEUE_SIZE = 32"

record ipc_state =
  port_table :: "ipc_port_internal option array"
  next_port_id :: u64

definition ipc_init :: "'a ipc_state_scheme \<Rightarrow> 'a ipc_state_scheme" where
  "ipc_init s = s\<lparr>port_table := (\<lambda>i. if i < MAX_PORTS then None else port_table s i)\<rparr>"

text \<open>\<open>ok\<close> tells whether \<^verbatim>\<open>kzalloc\<close> found memory, \<open>tid\<close> is the current thread.\<close>

definition ipc_create_port :: "bool \<Rightarrow> u64 \<Rightarrow> 'a ipc_state_scheme \<Rightarrow> u64 \<times> 'a ipc_state_scheme" where
  "ipc_create_port ok tid s =
     (if next_port_id s \<ge> of_nat MAX_PORTS then (0, s)
      else if \<not> ok then (0, s)
      else let pid = next_port_id s;
               port = \<lparr>port_id = pid, owner_tid = tid, nodes = Map.empty, queue_head = 0,
                       queue_tail = 0, queue_size = 0, queue_max = MAX_QUEUE_SIZE,
                       waiting_receivers = [], waiting_senders = []\<rparr>
           in (pid, s\<lparr>next_port_id := pid + 1,
                      port_table := (port_table s)(unat pid \<mapsto> port)\<rparr>))"

text \<open>The result, the threads to unblock in order, and the new state.\<close>

definition ipc_destroy_port ::
  "u64 \<Rightarrow> 'a ipc_state_scheme \<Rightarrow> int \<times> u64 list \<times> 'a ipc_state_scheme" where
  "ipc_destroy_port pid s =
     (if pid \<ge> of_nat MAX_PORTS then (-1, [], s)
      else case port_table s (unat pid) of
             None \<Rightarrow> (-1, [], s)
           | Some p \<Rightarrow> (0, waiting_receivers p @ waiting_senders p,
                        s\<lparr>port_table := (port_table s)(unat pid := None)\<rparr>))"

definition lookup_port :: "u64 \<Rightarrow> 'a ipc_state_scheme \<Rightarrow> ipc_port_internal option" where
  "lookup_port pid s = (if pid \<ge> of_nat MAX_PORTS then None else port_table s (unat pid))"

text \<open>
  The capability check of \<open>ipc_send\<close> and \<open>ipc_receive\<close>: without a capability for the port only its
  owner passes, with one the capability must grant the right.
\<close>

definition port_authorized :: "u64 \<Rightarrow> (u64 \<Rightarrow> bool) \<Rightarrow> u64 \<Rightarrow> u64 \<Rightarrow> bool" where
  "port_authorized cid granted owner tid = (if cid = 0 then owner = tid else granted cid)"

definition ipc_send_enter ::
  "pid_t option \<Rightarrow> u64 \<Rightarrow> u64 \<Rightarrow> ipc_message_t option \<Rightarrow> cap_state \<Rightarrow> 'a ipc_state_scheme \<Rightarrow> int" where
  "ipc_send_enter proc tid pid msg cs s =
     (if Option.is_none msg then -1
      else case lookup_port pid s of
             None \<Rightarrow> -1
           | Some p \<Rightarrow>
               if port_authorized (capability_find_for_port proc pid cs)
                    (\<lambda>cid. capability_check proc cid CAP_RIGHT_WRITE cs) (owner_tid p) tid
               then 0 else -1)"

datatype call_result = Done int | Must_block

text \<open>Lines 211 to 245: link the message and wake a receiver.\<close>

definition ipc_send_enqueue :: "addr option \<Rightarrow> u64 \<Rightarrow> ipc_message_t \<Rightarrow> ipc_port_internal \<Rightarrow>
    call_result \<times> u64 list \<times> ipc_port_internal" where
  "ipc_send_enqueue node tid msg p =
     (case node of
        None \<Rightarrow> (Done (-1), [], p)
      | Some a \<Rightarrow>
          (let p1 = enqueue_node a (msg\<lparr>sender_tid := tid\<rparr>) p
           in case waiting_receivers p1 of
                [] \<Rightarrow> (Done 0, [], p1)
              | w # ws \<Rightarrow> (Done 0, [w], p1\<lparr>waiting_receivers := ws\<rparr>)))"

definition ipc_send_locked :: "bool \<Rightarrow> addr option \<Rightarrow> u64 \<Rightarrow> ipc_message_t \<Rightarrow> ipc_port_internal \<Rightarrow>
    call_result \<times> u64 list \<times> ipc_port_internal" where
  "ipc_send_locked ok node tid msg p =
     (if queue_size p \<ge> queue_max p
      then if \<not> ok then (Done (-1), [], p)
           else (Must_block, [], p\<lparr>waiting_senders := tid # waiting_senders p\<rparr>)
      else ipc_send_enqueue node tid msg p)"

definition ipc_receive_enter ::
  "pid_t option \<Rightarrow> u64 \<Rightarrow> u64 \<Rightarrow> bool \<Rightarrow> cap_state \<Rightarrow> 'a ipc_state_scheme \<Rightarrow> int" where
  "ipc_receive_enter proc tid pid msg_ok cs s =
     (if \<not> msg_ok then -1
      else case lookup_port pid s of
             None \<Rightarrow> -1
           | Some p \<Rightarrow>
               if port_authorized (capability_find_for_port proc pid cs)
                    (\<lambda>cid. capability_check proc cid CAP_RIGHT_READ cs) (owner_tid p) tid
               then 0 else -1)"

text \<open>Unlink the first message and wake a sender.\<close>

definition receive_dequeue :: "ipc_port_internal \<Rightarrow> ipc_message_t \<times> u64 list \<times> ipc_port_internal" where
  "receive_dequeue p =
     (let (m, p1) = dequeue_node p
      in case waiting_senders p1 of
           [] \<Rightarrow> (m, [], p1)
         | w # ws \<Rightarrow> (m, [w], p1\<lparr>waiting_senders := ws\<rparr>))"

text \<open>One round of the loop of \<open>ipc_receive\<close> under the lock; the message is \<open>None\<close> unless delivered.\<close>

definition ipc_receive_locked :: "bool \<Rightarrow> u64 \<Rightarrow> ipc_port_internal \<Rightarrow>
    call_result \<times> ipc_message_t option \<times> u64 list \<times> ipc_port_internal" where
  "ipc_receive_locked ok tid p =
     (if queue_size p = 0
      then if \<not> ok then (Done (-1), None, [], p)
           else (Must_block, None, [], p\<lparr>waiting_receivers := tid # waiting_receivers p\<rparr>)
      else if queue_head p = 0 then (Done (-1), None, [], p)
      else let (m, ws, p1) = receive_dequeue p in (Done 0, Some m, ws, p1))"

definition ipc_try_receive :: "u64 \<Rightarrow> bool \<Rightarrow> 'a ipc_state_scheme \<Rightarrow>
    int \<times> ipc_message_t option \<times> u64 list \<times> 'a ipc_state_scheme" where
  "ipc_try_receive pid msg_ok s =
     (if \<not> msg_ok then (-1, None, [], s)
      else case lookup_port pid s of
             None \<Rightarrow> (-1, None, [], s)
           | Some p \<Rightarrow>
               if queue_size p = 0 then (-1, None, [], s)
               else let (m, ws, p1) = receive_dequeue p
                    in (0, Some m, ws, s\<lparr>port_table := (port_table s)(unat pid \<mapsto> p1)\<rparr>))"

section \<open>Threads\<close>

text \<open>\<open>Call\<close> marks the two halves of \<open>ipc_call\<close>.\<close>

datatype cont = Plain | Call

datatype ipc_pc =
    Idle
  | Send_entry cont u64 ipc_message_t
  | Send_registered cont u64 ipc_message_t
  | Send_blocked cont u64 ipc_message_t
  | Send_woken cont u64 ipc_message_t
  | Call_sent
  | Call_reply u64
  | Recv_entry cont u64
  | Recv_registered cont u64
  | Recv_blocked cont u64
  | Recv_woken cont u64
  | Call_done u64
  | Faulted

record ipc_sys = ipc_state +
  caps :: cap_state
  pc :: "u64 \<Rightarrow> ipc_pc"
  proc_of :: "u64 \<Rightarrow> pid_t option"

fun unblocked :: "ipc_pc \<Rightarrow> ipc_pc" where
  "unblocked (Send_blocked c pid m) = Send_woken c pid m"
| "unblocked (Recv_blocked c pid) = Recv_woken c pid"
| "unblocked x = x"

definition thread_unblock_all :: "u64 list \<Rightarrow> ipc_sys \<Rightarrow> ipc_sys" where
  "thread_unblock_all ts s = s\<lparr>pc := (\<lambda>t. if t \<in> set ts then unblocked (pc s t) else pc s t)\<rparr>"

definition set_pc :: "u64 \<Rightarrow> ipc_pc \<Rightarrow> ipc_sys \<Rightarrow> ipc_sys" where
  "set_pc t x s = s\<lparr>pc := (pc s)(t := x)\<rparr>"

definition put_port :: "u64 \<Rightarrow> ipc_port_internal \<Rightarrow> ipc_sys \<Rightarrow> ipc_sys" where
  "put_port pid p s = s\<lparr>port_table := (port_table s)(unat pid \<mapsto> p)\<rparr>"

text \<open>Where a sender, a receiver goes after its part under the lock.\<close>

fun after_send :: "cont \<Rightarrow> u64 \<Rightarrow> ipc_message_t \<Rightarrow> call_result \<Rightarrow> ipc_pc" where
  "after_send c pid m Must_block = Send_registered c pid m"
| "after_send c pid m (Done rc) = (if c = Call \<and> rc = 0 then Call_sent else Idle)"

fun after_recv :: "cont \<Rightarrow> u64 \<Rightarrow> call_result \<Rightarrow> ipc_pc" where
  "after_recv c pid Must_block = Recv_registered c pid"
| "after_recv c pid (Done rc) = (if c = Call then Call_done pid else Idle)"

datatype ipc_event =
    Tau
  | Admitted u64 u64
  | Sent u64 u64 ipc_message_t
  | Got u64 u64 ipc_message_t

definition sent_event :: "call_result \<Rightarrow> u64 \<Rightarrow> u64 \<Rightarrow> ipc_message_t \<Rightarrow> ipc_event" where
  "sent_event res pid t m = (if res = Done 0 then Sent pid t (m\<lparr>sender_tid := t\<rparr>) else Tau)"

definition got_event :: "u64 \<Rightarrow> u64 \<Rightarrow> ipc_message_t option \<Rightarrow> ipc_event" where
  "got_event pid t m = (case m of None \<Rightarrow> Tau | Some m \<Rightarrow> Got pid t m)"

text \<open>The port a thread is about to dereference.\<close>

fun holds_port :: "ipc_pc \<Rightarrow> u64 option" where
  "holds_port (Send_entry c pid m) = Some pid"
| "holds_port (Send_woken c pid m) = Some pid"
| "holds_port (Recv_entry c pid) = Some pid"
| "holds_port (Recv_woken c pid) = Some pid"
| "holds_port x = None"

definition node_ok :: "addr option \<Rightarrow> ipc_port_internal \<Rightarrow> bool" where
  "node_ok node p = (case node of None \<Rightarrow> True | Some a \<Rightarrow> node_fresh a p)"

inductive ipc_step :: "ipc_sys \<Rightarrow> ipc_event \<Rightarrow> ipc_sys \<Rightarrow> bool" where
  cap_call: "ipc_step s Tau (s\<lparr>caps := cap_step op (caps s)\<rparr>)"
| create: "pc s t = Idle \<Longrightarrow> ipc_create_port ok t s = (r, s') \<Longrightarrow> ipc_step s Tau s'"
| destroy: "pc s t = Idle \<Longrightarrow> ipc_destroy_port pid s = (r, ws, s') \<Longrightarrow>
    ipc_step s Tau (thread_unblock_all ws s')"
| send_enter: "pc s t = Idle \<Longrightarrow> ipc_send_enter (proc_of s t) t pid (Some m) (caps s) s = 0 \<Longrightarrow>
    ipc_step s (Admitted pid t) (set_pc t (Send_entry c pid m) s)"
| send_locked: "pc s t = Send_entry c pid m \<Longrightarrow> port_table s (unat pid) = Some p \<Longrightarrow> node_ok node p \<Longrightarrow>
    ipc_send_locked ok node t m p = (res, ws, p') \<Longrightarrow>
    ipc_step s (sent_event res pid t m)
      (thread_unblock_all ws (set_pc t (after_send c pid m res) (put_port pid p' s)))"
| send_block: "pc s t = Send_registered c pid m \<Longrightarrow> ipc_step s Tau (set_pc t (Send_blocked c pid m) s)"
| send_resume: "pc s t = Send_woken c pid m \<Longrightarrow> port_table s (unat pid) = Some p \<Longrightarrow> node_ok node p \<Longrightarrow>
    ipc_send_enqueue node t m p = (res, ws, p') \<Longrightarrow>
    ipc_step s (sent_event res pid t m)
      (thread_unblock_all ws (set_pc t (after_send c pid m res) (put_port pid p' s)))"
| recv_enter: "pc s t = Idle \<and> c = Plain \<or> pc s t = Call_reply pid \<and> c = Call \<Longrightarrow>
    ipc_receive_enter (proc_of s t) t pid True (caps s) s = r \<Longrightarrow>
    ipc_step s Tau (set_pc t (if r = 0 then Recv_entry c pid else after_recv c pid (Done r)) s)"
| recv_locked: "pc s t = Recv_entry c pid \<or> pc s t = Recv_woken c pid \<Longrightarrow>
    port_table s (unat pid) = Some p \<Longrightarrow> ipc_receive_locked ok t p = (res, m, ws, p') \<Longrightarrow>
    ipc_step s (got_event pid t m)
      (thread_unblock_all ws (set_pc t (after_recv c pid res) (put_port pid p' s)))"
| recv_block: "pc s t = Recv_registered c pid \<Longrightarrow> ipc_step s Tau (set_pc t (Recv_blocked c pid) s)"
| try_recv: "pc s t = Idle \<Longrightarrow> ipc_try_receive pid True s = (r, m, ws, s') \<Longrightarrow>
    ipc_step s (got_event pid t m) (thread_unblock_all ws s')"
| call_create: "pc s t = Call_sent \<Longrightarrow> ipc_create_port ok t s = (r, s') \<Longrightarrow>
    ipc_step s Tau (set_pc t (if r = 0 then Idle else Call_reply r) s')"
| call_done: "pc s t = Call_done pid \<Longrightarrow> ipc_destroy_port pid s = (r, ws, s') \<Longrightarrow>
    ipc_step s Tau (thread_unblock_all ws (set_pc t Idle s'))"
| fault: "holds_port (pc s t) = Some pid \<Longrightarrow> port_table s (unat pid) = None \<Longrightarrow>
    ipc_step s Tau (set_pc t Faulted s)"

inductive ipc_run :: "ipc_sys \<Rightarrow> ipc_event list \<Rightarrow> ipc_sys \<Rightarrow> bool" where
  start: "ipc_run s [] s"
| more: "ipc_run s tr s' \<Longrightarrow> ipc_step s' e s'' \<Longrightarrow> ipc_run s (tr @ [e]) s''"

text \<open>The kernel after \<open>ipc_init\<close>: no port, every thread outside the IPC code.\<close>

definition ipc_start :: "ipc_sys \<Rightarrow> bool" where
  "ipc_start s \<longleftrightarrow> (\<forall>i. port_table s i = None) \<and> next_port_id s = 1 \<and> (\<forall>t. pc s t = Idle)"

end
