(* ===== verification/Ipc_Props.thy ===== *)
theory Ipc_Props
  imports Ipc
begin

text \<open>
  Properties of the IPC system: every message that is received was sent, once, in order, by the
  thread it names, and that thread was admitted to the port. The locale \<open>port_authority\<close> is what the
  admission check needs of the capability system; it is interpreted on \<open>Capability\<close>. The section on
  waiting shows two schedules the code does not handle.
\<close>

section \<open>Traces\<close>

fun sent_msgs :: "nat \<Rightarrow> ipc_event \<Rightarrow> ipc_message_t list" where
  "sent_msgs i (Sent pid t m) = (if unat pid = i then [m] else [])"
| "sent_msgs i e = []"

fun got_msgs :: "nat \<Rightarrow> ipc_event \<Rightarrow> ipc_message_t list" where
  "got_msgs i (Got pid t m) = (if unat pid = i then [m] else [])"
| "got_msgs i e = []"

definition sent_to :: "nat \<Rightarrow> ipc_event list \<Rightarrow> ipc_message_t list" where
  "sent_to i tr = concat (map (sent_msgs i) tr)"

definition got_from :: "nat \<Rightarrow> ipc_event list \<Rightarrow> ipc_message_t list" where
  "got_from i tr = concat (map (got_msgs i) tr)"

lemma traces_snoc [simp]:
  "sent_to i (tr @ [e]) = sent_to i tr @ sent_msgs i e"
  "got_from i (tr @ [e]) = got_from i tr @ got_msgs i e"
  "sent_to i [] = []" "got_from i [] = []"
  by (simp_all add: sent_to_def got_from_def)

section \<open>Ports\<close>

lemma queue_waiting [simp]:
  "queue_inv (p\<lparr>waiting_receivers := ws\<rparr>) = queue_inv p"
  "queue_inv (p\<lparr>waiting_senders := ws\<rparr>) = queue_inv p"
  "queue_msgs (p\<lparr>waiting_receivers := ws\<rparr>) = queue_msgs p"
  "queue_msgs (p\<lparr>waiting_senders := ws\<rparr>) = queue_msgs p"
  by (simp_all add: queue_inv_def queue_rep_def queue_msgs_def)

lemma send_enqueue_effect:
  assumes "queue_inv p" "node_ok node p" "ipc_send_enqueue node t m p = (res, ws, p')"
  shows "queue_inv p' \<and> queue_msgs p' = queue_msgs p @ (if res = Done 0 then [m\<lparr>sender_tid := t\<rparr>] else [])"
  using assms linked.enq_inv linked.enq_elems
  by (fastforce simp: ipc_send_enqueue_def node_ok_def Let_def split: option.splits list.splits)

lemma send_locked_effect:
  assumes "queue_inv p" "node_ok node p" "ipc_send_locked ok node t m p = (res, ws, p')"
  shows "queue_inv p' \<and> queue_msgs p' = queue_msgs p @ (if res = Done 0 then [m\<lparr>sender_tid := t\<rparr>] else [])"
  using assms send_enqueue_effect by (auto simp: ipc_send_locked_def split: if_splits)

lemma receive_dequeue_effect:
  assumes "queue_inv p" "queue_size p \<noteq> 0" "receive_dequeue p = (m, ws, p')"
  shows "queue_inv p' \<and> queue_msgs p = m # queue_msgs p'"
proof -
  have "queue_msgs p \<noteq> []" using assms(1,2) by (simp add: queue_empty_iff)
  with assms linked.deq_inv [of p] linked.deq_elems [of p] show ?thesis
    by (auto simp: receive_dequeue_def split: prod.splits list.splits)
qed

lemma receive_locked_effect:
  assumes "queue_inv p" "ipc_receive_locked ok t p = (res, mo, ws, p')"
  shows "queue_inv p' \<and> queue_msgs p = (case mo of None \<Rightarrow> [] | Some m \<Rightarrow> [m]) @ queue_msgs p'"
  using assms receive_dequeue_effect
  by (auto simp: ipc_receive_locked_def split: if_splits prod.splits)

text \<open>
  The invariant on ports and traces: for a port that exists, what was sent to it is what was received
  from it followed by what is queued; a number not yet given out occurs in no event.
\<close>

definition ports_inv :: "ipc_event list \<Rightarrow> 'a ipc_state_scheme \<Rightarrow> bool" where
  "ports_inv tr s \<longleftrightarrow>
     0 < next_port_id s \<and> unat (next_port_id s) \<le> MAX_PORTS \<and>
     (\<forall>i p. port_table s i = Some p \<longrightarrow> i < unat (next_port_id s) \<and> queue_inv p \<and>
        sent_to i tr = got_from i tr @ queue_msgs p) \<and>
     (\<forall>i. unat (next_port_id s) \<le> i \<longrightarrow> sent_to i tr = [] \<and> got_from i tr = []) \<and>
     (\<forall>i. \<exists>rest. sent_to i tr = got_from i tr @ rest)"

lemma ports_inv_cong:
  assumes "ports_inv tr s" "port_table s' = port_table s" "next_port_id s' = next_port_id s"
    "\<And>i. sent_msgs i e = []" "\<And>i. got_msgs i e = []"
  shows "ports_inv (tr @ [e]) s'"
  using assms by (simp add: ports_inv_def)

lemma ports_inv_put:
  assumes inv: "ports_inv tr s" and p: "port_table s i = Some p"
    and s': "port_table s' = (port_table s)(i \<mapsto> p')" "next_port_id s' = next_port_id s"
    and q: "queue_inv p'" "queue_msgs p @ sent_msgs i e = got_msgs i e @ queue_msgs p'"
    and e: "\<And>j. j \<noteq> i \<Longrightarrow> sent_msgs j e = [] \<and> got_msgs j e = []"
  shows "ports_inv (tr @ [e]) s'"
proof -
  have i: "i < unat (next_port_id s)" "sent_to i tr = got_from i tr @ queue_msgs p"
    using inv p by (auto simp: ports_inv_def)
  then have eq: "sent_to i (tr @ [e]) = got_from i (tr @ [e]) @ queue_msgs p'" using q(2) by simp
  have other: "sent_to j (tr @ [e]) = sent_to j tr" "got_from j (tr @ [e]) = got_from j tr"
    if "j \<noteq> i" for j using e [OF that] by simp_all
  show ?thesis
    unfolding ports_inv_def s'
  proof (intro conjI allI impI)
    fix j assume "unat (next_port_id s) \<le> j"
    with i(1) inv other [of j] show "sent_to j (tr @ [e]) = []" "got_from j (tr @ [e]) = []"
      by (auto simp: ports_inv_def simp del: traces_snoc)
  next
    fix j show "\<exists>rest. sent_to j (tr @ [e]) = got_from j (tr @ [e]) @ rest"
      using inv other [of j] eq by (cases "j = i") (auto simp: ports_inv_def simp del: traces_snoc)
  next
    fix j r assume "((port_table s)(i \<mapsto> p')) j = Some r"
    then have "j = i \<and> r = p' \<or> j \<noteq> i \<and> port_table s j = Some r" by (auto split: if_splits)
    with inv i(1) q(1) eq other [of j]
    show "j < unat (next_port_id s)" "queue_inv r" "sent_to j (tr @ [e]) = got_from j (tr @ [e]) @ queue_msgs r"
      by (auto simp: ports_inv_def simp del: traces_snoc)
  qed (use inv in \<open>auto simp: ports_inv_def\<close>)
qed

lemma ports_inv_create:
  assumes inv: "ports_inv tr s" and c: "ipc_create_port ok t s = (r, s')"
  shows "ports_inv (tr @ [Tau]) s'"
proof (cases "s' = s")
  case True
  with inv show ?thesis by (auto intro: ports_inv_cong)
next
  case False
  let ?n = "unat (next_port_id s)"
  from c False obtain p where lt: "next_port_id s < of_nat MAX_PORTS"
    and s': "port_table s' = (port_table s)(?n \<mapsto> p)" "next_port_id s' = next_port_id s + 1"
    and p: "nodes p = Map.empty" "queue_head p = 0" "queue_tail p = 0" "queue_size p = 0"
    by (auto simp: ipc_create_port_def Let_def not_le split: if_splits)
  have n: "unat (next_port_id s + 1) = Suc ?n" using lt by (rule unat_succ_less)
  moreover have "Suc ?n \<le> MAX_PORTS" using lt by (simp add: MAX_PORTS_def word_less_nat_alt)
  moreover have "0 < next_port_id s + 1" using n by (simp add: word_less_nat_alt)
  moreover have "queue_rep [] p" by (simp add: queue_rep_def p)
  then have "queue_inv p" "queue_msgs p = []" by (auto simp: queue_inv_def queue_msgs_rep)
  ultimately show ?thesis
    using inv unfolding ports_inv_def s' by (auto split: if_splits simp: less_Suc_eq Suc_le_eq)
qed

lemma ports_inv_destroy:
  assumes inv: "ports_inv tr s" and d: "ipc_destroy_port pid s = (r, ws, s')"
  shows "ports_inv (tr @ [Tau]) s'"
proof -
  have "port_table s' i = Some p \<Longrightarrow> port_table s i = Some p" "next_port_id s' = next_port_id s" for i p
    using d by (auto simp: ipc_destroy_port_def split: if_splits option.splits)
  with inv show ?thesis by (auto simp: ports_inv_def)
qed

lemma sys_simps [simp]:
  "port_table (thread_unblock_all ws s) = port_table s"
  "next_port_id (thread_unblock_all ws s) = next_port_id s"
  "port_table (set_pc t x s) = port_table s" "next_port_id (set_pc t x s) = next_port_id s"
  "port_table (put_port pid p s) = (port_table s)(unat pid \<mapsto> p)"
  "next_port_id (put_port pid p s) = next_port_id s"
  by (simp_all add: thread_unblock_all_def set_pc_def put_port_def)

lemma sent_event_msgs [simp]:
  "sent_msgs i (sent_event res pid t m) = (if res = Done 0 \<and> unat pid = i then [m\<lparr>sender_tid := t\<rparr>] else [])"
  "got_msgs i (sent_event res pid t m) = []"
  "sent_msgs i (got_event pid t mo) = []"
  "got_msgs i (got_event pid t mo) = (if unat pid = i then (case mo of None \<Rightarrow> [] | Some m \<Rightarrow> [m]) else [])"
  by (auto simp: sent_event_def got_event_def split: option.splits)

lemma ports_inv_ext:
  "ports_inv tr s' \<Longrightarrow> port_table s'' = port_table s' \<Longrightarrow> next_port_id s'' = next_port_id s' \<Longrightarrow> ports_inv tr s''"
  by (simp add: ports_inv_def)

lemma ipc_step_ports:
  assumes "ipc_step s e s'" "ports_inv tr s"
  shows "ports_inv (tr @ [e]) s'"
  using assms
proof (induction rule: ipc_step.induct)
  case (send_locked s t c pid m p node ok res ws p')
  then have p: "queue_inv p" by (simp add: ports_inv_def)
  from send_locked send_locked_effect [OF p] show ?case by (intro ports_inv_put) auto
next
  case (send_resume s t c pid m p node res ws p')
  then have p: "queue_inv p" by (simp add: ports_inv_def)
  from send_resume send_enqueue_effect [OF p] show ?case by (intro ports_inv_put) auto
next
  case (recv_locked s t c pid p ok res m ws p')
  then have p: "queue_inv p" by (simp add: ports_inv_def)
  from recv_locked receive_locked_effect [OF p] show ?case by (intro ports_inv_put) auto
next
  case (try_recv s t pid r m ws s')
  show ?case
  proof (cases m)
    case None
    with try_recv have "s' = s"
      by (auto simp: ipc_try_receive_def Let_def split: if_splits option.splits prod.splits)
    with None try_recv show ?thesis by (intro ports_inv_cong) (auto simp: got_event_def)
  next
    case (Some m')
    with try_recv obtain p p' where p: "port_table s (unat pid) = Some p" "queue_size p \<noteq> 0"
      "receive_dequeue p = (m', ws, p')" "s' = s\<lparr>port_table := (port_table s)(unat pid \<mapsto> p')\<rparr>"
      by (auto simp: ipc_try_receive_def Let_def lookup_port_def split: if_splits option.splits prod.splits)
    then have "queue_inv p" using try_recv by (simp add: ports_inv_def)
    from receive_dequeue_effect [OF this p(2,3)] p Some try_recv show ?thesis
      by (intro ports_inv_put) auto
  qed
next
  case (create s t ok r s')
  then show ?case by (intro ports_inv_create)
next
  case (destroy s t pid r ws s')
  show ?case by (rule ports_inv_ext [OF ports_inv_destroy [OF destroy(3,2)]]) simp_all
next
  case (call_create s t ok r s')
  show ?case by (rule ports_inv_ext [OF ports_inv_create [OF call_create(3,2)]]) simp_all
next
  case (call_done s t pid r ws s')
  show ?case by (rule ports_inv_ext [OF ports_inv_destroy [OF call_done(3,2)]]) simp_all
qed (erule ports_inv_cong; simp)+

section \<open>Senders\<close>

fun sends_on :: "ipc_pc \<Rightarrow> u64 option" where
  "sends_on (Send_entry c pid m) = Some pid"
| "sends_on (Send_registered c pid m) = Some pid"
| "sends_on (Send_blocked c pid m) = Some pid"
| "sends_on (Send_woken c pid m) = Some pid"
| "sends_on x = None"

lemma sends_on_unblocked [simp]: "sends_on (unblocked x) = sends_on x"
  by (cases x) auto

lemma pc_simps [simp]:
  "sends_on (pc (thread_unblock_all ws s) t) = sends_on (pc s t)"
  "pc (set_pc t x s) u = (if u = t then x else pc s u)"
  "pc (put_port pid p s) = pc s"
  by (simp_all add: thread_unblock_all_def set_pc_def put_port_def)

lemma sends_on_after:
  "sends_on (after_send c pid m res) = (if res = Must_block then Some pid else None)"
  "sends_on (after_recv c pid res) = None"
  by (cases res; simp)+

text \<open>A thread in the middle of a send was admitted; a message in the trace names its sender.\<close>

definition senders_inv :: "ipc_event list \<Rightarrow> ipc_sys \<Rightarrow> bool" where
  "senders_inv tr s \<longleftrightarrow>
     (\<forall>t pid. sends_on (pc s t) = Some pid \<longrightarrow> Admitted pid t \<in> set tr) \<and>
     (\<forall>pid t m. Sent pid t m \<in> set tr \<longrightarrow> sender_tid m = t \<and> Admitted pid t \<in> set tr)"

lemma senders_inv_step:
  assumes inv: "senders_inv tr s"
    and pcs: "\<And>u pid. sends_on (pc s' u) = Some pid \<Longrightarrow> sends_on (pc s u) = Some pid \<or> e = Admitted pid u"
    and sent: "\<And>pid t m. e = Sent pid t m \<Longrightarrow> sender_tid m = t \<and> sends_on (pc s t) = Some pid"
  shows "senders_inv (tr @ [e]) s'"
  using inv pcs sent unfolding senders_inv_def by (auto; blast)

lemma create_pc: "ipc_create_port ok t s = (r, s') \<Longrightarrow> pc s' = pc s"
  by (auto simp: ipc_create_port_def Let_def split: if_splits)

lemma destroy_pc: "ipc_destroy_port pid s = (r, ws, s') \<Longrightarrow> pc s' = pc s"
  by (auto simp: ipc_destroy_port_def split: if_splits option.splits)

lemma try_receive_pc: "ipc_try_receive pid ok s = (r, m, ws, s') \<Longrightarrow> pc s' = pc s"
  by (auto simp: ipc_try_receive_def Let_def split: if_splits option.splits prod.splits)

lemma got_event_not_sent: "got_event pid t mo \<noteq> Sent pid' t' m"
  by (simp add: got_event_def split: option.splits)

lemma sent_eventD: "sent_event res pid t m = Sent pid' t' m' \<Longrightarrow>
    pid' = pid \<and> t' = t \<and> m' = m\<lparr>sender_tid := t\<rparr>"
  by (auto simp: sent_event_def split: if_splits)

lemma ipc_step_senders:
  assumes "ipc_step s e s'" "senders_inv tr s"
  shows "senders_inv (tr @ [e]) s'"
  using assms
proof (induction rule: ipc_step.induct)
  case (send_locked s t c pid m p node ok res ws p')
  show ?case
    by (rule senders_inv_step [OF send_locked(5)])
      (use send_locked(1) in \<open>auto simp: sends_on_after split: if_splits dest!: sent_eventD\<close>)
next
  case (send_resume s t c pid m p node res ws p')
  show ?case
    by (rule senders_inv_step [OF send_resume(5)])
      (use send_resume(1) in \<open>auto simp: sends_on_after split: if_splits dest!: sent_eventD\<close>)
next
  case (recv_locked s t c pid p ok res m ws p')
  show ?case
    by (rule senders_inv_step [OF recv_locked(4)])
      (auto simp: sends_on_after got_event_not_sent split: if_splits)
next
  case (recv_enter s t c pid r)
  show ?case
    by (rule senders_inv_step [OF recv_enter(3)]) (auto split: if_splits)
next
  case (create s t ok r s')
  then show ?case by (intro senders_inv_step [OF create(3)]) (auto simp: create_pc)
next
  case (call_create s t ok r s')
  then show ?case
    by (intro senders_inv_step [OF call_create(3)]) (auto simp: create_pc [OF call_create(2)] split: if_splits)
next
  case (destroy s t pid r ws s')
  then show ?case by (intro senders_inv_step [OF destroy(3)]) (auto simp: destroy_pc [OF destroy(2)])
next
  case (call_done s t pid r ws s')
  then show ?case
    by (intro senders_inv_step [OF call_done(3)]) (auto simp: destroy_pc [OF call_done(2)] split: if_splits)
next
  case (try_recv s t pid r m ws s')
  then show ?case
    by (intro senders_inv_step [OF try_recv(3)])
      (auto simp: try_receive_pc [OF try_recv(2)] got_event_not_sent)
qed (erule senders_inv_step; auto split: if_splits)+

lemma ipc_run_inv:
  assumes "ipc_run s0 tr s" "ipc_start s0"
  shows "ports_inv tr s \<and> senders_inv tr s"
  using assms
proof (induction rule: ipc_run.induct)
  case (start s)
  then show ?case by (simp add: ports_inv_def senders_inv_def ipc_start_def MAX_PORTS_def)
next
  case (more s tr s' e s'')
  then show ?case using ipc_step_ports ipc_step_senders by blast
qed

section \<open>Admission\<close>

text \<open>What the admission check relies on: the number found for a port belongs to a capability that
  names the port, and checking that number reads that capability.\<close>

locale port_authority =
  fixes find_port :: "'c \<Rightarrow> u64 \<Rightarrow> u64"
    and check :: "'c \<Rightarrow> u64 \<Rightarrow> u32 \<Rightarrow> bool"
    and held :: "'c \<Rightarrow> u64 \<Rightarrow> u32 \<Rightarrow> bool"
    and ok :: "'c \<Rightarrow> bool"
  assumes check_found: "ok c \<Longrightarrow> find_port c port \<noteq> 0 \<Longrightarrow> check c (find_port c port) right \<Longrightarrow> held c port right"
    and find_none: "ok c \<Longrightarrow> find_port c port = 0 \<Longrightarrow> \<not> held c port right"
begin

lemma authorized_sound:
  assumes "ok c" "port_authorized (find_port c port) (\<lambda>cid. check c cid right) owner tid"
  shows "held c port right \<or> owner = tid \<and> (\<forall>r. \<not> held c port r)"
  using assms check_found find_none by (auto simp: port_authorized_def split: if_splits)

end

text \<open>The process holds a capability for the port with the right.\<close>

definition port_held :: "pid_t option \<times> cap_state \<Rightarrow> u64 \<Rightarrow> u32 \<Rightarrow> bool" where
  "port_held c port right \<longleftrightarrow> (\<exists>k \<in> set (current_caps (fst c) (snd c)).
     cap_type k = CAP_TYPE_IPC_PORT \<and> resource_id k = port \<and> rights k AND right = right)"

lemma current_caps_inv:
  assumes "cap_inv s" "k \<in> set (current_caps proc s)"
  shows "cap_id k \<noteq> 0" "find (\<lambda>c. cap_id c = cap_id k) (current_caps proc s) = Some k"
proof -
  obtain pid where pid: "proc = Some pid" using assms(2) by (cases proc) (auto simp: current_caps_def)
  moreover obtain p where "get_process_table pid = Some p"
    using assms(2) pid by (cases "get_process_table pid") (auto simp: current_caps_def)
  ultimately have p: "p < MAX_PROCESSES" "current_caps proc s = caps_of s p"
    by (simp_all add: current_caps_def get_process_table_bound)
  have "cap_id k \<in> set (ids_of s p)" using assms(2) p(2) by (simp add: ids_of_def)
  with assms(1) p(1) show "cap_id k \<noteq> 0" unfolding cap_inv_iff by (metis less_irrefl)
  show "find (\<lambda>c. cap_id c = cap_id k) (current_caps proc s) = Some k"
    using assms p by (simp add: find_cap_iff cap_inv_iff ids_of_def)
qed

interpretation cap_auth: port_authority
  "\<lambda>c port. capability_find_for_port (fst c) port (snd c)"
  "\<lambda>c cid right. capability_check (fst c) cid right (snd c)" port_held "\<lambda>c. cap_inv (snd c)"
proof
  fix c :: "pid_t option \<times> cap_state" and port right
  assume inv: "cap_inv (snd c)"
  let ?P = "\<lambda>k. cap_type k = CAP_TYPE_IPC_PORT \<and> resource_id k = port"
  let ?cs = "current_caps (fst c) (snd c)"
  show "port_held c port right"
    if f: "capability_find_for_port (fst c) port (snd c) \<noteq> 0"
      and g: "capability_check (fst c) (capability_find_for_port (fst c) port (snd c)) right (snd c)"
  proof -
    from f obtain k where k: "find ?P ?cs = Some k"
      by (auto simp: capability_find_for_port_find split: option.splits)
    then have "k \<in> set ?cs" "?P k" by (auto simp: find_Some_iff)
    with g k current_caps_inv(2) [OF inv] show ?thesis
      by (auto simp: capability_find_for_port_find capability_check_find port_held_def)
  qed
  show "\<not> port_held c port right" if "capability_find_for_port (fst c) port (snd c) = 0"
  proof
    assume "port_held c port right"
    then obtain k where "k \<in> set ?cs" "?P k" by (auto simp: port_held_def)
    then obtain k' where k': "find ?P ?cs = Some k'" by (cases "find ?P ?cs") (auto simp: find_None_iff)
    then have "k' \<in> set ?cs" by (auto simp: find_Some_iff)
    with that k' current_caps_inv(1) [OF inv] show False by (simp add: capability_find_for_port_find)
  qed
qed

section \<open>A small system\<close>

text \<open>No port, process 7 runs every thread and holds no capability; thread 5 owns port 1.\<close>

definition idle_sys :: ipc_sys where
  "idle_sys = \<lparr>port_table = (\<lambda>_. None), next_port_id = 1, caps = blank_caps, pc = (\<lambda>_. Idle),
     proc_of = (\<lambda>_. Some 7)\<rparr>"

definition one_port :: ipc_sys where
  "one_port = snd (ipc_create_port True 5 idle_sys)"

lemma idle_sys_start: "ipc_start idle_sys"
  by (simp add: ipc_start_def idle_sys_def)

lemma one_port_run: "ipc_run idle_sys [Tau] one_port"
proof -
  have "ipc_step idle_sys Tau one_port"
    by (rule ipc_step.create [where t = 5 and ok = True and r = "fst (ipc_create_port True 5 idle_sys)"])
      (simp_all add: one_port_def, simp add: idle_sys_def)
  with ipc_run.start ipc_run.more show ?thesis by (metis append_Nil)
qed

lemma port_1: "\<not> of_nat MAX_PORTS \<le> (1 :: u64)"
  by (simp add: MAX_PORTS_def word_le_nat_alt)

lemma one_port_port:
  "port_table one_port (Suc 0) = Some \<lparr>port_id = 1, owner_tid = 5, nodes = Map.empty, queue_head = 0,
     queue_tail = 0, queue_size = 0, queue_max = 32, waiting_receivers = [], waiting_senders = []\<rparr>"
  "pc one_port t = Idle" "caps one_port = blank_caps" "proc_of one_port t = Some 7"
  by (simp_all add: one_port_def idle_sys_def ipc_create_port_def port_1 MAX_QUEUE_SIZE_def)

text \<open>Thread 5 sends the empty message to its port, and gets it back.\<close>

definition sent_message :: ipc_message_t where
  "sent_message = empty_message\<lparr>sender_tid := 5\<rparr>"

lemma blank_current_caps: "current_caps (Some 7) blank_caps = []"
  by (simp add: current_caps_def process_7 blank_caps_next)

lemma small_exchange:
  "\<exists>s p. ipc_run idle_sys [Tau, Admitted 1 5, Sent 1 5 sent_message, Got 1 6 sent_message] s \<and>
     port_table s 1 = Some p"
proof -
  let ?s1 = "set_pc 5 (Send_entry Plain 1 empty_message) one_port"
  have admit: "ipc_step one_port (Admitted 1 5) ?s1"
    by (rule ipc_step.send_enter)
      (simp_all add: one_port_port ipc_send_enter_def lookup_port_def port_1 port_authorized_def
        capability_find_for_port_find blank_current_caps)
  obtain p where p: "port_table one_port (Suc 0) = Some p" "nodes p = Map.empty" "queue_size p = 0"
    "queue_max p = 32" "waiting_receivers p = []" "waiting_senders p = []" "queue_tail p = 0"
    by (simp add: one_port_port)
  let ?p = "enqueue_node 4096 sent_message p"
  let ?s2 = "thread_unblock_all [] (set_pc 5 Idle (put_port 1 ?p ?s1))"
  have "ipc_step ?s1 (sent_event (Done 0) 1 5 empty_message)
      (thread_unblock_all [] (set_pc 5 (after_send Plain 1 empty_message (Done 0)) (put_port 1 ?p ?s1)))"
    by (rule ipc_step.send_locked [where node = "Some 4096" and ok = True and p = p])
      (simp_all add: p node_ok_def node_fresh_def ipc_send_locked_def ipc_send_enqueue_def sent_message_def
        enqueue_node_def Let_def)
  then have send: "ipc_step ?s1 (Sent 1 5 sent_message) ?s2"
    by (simp add: sent_event_def sent_message_def)
  obtain q where q: "receive_dequeue ?p = (sent_message, [], q)"
    by (simp add: receive_dequeue_def dequeue_node_def enqueue_node_def Let_def p)
  let ?s3 = "?s2\<lparr>port_table := (port_table ?s2)(1 \<mapsto> q)\<rparr>"
  have "queue_size ?p \<noteq> 0" by (simp add: enqueue_node_def Let_def p)
  then have "ipc_try_receive 1 True ?s2 = (0, Some sent_message, [], ?s3)"
    using q by (simp add: ipc_try_receive_def lookup_port_def port_1)
  then have got: "ipc_step ?s2 (got_event 1 6 (Some sent_message)) (thread_unblock_all [] ?s3)"
    by (rule ipc_step.try_recv [rotated]) (simp add: one_port_port thread_unblock_all_def)
  have "ipc_run idle_sys ((([Tau] @ [Admitted 1 5]) @ [Sent 1 5 sent_message]) @ [Got 1 6 sent_message])
      (thread_unblock_all [] ?s3)"
    using ipc_run.more [OF ipc_run.more [OF ipc_run.more [OF one_port_run admit] send] got]
    by (simp add: got_event_def)
  then show ?thesis by (intro exI [of _ "thread_unblock_all [] ?s3"] exI [of _ q]) simp
qed

section \<open>Properties\<close>

text \<open>
  C5: delivery. In every run of the threads, for every port that exists, the messages sent to it are
  the messages received from it, in the same order, followed by the messages still queued: none is
  lost, duplicated, reordered or invented, whatever the interleaving of senders, receivers, blocking
  and capability changes; and the linked list holds exactly \<open>queue_size\<close> messages.
\<close>

theorem ipc_delivery:
  assumes "ipc_start s0" "ipc_run s0 tr s" "port_table s i = Some p"
  shows "sent_to i tr = got_from i tr @ queue_msgs p \<and> length (queue_msgs p) = unat (queue_size p)"
  using ipc_run_inv [OF assms(2,1)] assms(3) by (simp add: ports_inv_def length_queue_msgs)

theorem ipc_delivery_witness:
  "\<exists>s p. ipc_run idle_sys [Tau, Admitted 1 5, Sent 1 5 sent_message, Got 1 6 sent_message] s \<and>
     port_table s 1 = Some p \<and> queue_msgs p = []"
proof -
  obtain s p where s: "ipc_run idle_sys [Tau, Admitted 1 5, Sent 1 5 sent_message, Got 1 6 sent_message] s"
    "port_table s 1 = Some p" using small_exchange by blast
  with ipc_delivery [OF idle_sys_start s] show ?thesis by (auto simp: sent_to_def got_from_def)
qed



text \<open>
  admission. A thread is admitted to send to a port only if the port exists and either the
  thread's process holds a capability for this port with the write right, or it holds no capability
  for the port at all and the thread owns it.
\<close>

theorem ipc_admission_sound:
  assumes "ipc_step s (Admitted pid t) s'" "cap_inv (caps s)"
  shows "\<exists>p. port_table s (unat pid) = Some p \<and>
    (port_held (proc_of s t, caps s) pid CAP_RIGHT_WRITE \<or>
     owner_tid p = t \<and> (\<forall>r. \<not> port_held (proc_of s t, caps s) pid r))"
  using assms(1)
proof cases
  case (send_enter m c)
  then obtain p where p: "lookup_port pid s = Some p"
    "port_authorized (capability_find_for_port (proc_of s t) pid (caps s))
       (\<lambda>cid. capability_check (proc_of s t) cid CAP_RIGHT_WRITE (caps s)) (owner_tid p) t"
    by (auto simp: ipc_send_enter_def split: option.splits if_splits)
  from p(1) have "port_table s (unat pid) = Some p" by (simp add: lookup_port_def split: if_splits)
  with cap_auth.authorized_sound [of "(proc_of s t, caps s)" pid CAP_RIGHT_WRITE "owner_tid p" t]
    p(2) assms(2) show ?thesis by auto
qed (auto simp: sent_event_def got_event_def split: if_splits option.splits)

theorem ipc_admission_sound_witness:
  "\<exists>p. port_table one_port (unat (1 :: u64)) = Some p \<and>
    (port_held (proc_of one_port 5, caps one_port) 1 CAP_RIGHT_WRITE \<or>
     owner_tid p = 5 \<and> (\<forall>r. \<not> port_held (proc_of one_port 5, caps one_port) 1 r))"
proof (rule ipc_admission_sound)
  show "ipc_step one_port (Admitted 1 5) (set_pc 5 (Send_entry Plain 1 empty_message) one_port)"
    by (rule ipc_step.send_enter)
      (simp_all add: one_port_port ipc_send_enter_def lookup_port_def port_1 port_authorized_def
        capability_find_for_port_find blank_current_caps)
  show "cap_inv (caps one_port)" by (simp add: one_port_port blank_caps_inv)
qed

text \<open>Port 1 with thread 6 in its waiting list, at point \<open>x\<close> of its receive, and thread 5 about to send.\<close>

definition waiting_port :: ipc_port_internal where
  "waiting_port = \<lparr>port_id = 1, owner_tid = 5, nodes = Map.empty, queue_head = 0,
     queue_tail = 0, queue_size = 0, queue_max = 32, waiting_receivers = [6], waiting_senders = []\<rparr>"

definition waiting_sys :: "ipc_pc \<Rightarrow> ipc_sys" where
  "waiting_sys x = idle_sys\<lparr>port_table := [Suc 0 \<mapsto> waiting_port],
     pc := (\<lambda>_. Idle)(5 := Send_entry Plain 1 empty_message, 6 := x)\<rparr>"

lemma waiting_port_inv: "queue_inv waiting_port"
proof -
  have "queue_rep [] waiting_port" by (simp add: queue_rep_def waiting_port_def)
  then show ?thesis by (auto simp: queue_inv_def)
qed

lemma waiting_sys_send: "\<exists>s'. ipc_step (waiting_sys x) (Sent 1 5 sent_message) s'"
proof -
  obtain ws p' where l: "ipc_send_locked True (Some 4096) 5 empty_message waiting_port = (Done 0, ws, p')"
    by (simp add: ipc_send_locked_def ipc_send_enqueue_def waiting_port_def enqueue_node_def Let_def)
  have "ipc_step (waiting_sys x) (sent_event (Done 0) 1 5 empty_message)
      (thread_unblock_all ws (set_pc 5 (after_send Plain 1 empty_message (Done 0)) (put_port 1 p' (waiting_sys x))))"
    by (rule ipc_step.send_locked [OF _ _ _ l])
      (simp_all add: waiting_sys_def node_ok_def node_fresh_def, simp add: waiting_port_def)
  then show ?thesis by (auto simp: sent_event_def sent_message_def)
qed

text \<open>
  waking. A receiver that is blocked on a port and registered first in its waiting list is
  unblocked by the next message sent to the port, whoever sends it.
\<close>

theorem ipc_send_wakes_receiver:
  assumes "port_table s (unat pid) = Some p" "waiting_receivers p = w # ws" "pc s w = Recv_blocked c pid"
    and "ipc_step s (Sent pid t m) s'" "t \<noteq> w"
  shows "pc s' w = Recv_woken c pid \<and>
    (\<exists>p'. port_table s' (unat pid) = Some p' \<and> waiting_receivers p' = ws)"
  using assms(4)
proof cases
  case (send_locked t' c' pid' m' p' node ok res us p'')
  then have "us = [w] \<and> waiting_receivers p'' = ws"
    using assms(1,2) by (auto simp: sent_event_def ipc_send_locked_def ipc_send_enqueue_def
        enqueue_node_def Let_def split: if_splits option.splits)
  with send_locked assms show ?thesis by (auto simp: sent_event_def thread_unblock_all_def split: if_splits)
next
  case (send_resume t' c' pid' m' p' node res us p'')
  then have "us = [w] \<and> waiting_receivers p'' = ws"
    using assms(1,2) by (auto simp: sent_event_def ipc_send_enqueue_def
        enqueue_node_def Let_def split: if_splits option.splits)
  with send_resume assms show ?thesis by (auto simp: sent_event_def thread_unblock_all_def split: if_splits)
qed (auto simp: got_event_def split: option.splits)

theorem ipc_send_wakes_receiver_witness:
  "\<exists>s'. ipc_step (waiting_sys (Recv_blocked Plain 1)) (Sent 1 5 sent_message) s' \<and> pc s' 6 = Recv_woken Plain 1"
proof -
  obtain s' where s': "ipc_step (waiting_sys (Recv_blocked Plain 1)) (Sent 1 5 sent_message) s'"
    using waiting_sys_send by blast
  have "pc s' 6 = Recv_woken Plain 1 \<and>
      (\<exists>p'. port_table s' (unat (1 :: u64)) = Some p' \<and> waiting_receivers p' = [])"
    by (rule ipc_send_wakes_receiver [OF _ _ _ s', of waiting_port])
      (simp_all add: waiting_sys_def, simp add: waiting_port_def)
  with s' show ?thesis by blast
qed

text \<open>
  a wake-up can be lost. If a message is sent to a port while the receiver at the head of its
  waiting list has registered and released the lock but not yet called \<^verbatim>\<open>thread_block\<close>, the
  receiver then blocks although the message is queued, and it is no longer in the waiting list.
\<close>

theorem ipc_wakeup_lost:
  assumes "port_table s (unat pid) = Some p" "waiting_receivers p = w # ws" "w \<notin> set ws"
    and "pc s w = Recv_registered c pid" "queue_inv p" "ipc_step s (Sent pid t m) s'" "t \<noteq> w"
  shows "\<exists>s'' p'. ipc_step s' Tau s'' \<and> pc s'' w = Recv_blocked c pid \<and>
    port_table s'' (unat pid) = Some p' \<and> w \<notin> set (waiting_receivers p') \<and> queue_msgs p' \<noteq> []"
proof -
  have "pc s' w = Recv_registered c pid \<and> (\<exists>p'. port_table s' (unat pid) = Some p' \<and>
      waiting_receivers p' = ws \<and> queue_msgs p' \<noteq> [])"
    using assms(6)
  proof cases
    case (send_locked t' c' pid' m' p' node ok res us p'')
    then have "p' = p" "res = Done 0" "pid' = pid" "t' = t"
      using assms(1) by (simp_all add: sent_event_def split: if_splits)
    moreover have "us = [w] \<and> waiting_receivers p'' = ws"
      using send_locked assms(1,2) by (auto simp: sent_event_def ipc_send_locked_def
          ipc_send_enqueue_def enqueue_node_def Let_def split: if_splits option.splits)
    moreover have "queue_msgs p'' \<noteq> []"
      using send_locked_effect [OF assms(5)] send_locked calculation by auto
    ultimately show ?thesis using send_locked assms(4,7) by (simp add: thread_unblock_all_def)
  next
    case (send_resume t' c' pid' m' p' node res us p'')
    then have "p' = p" "res = Done 0" "pid' = pid" "t' = t"
      using assms(1) by (simp_all add: sent_event_def split: if_splits)
    moreover have "us = [w] \<and> waiting_receivers p'' = ws"
      using send_resume assms(1,2) by (auto simp: sent_event_def
          ipc_send_enqueue_def enqueue_node_def Let_def split: if_splits option.splits)
    moreover have "queue_msgs p'' \<noteq> []"
      using send_enqueue_effect [OF assms(5)] send_resume calculation by auto
    ultimately show ?thesis using send_resume assms(4,7) by (simp add: thread_unblock_all_def)
  qed (auto simp: got_event_def split: option.splits)
  then obtain p' where p': "pc s' w = Recv_registered c pid" "port_table s' (unat pid) = Some p'"
    "waiting_receivers p' = ws" "queue_msgs p' \<noteq> []" by blast
  then have "ipc_step s' Tau (set_pc w (Recv_blocked c pid) s')" by (intro ipc_step.recv_block)
  with p' assms(3) show ?thesis
    by (intro exI [of _ "set_pc w (Recv_blocked c pid) s'"] exI [of _ p']) simp
qed

theorem ipc_wakeup_lost_witness:
  "\<exists>s' s'' p'. ipc_step (waiting_sys (Recv_registered Plain 1)) (Sent 1 5 sent_message) s' \<and>
     ipc_step s' Tau s'' \<and> pc s'' 6 = Recv_blocked Plain 1 \<and> port_table s'' (unat (1 :: u64)) = Some p' \<and>
     6 \<notin> set (waiting_receivers p') \<and> queue_msgs p' \<noteq> []"
proof -
  obtain s' where s': "ipc_step (waiting_sys (Recv_registered Plain 1)) (Sent 1 5 sent_message) s'"
    using waiting_sys_send by blast
  have "\<exists>s'' p'. ipc_step s' Tau s'' \<and> pc s'' 6 = Recv_blocked Plain 1 \<and>
      port_table s'' (unat (1 :: u64)) = Some p' \<and> 6 \<notin> set (waiting_receivers p') \<and> queue_msgs p' \<noteq> []"
    by (rule ipc_wakeup_lost [OF _ _ _ _ waiting_port_inv s', where ws = "[]"])
      (simp_all add: waiting_sys_def, simp add: waiting_port_def)
  with s' show ?thesis by blast
qed

text \<open>
  The queue bound is not kept. A sender that resumes after blocking does not check the bound
  again: when another sender has filled the place that was freed for it, the queue grows beyond
  \<open>queue_max\<close>.
\<close>

theorem ipc_queue_bound_exceeded:
  assumes "port_table s (unat pid) = Some p" "queue_inv p" "queue_size p = queue_max p"
    and "pc s t = Send_woken c pid m" "node_fresh a p"
  shows "\<exists>s' p'. ipc_step s (Sent pid t (m\<lparr>sender_tid := t\<rparr>)) s' \<and>
    port_table s' (unat pid) = Some p' \<and> unat (queue_size p') = Suc (unat (queue_max p'))"
proof -
  obtain ws p' where e: "ipc_send_enqueue (Some a) t m p = (Done 0, ws, p')"
    by (cases "waiting_receivers (enqueue_node a (m\<lparr>sender_tid := t\<rparr>) p)")
      (auto simp: ipc_send_enqueue_def Let_def)
  have ok: "node_ok (Some a) p" using assms(5) by (simp add: node_ok_def)
  have step: "ipc_step s (sent_event (Done 0) pid t m)
      (thread_unblock_all ws (set_pc t (after_send c pid m (Done 0)) (put_port pid p' s)))"
    by (rule ipc_step.send_resume [OF assms(4,1) ok e])
  have "queue_max p' = queue_max p"
    using e by (auto simp: ipc_send_enqueue_def enqueue_node_def Let_def split: list.splits)
  moreover from send_enqueue_effect [OF assms(2) ok e] have "queue_inv p'"
    "length (queue_msgs p') = Suc (length (queue_msgs p))" by auto
  ultimately have "unat (queue_size p') = Suc (unat (queue_max p'))"
    using length_queue_msgs assms(2,3) by metis
  with step show ?thesis
    by (intro exI [of _ "thread_unblock_all ws (set_pc t (after_send c pid m (Done 0)) (put_port pid p' s))"]
        exI [of _ p']) (simp add: sent_event_def)
qed

text \<open>A port whose only place is taken, and thread 5 back from blocking on it.\<close>

definition full_port :: ipc_port_internal where
  "full_port = enqueue_node 8192 sent_message (waiting_port\<lparr>queue_max := 1\<rparr>)"

definition full_sys :: ipc_sys where
  "full_sys = idle_sys\<lparr>port_table := [Suc 0 \<mapsto> full_port],
     pc := (\<lambda>_. Idle)(5 := Send_woken Plain 1 empty_message)\<rparr>"

theorem ipc_queue_bound_exceeded_witness:
  "\<exists>s' p'. ipc_step full_sys (Sent 1 5 sent_message) s' \<and>
     port_table s' (unat (1 :: u64)) = Some p' \<and> unat (queue_size p') = Suc (unat (queue_max p'))"
proof -
  have "queue_inv (waiting_port\<lparr>queue_max := 1\<rparr>)"
    using waiting_port_inv by (simp add: queue_inv_def queue_rep_def)
  then have inv: "queue_inv full_port"
    unfolding full_port_def
    by (rule linked.enq_inv) (simp add: node_fresh_def waiting_port_def)
  have "\<exists>s' p'. ipc_step full_sys (Sent 1 5 (empty_message\<lparr>sender_tid := 5\<rparr>)) s' \<and>
     port_table s' (unat (1 :: u64)) = Some p' \<and> unat (queue_size p') = Suc (unat (queue_max p'))"
    by (rule ipc_queue_bound_exceeded [OF _ inv, where a = 4096 and c = Plain])
      (simp_all add: full_sys_def, simp_all add: full_port_def enqueue_node_def waiting_port_def node_fresh_def Let_def)
  then show ?thesis by (simp add: sent_message_def)
qed

text \<open>
  \<open>ipc_try_receive\<close> has no admission check: any thread outside the IPC code takes the first message
  of any port, whatever capabilities its process holds.
\<close>

lemma ipc_try_receive_unchecked:
  assumes "lookup_port pid s = Some p" "queue_inv p" "queue_msgs p = m # ms" "pc s t = Idle"
  shows "\<exists>s'. ipc_step s (Got pid t m) s'"
proof -
  have size: "queue_size p \<noteq> 0" using assms(3) queue_empty_iff(1) [OF assms(2)] by simp
  obtain ws p' where d: "receive_dequeue p = (m, ws, p')"
    using receive_dequeue_effect [OF assms(2) size] assms(3) by (metis list.inject prod_cases3)
  let ?s' = "s\<lparr>port_table := (port_table s)(unat pid \<mapsto> p')\<rparr>"
  have "ipc_try_receive pid True s = (0, Some m, ws, ?s')"
    using assms(1) size d by (simp add: ipc_try_receive_def)
  from ipc_step.try_recv [OF assms(4) this] show ?thesis by (auto simp: got_event_def)
qed

text \<open>
  Port numbers are never used again: once 255 of them have been given out no port can be created,
  even if all ports have been destroyed.
\<close>

lemma ipc_ports_exhausted:
  assumes "next_port_id s = 256"
  shows "fst (ipc_create_port ok t s) = 0"
    "next_port_id (snd (snd (ipc_destroy_port pid s))) = 256"
  using assms by (auto simp: ipc_create_port_def ipc_destroy_port_def MAX_PORTS_def split: option.splits)

end
