(* ===== verification/Spinlock.thy ===== *)
theory Spinlock
  imports Prelude
begin

text \<open>
  Spinlocks, \<^verbatim>\<open>kernel/sync/spinlock.c\<close>. The functions on a lock are given first; the NULL pointer is
  \<open>None\<close>. Then the threads that call \<^verbatim>\<open>spinlock_lock\<close>, \<^verbatim>\<open>spinlock_trylock\<close> and \<^verbatim>\<open>spinlock_unlock\<close> are
  interleaved at every access to the lock's memory: \<open>spin_pc\<close> is where a thread is in these
  functions. \<open>xchg\<close> is one step, as the instruction is. The barriers order memory accesses, which
  the interleaving keeps in program order anyway.

  The critical sections of the other components are single steps in their models because of the
  mutual exclusion proved here.
\<close>

section \<open>Model\<close>

record spinlock_t =
  locked :: u32
  cpu_id :: u32

definition spinlock_init :: "spinlock_t option \<Rightarrow> spinlock_t option" where
  "spinlock_init lock = map_option (\<lambda>l. l\<lparr>locked := 0, cpu_id := 0\<rparr>) lock"

text \<open>The value returned and the value left in memory.\<close>

definition xchg :: "u32 \<Rightarrow> u32 \<Rightarrow> u32 \<times> u32" where
  "xchg mem val = (mem, val)"

definition spinlock_unlock :: "spinlock_t option \<Rightarrow> spinlock_t option" where
  "spinlock_unlock lock = map_option (\<lambda>l. l\<lparr>cpu_id := 0, locked := 0\<rparr>) lock"

definition spinlock_trylock :: "u32 \<Rightarrow> spinlock_t option \<Rightarrow> bool \<times> spinlock_t option" where
  "spinlock_trylock cpu lock =
     (case lock of
        None \<Rightarrow> (False, None)
      | Some l \<Rightarrow>
          (let (old, new) = xchg (locked l) 1; l1 = l\<lparr>locked := new\<rparr>
           in if old = 0 then (True, Some (l1\<lparr>cpu_id := cpu\<rparr>)) else (False, Some l1)))"

definition spinlock_is_locked :: "spinlock_t option \<Rightarrow> bool" where
  "spinlock_is_locked lock = (case lock of None \<Rightarrow> False | Some l \<Rightarrow> locked l \<noteq> 0)"

text \<open>The atomic operations: the value returned and the value left in memory.\<close>

definition atomic_add :: "u32 \<Rightarrow> u32 \<Rightarrow> u32 \<times> u32" where
  "atomic_add mem val = (mem + val, mem + val)"

definition atomic_sub :: "u32 \<Rightarrow> u32 \<Rightarrow> u32 \<times> u32" where
  "atomic_sub mem val = (mem - val, mem - val)"

definition atomic_inc :: "u32 \<Rightarrow> u32 \<times> u32" where
  "atomic_inc mem = atomic_add mem 1"

definition atomic_dec :: "u32 \<Rightarrow> u32 \<times> u32" where
  "atomic_dec mem = atomic_sub mem 1"

definition atomic_exchange :: "u32 \<Rightarrow> u32 \<Rightarrow> u32 \<times> u32" where
  "atomic_exchange mem val = (mem, val)"

definition atomic_compare_exchange :: "u32 \<Rightarrow> u32 \<Rightarrow> u32 \<Rightarrow> bool \<times> u32" where
  "atomic_compare_exchange mem expected desired =
     (if mem = expected then (True, desired) else (False, mem))"

text \<open>
  Threads. \<open>Spinning\<close>: at the \<open>xchg\<close> of \<^verbatim>\<open>spinlock_lock\<close>; \<open>Acquired\<close>: before \<open>cpu_id\<close> is set;
  \<open>Inside\<close>: in the critical section; \<open>Releasing\<close>: \<open>cpu_id\<close> cleared, \<open>locked\<close> not yet.
\<close>

datatype spin_pc = Outside | Spinning | Acquired | Inside | Releasing

record spin_sys =
  lock :: spinlock_t
  spc :: "u64 \<Rightarrow> spin_pc"
  cpu_of :: "u64 \<Rightarrow> u32"

inductive spin_step :: "spin_sys \<Rightarrow> spin_sys \<Rightarrow> bool" where
  call: "spc s t = Outside \<Longrightarrow> spin_step s (s\<lparr>spc := (spc s)(t := Spinning)\<rparr>)"
| spin: "spc s t = Spinning \<Longrightarrow> xchg (locked (lock s)) 1 = (old, new) \<Longrightarrow>
    spin_step s (s\<lparr>lock := (lock s)\<lparr>locked := new\<rparr>,
      spc := (spc s)(t := (if old \<noteq> 0 then Spinning else Acquired))\<rparr>)"
| attempt: "spc s t = Outside \<Longrightarrow> xchg (locked (lock s)) 1 = (old, new) \<Longrightarrow>
    spin_step s (s\<lparr>lock := (lock s)\<lparr>locked := new\<rparr>,
      spc := (spc s)(t := (if old = 0 then Acquired else Outside))\<rparr>)"
| set_cpu: "spc s t = Acquired \<Longrightarrow>
    spin_step s (s\<lparr>lock := (lock s)\<lparr>cpu_id := cpu_of s t\<rparr>, spc := (spc s)(t := Inside)\<rparr>)"
| clear_cpu: "spc s t = Inside \<Longrightarrow>
    spin_step s (s\<lparr>lock := (lock s)\<lparr>cpu_id := 0\<rparr>, spc := (spc s)(t := Releasing)\<rparr>)"
| release: "spc s t = Releasing \<Longrightarrow>
    spin_step s (s\<lparr>lock := (lock s)\<lparr>locked := 0\<rparr>, spc := (spc s)(t := Outside)\<rparr>)"

section \<open>Mutual exclusion\<close>

definition spin_start :: "spin_sys \<Rightarrow> bool" where
  "spin_start s \<longleftrightarrow> locked (lock s) = 0 \<and> (\<forall>t. spc s t = Outside)"

definition holders :: "spin_sys \<Rightarrow> u64 set" where
  "holders s = {t. spc s t \<in> {Acquired, Inside, Releasing}}"

text \<open>
  At most one thread is between a successful \<open>xchg\<close> and the release, the lock word is set exactly
  when there is one, and inside the critical section \<open>cpu_id\<close> is the holder's processor.
\<close>

definition spin_inv :: "spin_sys \<Rightarrow> bool" where
  "spin_inv s \<longleftrightarrow>
     (\<forall>t u. t \<in> holders s \<and> u \<in> holders s \<longrightarrow> t = u) \<and>
     (locked (lock s) = 0 \<longleftrightarrow> holders s = {}) \<and>
     (\<forall>t. spc s t = Inside \<longrightarrow> cpu_id (lock s) = cpu_of s t)"

lemma holders_upd:
  "spc s' = (spc s)(t := x) \<Longrightarrow>
     holders s' = (if x \<in> {Acquired, Inside, Releasing} then insert t (holders s) else holders s - {t})"
  by (auto simp: holders_def)

lemma spin_inv_upd:
  assumes "spin_inv s" "spc s' = (spc s)(t := x)" "cpu_of s' = cpu_of s"
    and "t \<in> holders s \<or> x \<notin> {Acquired, Inside, Releasing} \<or> holders s = {}"
    and "locked (lock s') = 0 \<longleftrightarrow> holders s' = {}"
    and "x = Inside \<Longrightarrow> cpu_id (lock s') = cpu_of s t"
    and "t \<notin> holders s \<Longrightarrow> cpu_id (lock s') = cpu_id (lock s)"
  shows "spin_inv s'"
proof -
  have "\<forall>u v. u \<in> holders s' \<and> v \<in> holders s' \<longrightarrow> u = v"
    using assms(1,4) holders_upd [OF assms(2)] by (auto simp: spin_inv_def)
  moreover have "cpu_id (lock s') = cpu_of s' u" if u: "spc s' u = Inside" for u
  proof (cases "u = t")
    case True
    with u assms(2,3,6) show ?thesis by simp
  next
    case False
    then have "spc s u = Inside" "u \<in> holders s" using u assms(2) by (auto simp: holders_def)
    moreover from this False assms(1) have "t \<notin> holders s" by (auto simp: spin_inv_def)
    ultimately show ?thesis using assms(1,3,7) by (simp add: spin_inv_def)
  qed
  ultimately show ?thesis using assms(5) by (auto simp: spin_inv_def)
qed

lemma spin_locked: "spin_inv s \<Longrightarrow> locked (lock s) = 0 \<longleftrightarrow> holders s = {}"
  by (simp add: spin_inv_def)

lemma spin_holder: "spin_inv s \<Longrightarrow> t \<in> holders s \<Longrightarrow> holders s = {t}"
  by (auto simp: spin_inv_def)

lemma spin_step_inv:
  assumes "spin_step s s'" "spin_inv s"
  shows "spin_inv s'"
  using assms
proof (induction rule: spin_step.induct)
  case (call s t)
  let ?s' = "s\<lparr>spc := (spc s)(t := Spinning)\<rparr>"
  have "t \<notin> holders s" using call by (simp add: holders_def)
  with call spin_locked [OF call(2)] holders_upd [of ?s' s t Spinning] show ?case
    by (intro spin_inv_upd [OF call(2), where t = t and x = Spinning]) auto
next
  case (spin s t old new)
  let ?x = "if old \<noteq> 0 then Spinning else Acquired"
  let ?s' = "s\<lparr>lock := (lock s)\<lparr>locked := new\<rparr>, spc := (spc s)(t := ?x)\<rparr>"
  have "t \<notin> holders s" using spin by (simp add: holders_def)
  with spin spin_locked [OF spin(3)] holders_upd [of ?s' s t ?x] show ?case
    by (intro spin_inv_upd [OF spin(3), where t = t and x = ?x]) (auto simp: xchg_def split: if_splits)
next
  case (attempt s t old new)
  let ?x = "if old = 0 then Acquired else Outside"
  let ?s' = "s\<lparr>lock := (lock s)\<lparr>locked := new\<rparr>, spc := (spc s)(t := ?x)\<rparr>"
  have "t \<notin> holders s" using attempt by (simp add: holders_def)
  with attempt spin_locked [OF attempt(3)] holders_upd [of ?s' s t ?x] show ?case
    by (intro spin_inv_upd [OF attempt(3), where t = t and x = ?x]) (auto simp: xchg_def split: if_splits)
next
  case (set_cpu s t)
  let ?s' = "s\<lparr>lock := (lock s)\<lparr>cpu_id := cpu_of s t\<rparr>, spc := (spc s)(t := Inside)\<rparr>"
  have "t \<in> holders s" using set_cpu by (simp add: holders_def)
  with set_cpu spin_locked [OF set_cpu(2)] holders_upd [of ?s' s t Inside] show ?case
    by (intro spin_inv_upd [OF set_cpu(2), where t = t and x = Inside]) auto
next
  case (clear_cpu s t)
  let ?s' = "s\<lparr>lock := (lock s)\<lparr>cpu_id := 0\<rparr>, spc := (spc s)(t := Releasing)\<rparr>"
  have "t \<in> holders s" using clear_cpu by (simp add: holders_def)
  with clear_cpu spin_locked [OF clear_cpu(2)] holders_upd [of ?s' s t Releasing] show ?case
    by (intro spin_inv_upd [OF clear_cpu(2), where t = t and x = Releasing]) auto
next
  case (release s t)
  let ?s' = "s\<lparr>lock := (lock s)\<lparr>locked := 0\<rparr>, spc := (spc s)(t := Outside)\<rparr>"
  have "t \<in> holders s" using release by (simp add: holders_def)
  with release spin_holder [OF release(2)] holders_upd [of ?s' s t Outside] show ?case
    by (intro spin_inv_upd [OF release(2), where t = t and x = Outside]) auto
qed

interpretation spin: exclusive spin_start spin_step spin_inv holders
proof
  show "spin_inv s" if "spin_start s" for s
    using that by (auto simp: spin_start_def spin_inv_def holders_def)
  show "spin_inv t" if "spin_inv s" "spin_step s t" for s t
    using spin_step_inv that by blast
  show "t = u" if "spin_inv s" "t \<in> holders s" "u \<in> holders s" for s t u
    using that by (auto simp: spin_inv_def)
qed

section \<open>Progress\<close>

lemma spin_release_run:
  assumes "spin_inv s" "spc s t = Spinning"
  shows "\<exists>s'. spin_step\<^sup>*\<^sup>* s s' \<and> locked (lock s') = 0 \<and> spc s' t = Spinning"
proof (cases "holders s = {}")
  case True
  with assms show ?thesis by (auto simp: spin_inv_def)
next
  case False
  then obtain u where u: "u \<in> holders s" by blast
  then have "u \<noteq> t" using assms(2) by (auto simp: holders_def)
  let ?free = "\<lambda>s'. locked (lock s') = 0 \<and> spc s' t = Spinning"
  have rel: "\<exists>s'. spin_step\<^sup>*\<^sup>* s s' \<and> ?free s'"
    if "spc s u = Releasing" "spc s t = Spinning" for s
    by (rule run_step_ex [where r = spin_step, OF spin_step.release [OF that(1)]], rule run_ex_refl) (use that \<open>u \<noteq> t\<close> in simp)
  have ins: "\<exists>s'. spin_step\<^sup>*\<^sup>* s s' \<and> ?free s'" if "spc s u = Inside" "spc s t = Spinning" for s
    by (rule run_step_ex [where r = spin_step, OF spin_step.clear_cpu [OF that(1)]], rule rel) (use that \<open>u \<noteq> t\<close> in simp_all)
  have acq: "\<exists>s'. spin_step\<^sup>*\<^sup>* s s' \<and> ?free s'" if "spc s u = Acquired" "spc s t = Spinning" for s
    by (rule run_step_ex [where r = spin_step, OF spin_step.set_cpu [OF that(1)]], rule ins) (use that \<open>u \<noteq> t\<close> in simp_all)
  from u assms(2) rel ins acq show ?thesis by (auto simp: holders_def)
qed

lemma spin_acquire_run:
  assumes "spc s t = Spinning" "locked (lock s) = 0"
  shows "\<exists>s'. spin_step\<^sup>*\<^sup>* s s' \<and> spc s' t = Inside"
proof -
  let ?s1 = "s\<lparr>lock := (lock s)\<lparr>locked := 1\<rparr>, spc := (spc s)(t := Acquired)\<rparr>"
  have step: "spin_step s ?s1"
    using spin_step.spin [OF assms(1), of 0 1] assms(2) by (simp add: xchg_def)
  have "\<exists>s'. spin_step\<^sup>*\<^sup>* ?s1 s' \<and> spc s' t = Inside"
    by (rule run_step_ex [where r = spin_step, OF spin_step.set_cpu [of _ t]], simp, rule run_ex_refl) simp
  with step show ?thesis by (rule run_step_ex [where r = spin_step])
qed

section \<open>Properties\<close>

text \<open>
  C11: mutual exclusion. In every interleaving of the accesses of any number of threads to a spinlock
  that starts free, at most one thread is between the \<open>xchg\<close> that acquired it and the store that
  releases it, \<open>locked\<close> is non-zero exactly when there is one, and in its critical section \<open>cpu_id\<close>
  is its processor.
\<close>

theorem spinlock_mutual_exclusion:
  assumes "spin_start s0" "spin_step\<^sup>*\<^sup>* s0 s" "t \<in> holders s"
  shows "holders s = {t} \<and> spinlock_is_locked (Some (lock s)) \<and>
    (spc s t = Inside \<longrightarrow> cpu_id (lock s) = cpu_of s t)"
  using spin.mutual_exclusion [OF assms(2,1)] spin.reachable_inv [OF assms(2,1)] assms(3)
  by (auto simp: spin_inv_def spinlock_is_locked_def)

definition free_spin :: spin_sys where
  "free_spin = \<lparr>lock = \<lparr>locked = 0, cpu_id = 0\<rparr>, spc = (\<lambda>_. Outside), cpu_of = (\<lambda>_. 2)\<rparr>"

lemma free_spin_start: "spin_start free_spin"
  by (simp add: spin_start_def free_spin_def)

lemma free_spin_attempt:
  "spin_step\<^sup>*\<^sup>* free_spin (free_spin\<lparr>lock := \<lparr>locked = 1, cpu_id = 0\<rparr>, spc := (\<lambda>_. Outside)(9 := Acquired)\<rparr>)"
  using spin_step.attempt [of free_spin 9 0 1]
  by (intro r_into_rtranclp) (simp add: free_spin_def xchg_def)

theorem spinlock_mutual_exclusion_witness:
  "holders (free_spin\<lparr>lock := \<lparr>locked = 1, cpu_id = 0\<rparr>, spc := (\<lambda>_. Outside)(9 := Acquired)\<rparr>) = {9}"
  using spinlock_mutual_exclusion [OF free_spin_start free_spin_attempt, of 9]
  by (simp add: holders_def)

text \<open>
  no deadlock. From every reachable state in which a thread spins there is a continuation in
  which it enters its critical section.
\<close>

theorem spinlock_progress:
  assumes "spin_start s0" "spin_step\<^sup>*\<^sup>* s0 s" "spc s t = Spinning"
  shows "\<exists>s'. spin_step\<^sup>*\<^sup>* s s' \<and> spc s' t = Inside"
proof -
  obtain s1 where s1: "spin_step\<^sup>*\<^sup>* s s1" "locked (lock s1) = 0" "spc s1 t = Spinning"
    using spin_release_run [OF spin.reachable_inv [OF assms(2,1)] assms(3)] by blast
  obtain s2 where "spin_step\<^sup>*\<^sup>* s1 s2" "spc s2 t = Inside"
    using spin_acquire_run [OF s1(3,2)] by blast
  with s1(1) show ?thesis by (meson rtranclp_trans)
qed

theorem spinlock_progress_witness:
  "\<exists>s'. spin_step\<^sup>*\<^sup>* (free_spin\<lparr>spc := (\<lambda>_. Outside)(9 := Spinning)\<rparr>) s' \<and> spc s' 9 = Inside"
proof (rule spinlock_progress [OF free_spin_start])
  show "spin_step\<^sup>*\<^sup>* free_spin (free_spin\<lparr>spc := (\<lambda>_. Outside)(9 := Spinning)\<rparr>)"
    using spin_step.call [of free_spin 9] by (intro r_into_rtranclp) (simp add: free_spin_def)
qed simp

end
