(* ===== verification/Mutex.thy ===== *)
theory Mutex
  imports Spinlock
begin

text \<open>
  Mutexes, \<^verbatim>\<open>kernel/sync/mutex.c\<close>. Every access to the fields is made under the mutex's own
  spinlock, so the code between \<^verbatim>\<open>spinlock_lock\<close> and \<^verbatim>\<open>spinlock_unlock\<close> is one step. \<open>mutex_step\<close>
  interleaves the threads that run \<^verbatim>\<open>mutex_lock\<close>, \<^verbatim>\<open>mutex_trylock\<close> and \<^verbatim>\<open>mutex_unlock\<close>; a thread may
  call \<^verbatim>\<open>mutex_unlock\<close> without holding the mutex.

  The source keeps the owner as a 32-bit number while thread numbers have 64 bits; the exclusion
  theorem is about sets of threads whose numbers differ in the lower half.
\<close>

section \<open>Model\<close>

record mutex_t =
  mutex_locked :: bool
  mutex_owner :: u32
  mutex_waiters :: u32

definition mutex_init :: "mutex_t option \<Rightarrow> mutex_t option" where
  "mutex_init mutex =
     map_option (\<lambda>m. m\<lparr>mutex_locked := False, mutex_owner := 0, mutex_waiters := 0\<rparr>) mutex"

text \<open>\<^verbatim>\<open>uint32_t tid = current ? current->tid : 0\<close>.\<close>

definition current_tid32 :: "u64 option \<Rightarrow> u32" where
  "current_tid32 current = (case current of None \<Rightarrow> 0 | Some t \<Rightarrow> ucast t)"

text \<open>One round of the loop of \<^verbatim>\<open>mutex_lock\<close>: whether the mutex was taken.\<close>

definition mutex_lock_round :: "u32 \<Rightarrow> mutex_t \<Rightarrow> bool \<times> mutex_t" where
  "mutex_lock_round tid m =
     (if \<not> mutex_locked m then (True, m\<lparr>mutex_locked := True, mutex_owner := tid\<rparr>)
      else (False, m\<lparr>mutex_waiters := mutex_waiters m + 1\<rparr>))"

definition mutex_lock_wakeup :: "mutex_t \<Rightarrow> mutex_t" where
  "mutex_lock_wakeup m = m\<lparr>mutex_waiters := mutex_waiters m - 1\<rparr>"

definition mutex_unlock :: "u64 option \<Rightarrow> mutex_t option \<Rightarrow> mutex_t option" where
  "mutex_unlock current mutex = map_option (\<lambda>m.
     if \<not> mutex_locked m then m
     else if mutex_owner m \<noteq> current_tid32 current then m
     else m\<lparr>mutex_locked := False, mutex_owner := 0\<rparr>) mutex"

definition mutex_trylock :: "u64 option \<Rightarrow> mutex_t option \<Rightarrow> bool \<times> mutex_t option" where
  "mutex_trylock current mutex =
     (case mutex of
        None \<Rightarrow> (False, None)
      | Some m \<Rightarrow>
          if \<not> mutex_locked m
          then (True, Some (m\<lparr>mutex_locked := True, mutex_owner := current_tid32 current\<rparr>))
          else (False, Some m))"

definition mutex_is_locked :: "mutex_t option \<Rightarrow> bool" where
  "mutex_is_locked mutex = (case mutex of None \<Rightarrow> False | Some m \<Rightarrow> mutex_locked m)"

text \<open>
  Threads: \<open>Trying\<close> is the head of the loop of \<^verbatim>\<open>mutex_lock\<close>, \<open>Yielding\<close> the call of
  \<^verbatim>\<open>thread_yield\<close>, \<open>Owning\<close> the time from a successful lock to the unlock.
\<close>

datatype mutex_pc = Away | Trying | Yielding | Owning

record mutex_sys =
  mutex :: mutex_t
  mpc :: "u64 \<Rightarrow> mutex_pc"

text \<open>The relation is indexed by the set of threads that use the mutex.\<close>

inductive mutex_step :: "u64 set \<Rightarrow> mutex_sys \<Rightarrow> mutex_sys \<Rightarrow> bool" for T where
  lock_call: "t \<in> T \<Longrightarrow> mpc s t = Away \<Longrightarrow> mutex_step T s (s\<lparr>mpc := (mpc s)(t := Trying)\<rparr>)"
| lock_round: "t \<in> T \<Longrightarrow> mpc s t = Trying \<Longrightarrow>
    mutex_lock_round (current_tid32 (Some t)) (mutex s) = (got, m) \<Longrightarrow>
    mutex_step T s (s\<lparr>mutex := m, mpc := (mpc s)(t := (if got then Owning else Yielding))\<rparr>)"
| lock_wakeup: "t \<in> T \<Longrightarrow> mpc s t = Yielding \<Longrightarrow>
    mutex_step T s (s\<lparr>mutex := mutex_lock_wakeup (mutex s), mpc := (mpc s)(t := Trying)\<rparr>)"
| trylock: "t \<in> T \<Longrightarrow> mpc s t = Away \<Longrightarrow> mutex_trylock (Some t) (Some (mutex s)) = (got, Some m) \<Longrightarrow>
    mutex_step T s (s\<lparr>mutex := m, mpc := (mpc s)(t := (if got then Owning else Away))\<rparr>)"
| unlock: "t \<in> T \<Longrightarrow> mpc s t = Owning \<or> mpc s t = Away \<Longrightarrow>
    mutex_unlock (Some t) (Some (mutex s)) = Some m \<Longrightarrow>
    mutex_step T s (s\<lparr>mutex := m, mpc := (mpc s)(t := Away)\<rparr>)"

section \<open>Mutual exclusion\<close>

text \<open>The numbers of the threads of \<open>T\<close> stay distinct when they are cut to 32 bits.\<close>

definition tids_distinct :: "u64 set \<Rightarrow> bool" where
  "tids_distinct T \<longleftrightarrow> inj_on (\<lambda>t. ucast t :: u32) T"

definition mutex_start :: "u64 set \<Rightarrow> mutex_sys \<Rightarrow> bool" where
  "mutex_start T s \<longleftrightarrow> tids_distinct T \<and> mutex_init (Some (mutex s)) = Some (mutex s) \<and> (\<forall>t. mpc s t = Away)"

definition owners :: "mutex_sys \<Rightarrow> u64 set" where
  "owners s = {t. mpc s t = Owning}"

definition mutex_inv :: "u64 set \<Rightarrow> mutex_sys \<Rightarrow> bool" where
  "mutex_inv T s \<longleftrightarrow> tids_distinct T \<and>
     owners s \<subseteq> T \<and>
     (if mutex_locked (mutex s) then \<exists>t. owners s = {t} \<and> mutex_owner (mutex s) = ucast t
      else owners s = {}) \<and>
     mutex_waiters (mutex s) = of_nat (at_pc (mpc s) Yielding)"

lemma owners_upd: "mpc s' = (mpc s)(t := x) \<Longrightarrow>
    owners s' = (if x = Owning then insert t (owners s) else owners s - {t})"
  by (auto simp: owners_def)

lemma waiters_upd:
  assumes "mpc s t = y"
  shows "of_nat (at_pc ((mpc s)(t := x)) Yielding) =
    (of_nat (at_pc (mpc s) Yielding) + (if x = Yielding then 1 else 0) - (if y = Yielding then 1 else 0) :: u32)"
proof (cases "y = Yielding"; cases "x = Yielding")
  assume x: "y = Yielding" "x \<noteq> Yielding"
  then have "at_pc (mpc s) Yielding = Suc (at_pc ((mpc s)(t := x)) Yielding)"
    using at_pc_leave [of "mpc s" t Yielding x] assms by simp
  with x show ?thesis by simp
qed (use assms in \<open>simp_all add: at_pc_enter at_pc_other fun_upd_idem\<close>)

lemma mutex_step_inv:
  assumes "mutex_step T s s'" "mutex_inv T s"
  shows "mutex_inv T s'"
  using assms
proof (induction rule: mutex_step.induct)
  case (lock_call t s)
  then show ?case
    using owners_upd [of "s\<lparr>mpc := (mpc s)(t := Trying)\<rparr>" s t Trying]
    by (auto simp: mutex_inv_def at_pc_other owners_def)
next
  case (lock_round t s got m)
  let ?s' = "s\<lparr>mutex := m, mpc := (mpc s)(t := (if got then Owning else Yielding))\<rparr>"
  show ?case
    using lock_round owners_upd [of ?s' s t] waiters_upd [of s t Trying]
    by (auto simp: mutex_inv_def mutex_lock_round_def current_tid32_def owners_def split: if_splits)
next
  case (lock_wakeup t s)
  then show ?case
    using owners_upd [of "s\<lparr>mutex := mutex_lock_wakeup (mutex s), mpc := (mpc s)(t := Trying)\<rparr>" s t Trying]
      waiters_upd [of s t Yielding Trying]
    by (auto simp: mutex_inv_def mutex_lock_wakeup_def owners_def)
next
  case (trylock t s got m)
  let ?s' = "s\<lparr>mutex := m, mpc := (mpc s)(t := (if got then Owning else Away))\<rparr>"
  show ?case
    using trylock owners_upd [of ?s' s t] waiters_upd [of s t Away]
    by (auto simp: mutex_inv_def mutex_trylock_def current_tid32_def owners_def split: if_splits)
next
  case (unlock t s m)
  let ?s' = "s\<lparr>mutex := m, mpc := (mpc s)(t := Away)\<rparr>"
  have w: "of_nat (at_pc ((mpc s)(t := Away)) Yielding) = (of_nat (at_pc (mpc s) Yielding) :: u32)"
    using unlock(2) waiters_upd [of s t _ Away] by auto
  have own: "t = u" if "owners s = {u}" "(ucast u :: u32) = ucast t" for u
    using that unlock(1,4) by (auto simp: mutex_inv_def tids_distinct_def inj_on_def)
  show ?case
    using unlock owners_upd [of ?s' s t Away] w own
    by (auto simp: mutex_inv_def mutex_unlock_def current_tid32_def owners_def split: if_splits)
qed

interpretation mutex_lock: exclusive "mutex_start T" "mutex_step T" "mutex_inv T" owners
proof
  show "mutex_inv T s" if "mutex_start T s" for s
  proof -
    have "\<not> mutex_locked (mutex s)" "mutex_waiters (mutex s) = 0"
      using that by (cases "mutex s"; simp add: mutex_start_def mutex_init_def)+
    with that show ?thesis by (auto simp: mutex_start_def mutex_inv_def owners_def at_pc_0)
  qed
  show "mutex_inv T t" if "mutex_inv T s" "mutex_step T s t" for s t
    using mutex_step_inv that by blast
  show "t = u" if "mutex_inv T s" "t \<in> owners s" "u \<in> owners s" for s t u
    using that by (auto simp: mutex_inv_def split: if_splits)
qed

section \<open>Properties\<close>

text \<open>
  C12: mutual exclusion. For threads whose numbers differ in their lower 32 bits, in every interleaving
  of lock, try-lock and unlock calls (also of unlock calls by threads that do not hold the mutex) at
  most one thread owns the mutex, it is marked locked exactly then, and \<open>wait_count\<close> is the number of
  threads that are waiting, modulo its 32 bits.
\<close>

theorem mutex_mutual_exclusion:
  assumes "mutex_start T s0" "(mutex_step T)\<^sup>*\<^sup>* s0 s"
  shows "(t \<in> owners s \<and> u \<in> owners s \<longrightarrow> t = u) \<and>
    (mutex_is_locked (Some (mutex s)) \<longleftrightarrow> owners s \<noteq> {}) \<and>
    mutex_waiters (mutex s) = of_nat (at_pc (mpc s) Yielding)"
  using mutex_lock.mutual_exclusion [OF assms(2,1)] mutex_lock.reachable_inv [OF assms(2,1)]
  by (auto simp: mutex_inv_def mutex_is_locked_def split: if_splits)

definition free_mutex :: mutex_sys where
  "free_mutex = \<lparr>mutex = \<lparr>mutex_locked = False, mutex_owner = 0, mutex_waiters = 0\<rparr>, mpc = (\<lambda>_. Away)\<rparr>"

lemma free_mutex_start: "mutex_start {3, 4} free_mutex"
  by (simp add: mutex_start_def free_mutex_def mutex_init_def tids_distinct_def inj_on_def)

theorem mutex_mutual_exclusion_witness:
  "\<exists>s. (mutex_step {3, 4})\<^sup>*\<^sup>* free_mutex s \<and> 3 \<in> owners s \<and> mutex_is_locked (Some (mutex s))"
proof -
  let ?s = "free_mutex\<lparr>mutex := \<lparr>mutex_locked = True, mutex_owner = 3, mutex_waiters = 0\<rparr>,
      mpc := (mpc free_mutex)(3 := Owning)\<rparr>"
  have "mutex_step {3, 4} free_mutex ?s"
    using mutex_step.trylock [of 3 "{3, 4}" free_mutex True
        "\<lparr>mutex_locked = True, mutex_owner = 3, mutex_waiters = 0\<rparr>"]
    by (simp add: free_mutex_def mutex_trylock_def current_tid32_def)
  then have run: "(mutex_step {3, 4})\<^sup>*\<^sup>* free_mutex ?s" by (rule r_into_rtranclp)
  moreover have "3 \<in> owners ?s" by (simp add: owners_def)
  ultimately show ?thesis using mutex_mutual_exclusion [OF free_mutex_start run, of 3 3] by blast
qed

text \<open>
  Without the condition on thread numbers exclusion fails: a thread whose number has the same lower
  half as the owner's can unlock the mutex and take it while the owner is still inside.
\<close>

theorem mutex_owner_truncated:
  assumes "t \<in> T" "u \<in> T" "t \<noteq> u" "(ucast t :: u32) = ucast u"
    and "mpc s t = Owning" "mpc s u = Away" "mutex_locked (mutex s)" "mutex_owner (mutex s) = ucast t"
  shows "\<exists>s'. (mutex_step T)\<^sup>*\<^sup>* s s' \<and> {t, u} \<subseteq> owners s'"
proof -
  let ?m1 = "(mutex s)\<lparr>mutex_locked := False, mutex_owner := 0\<rparr>"
  let ?s1 = "s\<lparr>mutex := ?m1, mpc := (mpc s)(u := Away)\<rparr>"
  let ?m2 = "?m1\<lparr>mutex_locked := True, mutex_owner := ucast u\<rparr>"
  have 1: "mutex_step T s ?s1"
    by (rule mutex_step.unlock [where t = u]) (use assms in \<open>simp_all add: mutex_unlock_def current_tid32_def\<close>)
  have 2: "mutex_step T ?s1 (?s1\<lparr>mutex := ?m2, mpc := (mpc ?s1)(u := Owning)\<rparr>)"
    using mutex_step.trylock [of u T ?s1 True ?m2] assms
    by (simp add: mutex_trylock_def current_tid32_def)
  show ?thesis
    by (rule run_step_ex [where r = "mutex_step T", OF 1],
        rule run_step_ex [where r = "mutex_step T", OF 2], rule run_ex_refl)
      (use assms in \<open>simp add: owners_def\<close>)
qed

end
