(* ===== verification/Semaphore.thy ===== *)
theory Semaphore
  imports Spinlock
begin

text \<open>
  Counting semaphores, \<^verbatim>\<open>kernel/sync/semaphore.c\<close>. The code under the semaphore's spinlock is one
  step. \<open>sem_step\<close> interleaves threads that wait, try to wait and signal, and labels each step with
  what happened to the permits; a signal may come from any thread that is not inside a wait.
\<close>

section \<open>Model\<close>

record semaphore_t =
  sem_count :: u32
  sem_max :: u32
  sem_waiters :: u32

definition semaphore_init :: "u32 \<Rightarrow> u32 \<Rightarrow> semaphore_t option \<Rightarrow> semaphore_t option" where
  "semaphore_init initial_count max_count sem =
     map_option (\<lambda>m. m\<lparr>sem_count := initial_count, sem_max := max_count, sem_waiters := 0\<rparr>) sem"

text \<open>One round of the loop of \<^verbatim>\<open>semaphore_wait\<close>: whether a permit was taken.\<close>

definition semaphore_wait_round :: "semaphore_t \<Rightarrow> bool \<times> semaphore_t" where
  "semaphore_wait_round m =
     (if sem_count m > 0 then (True, m\<lparr>sem_count := sem_count m - 1\<rparr>)
      else (False, m\<lparr>sem_waiters := sem_waiters m + 1\<rparr>))"

definition semaphore_wait_wakeup :: "semaphore_t \<Rightarrow> semaphore_t" where
  "semaphore_wait_wakeup m = m\<lparr>sem_waiters := sem_waiters m - 1\<rparr>"

definition semaphore_signal :: "semaphore_t option \<Rightarrow> semaphore_t option" where
  "semaphore_signal sem = map_option (\<lambda>m.
     if sem_count m < sem_max m then m\<lparr>sem_count := sem_count m + 1\<rparr> else m) sem"

definition semaphore_trywait :: "semaphore_t option \<Rightarrow> bool \<times> semaphore_t option" where
  "semaphore_trywait sem =
     (case sem of
        None \<Rightarrow> (False, None)
      | Some m \<Rightarrow> if sem_count m > 0 then (True, Some (m\<lparr>sem_count := sem_count m - 1\<rparr>))
                  else (False, Some m))"

definition semaphore_get_count :: "semaphore_t option \<Rightarrow> u32" where
  "semaphore_get_count sem = (case sem of None \<Rightarrow> 0 | Some m \<Rightarrow> sem_count m)"

datatype sem_pc = Sem_away | Sem_trying | Sem_yielding

datatype sem_event = Sem_tau | Took u64 | Gave u64 | Dropped u64

record sem_sys =
  sem :: semaphore_t
  sempc :: "u64 \<Rightarrow> sem_pc"

inductive sem_step :: "sem_sys \<Rightarrow> sem_event \<Rightarrow> sem_sys \<Rightarrow> bool" where
  wait_call: "sempc s t = Sem_away \<Longrightarrow> sem_step s Sem_tau (s\<lparr>sempc := (sempc s)(t := Sem_trying)\<rparr>)"
| wait_round: "sempc s t = Sem_trying \<Longrightarrow> semaphore_wait_round (sem s) = (got, m) \<Longrightarrow>
    sem_step s (if got then Took t else Sem_tau)
      (s\<lparr>sem := m, sempc := (sempc s)(t := (if got then Sem_away else Sem_yielding))\<rparr>)"
| wait_wakeup: "sempc s t = Sem_yielding \<Longrightarrow>
    sem_step s Sem_tau (s\<lparr>sem := semaphore_wait_wakeup (sem s), sempc := (sempc s)(t := Sem_trying)\<rparr>)"
| trywait: "sempc s t = Sem_away \<Longrightarrow> semaphore_trywait (Some (sem s)) = (got, Some m) \<Longrightarrow>
    sem_step s (if got then Took t else Sem_tau) (s\<lparr>sem := m\<rparr>)"
| signal: "sempc s t = Sem_away \<Longrightarrow> semaphore_signal (Some (sem s)) = Some m \<Longrightarrow>
    sem_step s (if sem_count (sem s) < sem_max (sem s) then Gave t else Dropped t) (s\<lparr>sem := m\<rparr>)"

inductive sem_run :: "sem_sys \<Rightarrow> sem_event list \<Rightarrow> sem_sys \<Rightarrow> bool" where
  sem_none: "sem_run s [] s"
| sem_more: "sem_run s tr s' \<Longrightarrow> sem_step s' e s'' \<Longrightarrow> sem_run s (tr @ [e]) s''"

section \<open>Permits\<close>

fun is_took :: "sem_event \<Rightarrow> bool" where
  "is_took (Took t) = True"
| "is_took e = False"

fun is_gave :: "sem_event \<Rightarrow> bool" where
  "is_gave (Gave t) = True"
| "is_gave e = False"

definition taken :: "sem_event list \<Rightarrow> nat" where
  "taken tr = length (filter is_took tr)"

definition given :: "sem_event list \<Rightarrow> nat" where
  "given tr = length (filter is_gave tr)"

text \<open>The semaphore right after \<^verbatim>\<open>semaphore_init\<close>, nobody using it.\<close>

definition sem_start :: "u32 \<Rightarrow> u32 \<Rightarrow> sem_sys \<Rightarrow> bool" where
  "sem_start i mx s \<longleftrightarrow> semaphore_init i mx (Some (sem s)) = Some (sem s) \<and> i \<le> mx \<and>
     (\<forall>t. sempc s t = Sem_away)"

definition sem_inv :: "u32 \<Rightarrow> u32 \<Rightarrow> sem_event list \<Rightarrow> sem_sys \<Rightarrow> bool" where
  "sem_inv i mx tr s \<longleftrightarrow>
     unat (sem_count (sem s)) + taken tr = unat i + given tr \<and>
     sem_count (sem s) \<le> mx \<and> sem_max (sem s) = mx \<and>
     sem_waiters (sem s) = of_nat (at_pc (sempc s) Sem_yielding)"

lemma counts_snoc [simp]:
  "taken (tr @ [e]) = taken tr + (if is_took e then 1 else 0)"
  "given (tr @ [e]) = given tr + (if is_gave e then 1 else 0)"
  by (simp_all add: taken_def given_def)

lemma sem_take_permit:
  assumes "0 < (c :: u32)" "c \<le> mx"
  shows "unat c = Suc (unat (c - 1))" "c - 1 \<le> mx"
proof -
  have "0 < unat c" using assms(1) by (simp add: word_less_nat_alt)
  then show "unat c = Suc (unat (c - 1))" by (simp add: unat_pred)
  with assms(2) show "c - 1 \<le> mx" by (simp add: word_le_nat_alt)
qed

lemma sem_step_inv:
  assumes "sem_step s e s'" "sem_inv i mx tr s"
  shows "sem_inv i mx (tr @ [e]) s'"
  using assms
proof (induction rule: sem_step.induct)
  case (wait_call s t)
  then show ?case by (simp add: sem_inv_def at_pc_other)
next
  case (wait_round s t got m)
  then show ?case
    using sem_take_permit [of "sem_count (sem s)" mx]
    by (auto simp: sem_inv_def semaphore_wait_round_def at_pc_enter at_pc_other split: if_splits)
next
  case (wait_wakeup s t)
  then have "at_pc (sempc s) Sem_yielding = Suc (at_pc ((sempc s)(t := Sem_trying)) Sem_yielding)"
    using at_pc_leave [of "sempc s" t Sem_yielding Sem_trying] by simp
  with wait_wakeup show ?case by (simp add: sem_inv_def semaphore_wait_wakeup_def)
next
  case (trywait s t got m)
  then show ?case
    using sem_take_permit [of "sem_count (sem s)" mx]
    by (auto simp: sem_inv_def semaphore_trywait_def split: if_splits)
next
  case (signal s t m)
  then show ?case
    using unat_succ_less [of "sem_count (sem s)" mx]
    by (auto simp: sem_inv_def semaphore_signal_def word_le_nat_alt word_less_nat_alt split: if_splits)
qed

lemma sem_run_inv:
  assumes "sem_run s0 tr s" "sem_start i mx s0"
  shows "sem_inv i mx tr s"
  using assms
proof (induction rule: sem_run.induct)
  case (sem_none s)
  then have "sem_count (sem s) = i" "sem_max (sem s) = mx" "sem_waiters (sem s) = 0"
    by (cases "sem s"; simp add: sem_start_def semaphore_init_def)+
  with sem_none show ?case by (simp add: sem_start_def sem_inv_def taken_def given_def at_pc_0)
next
  case (sem_more s tr s' e s'')
  then show ?case using sem_step_inv by blast
qed

section \<open>Properties\<close>


definition binary_sem :: sem_sys where
  "binary_sem = \<lparr>sem = \<lparr>sem_count = 1, sem_max = 1, sem_waiters = 0\<rparr>, sempc = (\<lambda>_. Sem_away)\<rparr>"


end
