(* ===== verification/Rwlock.thy ===== *)
theory Rwlock
  imports Spinlock
begin

text \<open>
  Read-write locks, \<^verbatim>\<open>kernel/sync/rwlock.c\<close>. The code under the internal spinlock is one step.
  \<^verbatim>\<open>readers\<close> and \<^verbatim>\<open>waiting_writers\<close> are signed 32-bit counters; they are read with \<open>sint\<close>.
  \<open>rw_step\<close> interleaves the threads of a set \<open>T\<close>; each thread unlocks what it has locked.
\<close>

section \<open>Model\<close>

record rwlock_t =
  readers :: "32 word"
  writer :: bool
  waiting_writers :: "32 word"

definition rwlock_init :: "rwlock_t option \<Rightarrow> rwlock_t option" where
  "rwlock_init rwlock =
     map_option (\<lambda>l. l\<lparr>readers := 0, writer := False, waiting_writers := 0\<rparr>) rwlock"

text \<open>One pass through the loop condition of \<^verbatim>\<open>rwlock_read_lock\<close>, of \<^verbatim>\<open>rwlock_write_lock\<close>.\<close>

definition rwlock_read_round :: "rwlock_t \<Rightarrow> bool \<times> rwlock_t" where
  "rwlock_read_round l =
     (if writer l \<or> sint (waiting_writers l) > 0 then (False, l)
      else (True, l\<lparr>readers := readers l + 1\<rparr>))"

definition rwlock_read_unlock :: "rwlock_t option \<Rightarrow> rwlock_t option" where
  "rwlock_read_unlock rwlock = map_option (\<lambda>l. l\<lparr>readers := readers l - 1\<rparr>) rwlock"

definition rwlock_write_round :: "rwlock_t \<Rightarrow> bool \<times> rwlock_t" where
  "rwlock_write_round l =
     (if sint (readers l) > 0 \<or> writer l then (False, l)
      else (True, l\<lparr>waiting_writers := waiting_writers l - 1, writer := True\<rparr>))"

text \<open>The start of \<^verbatim>\<open>rwlock_write_lock\<close>: the writer announces itself and makes its first pass.\<close>

definition rwlock_write_enter :: "rwlock_t \<Rightarrow> bool \<times> rwlock_t" where
  "rwlock_write_enter l = rwlock_write_round (l\<lparr>waiting_writers := waiting_writers l + 1\<rparr>)"

definition rwlock_write_unlock :: "rwlock_t option \<Rightarrow> rwlock_t option" where
  "rwlock_write_unlock rwlock = map_option (\<lambda>l. l\<lparr>writer := False\<rparr>) rwlock"

datatype rw_pc = Rw_idle | Read_spin | Reading | Write_spin | Writing

record rw_sys =
  rwl :: rwlock_t
  rwpc :: "u64 \<Rightarrow> rw_pc"

inductive rw_step :: "u64 set \<Rightarrow> rw_sys \<Rightarrow> rw_sys \<Rightarrow> bool" for T where
  read_call: "t \<in> T \<Longrightarrow> rwpc s t = Rw_idle \<Longrightarrow> rw_step T s (s\<lparr>rwpc := (rwpc s)(t := Read_spin)\<rparr>)"
| read_round: "t \<in> T \<Longrightarrow> rwpc s t = Read_spin \<Longrightarrow> rwlock_read_round (rwl s) = (got, l) \<Longrightarrow>
    rw_step T s (s\<lparr>rwl := l, rwpc := (rwpc s)(t := (if got then Reading else Read_spin))\<rparr>)"
| read_unlock: "t \<in> T \<Longrightarrow> rwpc s t = Reading \<Longrightarrow> rwlock_read_unlock (Some (rwl s)) = Some l \<Longrightarrow>
    rw_step T s (s\<lparr>rwl := l, rwpc := (rwpc s)(t := Rw_idle)\<rparr>)"
| write_enter: "t \<in> T \<Longrightarrow> rwpc s t = Rw_idle \<Longrightarrow> rwlock_write_enter (rwl s) = (got, l) \<Longrightarrow>
    rw_step T s (s\<lparr>rwl := l, rwpc := (rwpc s)(t := (if got then Writing else Write_spin))\<rparr>)"
| write_round: "t \<in> T \<Longrightarrow> rwpc s t = Write_spin \<Longrightarrow> rwlock_write_round (rwl s) = (got, l) \<Longrightarrow>
    rw_step T s (s\<lparr>rwl := l, rwpc := (rwpc s)(t := (if got then Writing else Write_spin))\<rparr>)"
| write_unlock: "t \<in> T \<Longrightarrow> rwpc s t = Writing \<Longrightarrow> rwlock_write_unlock (Some (rwl s)) = Some l \<Longrightarrow>
    rw_step T s (s\<lparr>rwl := l, rwpc := (rwpc s)(t := Rw_idle)\<rparr>)"

section \<open>Invariant\<close>

text \<open>Fewer threads than a signed 32-bit counter can count.\<close>

definition rw_threads :: "u64 set \<Rightarrow> bool" where
  "rw_threads T \<longleftrightarrow> finite T \<and> card T < 2 ^ 31"

definition rw_start :: "u64 set \<Rightarrow> rw_sys \<Rightarrow> bool" where
  "rw_start T s \<longleftrightarrow> rw_threads T \<and> rwlock_init (Some (rwl s)) = Some (rwl s) \<and> (\<forall>t. rwpc s t = Rw_idle)"

definition rw_inv :: "u64 set \<Rightarrow> rw_sys \<Rightarrow> bool" where
  "rw_inv T s \<longleftrightarrow> rw_threads T \<and> (\<forall>t. rwpc s t \<noteq> Rw_idle \<longrightarrow> t \<in> T) \<and>
     readers (rwl s) = of_nat (at_pc (rwpc s) Reading) \<and>
     waiting_writers (rwl s) = of_nat (at_pc (rwpc s) Write_spin) \<and>
     at_pc (rwpc s) Writing = (if writer (rwl s) then 1 else 0) \<and>
     (writer (rwl s) \<longrightarrow> at_pc (rwpc s) Reading = 0)"

lemma sint_small: "n < 2 ^ 31 \<Longrightarrow> sint (of_nat n :: 32 word) = int n"
  by (simp add: signed_of_nat signed_take_bit_int_eq_self)

lemma rw_counters:
  assumes "rw_inv T s"
  shows "sint (readers (rwl s)) = int (at_pc (rwpc s) Reading)"
    "sint (waiting_writers (rwl s)) = int (at_pc (rwpc s) Write_spin)"
proof -
  have "at_pc (rwpc s) y < 2 ^ 31" if "y \<noteq> Rw_idle" for y
    using assms that at_pc_le [of "rwpc s" y T] by (auto simp: rw_inv_def rw_threads_def)
  with assms sint_small show "sint (readers (rwl s)) = int (at_pc (rwpc s) Reading)"
    "sint (waiting_writers (rwl s)) = int (at_pc (rwpc s) Write_spin)" by (simp_all add: rw_inv_def)
qed

lemmas at_pc_simps = at_pc_enter at_pc_other

text \<open>Leaving a point that is counted, in the form the counters need.\<close>

lemma at_pc_leaveE:
  assumes "f t = y" "x \<noteq> y"
  obtains n where "at_pc f y = Suc n" "at_pc (f(t := x)) y = n"
  using at_pc_leave [of f t y x] assms by metis

lemma rw_step_inv:
  assumes "rw_step T s s'" "rw_inv T s"
  shows "rw_inv T s'"
  using assms
proof (induction rule: rw_step.induct)
  case (read_call t s)
  then show ?case by (auto simp: rw_inv_def at_pc_other)
next
  case (read_round t s got l)
  then show ?case
    by (auto simp: rw_inv_def rwlock_read_round_def at_pc_simps fun_upd_idem split: if_splits)
next
  case (read_unlock t s l)
  obtain n where "at_pc (rwpc s) Reading = Suc n" "at_pc ((rwpc s)(t := Rw_idle)) Reading = n"
    using read_unlock at_pc_leaveE [of "rwpc s" t] by (metis rw_pc.distinct)
  with read_unlock show ?case by (auto simp: rw_inv_def rwlock_read_unlock_def at_pc_simps)
next
  case (write_enter t s got l)
  then show ?case
    using rw_counters(1) [OF write_enter(4)]
    by (auto simp: rw_inv_def rwlock_write_enter_def rwlock_write_round_def at_pc_simps split: if_splits)
next
  case (write_round t s got l)
  obtain n where "at_pc (rwpc s) Write_spin = Suc n" "at_pc ((rwpc s)(t := Writing)) Write_spin = n"
    using write_round at_pc_leaveE [of "rwpc s" t] by (metis rw_pc.distinct)
  with write_round show ?case
    using rw_counters(1) [OF write_round(4)]
    by (auto simp: rw_inv_def rwlock_write_round_def at_pc_simps fun_upd_idem split: if_splits)
next
  case (write_unlock t s l)
  obtain n where "at_pc (rwpc s) Writing = Suc n" "at_pc ((rwpc s)(t := Rw_idle)) Writing = n"
    using write_unlock at_pc_leaveE [of "rwpc s" t] by (metis rw_pc.distinct)
  with write_unlock show ?case
    by (auto simp: rw_inv_def rwlock_write_unlock_def at_pc_simps split: if_splits)
qed

definition writers :: "rw_sys \<Rightarrow> u64 set" where
  "writers s = {t. rwpc s t = Writing}"

interpretation rw_lock: exclusive "rw_start T" "rw_step T" "rw_inv T" writers
proof
  show "rw_inv T s" if "rw_start T s" for s
  proof -
    have "readers (rwl s) = 0" "\<not> writer (rwl s)" "waiting_writers (rwl s) = 0"
      using that by (cases "rwl s"; simp add: rw_start_def rwlock_init_def)+
    with that show ?thesis by (simp add: rw_start_def rw_inv_def at_pc_0)
  qed
  show "rw_inv T t" if "rw_inv T s" "rw_step T s t" for s t
    using rw_step_inv that by blast
  show "t = u" if "rw_inv T s" "t \<in> writers s" "u \<in> writers s" for s t u
  proof -
    have "card {v. rwpc s v = Writing} = 1"
      using that at_pc_pos [of "rwpc s" t Writing] by (auto simp: rw_inv_def writers_def at_pc_def split: if_splits)
    then obtain x where "{v. rwpc s v = Writing} = {x}" by (auto simp: card_1_singleton_iff)
    with that(2,3) show ?thesis unfolding writers_def by (metis singletonD)
  qed
qed

section \<open>Properties\<close>

text \<open>
  C14: readers or one writer. In every interleaving of fewer than \<open>2^31\<close> threads, while a thread
  writes no other thread writes and none reads; the signed counters are exactly the numbers of
  readers and of waiting writers, so they never overflow; and while a writer waits no reader enters.
\<close>

theorem rwlock_exclusion:
  assumes "rw_start T s0" "(rw_step T)\<^sup>*\<^sup>* s0 s"
  shows "(rwpc s t = Writing \<and> u \<noteq> t \<longrightarrow> rwpc s u \<noteq> Writing \<and> rwpc s u \<noteq> Reading) \<and>
    sint (readers (rwl s)) = int (at_pc (rwpc s) Reading) \<and>
    sint (waiting_writers (rwl s)) = int (at_pc (rwpc s) Write_spin) \<and>
    (rwpc s u = Write_spin \<longrightarrow> \<not> fst (rwlock_read_round (rwl s)))"
proof -
  note inv = rw_lock.reachable_inv [OF assms(2,1)]
  have "rwpc s u \<noteq> Writing" if "rwpc s t = Writing" "u \<noteq> t"
    using rw_lock.mutual_exclusion [OF assms(2,1), of t u] that by (auto simp: writers_def)
  moreover have "rwpc s u \<noteq> Reading" if "rwpc s t = Writing"
    using inv that at_pc_pos [of "rwpc s" t Writing] at_pc_pos [of "rwpc s" u Reading]
    by (auto simp: rw_inv_def split: if_splits)
  moreover have "\<not> fst (rwlock_read_round (rwl s))" if "rwpc s u = Write_spin"
    using rw_counters(2) [OF inv] at_pc_pos [of "rwpc s" u Write_spin] that by (simp add: rwlock_read_round_def)
  ultimately show ?thesis using rw_counters [OF inv] by blast
qed

definition free_rw :: rw_sys where
  "free_rw = \<lparr>rwl = \<lparr>readers = 0, writer = False, waiting_writers = 0\<rparr>, rwpc = (\<lambda>_. Rw_idle)\<rparr>"

theorem rwlock_exclusion_witness:
  "\<exists>s. (rw_step {3, 4})\<^sup>*\<^sup>* free_rw s \<and> rwpc s 3 = Writing \<and> rwpc s 4 \<noteq> Reading"
proof -
  let ?s = "free_rw\<lparr>rwl := \<lparr>readers = 0, writer = True, waiting_writers = 0\<rparr>,
      rwpc := (rwpc free_rw)(3 := Writing)\<rparr>"
  have start: "rw_start {3, 4} free_rw"
    by (simp add: rw_start_def free_rw_def rwlock_init_def rw_threads_def)
  have "rw_step {3, 4} free_rw ?s"
    using rw_step.write_enter [of 3 "{3, 4}" free_rw True]
    by (simp add: free_rw_def rwlock_write_enter_def rwlock_write_round_def)
  then have run: "(rw_step {3, 4})\<^sup>*\<^sup>* free_rw ?s" by (rule r_into_rtranclp)
  from rwlock_exclusion [OF start run, of 3 4] run show ?thesis by auto
qed

end
