(* ===== verification/Aes.thy ===== *)
theory Aes
  imports Prelude
begin

text \<open>
  The block cipher of \<^verbatim>\<open>kernel/crypto/aes256.c\<close>, \<^verbatim>\<open>aes128.c\<close> and \<^verbatim>\<open>aes192.c\<close> in CBC mode. A byte
  array is the list of its bytes and a loop that updates it in place a \<open>for_range\<close> of list
  updates. The three files share the round functions, and their encryption and decryption loops
  differ in the number of rounds and the key schedule only: \<open>block_encrypt\<close>, \<open>block_decrypt\<close> and
  the CBC loops are translated once, with these as arguments. A pointer argument that may be
  \<^verbatim>\<open>NULL\<close> is an option; the output buffer is an argument and a result.
\<close>

section \<open>Tables\<close>

definition sbox :: "u8 list" where
  "sbox =
    [0x63, 0x7c, 0x77, 0x7b, 0xf2, 0x6b, 0x6f, 0xc5, 0x30, 0x01, 0x67, 0x2b, 0xfe, 0xd7, 0xab, 0x76,
     0xca, 0x82, 0xc9, 0x7d, 0xfa, 0x59, 0x47, 0xf0, 0xad, 0xd4, 0xa2, 0xaf, 0x9c, 0xa4, 0x72, 0xc0,
     0xb7, 0xfd, 0x93, 0x26, 0x36, 0x3f, 0xf7, 0xcc, 0x34, 0xa5, 0xe5, 0xf1, 0x71, 0xd8, 0x31, 0x15,
     0x04, 0xc7, 0x23, 0xc3, 0x18, 0x96, 0x05, 0x9a, 0x07, 0x12, 0x80, 0xe2, 0xeb, 0x27, 0xb2, 0x75,
     0x09, 0x83, 0x2c, 0x1a, 0x1b, 0x6e, 0x5a, 0xa0, 0x52, 0x3b, 0xd6, 0xb3, 0x29, 0xe3, 0x2f, 0x84,
     0x53, 0xd1, 0x00, 0xed, 0x20, 0xfc, 0xb1, 0x5b, 0x6a, 0xcb, 0xbe, 0x39, 0x4a, 0x4c, 0x58, 0xcf,
     0xd0, 0xef, 0xaa, 0xfb, 0x43, 0x4d, 0x33, 0x85, 0x45, 0xf9, 0x02, 0x7f, 0x50, 0x3c, 0x9f, 0xa8,
     0x51, 0xa3, 0x40, 0x8f, 0x92, 0x9d, 0x38, 0xf5, 0xbc, 0xb6, 0xda, 0x21, 0x10, 0xff, 0xf3, 0xd2,
     0xcd, 0x0c, 0x13, 0xec, 0x5f, 0x97, 0x44, 0x17, 0xc4, 0xa7, 0x7e, 0x3d, 0x64, 0x5d, 0x19, 0x73,
     0x60, 0x81, 0x4f, 0xdc, 0x22, 0x2a, 0x90, 0x88, 0x46, 0xee, 0xb8, 0x14, 0xde, 0x5e, 0x0b, 0xdb,
     0xe0, 0x32, 0x3a, 0x0a, 0x49, 0x06, 0x24, 0x5c, 0xc2, 0xd3, 0xac, 0x62, 0x91, 0x95, 0xe4, 0x79,
     0xe7, 0xc8, 0x37, 0x6d, 0x8d, 0xd5, 0x4e, 0xa9, 0x6c, 0x56, 0xf4, 0xea, 0x65, 0x7a, 0xae, 0x08,
     0xba, 0x78, 0x25, 0x2e, 0x1c, 0xa6, 0xb4, 0xc6, 0xe8, 0xdd, 0x74, 0x1f, 0x4b, 0xbd, 0x8b, 0x8a,
     0x70, 0x3e, 0xb5, 0x66, 0x48, 0x03, 0xf6, 0x0e, 0x61, 0x35, 0x57, 0xb9, 0x86, 0xc1, 0x1d, 0x9e,
     0xe1, 0xf8, 0x98, 0x11, 0x69, 0xd9, 0x8e, 0x94, 0x9b, 0x1e, 0x87, 0xe9, 0xce, 0x55, 0x28, 0xdf,
     0x8c, 0xa1, 0x89, 0x0d, 0xbf, 0xe6, 0x42, 0x68, 0x41, 0x99, 0x2d, 0x0f, 0xb0, 0x54, 0xbb, 0x16]"

definition inv_sbox :: "u8 list" where
  "inv_sbox =
    [0x52, 0x09, 0x6a, 0xd5, 0x30, 0x36, 0xa5, 0x38, 0xbf, 0x40, 0xa3, 0x9e, 0x81, 0xf3, 0xd7, 0xfb,
     0x7c, 0xe3, 0x39, 0x82, 0x9b, 0x2f, 0xff, 0x87, 0x34, 0x8e, 0x43, 0x44, 0xc4, 0xde, 0xe9, 0xcb,
     0x54, 0x7b, 0x94, 0x32, 0xa6, 0xc2, 0x23, 0x3d, 0xee, 0x4c, 0x95, 0x0b, 0x42, 0xfa, 0xc3, 0x4e,
     0x08, 0x2e, 0xa1, 0x66, 0x28, 0xd9, 0x24, 0xb2, 0x76, 0x5b, 0xa2, 0x49, 0x6d, 0x8b, 0xd1, 0x25,
     0x72, 0xf8, 0xf6, 0x64, 0x86, 0x68, 0x98, 0x16, 0xd4, 0xa4, 0x5c, 0xcc, 0x5d, 0x65, 0xb6, 0x92,
     0x6c, 0x70, 0x48, 0x50, 0xfd, 0xed, 0xb9, 0xda, 0x5e, 0x15, 0x46, 0x57, 0xa7, 0x8d, 0x9d, 0x84,
     0x90, 0xd8, 0xab, 0x00, 0x8c, 0xbc, 0xd3, 0x0a, 0xf7, 0xe4, 0x58, 0x05, 0xb8, 0xb3, 0x45, 0x06,
     0xd0, 0x2c, 0x1e, 0x8f, 0xca, 0x3f, 0x0f, 0x02, 0xc1, 0xaf, 0xbd, 0x03, 0x01, 0x13, 0x8a, 0x6b,
     0x3a, 0x91, 0x11, 0x41, 0x4f, 0x67, 0xdc, 0xea, 0x97, 0xf2, 0xcf, 0xce, 0xf0, 0xb4, 0xe6, 0x73,
     0x96, 0xac, 0x74, 0x22, 0xe7, 0xad, 0x35, 0x85, 0xe2, 0xf9, 0x37, 0xe8, 0x1c, 0x75, 0xdf, 0x6e,
     0x47, 0xf1, 0x1a, 0x71, 0x1d, 0x29, 0xc5, 0x89, 0x6f, 0xb7, 0x62, 0x0e, 0xaa, 0x18, 0xbe, 0x1b,
     0xfc, 0x56, 0x3e, 0x4b, 0xc6, 0xd2, 0x79, 0x20, 0x9a, 0xdb, 0xc0, 0xfe, 0x78, 0xcd, 0x5a, 0xf4,
     0x1f, 0xdd, 0xa8, 0x33, 0x88, 0x07, 0xc7, 0x31, 0xb1, 0x12, 0x10, 0x59, 0x27, 0x80, 0xec, 0x5f,
     0x60, 0x51, 0x7f, 0xa9, 0x19, 0xb5, 0x4a, 0x0d, 0x2d, 0xe5, 0x7a, 0x9f, 0x93, 0xc9, 0x9c, 0xef,
     0xa0, 0xe0, 0x3b, 0x4d, 0xae, 0x2a, 0xf5, 0xb0, 0xc8, 0xeb, 0xbb, 0x3c, 0x83, 0x53, 0x99, 0x61,
     0x17, 0x2b, 0x04, 0x7e, 0xba, 0x77, 0xd6, 0x26, 0xe1, 0x69, 0x14, 0x63, 0x55, 0x21, 0x0c, 0x7d]"

definition rcon :: "u8 list" where
  "rcon = [0x00, 0x01, 0x02, 0x04, 0x08, 0x10, 0x20, 0x40, 0x80, 0x1b, 0x36]"

section \<open>Key schedules\<close>

text \<open>Four bytes of the key as a big-endian word.\<close>

definition key_word :: "u8 list \<Rightarrow> nat \<Rightarrow> u32" where
  "key_word key i =
     (push_bit 24 (ucast (key ! (i * 4))) OR push_bit 16 (ucast (key ! (i * 4 + 1))) OR
      push_bit 8 (ucast (key ! (i * 4 + 2))) OR ucast (key ! (i * 4 + 3)))"

definition sub_word :: "u32 \<Rightarrow> u32" where
  "sub_word temp =
     (push_bit 24 (ucast (sbox ! unat (drop_bit 24 temp AND 0xFF))) OR
      push_bit 16 (ucast (sbox ! unat (drop_bit 16 temp AND 0xFF))) OR
      push_bit 8 (ucast (sbox ! unat (drop_bit 8 temp AND 0xFF))) OR
      ucast (sbox ! unat (temp AND 0xFF)))"

definition rot_word :: "u32 \<Rightarrow> u32" where
  "rot_word temp = (push_bit 8 temp OR drop_bit 24 temp)"

text \<open>The rounds of the three schedules; the array starts with arbitrary contents.\<close>

definition aes128_schedule_round :: "nat \<Rightarrow> u32 list \<Rightarrow> u32 list" where
  "aes128_schedule_round i rk =
     (let temp = rk ! (i - 1);
          temp = (if i mod 4 = 0
                  then sub_word (rot_word temp) XOR push_bit 24 (ucast (rcon ! (i div 4))) else temp)
      in rk[i := rk ! (i - 4) XOR temp])"

definition aes192_schedule_round :: "nat \<Rightarrow> u32 list \<Rightarrow> u32 list" where
  "aes192_schedule_round i rk =
     (let temp = rk ! (i - 1);
          temp = (if i mod 6 = 0
                  then sub_word (rot_word temp) XOR push_bit 24 (ucast (rcon ! (i div 6)))
                  else if i mod 6 = 4 then sub_word temp else temp)
      in rk[i := rk ! (i - 6) XOR temp])"

definition aes256_schedule_round :: "nat \<Rightarrow> u32 list \<Rightarrow> u32 list" where
  "aes256_schedule_round i rk =
     (let temp = rk ! (i - 1);
          temp = (if i mod 8 = 0
                  then sub_word (rot_word temp) XOR push_bit 24 (ucast (rcon ! (i div 8)))
                  else if i mod 8 = 4 then sub_word temp else temp)
      in rk[i := rk ! (i - 8) XOR temp])"

definition aes128_key_expansion :: "u8 list \<Rightarrow> u32 list \<Rightarrow> u32 list" where
  "aes128_key_expansion key rk =
     for_range 4 44 aes128_schedule_round (for_range 0 4 (\<lambda>i rk. rk[i := key_word key i]) rk)"

definition aes192_key_expansion :: "u8 list \<Rightarrow> u32 list \<Rightarrow> u32 list" where
  "aes192_key_expansion key rk =
     for_range 6 52 aes192_schedule_round (for_range 0 6 (\<lambda>i rk. rk[i := key_word key i]) rk)"

definition aes256_key_expansion :: "u8 list \<Rightarrow> u32 list \<Rightarrow> u32 list" where
  "aes256_key_expansion key rk =
     for_range 8 60 aes256_schedule_round (for_range 0 8 (\<lambda>i rk. rk[i := key_word key i]) rk)"

section \<open>Round functions\<close>

definition add_round_key :: "u8 list \<Rightarrow> u32 list \<Rightarrow> u8 list" where
  "add_round_key state round_key = for_range 0 4 (\<lambda>i st.
     let k = round_key ! i;
         st = st[i * 4 := st ! (i * 4) XOR ucast (drop_bit 24 k AND 0xFF)];
         st = st[i * 4 + 1 := st ! (i * 4 + 1) XOR ucast (drop_bit 16 k AND 0xFF)];
         st = st[i * 4 + 2 := st ! (i * 4 + 2) XOR ucast (drop_bit 8 k AND 0xFF)]
     in st[i * 4 + 3 := st ! (i * 4 + 3) XOR ucast (k AND 0xFF)]) state"

definition sub_bytes :: "u8 list \<Rightarrow> u8 list" where
  "sub_bytes state = for_range 0 16 (\<lambda>i st. st[i := sbox ! unat (st ! i)]) state"

definition inv_sub_bytes :: "u8 list \<Rightarrow> u8 list" where
  "inv_sub_bytes state = for_range 0 16 (\<lambda>i st. st[i := inv_sbox ! unat (st ! i)]) state"

definition shift_rows :: "u8 list \<Rightarrow> u8 list" where
  "shift_rows st =
     (let temp = st ! 1; st = st[1 := st ! 5]; st = st[5 := st ! 9]; st = st[9 := st ! 13];
          st = st[13 := temp];
          temp = st ! 2; st = st[2 := st ! 10]; st = st[10 := temp];
          temp = st ! 6; st = st[6 := st ! 14]; st = st[14 := temp];
          temp = st ! 3; st = st[3 := st ! 15]; st = st[15 := st ! 11]; st = st[11 := st ! 7]
      in st[7 := temp])"

definition inv_shift_rows :: "u8 list \<Rightarrow> u8 list" where
  "inv_shift_rows st =
     (let temp = st ! 13; st = st[13 := st ! 9]; st = st[9 := st ! 5]; st = st[5 := st ! 1];
          st = st[1 := temp];
          temp = st ! 2; st = st[2 := st ! 10]; st = st[10 := temp];
          temp = st ! 6; st = st[6 := st ! 14]; st = st[14 := temp];
          temp = st ! 3; st = st[3 := st ! 7]; st = st[7 := st ! 11]; st = st[11 := st ! 15]
      in st[15 := temp])"

text \<open>The eight rounds of \<^verbatim>\<open>gmul\<close> on the variables \<open>a\<close>, \<open>b\<close> and \<open>p\<close>.\<close>

fun gmul_rounds :: "nat \<Rightarrow> u8 \<Rightarrow> u8 \<Rightarrow> u8 \<Rightarrow> u8" where
  "gmul_rounds 0 a b p = p"
| "gmul_rounds (Suc n) a b p =
     gmul_rounds n
       (if a AND 0x80 \<noteq> 0 then push_bit 1 a XOR 0x1b else push_bit 1 a)
       (drop_bit 1 b)
       (if b AND 1 \<noteq> 0 then p XOR a else p)"

definition gmul :: "u8 \<Rightarrow> u8 \<Rightarrow> u8" where
  "gmul a b = gmul_rounds 8 a b 0"

definition mix_columns :: "u8 list \<Rightarrow> u8 list" where
  "mix_columns state = for_range 0 4 (\<lambda>i st.
     let s0 = st ! (i * 4); s1 = st ! (i * 4 + 1); s2 = st ! (i * 4 + 2); s3 = st ! (i * 4 + 3);
         st = st[i * 4 := gmul 2 s0 XOR gmul 3 s1 XOR s2 XOR s3];
         st = st[i * 4 + 1 := s0 XOR gmul 2 s1 XOR gmul 3 s2 XOR s3];
         st = st[i * 4 + 2 := s0 XOR s1 XOR gmul 2 s2 XOR gmul 3 s3]
     in st[i * 4 + 3 := gmul 3 s0 XOR s1 XOR s2 XOR gmul 2 s3]) state"

definition inv_mix_columns :: "u8 list \<Rightarrow> u8 list" where
  "inv_mix_columns state = for_range 0 4 (\<lambda>i st.
     let s0 = st ! (i * 4); s1 = st ! (i * 4 + 1); s2 = st ! (i * 4 + 2); s3 = st ! (i * 4 + 3);
         st = st[i * 4 := gmul 0x0e s0 XOR gmul 0x0b s1 XOR gmul 0x0d s2 XOR gmul 0x09 s3];
         st = st[i * 4 + 1 := gmul 0x09 s0 XOR gmul 0x0e s1 XOR gmul 0x0b s2 XOR gmul 0x0d s3];
         st = st[i * 4 + 2 := gmul 0x0d s0 XOR gmul 0x09 s1 XOR gmul 0x0e s2 XOR gmul 0x0b s3]
     in st[i * 4 + 3 := gmul 0x0b s0 XOR gmul 0x0d s1 XOR gmul 0x09 s2 XOR gmul 0x0e s3]) state"

section \<open>One block\<close>

text \<open>The encryption of one block with the round keys \<open>rk\<close>, and its decryption.\<close>

definition block_encrypt :: "nat \<Rightarrow> u32 list \<Rightarrow> u8 list \<Rightarrow> u8 list" where
  "block_encrypt rounds rk state =
     (let st = add_round_key state rk;
          st = for_range 1 rounds (\<lambda>round st.
            add_round_key (mix_columns (shift_rows (sub_bytes st))) (drop (round * 4) rk)) st
      in add_round_key (shift_rows (sub_bytes st)) (drop (rounds * 4) rk))"

text \<open>The loop of the decryption runs from the last round down to the first.\<close>

fun decrypt_rounds :: "nat \<Rightarrow> u32 list \<Rightarrow> u8 list \<Rightarrow> u8 list" where
  "decrypt_rounds 0 rk st = st"
| "decrypt_rounds (Suc round) rk st =
     decrypt_rounds round rk
       (inv_mix_columns (add_round_key (inv_sub_bytes (inv_shift_rows st)) (drop (Suc round * 4) rk)))"

definition block_decrypt :: "nat \<Rightarrow> u32 list \<Rightarrow> u8 list \<Rightarrow> u8 list" where
  "block_decrypt rounds rk state =
     add_round_key (inv_sub_bytes (inv_shift_rows
       (decrypt_rounds (rounds - 1) rk (add_round_key state (drop (rounds * 4) rk))))) rk"

section \<open>CBC mode\<close>

definition initial_block :: "u8 list option \<Rightarrow> u8 list" where
  "initial_block iv = (case iv of None \<Rightarrow> replicate 16 0 | Some v \<Rightarrow> take 16 v)"

definition cbc_encrypt_block ::
  "(u8 list \<Rightarrow> u8 list) \<Rightarrow> u8 list \<Rightarrow> nat \<Rightarrow> u8 list \<times> u8 list \<Rightarrow> u8 list \<times> u8 list" where
  "cbc_encrypt_block enc plaintext block s =
     (case s of (prev, ciphertext) \<Rightarrow>
       let st = enc (map (\<lambda>i. plaintext ! (block * 16 + i) XOR prev ! i) [0..<16])
       in (st, blit ciphertext (block * 16) st))"

definition cbc_decrypt_block ::
  "(u8 list \<Rightarrow> u8 list) \<Rightarrow> u8 list \<Rightarrow> nat \<Rightarrow> u8 list \<times> u8 list \<Rightarrow> u8 list \<times> u8 list" where
  "cbc_decrypt_block dec ciphertext block s =
     (case s of (prev, plaintext) \<Rightarrow>
       let saved = take 16 (drop (block * 16) ciphertext);
           st = dec saved
       in (saved, for_range 0 16 (\<lambda>i p. p[block * 16 + i := st ! i XOR prev ! i]) plaintext))"

definition cbc_encrypt ::
  "(u8 list \<Rightarrow> u8 list) \<Rightarrow> u8 list option \<Rightarrow> u8 list \<Rightarrow> nat \<Rightarrow> u8 list \<Rightarrow> u8 list" where
  "cbc_encrypt enc iv plaintext len ciphertext =
     snd (for_range 0 (len div 16) (cbc_encrypt_block enc plaintext) (initial_block iv, ciphertext))"

definition cbc_decrypt ::
  "(u8 list \<Rightarrow> u8 list) \<Rightarrow> u8 list option \<Rightarrow> u8 list \<Rightarrow> nat \<Rightarrow> u8 list \<Rightarrow> u8 list" where
  "cbc_decrypt dec iv ciphertext len plaintext =
     snd (for_range 0 (len div 16) (cbc_decrypt_block dec ciphertext) (initial_block iv, plaintext))"

section \<open>The entry points\<close>

text \<open>
  The local array of round keys is uninitialised when the key expansion starts; its contents are
  the argument \<open>stack\<close>.
\<close>

definition aes128_encrypt ::
  "u32 list \<Rightarrow> u8 list option \<Rightarrow> u8 list option \<Rightarrow> u8 list option \<Rightarrow> size_t \<Rightarrow> u8 list option \<Rightarrow>
   error_code_t \<times> u8 list option" where
  "aes128_encrypt stack key iv plaintext plaintext_len ciphertext =
     (case (key, plaintext, ciphertext) of
        (Some k, Some inp, Some out) \<Rightarrow>
          if plaintext_len mod 16 \<noteq> 0 then (ERR_INVALID_ARG, ciphertext)
          else (ERR_OK, Some (cbc_encrypt (block_encrypt 10 (aes128_key_expansion k stack)) iv inp
                 (unat plaintext_len) out))
      | _ \<Rightarrow> (ERR_INVALID_ARG, ciphertext))"

definition aes128_decrypt ::
  "u32 list \<Rightarrow> u8 list option \<Rightarrow> u8 list option \<Rightarrow> u8 list option \<Rightarrow> size_t \<Rightarrow> u8 list option \<Rightarrow>
   error_code_t \<times> u8 list option" where
  "aes128_decrypt stack key iv ciphertext ciphertext_len plaintext =
     (case (key, ciphertext, plaintext) of
        (Some k, Some inp, Some out) \<Rightarrow>
          if ciphertext_len mod 16 \<noteq> 0 then (ERR_INVALID_ARG, plaintext)
          else (ERR_OK, Some (cbc_decrypt (block_decrypt 10 (aes128_key_expansion k stack)) iv inp
                 (unat ciphertext_len) out))
      | _ \<Rightarrow> (ERR_INVALID_ARG, plaintext))"

definition aes192_encrypt ::
  "u32 list \<Rightarrow> u8 list option \<Rightarrow> u8 list option \<Rightarrow> u8 list option \<Rightarrow> size_t \<Rightarrow> u8 list option \<Rightarrow>
   error_code_t \<times> u8 list option" where
  "aes192_encrypt stack key iv plaintext plaintext_len ciphertext =
     (case (key, plaintext, ciphertext) of
        (Some k, Some inp, Some out) \<Rightarrow>
          if plaintext_len mod 16 \<noteq> 0 then (ERR_INVALID_ARG, ciphertext)
          else (ERR_OK, Some (cbc_encrypt (block_encrypt 12 (aes192_key_expansion k stack)) iv inp
                 (unat plaintext_len) out))
      | _ \<Rightarrow> (ERR_INVALID_ARG, ciphertext))"

definition aes192_decrypt ::
  "u32 list \<Rightarrow> u8 list option \<Rightarrow> u8 list option \<Rightarrow> u8 list option \<Rightarrow> size_t \<Rightarrow> u8 list option \<Rightarrow>
   error_code_t \<times> u8 list option" where
  "aes192_decrypt stack key iv ciphertext ciphertext_len plaintext =
     (case (key, ciphertext, plaintext) of
        (Some k, Some inp, Some out) \<Rightarrow>
          if ciphertext_len mod 16 \<noteq> 0 then (ERR_INVALID_ARG, plaintext)
          else (ERR_OK, Some (cbc_decrypt (block_decrypt 12 (aes192_key_expansion k stack)) iv inp
                 (unat ciphertext_len) out))
      | _ \<Rightarrow> (ERR_INVALID_ARG, plaintext))"

definition aes256_encrypt ::
  "u32 list \<Rightarrow> u8 list option \<Rightarrow> u8 list option \<Rightarrow> u8 list option \<Rightarrow> size_t \<Rightarrow> u8 list option \<Rightarrow>
   error_code_t \<times> u8 list option" where
  "aes256_encrypt stack key iv plaintext plaintext_len ciphertext =
     (case (key, plaintext, ciphertext) of
        (Some k, Some inp, Some out) \<Rightarrow>
          if plaintext_len mod 16 \<noteq> 0 then (ERR_INVALID_ARG, ciphertext)
          else (ERR_OK, Some (cbc_encrypt (block_encrypt 14 (aes256_key_expansion k stack)) iv inp
                 (unat plaintext_len) out))
      | _ \<Rightarrow> (ERR_INVALID_ARG, ciphertext))"

definition aes256_decrypt ::
  "u32 list \<Rightarrow> u8 list option \<Rightarrow> u8 list option \<Rightarrow> u8 list option \<Rightarrow> size_t \<Rightarrow> u8 list option \<Rightarrow>
   error_code_t \<times> u8 list option" where
  "aes256_decrypt stack key iv ciphertext ciphertext_len plaintext =
     (case (key, ciphertext, plaintext) of
        (Some k, Some inp, Some out) \<Rightarrow>
          if ciphertext_len mod 16 \<noteq> 0 then (ERR_INVALID_ARG, plaintext)
          else (ERR_OK, Some (cbc_decrypt (block_decrypt 14 (aes256_key_expansion k stack)) iv inp
                 (unat ciphertext_len) out))
      | _ \<Rightarrow> (ERR_INVALID_ARG, plaintext))"

section \<open>Dispatch\<close>

text \<open>
  \<^verbatim>\<open>crypto_encrypt\<close> and \<^verbatim>\<open>crypto_decrypt\<close> of \<^verbatim>\<open>crypto.c\<close>; their default case is for values outside the
  enumeration.
\<close>

datatype crypto_cipher_type_t = CRYPTO_CIPHER_AES256 | CRYPTO_CIPHER_AES128 | CRYPTO_CIPHER_AES192

definition crypto_encrypt ::
  "u32 list \<Rightarrow> crypto_cipher_type_t \<Rightarrow> u8 list option \<Rightarrow> u8 list option \<Rightarrow> u8 list option \<Rightarrow> size_t \<Rightarrow>
   u8 list option \<Rightarrow> error_code_t \<times> u8 list option" where
  "crypto_encrypt stack type key iv plaintext plaintext_len ciphertext =
     (if key = None \<or> plaintext = None \<or> ciphertext = None then (ERR_INVALID_ARG, ciphertext)
      else case type of
        CRYPTO_CIPHER_AES256 \<Rightarrow> aes256_encrypt stack key iv plaintext plaintext_len ciphertext
      | CRYPTO_CIPHER_AES128 \<Rightarrow> aes128_encrypt stack key iv plaintext plaintext_len ciphertext
      | CRYPTO_CIPHER_AES192 \<Rightarrow> aes192_encrypt stack key iv plaintext plaintext_len ciphertext)"

definition crypto_decrypt ::
  "u32 list \<Rightarrow> crypto_cipher_type_t \<Rightarrow> u8 list option \<Rightarrow> u8 list option \<Rightarrow> u8 list option \<Rightarrow> size_t \<Rightarrow>
   u8 list option \<Rightarrow> error_code_t \<times> u8 list option" where
  "crypto_decrypt stack type key iv ciphertext ciphertext_len plaintext =
     (if key = None \<or> ciphertext = None \<or> plaintext = None then (ERR_INVALID_ARG, plaintext)
      else case type of
        CRYPTO_CIPHER_AES256 \<Rightarrow> aes256_decrypt stack key iv ciphertext ciphertext_len plaintext
      | CRYPTO_CIPHER_AES128 \<Rightarrow> aes128_decrypt stack key iv ciphertext ciphertext_len plaintext
      | CRYPTO_CIPHER_AES192 \<Rightarrow> aes192_decrypt stack key iv ciphertext ciphertext_len plaintext)"

end
