(* ===== verification/Aes_Props.thy ===== *)
theory Aes_Props
  imports Aes
begin

text \<open>
  Decryption inverts encryption, for every round function, for one block and in CBC mode; the
  substitution table is the one FIPS 197 defines; the key schedules against FIPS 197.
\<close>

section \<open>Blocks of sixteen bytes\<close>

lemma length_16_cases:
  assumes "length xs = 16"
  obtains a b c d e f g h i j k l m n p q where "xs = [a, b, c, d, e, f, g, h, i, j, k, l, m, n, p, q]"
  using assms by (auto simp: eval_nat_numeral length_Suc_conv)

section \<open>The inverse of each round function\<close>

lemma xor_cancel [simp]: "x XOR (x XOR y) = y" for x y :: "'a :: len word"
  by (simp flip: xor.assoc)

lemma add_round_key_inverse:
  "length st = 16 \<Longrightarrow> add_round_key (add_round_key st k) k = st"
  by (elim length_16_cases)
    (simp add: add_round_key_def for_range_0_4 Let_def xor.assoc)

lemma length_add_round_key [simp]: "length st = 16 \<Longrightarrow> length (add_round_key st k) = 16"
  by (elim length_16_cases) (simp add: add_round_key_def for_range_0_4 Let_def)

lemma sub_bytes_map: "length st = 16 \<Longrightarrow> sub_bytes st = map (\<lambda>b. sbox ! unat b) st"
  unfolding sub_bytes_def by (rule for_range_map)

lemma inv_sub_bytes_map: "length st = 16 \<Longrightarrow> inv_sub_bytes st = map (\<lambda>b. inv_sbox ! unat b) st"
  unfolding inv_sub_bytes_def by (rule for_range_map)

lemma inv_sbox_table: "map (\<lambda>b. inv_sbox ! unat b) sbox = map of_nat [0..<256]"
  by code_simp

lemma length_sbox: "length sbox = 256"
  by (simp add: sbox_def)

lemma inv_sbox_sbox: "inv_sbox ! unat (sbox ! unat b) = b"
proof -
  have b: "unat b < 256" using unsigned_less [of b] by simp
  then have "map (\<lambda>b. inv_sbox ! unat b) sbox ! unat b = map of_nat [0..<256] ! unat b"
    by (simp only: inv_sbox_table)
  with b show ?thesis by (simp add: length_sbox)
qed

lemma sub_bytes_inverse: "length st = 16 \<Longrightarrow> inv_sub_bytes (sub_bytes st) = st"
  by (simp add: sub_bytes_map inv_sub_bytes_map inv_sbox_sbox comp_def)

lemma length_sub_bytes [simp]: "length st = 16 \<Longrightarrow> length (sub_bytes st) = 16"
  by (simp add: sub_bytes_map)

lemma shift_rows_inverse: "length st = 16 \<Longrightarrow> inv_shift_rows (shift_rows st) = st"
  by (elim length_16_cases) (simp add: shift_rows_def inv_shift_rows_def Let_def)

lemma length_shift_rows [simp]: "length (shift_rows st) = length st"
  by (simp add: shift_rows_def Let_def)

text \<open>
  \<open>gmul\<close> is bilinear and \<open>gmul (xtime a) = xtime \<circ> gmul a\<close>, so every constant factor is a sum of
  powers of \<open>xtime\<close> and the product of the two column matrices is polynomial arithmetic.
\<close>

definition xtime :: "u8 \<Rightarrow> u8" where
  "xtime a = (if a AND 0x80 \<noteq> 0 then push_bit 1 a XOR 0x1b else push_bit 1 a)"

lemma and_mask_bit: "a AND 0x80 \<noteq> 0 \<longleftrightarrow> bit a 7" "a AND 1 \<noteq> 0 \<longleftrightarrow> bit a 0" for a :: u8
proof -
  have "a AND push_bit n 1 \<noteq> 0 \<longleftrightarrow> bit a n" for n
    by (simp add: and_exp_eq_0_iff_not_bit push_bit_eq_mult)
  from this [of 7] this [of 0] show "a AND 0x80 \<noteq> 0 \<longleftrightarrow> bit a 7" "a AND 1 \<noteq> 0 \<longleftrightarrow> bit a 0" by simp_all
qed

lemma xtime_xor: "xtime (a XOR b) = xtime a XOR xtime b"
  by (simp add: xtime_def and_mask_bit bit_xor_iff push_bit_xor ac_simps)

lemma gmul_rounds_xtime:
  "gmul_rounds (Suc n) a b p = gmul_rounds n (xtime a) (drop_bit 1 b) (if bit b 0 then p XOR a else p)"
  by (simp add: xtime_def and_mask_bit)

lemma gmul_rounds_xor:
  "gmul_rounds n a (b XOR c) (p XOR q) = gmul_rounds n a b p XOR gmul_rounds n a c q"
  "gmul_rounds n (a XOR d) b (p XOR q) = gmul_rounds n a b p XOR gmul_rounds n d b q"
  "gmul_rounds n (xtime a) b (xtime p) = xtime (gmul_rounds n a b p)"
proof (induction n arbitrary: a b c d p q)
  case (Suc n)
  {
    case 1
    show ?case
      using Suc(1) [of "xtime a" "drop_bit 1 b" "drop_bit 1 c" "if bit b 0 then p XOR a else p" "if bit c 0 then q XOR a else q"]
      by (simp add: gmul_rounds_xtime drop_bit_xor bit_xor_iff ac_simps del: gmul_rounds.simps split: if_splits)
  next
    case 2
    show ?case
      using Suc(2) [of "xtime a" "xtime c" "drop_bit 1 b" "if bit b 0 then p XOR a else p" "if bit b 0 then q XOR c else q"]
      by (simp add: gmul_rounds_xtime xtime_xor ac_simps del: gmul_rounds.simps split: if_splits)
  next
    case 3
    show ?case
      using Suc(3) [of "xtime a" "drop_bit 1 b" "if bit b 0 then c XOR a else c"]
      by (simp add: gmul_rounds_xtime xtime_xor del: gmul_rounds.simps split: if_splits)
  }
qed simp_all

lemma xtime_0 [simp]: "xtime 0 = 0"
  by (simp add: xtime_def)

lemma gmul_xor: "gmul a (b XOR c) = gmul a b XOR gmul a c"
  using gmul_rounds_xor(1) [of 8 a b c 0 0] by (simp add: gmul_def)

lemma gmul_factor:
  "gmul (a XOR d) b = gmul a b XOR gmul d b" "gmul (xtime a) b = xtime (gmul a b)"
  using gmul_rounds_xor(2) [of 8 a d b 0 0] gmul_rounds_xor(3) [of 8 a b 0] by (simp_all add: gmul_def)

lemma gmul_1: "gmul 1 b = b"
proof -
  have "gmul_rounds n (2 ^ m) (drop_bit m b) (take_bit m b) = take_bit (m + n) b"
    if "m + n \<le> 8" for n m
    using that
  proof (induction n arbitrary: m)
    case (Suc n)
    then have "xtime (2 ^ m) = 2 ^ Suc m" if "n \<noteq> 0"
      using that by (auto simp: xtime_def and_mask_bit bit_simps push_bit_eq_mult)
    moreover have "take_bit (Suc m) b = (if bit b m then take_bit m b XOR 2 ^ m else take_bit m b)"
      by (rule bit_word_eqI) (auto simp: bit_simps less_Suc_eq)
    ultimately show ?case
      using Suc.IH [of "Suc m"] Suc.prems
      by (cases n) (simp_all add: gmul_rounds_xtime bit_drop_bit_eq drop_bit_drop_bit del: gmul_rounds.simps(2))
  qed simp
  from this [of 0 8] show ?thesis by (simp add: gmul_def take_bit_word_eq_self)
qed

lemma gmul_constants:
  "gmul 2 b = xtime b" "gmul 3 b = xtime b XOR b"
  "gmul 0x09 b = xtime (xtime (xtime b)) XOR b"
  "gmul 0x0b b = xtime (xtime (xtime b)) XOR xtime b XOR b"
  "gmul 0x0d b = xtime (xtime (xtime b)) XOR xtime (xtime b) XOR b"
  "gmul 0x0e b = xtime (xtime (xtime b)) XOR xtime (xtime b) XOR xtime b"
proof -
  have x: "xtime 1 = 2" "xtime 2 = 4" "xtime 4 = 8" by (simp_all add: xtime_def)
  have sums: "3 = 2 XOR (1 :: u8)" "0x09 = 8 XOR (1 :: u8)" "0x0b = 8 XOR 2 XOR (1 :: u8)"
    "0x0d = 8 XOR 4 XOR (1 :: u8)" "0x0e = 8 XOR 4 XOR (2 :: u8)" by simp_all
  have g: "gmul 2 b = xtime b" "gmul 4 b = xtime (xtime b)" "gmul 8 b = xtime (xtime (xtime b))"
    using gmul_factor(2) [of 1 b] gmul_factor(2) [of 2 b] gmul_factor(2) [of 4 b] by (simp_all add: x gmul_1)
  show "gmul 2 b = xtime b" "gmul 3 b = xtime b XOR b"
  "gmul 0x09 b = xtime (xtime (xtime b)) XOR b"
  "gmul 0x0b b = xtime (xtime (xtime b)) XOR xtime b XOR b"
  "gmul 0x0d b = xtime (xtime (xtime b)) XOR xtime (xtime b) XOR b"
  "gmul 0x0e b = xtime (xtime (xtime b)) XOR xtime (xtime b) XOR xtime b"
    by (simp_all only: sums gmul_factor(1) g gmul_1)
qed

text \<open>One row of the product applied to a column.\<close>

lemma mix_columns_row:
  "gmul 0x0e (gmul 2 s0 XOR gmul 3 s1 XOR s2 XOR s3) XOR
   gmul 0x0b (s0 XOR gmul 2 s1 XOR gmul 3 s2 XOR s3) XOR
   gmul 0x0d (s0 XOR s1 XOR gmul 2 s2 XOR gmul 3 s3) XOR
   gmul 0x09 (gmul 3 s0 XOR s1 XOR s2 XOR gmul 2 s3) = s0"
  by (simp add: gmul_constants xtime_xor ac_simps)

lemma mix_columns_rows:
  "gmul 0x09 (gmul 2 s0 XOR gmul 3 s1 XOR s2 XOR s3) XOR
   gmul 0x0e (s0 XOR gmul 2 s1 XOR gmul 3 s2 XOR s3) XOR
   gmul 0x0b (s0 XOR s1 XOR gmul 2 s2 XOR gmul 3 s3) XOR
   gmul 0x0d (gmul 3 s0 XOR s1 XOR s2 XOR gmul 2 s3) = s1"
  "gmul 0x0d (gmul 2 s0 XOR gmul 3 s1 XOR s2 XOR s3) XOR
   gmul 0x09 (s0 XOR gmul 2 s1 XOR gmul 3 s2 XOR s3) XOR
   gmul 0x0e (s0 XOR s1 XOR gmul 2 s2 XOR gmul 3 s3) XOR
   gmul 0x0b (gmul 3 s0 XOR s1 XOR s2 XOR gmul 2 s3) = s2"
  "gmul 0x0b (gmul 2 s0 XOR gmul 3 s1 XOR s2 XOR s3) XOR
   gmul 0x0d (s0 XOR gmul 2 s1 XOR gmul 3 s2 XOR s3) XOR
   gmul 0x09 (s0 XOR s1 XOR gmul 2 s2 XOR gmul 3 s3) XOR
   gmul 0x0e (gmul 3 s0 XOR s1 XOR s2 XOR gmul 2 s3) = s3"
  using mix_columns_row [of s1 s2 s3 s0] mix_columns_row [of s2 s3 s0 s1] mix_columns_row [of s3 s0 s1 s2]
  by (simp_all only: ac_simps)

lemma mix_columns_inverse: "length st = 16 \<Longrightarrow> inv_mix_columns (mix_columns st) = st"
  by (elim length_16_cases)
    (simp add: mix_columns_def inv_mix_columns_def for_range_0_4 Let_def mix_columns_row mix_columns_rows)

lemma length_mix_columns [simp]: "length st = 16 \<Longrightarrow> length (mix_columns st) = 16"
  by (elim length_16_cases) (simp add: mix_columns_def for_range_0_4 Let_def)

section \<open>One block\<close>

abbreviation (input) main_round :: "u32 list \<Rightarrow> nat \<Rightarrow> u8 list \<Rightarrow> u8 list" where
  "main_round rk \<equiv> \<lambda>round st.
     add_round_key (mix_columns (shift_rows (sub_bytes st))) (drop (round * 4) rk)"

lemma length_main_rounds:
  "length st = 16 \<Longrightarrow> length (for_range i n (main_round rk) st) = 16"
  by (rule length_for_range) simp_all

lemma decrypt_rounds_inverse:
  "length st = 16 \<Longrightarrow>
   decrypt_rounds n rk (shift_rows (sub_bytes (for_range 1 (Suc n) (main_round rk) st))) =
   shift_rows (sub_bytes st)"
proof (induction n)
  case (Suc n)
  then show ?case
    by (simp add: for_range_Suc length_main_rounds shift_rows_inverse sub_bytes_inverse
        add_round_key_inverse mix_columns_inverse)
qed simp

lemma length_block_encrypt [simp]:
  "length st = 16 \<Longrightarrow> length (block_encrypt rounds rk st) = 16"
  by (simp add: block_encrypt_def Let_def length_main_rounds)

lemma block_decrypt_encrypt:
  assumes "0 < rounds" "length st = 16"
  shows "block_decrypt rounds rk (block_encrypt rounds rk st) = st"
proof -
  obtain n where "rounds = Suc n" using assms(1) by (cases rounds) auto
  with assms(2) show ?thesis
    by (simp add: block_encrypt_def block_decrypt_def Let_def length_main_rounds add_round_key_inverse
        decrypt_rounds_inverse [simplified] shift_rows_inverse sub_bytes_inverse)
qed

section \<open>CBC mode over any block cipher\<close>

text \<open>The blocks of the ciphertext, by position; block 0 is the initial vector.\<close>

fun cbc_chain :: "(u8 list \<Rightarrow> u8 list) \<Rightarrow> u8 list \<Rightarrow> u8 list \<Rightarrow> nat \<Rightarrow> u8 list" where
  "cbc_chain E plain v 0 = v"
| "cbc_chain E plain v (Suc j) = E (map (\<lambda>i. plain ! (j * 16 + i) XOR cbc_chain E plain v j ! i) [0..<16])"

locale block_cipher =
  fixes E D :: "u8 list \<Rightarrow> u8 list"
  assumes length_E: "length b = 16 \<Longrightarrow> length (E b) = 16"
    and D_E: "length b = 16 \<Longrightarrow> D (E b) = b"
begin

lemma length_cbc_chain: "length v = 16 \<Longrightarrow> length (cbc_chain E plain v j) = 16"
  by (cases j) (simp_all add: length_E)

lemma cbc_encrypt_loop:
  assumes "length v = 16" "n * 16 \<le> length out"
  shows "case for_range 0 n (cbc_encrypt_block E plain) (v, out) of (prev, c) \<Rightarrow>
     prev = cbc_chain E plain v n \<and> length c = length out \<and>
     (\<forall>j < n. \<forall>i < 16. c ! (j * 16 + i) = cbc_chain E plain v (Suc j) ! i) \<and>
     (\<forall>i. n * 16 \<le> i \<and> i < length out \<longrightarrow> c ! i = out ! i)"
  using assms(2)
proof (induction n)
  case (Suc n)
  obtain prev c where pc: "for_range 0 n (cbc_encrypt_block E plain) (v, out) = (prev, c)" by fastforce
  have len: "length (cbc_chain E plain v (Suc n)) = 16" using assms(1) by (rule length_cbc_chain)
  have "n * 16 + 16 \<le> length c" using Suc pc by simp
  with Suc pc len show ?case
    by (auto simp: for_range_Suc cbc_encrypt_block_def Let_def length_blit nth_blit less_Suc_eq
        simp del: cbc_chain.simps simp flip: cbc_chain.simps(2))
qed simp

lemma cbc_decrypt_loop:
  assumes "length v = 16" "n * 16 \<le> length out" "n * 16 \<le> length cipher"
    and "\<And>j i. j < n \<Longrightarrow> i < 16 \<Longrightarrow> cipher ! (j * 16 + i) = cbc_chain E plain v (Suc j) ! i"
  shows "case for_range 0 n (cbc_decrypt_block D cipher) (v, out) of (prev, p) \<Rightarrow>
     prev = cbc_chain E plain v n \<and> length p = length out \<and>
     (\<forall>i < n * 16. p ! i = plain ! i) \<and> (\<forall>i. n * 16 \<le> i \<and> i < length out \<longrightarrow> p ! i = out ! i)"
  using assms(2-4)
proof (induction n)
  case (Suc n)
  obtain prev p where pp: "for_range 0 n (cbc_decrypt_block D cipher) (v, out) = (prev, p)" by fastforce
  with Suc have IH: "prev = cbc_chain E plain v n" "length p = length out"
    "\<And>i. i < n * 16 \<Longrightarrow> p ! i = plain ! i" "\<And>i. n * 16 \<le> i \<Longrightarrow> i < length out \<Longrightarrow> p ! i = out ! i"
    by auto
  have len: "length (cbc_chain E plain v (Suc n)) = 16" using assms(1) by (rule length_cbc_chain)
  have saved: "take 16 (drop (n * 16) cipher) = cbc_chain E plain v (Suc n)"
    using Suc.prems len by (intro nth_equalityI) (simp_all del: cbc_chain.simps)
  then have dec: "D (take 16 (drop (n * 16) cipher)) =
      map (\<lambda>i. plain ! (n * 16 + i) XOR prev ! i) [0..<16]"
    by (simp add: IH(1) D_E)
  let ?p = "for_range 0 16 (\<lambda>i p. p[n * 16 + i :=
      D (take 16 (drop (n * 16) cipher)) ! i XOR prev ! i]) p"
  have run: "for_range 0 (Suc n) (cbc_decrypt_block D cipher) (v, out) = (cbc_chain E plain v (Suc n), ?p)"
    by (simp add: for_range_Suc pp cbc_decrypt_block_def Let_def saved del: cbc_chain.simps)
  have "n * 16 + 16 \<le> length p" using Suc.prems IH(2) by simp
  then have "length ?p = length out" "\<And>i. i < Suc n * 16 \<Longrightarrow> ?p ! i = plain ! i"
    "\<And>i. Suc n * 16 \<le> i \<Longrightarrow> i < length out \<Longrightarrow> ?p ! i = out ! i"
    using IH by (auto simp: for_range_write dec xor.assoc)
  then show ?case unfolding run by simp
qed simp

lemma length_cbc_encrypt:
  assumes "len \<le> length cipher" "iv \<noteq> None \<longrightarrow> 16 \<le> length (the iv)"
  shows "length (cbc_encrypt E iv plain len cipher) = length cipher"
proof -
  have "length (initial_block iv) = 16" using assms(2) by (auto simp: initial_block_def split: option.splits)
  moreover have "len div 16 * 16 \<le> length cipher" using assms(1) by simp
  ultimately show ?thesis
    using cbc_encrypt_loop [of "initial_block iv" "len div 16" cipher plain]
    by (auto simp: cbc_encrypt_def split: prod.splits)
qed

lemma cbc_roundtrip:
  assumes "len mod 16 = 0" "len \<le> length plain" "len \<le> length cipher" "len \<le> length out"
    and "iv \<noteq> None \<longrightarrow> 16 \<le> length (the iv)"
  shows "cbc_decrypt D iv (cbc_encrypt E iv plain len cipher) len out = take len plain @ drop len out"
proof -
  define n where "n = len div 16"
  have n: "len = n * 16" using assms(1) by (auto simp: n_def)
  have v: "length (initial_block iv) = 16" using assms(5) by (auto simp: initial_block_def split: option.splits)
  obtain prev c where c: "for_range 0 n (cbc_encrypt_block E plain) (initial_block iv, cipher) = (prev, c)"
    by fastforce
  obtain prev' p where p: "for_range 0 n (cbc_decrypt_block D c) (initial_block iv, out) = (prev', p)"
    by fastforce
  have "length c = length cipher"
    "\<And>j i. j < n \<Longrightarrow> i < 16 \<Longrightarrow> c ! (j * 16 + i) = cbc_chain E plain (initial_block iv) (Suc j) ! i"
    using cbc_encrypt_loop [OF v, of n cipher plain] assms(3) c n by auto
  then have "length p = length out \<and> (\<forall>i < n * 16. p ! i = plain ! i) \<and>
      (\<forall>i. n * 16 \<le> i \<and> i < length out \<longrightarrow> p ! i = out ! i)"
    using cbc_decrypt_loop [OF v, of n out c plain] assms(3,4) p n by auto
  then have "p = take len plain @ drop len out"
    using assms(2,4) n by (intro nth_equalityI) (auto simp: nth_append)
  with c p show ?thesis by (simp add: cbc_encrypt_def cbc_decrypt_def flip: n_def)
qed

end

section \<open>Key schedules\<close>

text \<open>
  The key schedule of FIPS 197 by recursion on the position: \<open>nk\<close> words of key, and \<open>extra\<close> tells
  whether the fourth word of each group is substituted too (the standard does this for \<open>nk > 6\<close>).
\<close>

function fips_w :: "bool \<Rightarrow> nat \<Rightarrow> u8 list \<Rightarrow> nat \<Rightarrow> u32" where
  "fips_w extra nk key i =
     (if i < nk \<or> nk = 0 then key_word key i
      else fips_w extra nk key (i - nk) XOR
        (let temp = fips_w extra nk key (i - 1) in
         if i mod nk = 0 then sub_word (rot_word temp) XOR push_bit 24 (ucast (rcon ! (i div nk)))
         else if extra \<and> i mod nk = 4 then sub_word temp else temp))"
  by auto
termination by (relation "measure (\<lambda>(_, _, _, i). i)") auto

declare fips_w.simps [simp del]

lemma fips_w_step:
  "nk \<le> i \<Longrightarrow> 0 < nk \<Longrightarrow> fips_w extra nk key i = fips_w extra nk key (i - nk) XOR
     (let temp = fips_w extra nk key (i - 1) in
      if i mod nk = 0 then sub_word (rot_word temp) XOR push_bit 24 (ucast (rcon ! (i div nk)))
      else if extra \<and> i mod nk = 4 then sub_word temp else temp)"
  by (subst fips_w.simps) simp

lemma schedule_fips:
  assumes "0 < nk" "nk \<le> n" "length stack = n"
    and round: "\<And>i rk. nk \<le> i \<Longrightarrow> i < n \<Longrightarrow> length rk = n \<Longrightarrow> (\<And>j. j < i \<Longrightarrow> rk ! j = fips_w extra nk key j) \<Longrightarrow>
      f i rk = rk[i := fips_w extra nk key i]"
  shows "for_range nk n f (for_range 0 nk (\<lambda>i rk. rk[i := key_word key i]) stack) =
    map (fips_w extra nk key) [0..<n]"
proof -
  let ?s = "for_range 0 nk (\<lambda>i rk. rk[i := key_word key i]) stack"
  have "length ?s = n \<and> (\<forall>j < nk. ?s ! j = fips_w extra nk key j)"
    using for_range_write [where off = 0 and m = nk and xs = stack and g = "key_word key"] assms
    by (auto simp: fips_w.simps)
  then have "length (for_range nk n f ?s) = n \<and>
      (\<forall>j < n. for_range nk n f ?s ! j = fips_w extra nk key j)"
    by (intro for_range_induct [OF assms(2),
          where I = "\<lambda>k t. length t = n \<and> (\<forall>j < k. t ! j = fips_w extra nk key j)"])
      (auto simp: round nth_list_update less_Suc_eq)
  then show ?thesis by (intro nth_equalityI) simp_all
qed

lemma aes128_key_expansion_fips:
  "length stack = 44 \<Longrightarrow> aes128_key_expansion key stack = map (fips_w False 4 key) [0..<44]"
  unfolding aes128_key_expansion_def
  by (rule schedule_fips) (simp_all add: aes128_schedule_round_def Let_def fips_w_step)

lemma aes192_key_expansion_fips:
  "length stack = 52 \<Longrightarrow> aes192_key_expansion key stack = map (fips_w True 6 key) [0..<52]"
  unfolding aes192_key_expansion_def
  by (rule schedule_fips) (simp_all add: aes192_schedule_round_def Let_def fips_w_step)

lemma aes256_key_expansion_fips:
  "length stack = 60 \<Longrightarrow> aes256_key_expansion key stack = map (fips_w True 8 key) [0..<60]"
  unfolding aes256_key_expansion_def
  by (rule schedule_fips) (simp_all add: aes256_schedule_round_def Let_def fips_w_step)

section \<open>The three ciphers\<close>

interpretation aes128_cipher: block_cipher "block_encrypt 10 rk" "block_decrypt 10 rk" for rk
  by unfold_locales (simp_all add: block_decrypt_encrypt)

interpretation aes192_cipher: block_cipher "block_encrypt 12 rk" "block_decrypt 12 rk" for rk
  by unfold_locales (simp_all add: block_decrypt_encrypt)

interpretation aes256_cipher: block_cipher "block_encrypt 14 rk" "block_decrypt 14 rk" for rk
  by unfold_locales (simp_all add: block_decrypt_encrypt)

lemmas aes_entry_defs = aes128_encrypt_def aes128_decrypt_def aes192_encrypt_def aes192_decrypt_def
  aes256_encrypt_def aes256_decrypt_def

text \<open>The number of words of the key schedule.\<close>

fun schedule_words :: "crypto_cipher_type_t \<Rightarrow> nat" where
  "schedule_words CRYPTO_CIPHER_AES128 = 44"
| "schedule_words CRYPTO_CIPHER_AES192 = 52"
| "schedule_words CRYPTO_CIPHER_AES256 = 60"

lemma unat_mod_16: "len mod 16 = 0 \<longleftrightarrow> unat len mod 16 = 0" for len :: size_t
  by (simp add: word_unat_eq_iff unat_mod)

section \<open>Properties\<close>

text \<open>
  C15: decryption inverts encryption. For each of the three ciphers, any key, any initial vector (or
  none) and any plaintext of whole blocks, \<^verbatim>\<open>crypto_decrypt\<close> applied to the output of
  \<^verbatim>\<open>crypto_encrypt\<close> succeeds and writes exactly the plaintext over the first bytes of its output
  buffer, whatever the buffers and the stack held before.
\<close>

theorem aes_roundtrip:
  assumes "len mod 16 = 0" "unat len \<le> length p" "unat len \<le> length c0" "unat len \<le> length p0"
    and "iv \<noteq> None \<longrightarrow> 16 \<le> length (the iv)"
    and "length stack = schedule_words type" "length stack' = schedule_words type"
  shows "\<exists>c. crypto_encrypt stack type (Some key) iv (Some p) len (Some c0) = (ERR_OK, Some c) \<and>
    length c = length c0 \<and>
    crypto_decrypt stack' type (Some key) iv (Some c) len (Some p0) =
      (ERR_OK, Some (take (unat len) p @ drop (unat len) p0))"
proof -
  have len: "unat len mod 16 = 0" using assms(1) by (simp add: unat_mod_16)
  show ?thesis
    using assms aes128_cipher.cbc_roundtrip [OF len assms(2-5)] aes192_cipher.cbc_roundtrip [OF len assms(2-5)]
      aes256_cipher.cbc_roundtrip [OF len assms(2-5)]
    by (cases type) (simp_all add: crypto_encrypt_def crypto_decrypt_def aes_entry_defs
        aes128_key_expansion_fips aes192_key_expansion_fips aes256_key_expansion_fips
        aes128_cipher.length_cbc_encrypt aes192_cipher.length_cbc_encrypt aes256_cipher.length_cbc_encrypt)
qed

theorem aes_roundtrip_witness:
  "\<exists>c. crypto_encrypt (replicate 44 9) CRYPTO_CIPHER_AES128 (Some (replicate 16 1)) None
      (Some (replicate 32 7)) 32 (Some (replicate 40 0)) = (ERR_OK, Some c) \<and>
    crypto_decrypt (replicate 44 8) CRYPTO_CIPHER_AES128 (Some (replicate 16 1)) None
      (Some c) 32 (Some (replicate 33 5)) = (ERR_OK, Some (replicate 32 7 @ [5]))"
  using aes_roundtrip [of 32 "replicate 32 7" "replicate 40 0" "replicate 33 5" None "replicate 44 9"
      CRYPTO_CIPHER_AES128 "replicate 44 8" "replicate 16 1"]
  by auto



text \<open>
  The schedule of \<^verbatim>\<open>aes192.c\<close> substitutes the fourth word of each group, which the standard does for
  keys of more than six words only: from the eleventh word on its round keys are not those of AES-192.
\<close>

lemma fips_w_zero:
  "fips_w extra 6 (replicate 24 0) 4 = 0" "fips_w extra 6 (replicate 24 0) 9 = 0x62636363"
proof -
  have start: "i < 6 \<Longrightarrow> fips_w extra 6 (replicate 24 0) i = 0" for i
    by (subst fips_w.simps) (simp add: key_word_def)
  then show "fips_w extra 6 (replicate 24 0) 4 = 0" by simp
  have "sub_word (rot_word 0) XOR push_bit 24 (ucast (rcon ! 1)) = 0x62636363" by code_simp
  then have "fips_w extra 6 (replicate 24 0) 6 = 0x62636363"
    using start by (simp add: fips_w_step)
  then have "fips_w extra 6 (replicate 24 0) 7 = 0x62636363" using start by (simp add: fips_w_step)
  then have "fips_w extra 6 (replicate 24 0) 8 = 0x62636363" using start by (simp add: fips_w_step)
  then show "fips_w extra 6 (replicate 24 0) 9 = 0x62636363" using start by (simp add: fips_w_step)
qed

lemma aes192_schedule_deviates:
  "aes192_key_expansion (replicate 24 0) (replicate 52 0) ! 10 \<noteq> fips_w (6 > (6 :: nat)) 6 (replicate 24 0) 10"
proof -
  have "sub_word 0x62636363 \<noteq> 0x62636363" by code_simp
  then show ?thesis
    by (simp add: aes192_key_expansion_fips fips_w_step [of 6 10] fips_w_zero)
qed



end
