(* ===== verification/Byte_Blocks.thy ===== *)
theory Byte_Blocks
  imports Prelude
begin

text \<open>
  A byte string cut into blocks of a fixed size, as block-oriented hash functions read it, and the
  big-endian bytes of a word.
\<close>

section \<open>Blocks\<close>

definition whole :: "nat \<Rightarrow> 'a list \<Rightarrow> nat" where
  "whole B m = length m div B * B"

text \<open>The complete blocks of \<open>m\<close> and the bytes that are left over.\<close>

definition blocks :: "nat \<Rightarrow> 'a list \<Rightarrow> 'a list list" where
  "blocks B m = map (\<lambda>j. take B (drop (j * B) m)) [0..<length m div B]"

definition tail :: "nat \<Rightarrow> 'a list \<Rightarrow> 'a list" where
  "tail B m = drop (whole B m) m"

lemma length_tail: "length (tail B m) = length m mod B"
  by (simp add: tail_def whole_def minus_div_mult_eq_mod)

lemma blocks_append:
  assumes "length a mod B = 0" "0 < B"
  shows "blocks B (a @ b) = blocks B a @ blocks B b" "tail B (a @ b) = tail B b"
proof -
  obtain n where a: "length a = n * B" using assms(1) by (metis mod_0_imp_dvd dvd_def mult.commute)
  have "[0..<n + length b div B] = [0..<n] @ map (\<lambda>j. n + j) [0..<length b div B]"
    by (rule nth_equalityI) (auto simp: nth_append)
  moreover have "take B (drop (j * B) (a @ b)) = take B (drop (j * B) a)" if "j < n" for j
  proof -
    from that obtain d where "n = j + Suc d" by (metis less_imp_Suc_add add_Suc_right)
    then show ?thesis by (simp add: a algebra_simps)
  qed
  ultimately show "blocks B (a @ b) = blocks B a @ blocks B b"
    using assms(2) by (simp add: blocks_def a algebra_simps)
  show "tail B (a @ b) = tail B b"
    using assms(2) by (simp add: tail_def whole_def a algebra_simps)
qed

lemma blocks_short: "length m < B \<Longrightarrow> blocks B m = []" "length m < B \<Longrightarrow> tail B m = m"
  by (simp_all add: blocks_def tail_def whole_def)

lemma blocks_one: "length m = B \<Longrightarrow> 0 < B \<Longrightarrow> blocks B m = [m]" "length m = B \<Longrightarrow> tail B m = []"
  by (simp_all add: blocks_def tail_def whole_def)

lemma whole_tail:
  "take (whole B m) m @ tail B m = m" "length (take (whole B m) m) mod B = 0"
  "0 < B \<Longrightarrow> blocks B (take (whole B m) m) = blocks B m"
proof -
  show "take (whole B m) m @ tail B m = m" by (simp add: tail_def)
  have len: "length (take (whole B m) m) = length m div B * B"
    using div_times_less_eq_dividend [of "length m" B] by (simp add: whole_def)
  then show "length (take (whole B m) m) mod B = 0" by simp
  assume "0 < B"
  then show "blocks B (take (whole B m) m) = blocks B m"
    using blocks_append(1) [of "take (whole B m) m" B "tail B m"] len
      blocks_short(1) [of "tail B m" B] length_tail [of B m]
    by (simp add: tail_def)
qed

text \<open>What one more piece of input does to the blocks and the rest.\<close>

lemma blocks_extend:
  assumes "0 < B"
  shows "blocks B (m @ x) = blocks B m @ blocks B (tail B m @ x)" "tail B (m @ x) = tail B (tail B m @ x)"
proof -
  have m: "m @ x = take (whole B m) m @ (tail B m @ x)"
    by (metis append_assoc whole_tail(1))
  show "blocks B (m @ x) = blocks B m @ blocks B (tail B m @ x)"
    by (subst m, subst blocks_append(1)) (use assms whole_tail in auto)
  show "tail B (m @ x) = tail B (tail B m @ x)"
    by (subst m, subst blocks_append(2)) (use assms whole_tail in auto)
qed

section \<open>A buffer of one block\<close>

text \<open>
  \<open>buffered B m buf l\<close>: the first \<open>l\<close> cells of the buffer hold what is left of \<open>m\<close> after its complete
  blocks. Copying more input behind them, up to a full buffer, extends the message.
\<close>

definition buffered :: "nat \<Rightarrow> 'a list \<Rightarrow> 'a list \<Rightarrow> nat \<Rightarrow> bool" where
  "buffered B m buf l \<longleftrightarrow> length buf = B \<and> l = length m mod B \<and> take l buf = tail B m"

lemma buffered_absorb:
  assumes "buffered B m buf l" "0 < B" "l + length x \<le> B"
  shows "l + length x < B \<Longrightarrow> blocks B (m @ x) = blocks B m \<and> buffered B (m @ x) (blit buf l x) (l + length x)"
    and "l + length x = B \<Longrightarrow> blocks B (m @ x) = blocks B m @ [blit buf l x] \<and> buffered B (m @ x) (blit buf l x) 0"
proof -
  have l: "l = length m mod B" "length buf = B" "take l buf = tail B m" "length (tail B m) = l"
    using assms(1) by (auto simp: buffered_def length_tail)
  have buf: "length (blit buf l x) = B" "take (l + length x) (blit buf l x) = tail B m @ x"
    using l assms(3) by (simp_all add: length_blit) (simp add: blit_def)
  have ext: "blocks B (m @ x) = blocks B m @ blocks B (tail B m @ x)" "tail B (m @ x) = tail B (tail B m @ x)"
    by (rule blocks_extend [OF assms(2)])+
  have mod: "length (m @ x) mod B = (l + length x) mod B" unfolding l(1) by (simp add: mod_add_left_eq)
  show "blocks B (m @ x) = blocks B m \<and> buffered B (m @ x) (blit buf l x) (l + length x)"
    if "l + length x < B"
  proof -
    have "blocks B (tail B m @ x) = []" "tail B (tail B m @ x) = tail B m @ x"
      using that l(4) by (simp_all add: blocks_short)
    with ext mod buf that show ?thesis by (simp add: buffered_def)
  qed
  show "blocks B (m @ x) = blocks B m @ [blit buf l x] \<and> buffered B (m @ x) (blit buf l x) 0"
    if full: "l + length x = B"
  proof -
    have "blit buf l x = tail B m @ x" using buf full by simp
    moreover have "blocks B (tail B m @ x) = [tail B m @ x]" "tail B (tail B m @ x) = []"
      using full l(4) assms(2) by (simp_all add: blocks_one)
    ultimately show ?thesis using ext mod buf(1) full by (simp add: buffered_def)
  qed
qed

lemma buffered_empty: "length buf = B \<Longrightarrow> 0 < B \<Longrightarrow> buffered B [] buf 0"
  by (simp add: buffered_def tail_def)

lemma unat_small_add: "unat w + n < 2 ^ 32 \<Longrightarrow> unat (w + of_nat n) = unat w + n" for w :: u32
  by (simp add: unat_word_ariths take_bit_nat_eq_self unsigned_of_nat)

section \<open>Big-endian words\<close>

definition be64 :: "u64 \<Rightarrow> u8 list" where
  "be64 w = [ucast (drop_bit 56 w), ucast (drop_bit 48 w), ucast (drop_bit 40 w), ucast (drop_bit 32 w),
     ucast (drop_bit 24 w), ucast (drop_bit 16 w), ucast (drop_bit 8 w), ucast w]"

definition be32 :: "u32 \<Rightarrow> u8 list" where
  "be32 w = [ucast (drop_bit 24 w), ucast (drop_bit 16 w), ucast (drop_bit 8 w), ucast w]"

lemma length_be [simp]: "length (be64 w) = 8" "length (be32 v) = 4"
  by (simp_all add: be64_def be32_def)

end
