(* ===== verification/Sha256.thy ===== *)
theory Sha256
  imports Byte_Blocks
begin

text \<open>
  The hash function of \<^verbatim>\<open>kernel/crypto/sha256.c\<close>: the streaming interface (\<^verbatim>\<open>sha256_init\<close>,
  \<^verbatim>\<open>sha256_update\<close>, \<^verbatim>\<open>sha256_final\<close>) over a 64-byte buffer, against the definition of FIPS 180-4 on
  the whole message. The contents of freshly allocated memory are an argument of \<open>sha256_init\<close>
  (\<open>None\<close>: the allocation fails).
\<close>

section \<open>Model\<close>

record sha256_context_t =
  state256 :: "u32 list"
  bit_count256 :: u64
  buffer256 :: "u8 list"
  buffer_len256 :: u32

definition k256 :: "u32 list" where
  "k256 = concat
    [[0x428a2f98, 0x71374491, 0xb5c0fbcf, 0xe9b5dba5],
     [0x3956c25b, 0x59f111f1, 0x923f82a4, 0xab1c5ed5],
     [0xd807aa98, 0x12835b01, 0x243185be, 0x550c7dc3],
     [0x72be5d74, 0x80deb1fe, 0x9bdc06a7, 0xc19bf174],
     [0xe49b69c1, 0xefbe4786, 0x0fc19dc6, 0x240ca1cc],
     [0x2de92c6f, 0x4a7484aa, 0x5cb0a9dc, 0x76f988da],
     [0x983e5152, 0xa831c66d, 0xb00327c8, 0xbf597fc7],
     [0xc6e00bf3, 0xd5a79147, 0x06ca6351, 0x14292967],
     [0x27b70a85, 0x2e1b2138, 0x4d2c6dfc, 0x53380d13],
     [0x650a7354, 0x766a0abb, 0x81c2c92e, 0x92722c85],
     [0xa2bfe8a1, 0xa81a664b, 0xc24b8b70, 0xc76c51a3],
     [0xd192e819, 0xd6990624, 0xf40e3585, 0x106aa070],
     [0x19a4c116, 0x1e376c08, 0x2748774c, 0x34b0bcb5],
     [0x391c0cb3, 0x4ed8aa4a, 0x5b9cca4f, 0x6f1c0e5b],
     [0x748f82ee, 0x78a5636f, 0x84c87814, 0x8cc70208],
     [0x90befffa, 0xa4506ceb, 0xbef9a3f7, 0xc67178f2]]"

definition rotr :: "u32 \<Rightarrow> nat \<Rightarrow> u32" where
  "rotr x n = drop_bit n x OR push_bit (32 - n) x"

definition ch :: "u32 \<Rightarrow> u32 \<Rightarrow> u32 \<Rightarrow> u32" where
  "ch x y z = (x AND y) XOR (NOT x AND z)"

definition maj :: "u32 \<Rightarrow> u32 \<Rightarrow> u32 \<Rightarrow> u32" where
  "maj x y z = (x AND y) XOR (x AND z) XOR (y AND z)"

definition sigma0 :: "u32 \<Rightarrow> u32" where
  "sigma0 x = rotr x 2 XOR rotr x 13 XOR rotr x 22"

definition sigma1 :: "u32 \<Rightarrow> u32" where
  "sigma1 x = rotr x 6 XOR rotr x 11 XOR rotr x 25"

definition gamma0 :: "u32 \<Rightarrow> u32" where
  "gamma0 x = rotr x 7 XOR rotr x 18 XOR drop_bit 3 x"

definition gamma1 :: "u32 \<Rightarrow> u32" where
  "gamma1 x = rotr x 17 XOR rotr x 19 XOR drop_bit 10 x"

definition load_be32 :: "u8 list \<Rightarrow> nat \<Rightarrow> u32" where
  "load_be32 block i =
     (push_bit 24 (ucast (block ! (i * 4))) OR push_bit 16 (ucast (block ! (i * 4 + 1))) OR
      push_bit 8 (ucast (block ! (i * 4 + 2))) OR ucast (block ! (i * 4 + 3)))"

text \<open>
  The array \<open>w\<close>: its cells are written in order and read only once written, so it is the list of
  the cells written so far.
\<close>

definition sha256_schedule :: "u8 list \<Rightarrow> u32 list" where
  "sha256_schedule block =
     for_range 16 64 (\<lambda>i w. w @ [gamma1 (w ! (i - 2)) + w ! (i - 7) + gamma0 (w ! (i - 15)) + w ! (i - 16)])
       (for_range 0 16 (\<lambda>i w. w @ [load_be32 block i]) [])"

fun sha256_round ::
  "u32 list \<Rightarrow> nat \<Rightarrow> u32 \<times> u32 \<times> u32 \<times> u32 \<times> u32 \<times> u32 \<times> u32 \<times> u32 \<Rightarrow>
   u32 \<times> u32 \<times> u32 \<times> u32 \<times> u32 \<times> u32 \<times> u32 \<times> u32" where
  "sha256_round w i (a, b, c, d, e, f, g, h) =
     (let t1 = h + sigma1 e + ch e f g + k256 ! i + w ! i;
          t2 = sigma0 a + maj a b c
      in (t1 + t2, a, b, c, d + t1, e, f, g))"

definition sha256_compress :: "u32 list \<Rightarrow> u8 list \<Rightarrow> u32 list" where
  "sha256_compress st block =
     (let w = sha256_schedule block;
          (a, b, c, d, e, f, g, h) = for_range 0 64 (sha256_round w)
            (st ! 0, st ! 1, st ! 2, st ! 3, st ! 4, st ! 5, st ! 6, st ! 7);
          st = st[0 := st ! 0 + a]; st = st[1 := st ! 1 + b]; st = st[2 := st ! 2 + c];
          st = st[3 := st ! 3 + d]; st = st[4 := st ! 4 + e]; st = st[5 := st ! 5 + f];
          st = st[6 := st ! 6 + g]
      in st[7 := st ! 7 + h])"

definition sha256_process_block :: "sha256_context_t \<Rightarrow> u8 list \<Rightarrow> sha256_context_t" where
  "sha256_process_block ctx block = ctx\<lparr>state256 := sha256_compress (state256 ctx) block\<rparr>"

definition sha256_iv :: "u32 list" where
  "sha256_iv = [0x6a09e667, 0xbb67ae85, 0x3c6ef372, 0xa54ff53a, 0x510e527f, 0x9b05688c, 0x1f83d9ab, 0x5be0cd19]"

text \<open>\<open>context\<close> is whether the pointer to the result is given.\<close>

definition sha256_init ::
  "sha256_context_t option \<Rightarrow> bool \<Rightarrow> error_code_t \<times> sha256_context_t option" where
  "sha256_init mem context =
     (if \<not> context then (ERR_INVALID_ARG, None)
      else case mem of
        None \<Rightarrow> (ERR_OUT_OF_MEMORY, None)
      | Some ctx \<Rightarrow>
          (ERR_OK, Some (ctx\<lparr>state256 := sha256_iv, bit_count256 := 0, buffer_len256 := 0\<rparr>)))"

text \<open>
  The loop of \<^verbatim>\<open>sha256_update\<close>; \<open>data\<close> is what is left of the input from the offset on. The
  subtraction \<^verbatim>\<open>64 - ctx->buffer_len\<close> is one of 32-bit words. A round that copies nothing
  starts with a full buffer and ends with an empty one.
\<close>

function sha256_update_loop :: "sha256_context_t \<Rightarrow> u8 list \<Rightarrow> sha256_context_t" where
  "sha256_update_loop ctx data =
     (if data = [] then ctx
      else
        let space = unat (64 - buffer_len256 ctx);
            copy = (if length data < space then length data else space);
            ctx = ctx\<lparr>buffer256 := blit (buffer256 ctx) (unat (buffer_len256 ctx)) (take copy data),
                      buffer_len256 := buffer_len256 ctx + of_nat copy,
                      bit_count256 := bit_count256 ctx + of_nat copy * 8\<rparr>;
            ctx = (if buffer_len256 ctx = 64
                   then (sha256_process_block ctx (buffer256 ctx))\<lparr>buffer_len256 := 0\<rparr> else ctx)
        in sha256_update_loop ctx (drop copy data))"
  by auto
termination
proof (relation "measure (\<lambda>(ctx, data). 2 * length data + (if buffer_len256 ctx = 64 then 1 else 0))",
    goal_cases)
  case (2 ctx data space copy ctx1 ctx2)
  show ?case
  proof (cases "copy = 0")
    case True
    with 2 have "buffer_len256 ctx = 64" by (auto simp: unat_eq_zero split: if_splits)
    with 2 True show ?thesis by simp
  next
    case False
    with 2 have "length (drop copy data) < length data" by simp
    with 2 show ?thesis by (auto simp del: length_drop)
  qed
qed simp

declare sha256_update_loop.simps [simp del]

definition sha256_update ::
  "sha256_context_t option \<Rightarrow> u8 list option \<Rightarrow> size_t \<Rightarrow> error_code_t \<times> sha256_context_t option" where
  "sha256_update context data data_len =
     (case (context, data) of
        (Some ctx, Some d) \<Rightarrow> (ERR_OK, Some (sha256_update_loop ctx (take (unat data_len) d)))
      | _ \<Rightarrow> (ERR_INVALID_ARG, context))"

text \<open>The padding of \<^verbatim>\<open>sha256_final\<close>: the bit 1, zeros, and the length over the last eight bytes.\<close>

definition sha256_pad :: "sha256_context_t \<Rightarrow> sha256_context_t" where
  "sha256_pad ctx =
     (let ctx = ctx\<lparr>buffer256 := (buffer256 ctx)[unat (buffer_len256 ctx) := 0x80],
                    buffer_len256 := buffer_len256 ctx + 1\<rparr>;
          ctx = (if buffer_len256 ctx > 56 then
                   (let ctx = ctx\<lparr>buffer256 := blit (buffer256 ctx) (unat (buffer_len256 ctx))
                                    (replicate (unat (64 - buffer_len256 ctx)) 0)\<rparr>
                    in (sha256_process_block ctx (buffer256 ctx))\<lparr>buffer_len256 := 0\<rparr>)
                 else ctx);
          ctx = ctx\<lparr>buffer256 := blit (buffer256 ctx) (unat (buffer_len256 ctx))
                      (replicate (unat (56 - buffer_len256 ctx)) 0)\<rparr>;
          n = bit_count256 ctx;
          b = buffer256 ctx;
          b = b[56 := ucast (drop_bit 56 n)]; b = b[57 := ucast (drop_bit 48 n)];
          b = b[58 := ucast (drop_bit 40 n)]; b = b[59 := ucast (drop_bit 32 n)];
          b = b[60 := ucast (drop_bit 24 n)]; b = b[61 := ucast (drop_bit 16 n)];
          b = b[62 := ucast (drop_bit 8 n)]; b = b[63 := ucast n]
      in ctx\<lparr>buffer256 := b\<rparr>)"

definition sha256_output :: "u32 list \<Rightarrow> u8 list \<Rightarrow> u8 list" where
  "sha256_output st out = for_range 0 8 (\<lambda>i out.
     let out = out[i * 4 := ucast (drop_bit 24 (st ! i))];
         out = out[i * 4 + 1 := ucast (drop_bit 16 (st ! i))];
         out = out[i * 4 + 2 := ucast (drop_bit 8 (st ! i))]
     in out[i * 4 + 3 := ucast (st ! i)]) out"

definition sha256_final ::
  "sha256_context_t option \<Rightarrow> u8 list option \<Rightarrow> error_code_t \<times> sha256_context_t option \<times> u8 list option" where
  "sha256_final context hash_output =
     (case (context, hash_output) of
        (Some ctx, Some out) \<Rightarrow>
          let ctx = sha256_pad ctx;
              ctx = sha256_process_block ctx (buffer256 ctx)
          in (ERR_OK, Some ctx, Some (sha256_output (state256 ctx) out))
      | _ \<Rightarrow> (ERR_INVALID_ARG, context, hash_output))"

text \<open>The one-shot function; the context is freed on every path.\<close>

definition sha256_hash ::
  "sha256_context_t option \<Rightarrow> u8 list option \<Rightarrow> size_t \<Rightarrow> u8 list option \<Rightarrow> error_code_t \<times> u8 list option" where
  "sha256_hash mem data data_len hash_output =
     (case sha256_init mem True of (err, context) \<Rightarrow>
        if err \<noteq> ERR_OK then (err, hash_output)
        else case sha256_update context data data_len of (err, context) \<Rightarrow>
          if err \<noteq> ERR_OK then (err, hash_output)
          else case sha256_final context hash_output of (err, context, out) \<Rightarrow> (err, out))"

end
