(* ===== verification/Sha256_Props.thy ===== *)
theory Sha256_Props
  imports Sha256
begin

text \<open>
  The streaming hash computes SHA-256 of FIPS 180-4 on the concatenation of its inputs. The
  reference definition works on the whole padded message, takes the message schedule by recursion
  and rotates with \<open>word_rotr\<close>; \<open>sha256_rep m ctx\<close> relates a context to the message it has absorbed.
\<close>

section \<open>FIPS 180-4\<close>

definition fips_Sigma0 :: "u32 \<Rightarrow> u32" where
  "fips_Sigma0 x = word_rotr 2 x XOR word_rotr 13 x XOR word_rotr 22 x"

definition fips_Sigma1 :: "u32 \<Rightarrow> u32" where
  "fips_Sigma1 x = word_rotr 6 x XOR word_rotr 11 x XOR word_rotr 25 x"

definition fips_sigma0 :: "u32 \<Rightarrow> u32" where
  "fips_sigma0 x = word_rotr 7 x XOR word_rotr 18 x XOR drop_bit 3 x"

definition fips_sigma1 :: "u32 \<Rightarrow> u32" where
  "fips_sigma1 x = word_rotr 17 x XOR word_rotr 19 x XOR drop_bit 10 x"

fun fips_W :: "u8 list \<Rightarrow> nat \<Rightarrow> u32" where
  "fips_W M t =
     (if t < 16 then load_be32 M t
      else fips_sigma1 (fips_W M (t - 2)) + fips_W M (t - 7) + fips_sigma0 (fips_W M (t - 15)) +
        fips_W M (t - 16))"

declare fips_W.simps [simp del]

type_synonym working = "u32 \<times> u32 \<times> u32 \<times> u32 \<times> u32 \<times> u32 \<times> u32 \<times> u32"

fun fips_round :: "u32 \<Rightarrow> u32 \<Rightarrow> working \<Rightarrow> working" where
  "fips_round k w (a, b, c, d, e, f, g, h) =
     (h + fips_Sigma1 e + ch e f g + k + w + (fips_Sigma0 a + maj a b c), a, b, c,
      d + (h + fips_Sigma1 e + ch e f g + k + w), e, f, g)"

fun fips_rounds :: "u8 list \<Rightarrow> nat \<Rightarrow> working \<Rightarrow> working" where
  "fips_rounds M 0 v = v"
| "fips_rounds M (Suc t) v = fips_round (k256 ! t) (fips_W M t) (fips_rounds M t v)"

fun working_list :: "working \<Rightarrow> u32 list" where
  "working_list (a, b, c, d, e, f, g, h) = [a, b, c, d, e, f, g, h]"

definition fips_compress :: "u32 list \<Rightarrow> u8 list \<Rightarrow> u32 list" where
  "fips_compress H M = map2 (+) H (working_list (fips_rounds M 64
     (H ! 0, H ! 1, H ! 2, H ! 3, H ! 4, H ! 5, H ! 6, H ! 7)))"

definition fips_padding :: "u8 list \<Rightarrow> u8 list" where
  "fips_padding m = 0x80 # replicate ((119 - length m mod 64) mod 64) 0 @ be64 (of_nat (8 * length m))"

definition fips_sha256 :: "u8 list \<Rightarrow> u8 list" where
  "fips_sha256 m = concat (map be32 (foldl fips_compress sha256_iv (blocks 64 (m @ fips_padding m))))"

section \<open>The compression function\<close>

lemma rotr_word_rotr:
  assumes "0 < n" "n < 32"
  shows "rotr x n = word_rotr n x"
proof (rule bit_word_eqI)
  fix i
  assume "i < LENGTH(32)"
  then have i: "i < 32" by simp
  have "(i + n) mod 32 = (if i + n < 32 then i + n else i + n - 32)"
    using i assms by (simp add: mod_if)
  with i assms show "bit (rotr x n) i \<longleftrightarrow> bit (word_rotr n x) i"
    using bit_imp_le_length [of x "i + n"]
    by (auto simp: rotr_def bit_or_iff bit_drop_bit_eq bit_push_bit_iff bit_word_rotr_iff add.commute)
qed

lemma sigma_fips:
  "sigma0 = fips_Sigma0" "sigma1 = fips_Sigma1" "gamma0 = fips_sigma0" "gamma1 = fips_sigma1"
  by (simp_all add: fun_eq_iff sigma0_def sigma1_def gamma0_def gamma1_def fips_Sigma0_def fips_Sigma1_def
      fips_sigma0_def fips_sigma1_def rotr_word_rotr)

lemma for_range_snoc: "for_range 0 n (\<lambda>i w. w @ [f i]) [] = map f [0..<n]"
  by (induction n) (simp_all add: for_range_Suc)

lemma sha256_schedule_fips: "sha256_schedule M = map (fips_W M) [0..<64]"
proof -
  have start: "for_range 0 16 (\<lambda>i w. w @ [load_be32 M i]) [] = map (fips_W M) [0..<16]"
    by (simp add: for_range_snoc fips_W.simps)
  have le: "16 \<le> (64 :: nat)" by simp
  show ?thesis
    unfolding sha256_schedule_def start
    by (rule for_range_induct [OF le, where I = "\<lambda>n w. w = map (fips_W M) [0..<n]"])
      (simp_all add: sigma_fips fips_W.simps [of M "_ :: nat"])
qed

lemma sha256_rounds_fips: "n \<le> 64 \<Longrightarrow> for_range 0 n (sha256_round (sha256_schedule M)) v = fips_rounds M n v"
proof (induction n)
  case (Suc n)
  then show ?case
    by (cases "fips_rounds M n v" rule: working_list.cases) (simp add: for_range_Suc sha256_schedule_fips Let_def sigma_fips)
qed simp

lemma length_8_cases:
  assumes "length xs = 8"
  obtains a b c d e f g h where "xs = [a, b, c, d, e, f, g, h]"
  using assms by (auto simp: eval_nat_numeral length_Suc_conv)

lemma sha256_compress_fips: "length st = 8 \<Longrightarrow> sha256_compress st M = fips_compress st M"
  by (elim length_8_cases)
    (simp add: sha256_compress_def fips_compress_def sha256_rounds_fips Let_def split: prod.splits)

lemma length_fips_compress: "length st = 8 \<Longrightarrow> length (fips_compress st M) = 8"
  by (cases "fips_rounds M 64 (st ! 0, st ! 1, st ! 2, st ! 3, st ! 4, st ! 5, st ! 6, st ! 7)"
      rule: working_list.cases) (simp add: fips_compress_def)

lemma length_absorbed: "length (foldl fips_compress sha256_iv bs) = 8"
  by (rule rev_induct [of _ bs]) (simp_all add: sha256_iv_def length_fips_compress)

section \<open>The context of a message\<close>

definition sha256_rep :: "u8 list \<Rightarrow> sha256_context_t \<Rightarrow> bool" where
  "sha256_rep m ctx \<longleftrightarrow>
     buffered 64 m (buffer256 ctx) (unat (buffer_len256 ctx)) \<and>
     state256 ctx = foldl fips_compress sha256_iv (blocks 64 m) \<and>
     bit_count256 ctx = of_nat (8 * length m)"

text \<open>The effect of one round of the update loop.\<close>

definition sha256_absorb :: "sha256_context_t \<Rightarrow> u8 list \<Rightarrow> sha256_context_t" where
  "sha256_absorb ctx x =
     (let ctx = ctx\<lparr>buffer256 := blit (buffer256 ctx) (unat (buffer_len256 ctx)) x,
                    buffer_len256 := buffer_len256 ctx + of_nat (length x),
                    bit_count256 := bit_count256 ctx + of_nat (length x) * 8\<rparr>
      in if buffer_len256 ctx = 64
         then (sha256_process_block ctx (buffer256 ctx))\<lparr>buffer_len256 := 0\<rparr> else ctx)"

lemma sha256_rep_absorb:
  assumes rep: "sha256_rep m ctx" and x: "unat (buffer_len256 ctx) + length x \<le> 64"
  shows "sha256_rep (m @ x) (sha256_absorb ctx x)"
proof -
  let ?l = "unat (buffer_len256 ctx)"
  have buf: "buffered 64 m (buffer256 ctx) ?l" using rep by (simp add: sha256_rep_def)
  have bl: "unat (buffer_len256 ctx + of_nat (length x)) = ?l + length x"
    using x by (simp add: unat_small_add)
  have cnt: "bit_count256 ctx + of_nat (length x) * 8 = of_nat (8 * length (m @ x))"
    using rep by (simp add: sha256_rep_def algebra_simps)
  show ?thesis
  proof (cases "?l + length x = 64")
    case True
    then have "buffer_len256 ctx + of_nat (length x) = 64" using bl by (simp add: word_unat_eq_iff)
    moreover have "sha256_compress (state256 ctx) M = fips_compress (state256 ctx) M" for M
      using rep by (simp add: sha256_rep_def sha256_compress_fips length_absorbed)
    ultimately show ?thesis
      using rep cnt buffered_absorb(2) [OF buf _ x True]
      by (simp add: sha256_rep_def sha256_absorb_def sha256_process_block_def Let_def)
  next
    case False
    with x have lt: "?l + length x < 64" by simp
    then have "buffer_len256 ctx + of_nat (length x) \<noteq> 64" using bl by (auto simp: word_unat_eq_iff)
    then show ?thesis
      using rep cnt bl buffered_absorb(1) [OF buf _ x lt]
      by (simp add: sha256_rep_def sha256_absorb_def Let_def)
  qed
qed

lemma sha256_rep_update:
  "sha256_rep m ctx \<Longrightarrow> sha256_rep (m @ data) (sha256_update_loop ctx data)"
proof (induction "length data" arbitrary: m ctx data rule: less_induct)
  case less
  show ?case
  proof (cases "data = []")
    case True
    with less.prems show ?thesis by (simp add: sha256_update_loop.simps)
  next
    case False
    let ?l = "unat (buffer_len256 ctx)"
    let ?copy = "if length data < 64 - ?l then length data else 64 - ?l"
    have l: "?l < 64" using less.prems by (simp add: sha256_rep_def buffered_def)
    then have "buffer_len256 ctx \<le> 64" by (simp add: word_le_nat_alt)
    then have space: "unat (64 - buffer_len256 ctx) = 64 - ?l" by (simp add: unat_sub)
    have "0 < ?copy" using False l by simp
    then have shorter: "length (drop ?copy data) < length data" using False by simp
    have "sha256_update_loop ctx data =
        sha256_update_loop (sha256_absorb ctx (take ?copy data)) (drop ?copy data)"
      using False by (subst sha256_update_loop.simps) (simp add: Let_def space sha256_absorb_def)
    moreover have "sha256_rep (m @ take ?copy data) (sha256_absorb ctx (take ?copy data))"
      using less.prems l by (intro sha256_rep_absorb) auto
    ultimately show ?thesis using less.hyps [OF shorter] by (metis append_assoc append_take_drop_id)
  qed
qed

section \<open>Padding and output\<close>

lemma write_length:
  assumes "length b = 64"
  shows "b[56 := x0, 57 := x1, 58 := x2, 59 := x3, 60 := x4, 61 := x5, 62 := x6, 63 := x7] =
    take 56 b @ [x0, x1, x2, x3, x4, x5, x6, x7]"
proof -
  have "length (drop 56 b) = 8" using assms by simp
  then obtain a c d e f g h i where "drop 56 b = [a, c, d, e, f, g, h, i]" by (rule length_8_cases)
  then have "b = take 56 b @ [a, c, d, e, f, g, h, i]" by (metis append_take_drop_id)
  moreover have "length (take 56 b) = 56" using assms by simp
  ultimately obtain u where "b = u @ [a, c, d, e, f, g, h, i]" "length u = 56" "take 56 b = u" by metis
  then show ?thesis by (simp add: list_update_append)
qed

text \<open>The buffer once the rest of the message and the bit 1 are in it.\<close>

lemma pad_start:
  assumes "length b = 64" "take l b = t" "length t = l" "l < 64"
  shows "Suc l \<le> n \<Longrightarrow> n \<le> 64 \<Longrightarrow> blit (b[l := 0x80]) (Suc l) (replicate (n - Suc l) 0) =
    t @ 0x80 # replicate (n - Suc l) 0 @ drop n b"
  using assms by (auto simp: blit_def take_Suc_conv_app_nth take_update_cancel)

lemma sha256_pad_fips:
  assumes rep: "sha256_rep m ctx"
  shows "fips_compress (state256 (sha256_pad ctx)) (buffer256 (sha256_pad ctx)) =
      foldl fips_compress sha256_iv (blocks 64 (m @ fips_padding m)) \<and>
    length (state256 (sha256_pad ctx)) = 8"
proof -
  let ?l = "length m mod 64"
  let ?len = "be64 (of_nat (8 * length m))"
  have r: "length (buffer256 ctx) = 64" "state256 ctx = foldl fips_compress sha256_iv (blocks 64 m)"
    "unat (buffer_len256 ctx) = ?l" "take ?l (buffer256 ctx) = tail 64 m"
    "bit_count256 ctx = of_nat (8 * length m)" using rep by (auto simp: sha256_rep_def buffered_def)
  have l: "?l < 64" "length (tail 64 m) = ?l" by (simp_all add: length_tail)
  have bl: "unat (buffer_len256 ctx + 1) = Suc ?l"
    using unat_small_add [of "buffer_len256 ctx" 1] r(3) l(1) by simp
  have bl63: "buffer_len256 ctx \<le> 63" using r(3) l(1) by (simp add: word_le_nat_alt)
  note start = pad_start [OF r(1,4) l(2,1)]
  have ext: "blocks 64 (m @ fips_padding m) = blocks 64 m @ blocks 64 (tail 64 m @ fips_padding m)"
    by (rule blocks_extend) simp
  show ?thesis
  proof (cases "56 \<le> ?l")
    case True
    let ?b = "tail 64 m @ 0x80 # replicate (63 - ?l) 0"
    have gt: "56 < buffer_len256 ctx + 1" "unat (64 - (buffer_len256 ctx + 1)) = 63 - ?l"
      using True l(1) bl r(3) unat_sub [OF bl63] by (simp_all add: word_less_nat_alt)
    have lenb: "length ?b = 64" using l by simp
    have "(119 - ?l) mod 64 = (63 - ?l) + 56" using True l(1) by simp
    then have "tail 64 m @ fips_padding m = ?b @ (replicate 56 0 @ ?len)"
      unfolding fips_padding_def by (simp only: replicate_add append.simps append_assoc)
    moreover have "blocks 64 (?b @ (replicate 56 0 @ ?len)) = [?b, replicate 56 0 @ ?len]"
      using lenb by (subst blocks_append) (simp_all add: blocks_one)
    ultimately have "blocks 64 (m @ fips_padding m) = blocks 64 m @ [?b, replicate 56 0 @ ?len]"
      by (simp only: ext)
    moreover have "buffer256 (sha256_pad ctx) = replicate 56 0 @ ?len"
    proof -
      obtain B where B: "B = ?b" by simp
      have "blit ((buffer256 ctx)[?l := 0x80]) (Suc ?l) (replicate (63 - ?l) 0) = B" "length B = 64"
        using start [of 64] lenb l(1) r(1) by (simp_all add: B)
      then show ?thesis
        using gt bl r(3,5)
        by (simp add: sha256_pad_def Let_def sha256_process_block_def write_length length_blit be64_def)
          (simp add: blit_def)
    qed
    moreover have "state256 (sha256_pad ctx) = fips_compress (state256 ctx) ?b"
      using gt bl start [of 64] r l
      by (simp add: sha256_pad_def Let_def sha256_process_block_def sha256_compress_fips length_absorbed)
    ultimately show ?thesis by (simp add: r(2) length_fips_compress length_absorbed)
  next
    case False
    let ?b = "tail 64 m @ 0x80 # replicate (55 - ?l) 0"
    have "buffer_len256 ctx \<le> 55" using r(3) False by (simp add: word_le_nat_alt)
    then have gt: "\<not> 56 < buffer_len256 ctx + 1" "unat (56 - (buffer_len256 ctx + 1)) = 55 - ?l"
      using False l(1) bl r(3) unat_sub [of "buffer_len256 ctx" 55] by (simp_all add: word_less_nat_alt)
    have lenb: "length ?b = 56" using l False by simp
    have "119 - ?l = 64 + (55 - ?l)" using False by simp
    then have "(119 - ?l) mod 64 = 55 - ?l" by (simp only: mod_add_self1) simp
    then have "tail 64 m @ fips_padding m = ?b @ ?len" by (simp add: fips_padding_def)
    moreover have "blocks 64 (?b @ ?len) = [?b @ ?len]" using lenb by (intro blocks_one) simp_all
    ultimately have "blocks 64 (m @ fips_padding m) = blocks 64 m @ [?b @ ?len]" by (simp only: ext)
    moreover have "buffer256 (sha256_pad ctx) = ?b @ ?len"
    proof -
      obtain B where B: "B = ?b" by simp
      have "blit ((buffer256 ctx)[?l := 0x80]) (Suc ?l) (replicate (55 - ?l) 0) = B @ drop 56 (buffer256 ctx)"
        "length B = 56"
        using start [of 56] lenb False by (simp_all add: B)
      moreover have "buffer256 (sha256_pad ctx) = B @ ?len"
        using calculation gt bl r(1,3,5) by (simp add: sha256_pad_def Let_def write_length be64_def)
      ultimately show ?thesis by (simp add: B)
    qed
    moreover have "state256 (sha256_pad ctx) = state256 ctx"
      using gt by (simp add: sha256_pad_def Let_def)
    ultimately show ?thesis by (simp add: r(2) length_absorbed)
  qed
qed

lemma length_4_cases:
  assumes "4 \<le> length xs"
  obtains a b c d r where "xs = a # b # c # d # r"
  using assms by (auto simp: eval_nat_numeral Suc_le_length_iff)

lemma write_word:
  "length xs = i * 4 \<Longrightarrow> (xs @ a # b # c # d # r)[i * 4 := w, i * 4 + 1 := x, i * 4 + 2 := y, i * 4 + 3 := z] =
     xs @ w # x # y # z # r"
  by (simp add: list_update_append)

lemma sha256_output_be32:
  assumes "length st = 8" "32 \<le> length out"
  shows "sha256_output st out = concat (map be32 st) @ drop 32 out"
proof -
  let ?f = "\<lambda>i out. let out = out[i * 4 := ucast (drop_bit 24 (st ! i))];
         out = out[i * 4 + 1 := ucast (drop_bit 16 (st ! i))];
         out = out[i * 4 + 2 := ucast (drop_bit 8 (st ! i))]
     in out[i * 4 + 3 := ucast (st ! i)]"
  have "k \<le> 8 \<Longrightarrow> for_range 0 k ?f out = concat (map be32 (take k st)) @ drop (4 * k) out" for k
  proof (induction k)
    case (Suc k)
    have "4 \<le> length (drop (4 * k) out)" using Suc.prems assms by simp
    then obtain a b c d r where r: "drop (4 * k) out = a # b # c # d # r" by (rule length_4_cases)
    then have "drop (4 * Suc k) out = r" by (simp add: drop_drop [symmetric] add.commute [of "4 * k"])
    moreover have "length (concat (map be32 (take k st))) = 4 * k"
      using Suc.prems assms(1) by (simp add: length_concat comp_def sum_list_triv)
    ultimately show ?case
      using Suc r assms(1) write_word [of "concat (map be32 (take k st))" k a b c d r]
      by (simp add: for_range_Suc Let_def take_Suc_conv_app_nth be32_def [of "st ! k"] mult.commute [of 4])
  qed simp
  from this [of 8] show ?thesis using assms(1) by (simp add: sha256_output_def)
qed

section \<open>Hashing\<close>

lemma sha256_final_rep:
  assumes "sha256_rep m ctx" "32 \<le> length out"
  obtains ctx' where "sha256_final (Some ctx) (Some out) = (ERR_OK, Some ctx', Some (fips_sha256 m @ drop 32 out))"
proof -
  let ?p = "sha256_pad ctx"
  have "sha256_compress (state256 ?p) (buffer256 ?p) =
      foldl fips_compress sha256_iv (blocks 64 (m @ fips_padding m))"
    using sha256_pad_fips [OF assms(1)] by (simp add: sha256_compress_fips)
  moreover have "length (foldl fips_compress sha256_iv (blocks 64 (m @ fips_padding m))) = 8"
    by (rule length_absorbed)
  ultimately show ?thesis
    using that assms(2) by (simp add: sha256_final_def Let_def sha256_process_block_def sha256_output_be32
        fips_sha256_def)
qed

lemma sha256_init_rep:
  assumes "length (buffer256 raw) = 64"
  obtains ctx where "sha256_init (Some raw) True = (ERR_OK, Some ctx)" "sha256_rep [] ctx"
  using that assms by (simp add: sha256_init_def sha256_rep_def blocks_short buffered_empty)

text \<open>A sequence of calls of \<^verbatim>\<open>sha256_update\<close>.\<close>

fun sha256_updates :: "sha256_context_t option \<Rightarrow> u8 list list \<Rightarrow> error_code_t \<times> sha256_context_t option" where
  "sha256_updates context [] = (ERR_OK, context)"
| "sha256_updates context (d # ds) =
     (case sha256_update context (Some d) (of_nat (length d)) of (err, context) \<Rightarrow>
        if err \<noteq> ERR_OK then (err, context) else sha256_updates context ds)"

lemma sha256_updates_rep:
  "sha256_rep m ctx \<Longrightarrow> (\<And>d. d \<in> set ds \<Longrightarrow> length d < 2 ^ 64) \<Longrightarrow>
   \<exists>ctx'. sha256_updates (Some ctx) ds = (ERR_OK, Some ctx') \<and> sha256_rep (m @ concat ds) ctx'"
proof (induction ds arbitrary: m ctx)
  case (Cons d ds)
  have "unat (of_nat (length d) :: size_t) = length d"
    using Cons.prems(2) [of d] by (simp add: unsigned_of_nat take_bit_nat_eq_self)
  then have upd: "sha256_update (Some ctx) (Some d) (of_nat (length d)) = (ERR_OK, Some (sha256_update_loop ctx d))"
    by (simp add: sha256_update_def)
  have "sha256_rep (m @ d) (sha256_update_loop ctx d)" using Cons.prems(1) by (rule sha256_rep_update)
  then have "\<exists>ctx'. sha256_updates (Some (sha256_update_loop ctx d)) ds = (ERR_OK, Some ctx') \<and>
      sha256_rep ((m @ d) @ concat ds) ctx'"
    using Cons.prems(2) by (intro Cons.IH) simp_all
  with upd show ?case by simp
qed simp

section \<open>Properties\<close>


definition raw256 :: sha256_context_t where
  "raw256 = \<lparr>state256 = replicate 8 0xAA, bit_count256 = 7, buffer256 = replicate 64 0xAA, buffer_len256 = 9\<rparr>"


lemma sha256_hash_ok:
  assumes "length (buffer256 raw) = 64" "32 \<le> length out" "unat len \<le> length d"
  shows "sha256_hash (Some raw) (Some d) len (Some out) = (ERR_OK, Some (fips_sha256 (take (unat len) d) @ drop 32 out))"
proof -
  obtain ctx0 where 0: "sha256_init (Some raw) True = (ERR_OK, Some ctx0)" "sha256_rep [] ctx0"
    using assms(1) by (rule sha256_init_rep)
  have "sha256_rep (take (unat len) d) (sha256_update_loop ctx0 (take (unat len) d))"
    using sha256_rep_update [OF 0(2)] by simp
  then obtain ctx' where "sha256_final (Some (sha256_update_loop ctx0 (take (unat len) d))) (Some out) =
      (ERR_OK, Some ctx', Some (fips_sha256 (take (unat len) d) @ drop 32 out))"
    using assms(2) by (rule sha256_final_rep)
  with 0 show ?thesis by (simp add: sha256_hash_def sha256_update_def)
qed

end
