(* ===== verification/Sha512.thy ===== *)
theory Sha512
  imports Byte_Blocks
begin

text \<open>
  The hash function of \<^verbatim>\<open>kernel/crypto/sha512.c\<close>. It has the shape of \<^verbatim>\<open>sha256.c\<close> with a buffer of 128
  bytes and a 128-bit bit count. \<open>sha512_store\<close> is a store through \<^verbatim>\<open>ctx->buffer[i]\<close>: the cell behind
  the last one is the low byte of \<^verbatim>\<open>buffer_len\<close>, the next member of the structure.
\<close>

section \<open>Model\<close>

record sha512_context_t =
  state512 :: "u64 list"
  bit_count_hi :: u64
  bit_count_lo :: u64
  buffer512 :: "u8 list"
  buffer_len512 :: u32

definition k512 :: "u64 list" where
  "k512 = concat
    [[0x428a2f98d728ae22, 0x7137449123ef65cd, 0xb5c0fbcfec4d3b2f, 0xe9b5dba58189dbbc],
     [0x3956c25bf348b538, 0x59f111f1b605d019, 0x923f82a4af194f9b, 0xab1c5ed5da6d8118],
     [0xd807aa98a3030242, 0x12835b0145706fbe, 0x243185be4ee4b28c, 0x550c7dc3d5ffb4e2],
     [0x72be5d74f27b896f, 0x80deb1fe3b1696b1, 0x9bdc06a725c71235, 0xc19bf174cf692694],
     [0xe49b69c19ef14ad2, 0xefbe4786384f25e3, 0x0fc19dc68b8cd5b5, 0x240ca1cc77ac9c65],
     [0x2de92c6f592b0275, 0x4a7484aa6ea6e483, 0x5cb0a9dcbd41fbd4, 0x76f988da831153b5],
     [0x983e5152ee66dfab, 0xa831c66d2db43210, 0xb00327c898fb213f, 0xbf597fc7beef0ee4],
     [0xc6e00bf33da88fc2, 0xd5a79147930aa725, 0x06ca6351e003826f, 0x14292967a0e6e70],
     [0x27b70a8546d22ffc, 0x2e1b21385c26c926, 0x4d2c6dfc5ac42aed, 0x53380d139d95b3df],
     [0x650a73548baf63de, 0x766a0abb3c77b2a8, 0x81c2c92e47edaee6, 0x92722c851482353b],
     [0xa2bfe8a14cf10364, 0xa81a664bbc423001, 0xc24b8b70d0f89791, 0xc76c51a30654be30],
     [0xd192e819d6ef5218, 0xd69906245565a910, 0xf40e35855771202a, 0x106aa07032bbd1b8],
     [0x19a4c116b8d2d0c8, 0x1e376c085141ab53, 0x2748774cdf8eeb99, 0x34b0bcb5e19b48a8],
     [0x391c0cb3c5c95a63, 0x4ed8aa4ae3418acb, 0x5b9cca4f7763e373, 0x6f1c0e5b6c823b93],
     [0x748f82ee5defb2fc, 0x78a5636f43172f60, 0x84c87814a1f0ab72, 0x8cc702081a6439ec],
     [0x90befffa23631e28, 0xa4506cebde82bde9, 0xbef9a3f7b2c67915, 0xc67178f2e372532b],
     [0xca273eceea26619c, 0xd186b8c721c0c207, 0xeada7dd6cde0eb1e, 0xf57d4f7fee6ed178],
     [0x06f067aa72176fba, 0x0a637dc5a2c898a6, 0x113f9804bef90dae, 0x1b710b35131c471b],
     [0x28db77f523047d84, 0x32caab7b40c72493, 0x3c9ebe0a15c9bebc, 0x431d67c49c100d4c],
     [0x4cc5d4becb3e42b6, 0x597f299cfc657e2a, 0x5fcb6fab3ad6faec, 0x6c44198c4a475817]]"

definition rotr64 :: "u64 \<Rightarrow> nat \<Rightarrow> u64" where
  "rotr64 x n = drop_bit n x OR push_bit (64 - n) x"

definition ch64 :: "u64 \<Rightarrow> u64 \<Rightarrow> u64 \<Rightarrow> u64" where
  "ch64 x y z = (x AND y) XOR (NOT x AND z)"

definition maj64 :: "u64 \<Rightarrow> u64 \<Rightarrow> u64 \<Rightarrow> u64" where
  "maj64 x y z = (x AND y) XOR (x AND z) XOR (y AND z)"

definition sigma0_64 :: "u64 \<Rightarrow> u64" where
  "sigma0_64 x = rotr64 x 28 XOR rotr64 x 34 XOR rotr64 x 39"

definition sigma1_64 :: "u64 \<Rightarrow> u64" where
  "sigma1_64 x = rotr64 x 14 XOR rotr64 x 18 XOR rotr64 x 41"

definition gamma0_64 :: "u64 \<Rightarrow> u64" where
  "gamma0_64 x = rotr64 x 1 XOR rotr64 x 8 XOR drop_bit 7 x"

definition gamma1_64 :: "u64 \<Rightarrow> u64" where
  "gamma1_64 x = rotr64 x 19 XOR rotr64 x 61 XOR drop_bit 6 x"

definition load_be64 :: "u8 list \<Rightarrow> nat \<Rightarrow> u64" where
  "load_be64 block i =
     (push_bit 56 (ucast (block ! (i * 8))) OR push_bit 48 (ucast (block ! (i * 8 + 1))) OR
      push_bit 40 (ucast (block ! (i * 8 + 2))) OR push_bit 32 (ucast (block ! (i * 8 + 3))) OR
      push_bit 24 (ucast (block ! (i * 8 + 4))) OR push_bit 16 (ucast (block ! (i * 8 + 5))) OR
      push_bit 8 (ucast (block ! (i * 8 + 6))) OR ucast (block ! (i * 8 + 7)))"

text \<open>The array \<open>w\<close> is the list of the cells written so far, as for SHA-256.\<close>

definition sha512_schedule :: "u8 list \<Rightarrow> u64 list" where
  "sha512_schedule block =
     for_range 16 80
       (\<lambda>i w. w @ [gamma1_64 (w ! (i - 2)) + w ! (i - 7) + gamma0_64 (w ! (i - 15)) + w ! (i - 16)])
       (for_range 0 16 (\<lambda>i w. w @ [load_be64 block i]) [])"

fun sha512_round ::
  "u64 list \<Rightarrow> nat \<Rightarrow> u64 \<times> u64 \<times> u64 \<times> u64 \<times> u64 \<times> u64 \<times> u64 \<times> u64 \<Rightarrow>
   u64 \<times> u64 \<times> u64 \<times> u64 \<times> u64 \<times> u64 \<times> u64 \<times> u64" where
  "sha512_round w i (a, b, c, d, e, f, g, h) =
     (let t1 = h + sigma1_64 e + ch64 e f g + k512 ! i + w ! i;
          t2 = sigma0_64 a + maj64 a b c
      in (t1 + t2, a, b, c, d + t1, e, f, g))"

definition sha512_compress :: "u64 list \<Rightarrow> u8 list \<Rightarrow> u64 list" where
  "sha512_compress st block =
     (let w = sha512_schedule block;
          (a, b, c, d, e, f, g, h) = for_range 0 80 (sha512_round w)
            (st ! 0, st ! 1, st ! 2, st ! 3, st ! 4, st ! 5, st ! 6, st ! 7);
          st = st[0 := st ! 0 + a]; st = st[1 := st ! 1 + b]; st = st[2 := st ! 2 + c];
          st = st[3 := st ! 3 + d]; st = st[4 := st ! 4 + e]; st = st[5 := st ! 5 + f];
          st = st[6 := st ! 6 + g]
      in st[7 := st ! 7 + h])"

definition sha512_process_block :: "sha512_context_t \<Rightarrow> u8 list \<Rightarrow> sha512_context_t" where
  "sha512_process_block ctx block = ctx\<lparr>state512 := sha512_compress (state512 ctx) block\<rparr>"

definition sha512_iv :: "u64 list" where
  "sha512_iv = [0x6a09e667f3bcc908, 0xbb67ae8584caa73b, 0x3c6ef372fe94f82b, 0xa54ff53a5f1d36f1,
     0x510e527fade682d1, 0x9b05688c2b3e6c1f, 0x1f83d9abfb41bd6b, 0x5be0cd19137e2179]"

definition sha512_init ::
  "sha512_context_t option \<Rightarrow> bool \<Rightarrow> error_code_t \<times> sha512_context_t option" where
  "sha512_init mem context =
     (if \<not> context then (ERR_INVALID_ARG, None)
      else case mem of
        None \<Rightarrow> (ERR_OUT_OF_MEMORY, None)
      | Some ctx \<Rightarrow>
          (ERR_OK, Some (ctx\<lparr>state512 := sha512_iv, bit_count_hi := 0, bit_count_lo := 0, buffer_len512 := 0\<rparr>)))"

text \<open>The 128-bit addition to the bit count, with the carry found by comparison.\<close>

definition sha512_count :: "sha512_context_t \<Rightarrow> nat \<Rightarrow> sha512_context_t" where
  "sha512_count ctx copy =
     (let bits = of_nat copy * 8;
          old_low = bit_count_lo ctx;
          ctx = ctx\<lparr>bit_count_lo := bit_count_lo ctx + bits\<rparr>
      in if bit_count_lo ctx < old_low then ctx\<lparr>bit_count_hi := bit_count_hi ctx + 1\<rparr> else ctx)"

function sha512_update_loop :: "sha512_context_t \<Rightarrow> u8 list \<Rightarrow> sha512_context_t" where
  "sha512_update_loop ctx data =
     (if data = [] then ctx
      else
        let space = unat (128 - buffer_len512 ctx);
            copy = (if length data < space then length data else space);
            ctx = ctx\<lparr>buffer512 := blit (buffer512 ctx) (unat (buffer_len512 ctx)) (take copy data),
                      buffer_len512 := buffer_len512 ctx + of_nat copy\<rparr>;
            ctx = sha512_count ctx copy;
            ctx = (if buffer_len512 ctx = 128
                   then (sha512_process_block ctx (buffer512 ctx))\<lparr>buffer_len512 := 0\<rparr> else ctx)
        in sha512_update_loop ctx (drop copy data))"
  by auto
termination
proof (relation "measure (\<lambda>(ctx, data). 2 * length data + (if buffer_len512 ctx = 128 then 1 else 0))",
    goal_cases)
  case (2 ctx data space copy ctx1 ctx2 ctx3)
  have len: "buffer_len512 ctx2 = buffer_len512 ctx + of_nat copy"
    using 2 by (simp add: sha512_count_def Let_def)
  show ?case
  proof (cases "copy = 0")
    case True
    with 2 have "buffer_len512 ctx = 128" by (auto simp: unat_eq_zero split: if_splits)
    with 2 True len show ?thesis by simp
  next
    case False
    with 2 have "length (drop copy data) < length data" by simp
    with 2 show ?thesis by (auto simp del: length_drop)
  qed
qed simp

declare sha512_update_loop.simps [simp del]

definition sha512_update ::
  "sha512_context_t option \<Rightarrow> u8 list option \<Rightarrow> size_t \<Rightarrow> error_code_t \<times> sha512_context_t option" where
  "sha512_update context data data_len =
     (case (context, data) of
        (Some ctx, Some d) \<Rightarrow> (ERR_OK, Some (sha512_update_loop ctx (take (unat data_len) d)))
      | _ \<Rightarrow> (ERR_INVALID_ARG, context))"

text \<open>The bit 1 and the zeros of \<^verbatim>\<open>sha512_final\<close>.\<close>

definition sha512_pad_zeros :: "sha512_context_t \<Rightarrow> sha512_context_t" where
  "sha512_pad_zeros ctx =
     (let ctx = ctx\<lparr>buffer512 := (buffer512 ctx)[unat (buffer_len512 ctx) := 0x80],
                    buffer_len512 := buffer_len512 ctx + 1\<rparr>;
          ctx = (if buffer_len512 ctx > 112 then
                   (let ctx = ctx\<lparr>buffer512 := blit (buffer512 ctx) (unat (buffer_len512 ctx))
                                    (replicate (unat (128 - buffer_len512 ctx)) 0)\<rparr>
                    in (sha512_process_block ctx (buffer512 ctx))\<lparr>buffer_len512 := 0\<rparr>)
                 else ctx)
      in ctx\<lparr>buffer512 := blit (buffer512 ctx) (unat (buffer_len512 ctx))
               (replicate (unat (112 - buffer_len512 ctx)) 0)\<rparr>)"

definition sha512_store :: "sha512_context_t \<Rightarrow> nat \<Rightarrow> u8 \<Rightarrow> sha512_context_t" where
  "sha512_store ctx i b =
     (if i = 128 then ctx\<lparr>buffer_len512 := (buffer_len512 ctx AND NOT 0xFF) OR ucast b\<rparr>
      else ctx\<lparr>buffer512 := (buffer512 ctx)[i := b]\<rparr>)"

definition sha512_pad_length :: "sha512_context_t \<Rightarrow> sha512_context_t" where
  "sha512_pad_length ctx =
     for_range 0 8 (\<lambda>i ctx. sha512_store ctx (128 - i) (ucast (drop_bit (i * 8) (bit_count_lo ctx))))
       (for_range 0 8 (\<lambda>i ctx. sha512_store ctx (120 - i) (ucast (drop_bit (i * 8) (bit_count_hi ctx)))) ctx)"

definition sha512_output :: "u64 list \<Rightarrow> u8 list \<Rightarrow> u8 list" where
  "sha512_output st out =
     for_range 0 8 (\<lambda>i out. for_range 0 8 (\<lambda>j out.
       out[i * 8 + j := ucast (drop_bit (56 - j * 8) (st ! i))]) out) out"

definition sha512_final ::
  "sha512_context_t option \<Rightarrow> u8 list option \<Rightarrow> error_code_t \<times> sha512_context_t option \<times> u8 list option" where
  "sha512_final context hash_output =
     (case (context, hash_output) of
        (Some ctx, Some out) \<Rightarrow>
          let ctx = sha512_pad_length (sha512_pad_zeros ctx);
              ctx = sha512_process_block ctx (buffer512 ctx)
          in (ERR_OK, Some ctx, Some (sha512_output (state512 ctx) out))
      | _ \<Rightarrow> (ERR_INVALID_ARG, context, hash_output))"

definition sha512_hash ::
  "sha512_context_t option \<Rightarrow> u8 list option \<Rightarrow> size_t \<Rightarrow> u8 list option \<Rightarrow> error_code_t \<times> u8 list option" where
  "sha512_hash mem data data_len hash_output =
     (case sha512_init mem True of (err, context) \<Rightarrow>
        if err \<noteq> ERR_OK then (err, hash_output)
        else case sha512_update context data data_len of (err, context) \<Rightarrow>
          if err \<noteq> ERR_OK then (err, hash_output)
          else case sha512_final context hash_output of (err, context, out) \<Rightarrow> (err, out))"

end
