(* ===== verification/Sha512_Props.thy ===== *)
theory Sha512_Props
  imports Sha512
begin

text \<open>
  What the streaming part of \<^verbatim>\<open>sha512.c\<close> computes, and the last block its final part hashes, which is
  not the padded block of FIPS 180-4.
\<close>

section \<open>The context of a message\<close>

definition sha512_rep :: "u8 list \<Rightarrow> sha512_context_t \<Rightarrow> bool" where
  "sha512_rep m ctx \<longleftrightarrow>
     buffered 128 m (buffer512 ctx) (unat (buffer_len512 ctx)) \<and>
     state512 ctx = foldl sha512_compress sha512_iv (blocks 128 m) \<and>
     (unat (bit_count_hi ctx) * 2 ^ 64 + unat (bit_count_lo ctx)) mod 2 ^ 128 = (8 * length m) mod 2 ^ 128"

lemma unat_add_carry:
  fixes a b :: u64
  shows "unat (a + b) + (if a + b < a then 2 ^ 64 else 0) = unat a + unat b"
proof (cases "unat a + unat b < 2 ^ 64")
  case True
  then have "unat (a + b) = unat a + unat b" by (simp add: unat_word_ariths)
  then show ?thesis by (simp add: word_less_nat_alt)
next
  case False
  have "unat a < 2 ^ 64" "unat b < 2 ^ 64" using unsigned_less [of a] unsigned_less [of b] by simp_all
  with False have "unat (a + b) = unat a + unat b - 2 ^ 64"
    by (simp add: unat_word_ariths mod_if)
  with False \<open>unat b < 2 ^ 64\<close> show ?thesis by (simp add: word_less_nat_alt)
qed

lemma sha512_count_value:
  assumes "copy \<le> 128"
  shows "(unat (bit_count_hi (sha512_count ctx copy)) * 2 ^ 64 + unat (bit_count_lo (sha512_count ctx copy))) mod 2 ^ 128 =
    (unat (bit_count_hi ctx) * 2 ^ 64 + unat (bit_count_lo ctx) + 8 * copy) mod 2 ^ 128"
proof -
  let ?lo = "bit_count_lo ctx" and ?hi = "bit_count_hi ctx" and ?bits = "of_nat copy * 8 :: u64"
  have bits: "unat ?bits = 8 * copy"
    using assms by (simp add: unat_word_ariths unsigned_of_nat take_bit_nat_eq_self)
  have lo: "unat (?lo + ?bits) + (if ?lo + ?bits < ?lo then 2 ^ 64 else 0) = unat ?lo + 8 * copy"
    using unat_add_carry [of ?lo ?bits] by (simp only: bits)
  have hi: "unat (?hi + 1) * 2 ^ 64 mod 2 ^ 128 = (unat ?hi + 1) * 2 ^ 64 mod (2 ^ 128 :: nat)"
  proof -
    have "unat (?hi + 1) = (unat ?hi + 1) mod 2 ^ 64" by (simp add: unat_word_ariths)
    then have "unat (?hi + 1) * 2 ^ 64 = ((unat ?hi + 1) * 2 ^ 64) mod (2 ^ 64 * 2 ^ 64)"
      by (simp only: mult_mod_left)
    then show ?thesis by (simp flip: power_add)
  qed
  show ?thesis
  proof (cases "?lo + ?bits < ?lo")
    case True
    have "(unat (?hi + 1) * 2 ^ 64 + unat (?lo + ?bits)) mod 2 ^ 128 =
        ((unat ?hi + 1) * 2 ^ 64 + unat (?lo + ?bits)) mod (2 ^ 128 :: nat)"
      by (rule mod_add_cong [OF hi refl])
    moreover have "(unat ?hi + 1) * 2 ^ 64 + unat (?lo + ?bits) = unat ?hi * 2 ^ 64 + unat ?lo + 8 * copy"
      using lo True by simp
    moreover have "bit_count_hi (sha512_count ctx copy) = ?hi + 1" "bit_count_lo (sha512_count ctx copy) = ?lo + ?bits"
      using True by (simp_all add: sha512_count_def Let_def)
    ultimately show ?thesis by (simp only:)
  next
    case False
    then have "bit_count_hi (sha512_count ctx copy) = ?hi" "bit_count_lo (sha512_count ctx copy) = ?lo + ?bits"
      by (simp_all add: sha512_count_def Let_def)
    moreover have "unat (?lo + ?bits) = unat ?lo + 8 * copy" using lo False by simp
    ultimately show ?thesis by (simp only: add.assoc)
  qed
qed

definition sha512_absorb :: "sha512_context_t \<Rightarrow> u8 list \<Rightarrow> sha512_context_t" where
  "sha512_absorb ctx x =
     (let ctx = ctx\<lparr>buffer512 := blit (buffer512 ctx) (unat (buffer_len512 ctx)) x,
                    buffer_len512 := buffer_len512 ctx + of_nat (length x)\<rparr>;
          ctx = sha512_count ctx (length x)
      in if buffer_len512 ctx = 128
         then (sha512_process_block ctx (buffer512 ctx))\<lparr>buffer_len512 := 0\<rparr> else ctx)"

lemma sha512_count_fields [simp]:
  "buffer512 (sha512_count ctx n) = buffer512 ctx" "buffer_len512 (sha512_count ctx n) = buffer_len512 ctx"
  "state512 (sha512_count ctx n) = state512 ctx"
  "bit_count_hi (sha512_count (ctx\<lparr>buffer512 := b, buffer_len512 := l\<rparr>) n) = bit_count_hi (sha512_count ctx n)"
  "bit_count_lo (sha512_count (ctx\<lparr>buffer512 := b, buffer_len512 := l\<rparr>) n) = bit_count_lo (sha512_count ctx n)"
  by (simp_all add: sha512_count_def Let_def)

lemma sha512_rep_absorb:
  assumes rep: "sha512_rep m ctx" and x: "unat (buffer_len512 ctx) + length x \<le> 128"
  shows "sha512_rep (m @ x) (sha512_absorb ctx x)"
proof -
  let ?l = "unat (buffer_len512 ctx)"
  have buf: "buffered 128 m (buffer512 ctx) ?l" using rep by (simp add: sha512_rep_def)
  have bl: "unat (buffer_len512 ctx + of_nat (length x)) = ?l + length x"
    using x by (simp add: unat_small_add)
  have cnt: "(unat (bit_count_hi (sha512_count ctx (length x))) * 2 ^ 64 +
      unat (bit_count_lo (sha512_count ctx (length x)))) mod 2 ^ 128 = (8 * length (m @ x)) mod 2 ^ 128"
  proof -
    have "length x \<le> 128" using x by simp
    note sha512_count_value [OF this]
    also have "(unat (bit_count_hi ctx) * 2 ^ 64 + unat (bit_count_lo ctx) + 8 * length x) mod 2 ^ 128 =
        (8 * length m + 8 * length x) mod 2 ^ 128"
      using rep unfolding sha512_rep_def by (intro mod_add_cong) simp_all
    also have "8 * length m + 8 * length x = 8 * length (m @ x)" by simp
    finally show ?thesis .
  qed
  show ?thesis
  proof (cases "?l + length x = 128")
    case True
    then have "buffer_len512 ctx + of_nat (length x) = 128" using bl by (simp add: word_unat_eq_iff)
    then show ?thesis
      using rep cnt buffered_absorb(2) [OF buf _ x True]
      by (simp add: sha512_rep_def sha512_absorb_def sha512_process_block_def Let_def del: power_numeral)
  next
    case False
    with x have lt: "?l + length x < 128" by simp
    then have "buffer_len512 ctx + of_nat (length x) \<noteq> 128" using bl by (auto simp: word_unat_eq_iff)
    then show ?thesis
      using rep cnt bl buffered_absorb(1) [OF buf _ x lt]
      by (simp add: sha512_rep_def sha512_absorb_def Let_def del: power_numeral)
  qed
qed

lemma sha512_rep_update:
  "sha512_rep m ctx \<Longrightarrow> sha512_rep (m @ data) (sha512_update_loop ctx data)"
proof (induction "length data" arbitrary: m ctx data rule: less_induct)
  case less
  show ?case
  proof (cases "data = []")
    case True
    with less.prems show ?thesis by (simp add: sha512_update_loop.simps)
  next
    case False
    let ?l = "unat (buffer_len512 ctx)"
    let ?copy = "if length data < 128 - ?l then length data else 128 - ?l"
    have l: "?l < 128" using less.prems by (simp add: sha512_rep_def buffered_def)
    then have "buffer_len512 ctx \<le> 128" by (simp add: word_le_nat_alt)
    then have space: "unat (128 - buffer_len512 ctx) = 128 - ?l" by (simp add: unat_sub)
    have "0 < ?copy" using False l by simp
    then have shorter: "length (drop ?copy data) < length data" using False by simp
    have "sha512_update_loop ctx data =
        sha512_update_loop (sha512_absorb ctx (take ?copy data)) (drop ?copy data)"
      using False by (subst sha512_update_loop.simps) (simp add: Let_def space sha512_absorb_def)
    moreover have "sha512_rep (m @ take ?copy data) (sha512_absorb ctx (take ?copy data))"
      using less.prems l by (intro sha512_rep_absorb) auto
    ultimately show ?thesis using less.hyps [OF shorter] by (metis append_assoc append_take_drop_id)
  qed
qed

section \<open>The last block\<close>

lemma for_range_0_8: "for_range 0 8 f s = f 7 (f 6 (f 5 (f 4 (f 3 (f 2 (f 1 (f 0 s)))))))"
proof -
  have "[0..<8] = [0, 1, 2, 3, 4, 5, 6, 7 :: nat]" by (simp add: upt_rec)
  then show ?thesis by (simp add: for_range_fold)
qed

lemma length_15_cases:
  assumes "length xs = 15"
  obtains a b c d e f g h i j k l m n p where "xs = [a, b, c, d, e, f, g, h, i, j, k, l, m, n, p]"
  using assms by (auto simp: eval_nat_numeral length_Suc_conv)

text \<open>The two length loops write the cells 113 to 127, and the structure behind the buffer.\<close>

lemma sha512_pad_length_buffer:
  assumes "length (buffer512 ctx) = 128"
  shows "buffer512 (sha512_pad_length ctx) =
      take 113 (buffer512 ctx) @ be64 (bit_count_hi ctx) @ take 7 (be64 (bit_count_lo ctx))"
    "buffer_len512 (sha512_pad_length ctx) = (buffer_len512 ctx AND NOT 0xFF) OR ucast (ucast (bit_count_lo ctx) :: u8)"
    "state512 (sha512_pad_length ctx) = state512 ctx"
proof -
  have "length (drop 113 (buffer512 ctx)) = 15" using assms by simp
  then obtain a b c d e f g h i j k l m n p where
    "drop 113 (buffer512 ctx) = [a, b, c, d, e, f, g, h, i, j, k, l, m, n, p]" by (rule length_15_cases)
  then have "buffer512 ctx = take 113 (buffer512 ctx) @ [a, b, c, d, e, f, g, h, i, j, k, l, m, n, p]"
    by (metis append_take_drop_id)
  moreover have "length (take 113 (buffer512 ctx)) = 113" using assms by simp
  ultimately obtain u where
    u: "buffer512 ctx = u @ [a, b, c, d, e, f, g, h, i, j, k, l, m, n, p]" "length u = 113"
    "take 113 (buffer512 ctx) = u" by metis
  then show "buffer512 (sha512_pad_length ctx) =
      take 113 (buffer512 ctx) @ be64 (bit_count_hi ctx) @ take 7 (be64 (bit_count_lo ctx))"
    by (simp add: sha512_pad_length_def for_range_0_8 sha512_store_def list_update_append be64_def)
  show "buffer_len512 (sha512_pad_length ctx) =
      (buffer_len512 ctx AND NOT 0xFF) OR ucast (ucast (bit_count_lo ctx) :: u8)"
    "state512 (sha512_pad_length ctx) = state512 ctx"
    by (simp_all add: sha512_pad_length_def for_range_0_8 sha512_store_def)
qed

lemma be64_eq_0:
  assumes "be64 w = [0, 0, 0, 0, 0, 0, 0, 0]"
  shows "w = 0"
proof (rule bit_word_eqI)
  fix n
  assume "n < LENGTH(64)"
  then have n: "n < 64" by simp
  have byte: "\<not> bit w (k + i)" if "ucast (drop_bit k w) = (0 :: u8)" "i < 8" for k i
  proof -
    have "\<not> bit (ucast (drop_bit k w) :: u8) i" by (simp add: that(1))
    then show ?thesis using that(2) by (simp add: bit_simps)
  qed
  have "n = n div 8 * 8 + n mod 8" "n mod 8 < 8" by simp_all
  moreover have "ucast (drop_bit (n div 8 * 8) w) = (0 :: u8)"
  proof -
    have "n div 8 < 8" using n by simp
    then have "n div 8 \<in> {0, 1, 2, 3, 4, 5, 6, 7}" by auto
    then show ?thesis using assms by (auto simp: be64_def)
  qed
  ultimately show "bit w n \<longleftrightarrow> bit 0 n" using byte by (metis bit_0_eq bot_apply bot_bool_def)
qed

lemma shifted_zeros:
  "c # replicate 8 z @ [a, b, d, e, f, g, h] = replicate 8 z @ [a, b, d, e, f, g, h, i] \<Longrightarrow>
   [a, b, d, e, f, g, h, i] = replicate 8 z"
  by (auto simp: eval_nat_numeral)

lemma shifted_length_wrong:
  assumes "w \<noteq> 0"
  shows "c # be64 0 @ take 7 (be64 w) \<noteq> be64 0 @ be64 w"
proof
  assume eq: "c # be64 0 @ take 7 (be64 w) = be64 0 @ be64 w"
  obtain a b d e f g h i where w: "be64 w = [a, b, d, e, f, g, h, i]" by (simp add: be64_def)
  have zero: "be64 0 = replicate 8 0" by (simp add: be64_def eval_nat_numeral)
  have "be64 w = replicate 8 0"
    using eq unfolding zero w by (intro shifted_zeros [of c]) simp
  then have "be64 w = [0, 0, 0, 0, 0, 0, 0, 0]" by (simp add: eval_nat_numeral)
  then show False using be64_eq_0 assms by simp
qed

text \<open>The buffer before the length is written: its first 112 cells are padded, the next one is not.\<close>

lemma sha512_pad_zeros_buffer:
  assumes rep: "sha512_rep m ctx"
  shows "length (buffer512 (sha512_pad_zeros ctx)) = 128 \<and>
    bit_count_hi (sha512_pad_zeros ctx) = bit_count_hi ctx \<and>
    bit_count_lo (sha512_pad_zeros ctx) = bit_count_lo ctx \<and>
    (length m mod 128 < 112 \<longrightarrow> buffer512 (sha512_pad_zeros ctx) ! 112 = buffer512 ctx ! 112)"
proof -
  let ?l = "unat (buffer_len512 ctx)"
  have buf: "length (buffer512 ctx) = 128" "?l < 128" "?l = length m mod 128"
    using rep by (simp_all add: sha512_rep_def buffered_def)
  have bl: "unat (buffer_len512 ctx + 1) = Suc ?l" using unat_small_add [of "buffer_len512 ctx" 1] buf(2) by simp
  show ?thesis
  proof (cases "112 \<le> ?l")
    case True
    have "buffer_len512 ctx \<le> 127" using buf(2) by (simp add: word_le_nat_alt)
    then have "112 < buffer_len512 ctx + 1" "unat (127 - buffer_len512 ctx) = 127 - ?l"
      using True bl by (simp_all add: word_less_nat_alt unat_sub)
    with True buf bl show ?thesis
      by (simp add: sha512_pad_zeros_def Let_def sha512_process_block_def length_blit)
  next
    case False
    have "buffer_len512 ctx \<le> 111" using False by (simp add: word_le_nat_alt)
    then have "\<not> 112 < buffer_len512 ctx + 1" "unat (111 - buffer_len512 ctx) = 111 - ?l"
      using False bl by (simp_all add: word_less_nat_alt unat_sub)
    with False buf bl show ?thesis
      by (simp add: sha512_pad_zeros_def Let_def length_blit nth_blit)
  qed
qed

lemma low_byte_replaced: "ucast ((x AND NOT 0xFF) OR ucast b) = b" for x :: u32 and b :: u8
proof (rule bit_word_eqI)
  fix n
  assume "n < LENGTH(8)"
  then have n: "n < 8" by simp
  have "(0xFF :: u32) = mask 8" by (simp add: mask_eq_exp_minus_1)
  then have "bit (0xFF :: u32) n" using n by (simp only: bit_mask_iff) simp
  with n show "bit (ucast ((x AND NOT 0xFF) OR ucast b) :: u8) n \<longleftrightarrow> bit b n"
    unfolding bit_ucast_iff bit_or_iff bit_and_iff bit_not_iff by simp
qed

lemma sha512_rep_small_count:
  assumes "sha512_rep m ctx" "length m < 2 ^ 61"
  shows "bit_count_hi ctx = 0" "unat (bit_count_lo ctx) = 8 * length m"
proof -
  let ?hi = "unat (bit_count_hi ctx)" and ?lo = "unat (bit_count_lo ctx)"
  have "?hi < 2 ^ 64" "?lo < 2 ^ 64"
    using unsigned_less [of "bit_count_hi ctx"] unsigned_less [of "bit_count_lo ctx"] by simp_all
  then have "?hi * 2 ^ 64 + ?lo < 2 ^ 128" by simp
  moreover have "8 * length m < 2 ^ 128" using assms(2) by simp
  ultimately have eq: "?hi * 2 ^ 64 + ?lo = 8 * length m"
    using assms(1) by (simp add: sha512_rep_def)
  then have "?hi = 0" using assms(2) by simp
  with eq show "bit_count_hi ctx = 0" "?lo = 8 * length m" by (simp_all add: unat_eq_zero)
qed

section \<open>Properties\<close>

text \<open>
  streaming. After any input the state is the compression of the complete blocks of the message,
  the buffer holds the rest, its index stays below 128 and the two words of the bit count hold the
  length of the message in bits, modulo \<open>2^128\<close>.
\<close>

theorem sha512_streaming:
  assumes "sha512_init (Some raw) True = (ERR_OK, Some ctx0)" "length (buffer512 raw) = 128"
    and "sha512_update (Some ctx0) (Some a) (of_nat (length a)) = (ERR_OK, Some ctx1)"
    and "sha512_update (Some ctx1) (Some b) (of_nat (length b)) = (ERR_OK, Some ctx2)"
    and "length a < 2 ^ 64" "length b < 2 ^ 64"
  shows "state512 ctx2 = foldl sha512_compress sha512_iv (blocks 128 (a @ b)) \<and>
    unat (buffer_len512 ctx2) < 128 \<and>
    take (unat (buffer_len512 ctx2)) (buffer512 ctx2) = tail 128 (a @ b) \<and>
    (unat (bit_count_hi ctx2) * 2 ^ 64 + unat (bit_count_lo ctx2)) mod 2 ^ 128 = (8 * length (a @ b)) mod 2 ^ 128"
proof -
  have len: "unat (of_nat (length x) :: size_t) = length x" if "length x < 2 ^ 64" for x :: "u8 list"
    using that by (simp add: unsigned_of_nat take_bit_nat_eq_self)
  have "sha512_rep [] ctx0"
    using assms(1,2) by (auto simp: sha512_init_def sha512_rep_def blocks_short buffered_empty)
  then have "sha512_rep ([] @ a) ctx1"
    using assms(3) len [OF assms(5)] sha512_rep_update [of "[]" ctx0 a] by (simp add: sha512_update_def)
  then have "sha512_rep (([] @ a) @ b) ctx2"
    using assms(4) len [OF assms(6)] sha512_rep_update [of "[] @ a" ctx1 b] by (simp add: sha512_update_def)
  then have rep: "sha512_rep (a @ b) ctx2" by simp
  then have "buffered 128 (a @ b) (buffer512 ctx2) (unat (buffer_len512 ctx2))" by (simp add: sha512_rep_def)
  then have "unat (buffer_len512 ctx2) < 128" "take (unat (buffer_len512 ctx2)) (buffer512 ctx2) = tail 128 (a @ b)"
    by (auto simp: buffered_def)
  with rep show ?thesis unfolding sha512_rep_def by blast
qed

text \<open>
  the last block. The length is written one byte too far: the block that is hashed ends with one
  byte that padding never wrote (for short messages the byte the allocated memory held), the high
  word, and seven bytes of the low word; the eighth overwrites the member behind the buffer. For no
  message of one byte up to \<open>2^61\<close> bytes is this the length field of FIPS 180-4.
\<close>

theorem sha512_padding_wrong:
  assumes "sha512_rep m ctx" "0 < length m" "length m < 2 ^ 61"
  defines "final \<equiv> sha512_pad_length (sha512_pad_zeros ctx)"
  shows "drop 113 (buffer512 final) = be64 (bit_count_hi ctx) @ take 7 (be64 (bit_count_lo ctx)) \<and>
    (length m mod 128 < 112 \<longrightarrow> buffer512 final ! 112 = buffer512 ctx ! 112) \<and>
    ucast (buffer_len512 final) = (ucast (bit_count_lo ctx) :: u8) \<and>
    drop 112 (buffer512 final) \<noteq> be64 (bit_count_hi ctx) @ be64 (bit_count_lo ctx)"
proof -
  let ?hi = "bit_count_hi ctx" and ?lo = "bit_count_lo ctx" and ?z = "sha512_pad_zeros ctx"
  note zeros = sha512_pad_zeros_buffer [OF assms(1)]
  then have len: "length (buffer512 ?z) = 128" by simp
  note fin = sha512_pad_length_buffer [OF len, folded final_def]
  have count: "?hi = 0" "?lo \<noteq> 0" using sha512_rep_small_count [OF assms(1,3)] assms(2) by auto
  have last: "drop 112 (buffer512 final) = buffer512 ?z ! 112 # be64 ?hi @ take 7 (be64 ?lo)"
    and rest: "drop 113 (buffer512 final) = be64 ?hi @ take 7 (be64 ?lo)"
    and cell: "buffer512 final ! 112 = buffer512 ?z ! 112"
    using zeros len by (simp_all add: fin(1) drop_take nth_append Cons_nth_drop_Suc [symmetric])
  have "ucast (buffer_len512 final) = (ucast ?lo :: u8)" 
    using zeros unfolding fin(2) by (simp only: low_byte_replaced)
  with last rest cell zeros show ?thesis
    using shifted_length_wrong [OF count(2)] by (auto simp: count(1))
qed

text \<open>A fresh context that has absorbed three bytes.\<close>

definition raw512 :: sha512_context_t where
  "raw512 = \<lparr>state512 = replicate 8 0, bit_count_hi = 0, bit_count_lo = 0, buffer512 = replicate 128 0xAA,
     buffer_len512 = 0\<rparr>"

lemma raw512_rep: "sha512_rep [] (raw512\<lparr>state512 := sha512_iv\<rparr>)"
  by (simp add: raw512_def sha512_rep_def blocks_short buffered_empty)

theorem sha512_streaming_witness:
  "\<exists>ctx0 ctx1 ctx2. sha512_init (Some raw512) True = (ERR_OK, Some ctx0) \<and>
    sha512_update (Some ctx0) (Some [1]) 1 = (ERR_OK, Some ctx1) \<and>
    sha512_update (Some ctx1) (Some [2, 3]) 2 = (ERR_OK, Some ctx2) \<and>
    take (unat (buffer_len512 ctx2)) (buffer512 ctx2) = [1, 2, 3]"
proof -
  obtain ctx0 where 0: "sha512_init (Some raw512) True = (ERR_OK, Some ctx0)" by (simp add: sha512_init_def)
  obtain ctx1 where 1: "sha512_update (Some ctx0) (Some [1]) (of_nat (length [1 :: u8])) = (ERR_OK, Some ctx1)"
    by (simp add: sha512_update_def)
  obtain ctx2 where 2: "sha512_update (Some ctx1) (Some [2, 3]) (of_nat (length [2, 3 :: u8])) = (ERR_OK, Some ctx2)"
    by (simp add: sha512_update_def)
  have "length (buffer512 raw512) = 128" by (simp add: raw512_def)
  from sha512_streaming [OF 0 this 1 2] have "take (unat (buffer_len512 ctx2)) (buffer512 ctx2) = [1, 2, 3]"
    by (simp add: blocks_short)
  with 0 1 2 show ?thesis by auto
qed

theorem sha512_padding_wrong_witness:
  "buffer512 (sha512_pad_length (sha512_pad_zeros
     (sha512_update_loop (raw512\<lparr>state512 := sha512_iv\<rparr>) [1, 2, 3]))) ! 112 = 0xAA"
proof -
  let ?c = "sha512_update_loop (raw512\<lparr>state512 := sha512_iv\<rparr>) [1, 2, 3]"
  have rep: "sha512_rep [1, 2, 3] ?c" using sha512_rep_update [OF raw512_rep, of "[1, 2, 3]"] by simp
  have "buffer512 ?c ! 112 = 0xAA"
    by (simp add: sha512_update_loop.simps raw512_def Let_def sha512_count_def blit_def nth_append)
  with sha512_padding_wrong [OF rep] show ?thesis by simp
qed

end
