(* ===== verification/Bn.thy ===== *)
theory Bn
  imports Prelude
begin

text \<open>
  The multi-precision integers of \<^verbatim>\<open>kernel/crypto/bn.c\<close>. The array \<^verbatim>\<open>words\<close> is the list of its cells;
  \<^verbatim>\<open>size\<close> is its length. \<open>mem n\<close> tells whether \<^verbatim>\<open>kmalloc(n)\<close> succeeds during the call; arrays are
  small enough that eight times their length is a \<^verbatim>\<open>size_t\<close>.

  An operation that writes a result takes the old contents of the result and returns the new ones.
  The code calls operations with the result also as an operand (\<^verbatim>\<open>bn_sub(r, r, b)\<close>); each cell is then
  read before it is written and \<^verbatim>\<open>top\<close> is written last, so passing the same value for both is the same
  computation. Where the code uses a pointer from a failed allocation without a test, the model
  returns \<open>None\<close>.
\<close>

section \<open>Representation\<close>

record bn_t =
  bn_words :: "u64 list"
  bn_top :: nat
  bn_sign :: int

definition BN_DEFAULT_CAPACITY :: nat where
  "BN_DEFAULT_CAPACITY = 32"

abbreviation bn_size :: "bn_t \<Rightarrow> nat" where
  "bn_size bn \<equiv> length (bn_words bn)"

definition bn_ensure :: "(nat \<Rightarrow> bool) \<Rightarrow> bn_t \<Rightarrow> nat \<Rightarrow> error_code_t \<times> bn_t" where
  "bn_ensure mem bn words =
     (if bn_size bn \<ge> words then (ERR_OK, bn)
      else
        let new_size = (if words > bn_size bn * 2 then words else bn_size bn * 2);
            new_size = (if new_size < BN_DEFAULT_CAPACITY then BN_DEFAULT_CAPACITY else new_size)
        in if \<not> mem (new_size * 8) then (ERR_OUT_OF_MEMORY, bn)
           else (ERR_OK, bn\<lparr>bn_words := blit (replicate new_size 0) 0 (bn_words bn)\<rparr>))"

text \<open>The loop of \<^verbatim>\<open>bn_fix_top\<close> from index \<open>i\<close> down.\<close>

fun fix_top_from :: "u64 list \<Rightarrow> nat \<Rightarrow> nat" where
  "fix_top_from ws 0 = 0"
| "fix_top_from ws (Suc i) = (if ws ! i = 0 then fix_top_from ws i else Suc i)"

definition bn_fix_top :: "bn_t \<Rightarrow> bn_t" where
  "bn_fix_top bn = bn\<lparr>bn_top := fix_top_from (bn_words bn) (bn_size bn)\<rparr>"

text \<open>A \<^verbatim>\<open>bn_t\<close> takes 32 bytes.\<close>

definition bn_alloc :: "(nat \<Rightarrow> bool) \<Rightarrow> bn_t option" where
  "bn_alloc mem =
     (if \<not> mem 32 then None
      else if \<not> mem (BN_DEFAULT_CAPACITY * 8) then None
      else Some \<lparr>bn_words = replicate BN_DEFAULT_CAPACITY 0, bn_top = 0, bn_sign = 1\<rparr>)"

text \<open>\<^verbatim>\<open>memset(words, 0, size * 8)\<close>.\<close>

definition bn_clear :: "bn_t \<Rightarrow> bn_t" where
  "bn_clear bn = bn\<lparr>bn_words := replicate (bn_size bn) 0\<rparr>"

definition bn_copy_to :: "(nat \<Rightarrow> bool) \<Rightarrow> bn_t \<Rightarrow> bn_t \<Rightarrow> error_code_t \<times> bn_t" where
  "bn_copy_to mem dest src =
     (case bn_ensure mem dest (bn_top src) of (err, dest) \<Rightarrow>
        if err \<noteq> ERR_OK then (err, dest)
        else
          let dest = bn_clear dest;
              dest = dest\<lparr>bn_words := blit (bn_words dest) 0 (take (bn_top src) (bn_words src))\<rparr>
          in (ERR_OK, dest\<lparr>bn_top := bn_top src, bn_sign := bn_sign src\<rparr>))"

definition bn_copy :: "(nat \<Rightarrow> bool) \<Rightarrow> bn_t option \<Rightarrow> bn_t option \<Rightarrow> error_code_t \<times> bn_t option" where
  "bn_copy mem dest src =
     (case (dest, src) of
        (Some d, Some s) \<Rightarrow> (case bn_copy_to mem d s of (err, d) \<Rightarrow> (err, Some d))
      | _ \<Rightarrow> (ERR_INVALID_ARG, dest))"

definition bn_set_int :: "(nat \<Rightarrow> bool) \<Rightarrow> bn_t \<Rightarrow> u64 \<Rightarrow> error_code_t \<times> bn_t" where
  "bn_set_int mem bn v =
     (case bn_ensure mem bn 1 of (err, bn) \<Rightarrow>
        if err \<noteq> ERR_OK then (err, bn)
        else
          let bn = bn_clear bn;
              bn = bn\<lparr>bn_words := (bn_words bn)[0 := v]\<rparr>
          in (ERR_OK, bn\<lparr>bn_top := (if v = 0 then 0 else 1), bn_sign := 1\<rparr>))"

definition bn_from_int :: "(nat \<Rightarrow> bool) \<Rightarrow> bn_t option \<Rightarrow> u64 \<Rightarrow> error_code_t \<times> bn_t option" where
  "bn_from_int mem bn v =
     (case bn of
        None \<Rightarrow> (ERR_INVALID_ARG, None)
      | Some bn \<Rightarrow> (case bn_set_int mem bn v of (err, bn) \<Rightarrow> (err, Some bn)))"

section \<open>Bytes and bits\<close>

definition bn_put_byte :: "u8 list \<Rightarrow> nat \<Rightarrow> nat \<Rightarrow> u64 list \<Rightarrow> u64 list" where
  "bn_put_byte buf len i ws =
     (let word_idx = (len - 1 - i) div 8;
          byte_idx = (len - 1 - i) mod 8
      in ws[word_idx := ws ! word_idx OR push_bit (byte_idx * 8) (ucast (buf ! i))])"

definition bn_from_bytes ::
  "(nat \<Rightarrow> bool) \<Rightarrow> bn_t option \<Rightarrow> u8 list option \<Rightarrow> nat \<Rightarrow> error_code_t \<times> bn_t option" where
  "bn_from_bytes mem bn buf len =
     (case (bn, buf) of
        (Some bn, Some buf) \<Rightarrow>
          (case bn_ensure mem bn ((len + 7) div 8) of (err, bn) \<Rightarrow>
             if err \<noteq> ERR_OK then (err, Some bn)
             else
               let bn = bn_clear bn;
                   bn = bn\<lparr>bn_words := for_range 0 len (bn_put_byte buf len) (bn_words bn)\<rparr>;
                   bn = bn_fix_top bn
               in (ERR_OK, Some (bn\<lparr>bn_sign := 1\<rparr>)))
      | _ \<Rightarrow> (ERR_INVALID_ARG, bn))"

text \<open>The loop that counts the bits of the highest word.\<close>

function count_bits :: "u64 \<Rightarrow> nat \<Rightarrow> nat" where
  "count_bits top_word bits = (if top_word \<noteq> 0 then count_bits (drop_bit 1 top_word) (bits + 1) else bits)"
  by auto
termination
proof (relation "measure (\<lambda>(w, _). unat w)", goal_cases)
  case (2 w bits)
  then have "0 < unat w" by (simp add: unat_gt_0)
  then show ?case by (simp add: drop_bit_eq_div unat_div)
qed simp

declare count_bits.simps [simp del]

definition bn_bit_count :: "bn_t \<Rightarrow> nat" where
  "bn_bit_count bn =
     (if bn_top bn = 0 then 0
      else count_bits (bn_words bn ! (bn_top bn - 1)) ((bn_top bn - 1) * 64))"

definition bn_byte_count :: "bn_t \<Rightarrow> nat" where
  "bn_byte_count bn = (bn_bit_count bn + 7) div 8"

definition bn_to_bytes :: "bn_t option \<Rightarrow> u8 list option \<Rightarrow> nat \<Rightarrow> error_code_t \<times> u8 list option" where
  "bn_to_bytes bn buf len =
     (case (bn, buf) of
        (Some bn, Some buf) \<Rightarrow>
          let buf = blit buf 0 (replicate len 0);
              bytes_count = bn_byte_count bn;
              bytes_count = (if bytes_count > len then len else bytes_count)
          in (ERR_OK, Some (for_range 0 bytes_count (\<lambda>i buf.
               buf[len - 1 - i := ucast (drop_bit (i mod 8 * 8) (bn_words bn ! (i div 8)) AND 0xFF)]) buf))
      | _ \<Rightarrow> (ERR_INVALID_ARG, buf))"

section \<open>Comparison, addition, subtraction\<close>

fun cmp_from :: "u64 list \<Rightarrow> u64 list \<Rightarrow> nat \<Rightarrow> int" where
  "cmp_from a b 0 = 0"
| "cmp_from a b (Suc i) = (if a ! i > b ! i then 1 else if a ! i < b ! i then -1 else cmp_from a b i)"

definition bn_cmp :: "bn_t \<Rightarrow> bn_t \<Rightarrow> int" where
  "bn_cmp a b =
     (if bn_top a > bn_top b then 1
      else if bn_top a < bn_top b then -1
      else cmp_from (bn_words a) (bn_words b) (bn_top a))"

text \<open>The word of an operand at an index, 0 from \<^verbatim>\<open>top\<close> on.\<close>

definition bn_word :: "bn_t \<Rightarrow> nat \<Rightarrow> u64" where
  "bn_word a i = (if i < bn_top a then bn_words a ! i else 0)"

fun bn_add_round :: "bn_t \<Rightarrow> bn_t \<Rightarrow> nat \<Rightarrow> u64 \<times> u64 list \<Rightarrow> u64 \<times> u64 list" where
  "bn_add_round a b i (carry, ws) =
     (let wa = bn_word a i;
          wb = bn_word b i;
          sum = wa + wb + carry
      in (if sum < wa \<or> (carry \<noteq> 0 \<and> sum = wa) then 1 else 0, ws[i := sum]))"

definition bn_add :: "(nat \<Rightarrow> bool) \<Rightarrow> bn_t \<Rightarrow> bn_t \<Rightarrow> bn_t \<Rightarrow> error_code_t \<times> bn_t" where
  "bn_add mem result a b =
     (let max_len = (if bn_top a > bn_top b then bn_top a else bn_top b) + 1 in
      case bn_ensure mem result max_len of (err, result) \<Rightarrow>
        if err \<noteq> ERR_OK then (err, result)
        else
          let (carry, ws) = for_range 0 max_len (bn_add_round a b) (0, bn_words result)
          in (ERR_OK, bn_fix_top (result\<lparr>bn_words := ws\<rparr>)))"

fun bn_sub_round :: "bn_t \<Rightarrow> bn_t \<Rightarrow> nat \<Rightarrow> u64 \<times> u64 list \<Rightarrow> u64 \<times> u64 list" where
  "bn_sub_round a b i (borrow, ws) =
     (let wa = bn_words a ! i;
          wb = bn_word b i;
          diff = wa - wb - borrow
      in (if wa < wb + borrow \<or> (borrow \<noteq> 0 \<and> wb = - 1) then 1 else 0, ws[i := diff]))"

definition bn_sub :: "(nat \<Rightarrow> bool) \<Rightarrow> bn_t \<Rightarrow> bn_t \<Rightarrow> bn_t \<Rightarrow> error_code_t \<times> bn_t" where
  "bn_sub mem result a b =
     (if bn_cmp a b < 0 then (ERR_INVALID_ARG, result)
      else case bn_ensure mem result (bn_top a) of (err, result) \<Rightarrow>
        if err \<noteq> ERR_OK then (err, result)
        else
          let (borrow, ws) = for_range 0 (bn_top a) (bn_sub_round a b) (0, bn_words result);
              ws = blit ws (bn_top a) (replicate (bn_size result - bn_top a) 0)
          in (ERR_OK, bn_fix_top (result\<lparr>bn_words := ws\<rparr>)))"

section \<open>Multiplication and shifts\<close>

text \<open>The inner loop: 128-bit products with carry.\<close>

fun bn_mul_inner :: "bn_t \<Rightarrow> bn_t \<Rightarrow> nat \<Rightarrow> nat \<Rightarrow> u64 \<times> u64 list \<Rightarrow> u64 \<times> u64 list" where
  "bn_mul_inner a b i j (carry, ws) =
     (let prod = (ucast (bn_words a ! i) :: 128 word) * ucast (bn_words b ! j);
          prod = prod + ucast (ws ! (i + j));
          prod = prod + ucast carry
      in (ucast (drop_bit 64 prod), ws[i + j := ucast prod]))"

definition bn_mul_outer :: "bn_t \<Rightarrow> bn_t \<Rightarrow> nat \<Rightarrow> u64 list \<Rightarrow> u64 list" where
  "bn_mul_outer a b i ws =
     (let (carry, ws) = for_range 0 (bn_top b) (bn_mul_inner a b i) (0, ws)
      in ws[i + bn_top b := ws ! (i + bn_top b) + carry])"

definition bn_mul :: "(nat \<Rightarrow> bool) \<Rightarrow> bn_t \<Rightarrow> bn_t \<Rightarrow> bn_t \<Rightarrow> error_code_t \<times> bn_t" where
  "bn_mul mem result a b =
     (case bn_alloc mem of
        None \<Rightarrow> (ERR_OUT_OF_MEMORY, result)
      | Some res \<Rightarrow>
          (case bn_ensure mem res (bn_top a + bn_top b) of (err, res) \<Rightarrow>
             if err \<noteq> ERR_OK then (err, result)
             else
               let res = bn_clear res;
                   res = res\<lparr>bn_words := for_range 0 (bn_top a) (bn_mul_outer a b) (bn_words res)\<rparr>;
                   res = bn_fix_top res
               in (ERR_OK, snd (bn_copy_to mem result res))))"

fun bn_lshift_round :: "bn_t \<Rightarrow> nat \<Rightarrow> nat \<Rightarrow> nat \<Rightarrow> u64 \<times> u64 list \<Rightarrow> u64 \<times> u64 list" where
  "bn_lshift_round a word_shift bit_shift i (carry, ws) =
     (drop_bit (64 - bit_shift) (bn_words a ! i),
      ws[i + word_shift := push_bit bit_shift (bn_words a ! i) OR carry])"

definition bn_lshift :: "(nat \<Rightarrow> bool) \<Rightarrow> bn_t \<Rightarrow> bn_t \<Rightarrow> nat \<Rightarrow> error_code_t \<times> bn_t" where
  "bn_lshift mem result a bits =
     (if bits = 0 then bn_copy_to mem result a
      else
        let word_shift = bits div 64;
            bit_shift = bits mod 64
        in case bn_alloc mem of
             None \<Rightarrow> (ERR_OUT_OF_MEMORY, result)
           | Some res \<Rightarrow>
               (case bn_ensure mem res (bn_top a + word_shift + 1) of (err, res) \<Rightarrow>
                  if err \<noteq> ERR_OK then (err, result)
                  else
                    let res = bn_clear res;
                        ws = (if bit_shift = 0
                              then for_range 0 (bn_top a) (\<lambda>i ws. ws[i + word_shift := bn_words a ! i]) (bn_words res)
                              else
                                let (carry, ws) = for_range 0 (bn_top a) (bn_lshift_round a word_shift bit_shift)
                                      (0, bn_words res)
                                in ws[bn_top a + word_shift := carry]);
                        res = bn_fix_top (res\<lparr>bn_words := ws\<rparr>)
                    in (ERR_OK, snd (bn_copy_to mem result res))))"

text \<open>The loop of \<^verbatim>\<open>bn_rshift\<close> runs from the highest word down to \<open>word_shift\<close>.\<close>

fun bn_rshift_loop :: "bn_t \<Rightarrow> nat \<Rightarrow> nat \<Rightarrow> nat \<Rightarrow> u64 \<Rightarrow> u64 list \<Rightarrow> u64 list" where
  "bn_rshift_loop a word_shift bit_shift 0 carry ws = ws"
| "bn_rshift_loop a word_shift bit_shift (Suc idx) carry ws =
     (if Suc idx > word_shift then
        bn_rshift_loop a word_shift bit_shift idx (push_bit (64 - bit_shift) (bn_words a ! idx))
          (ws[idx - word_shift := drop_bit bit_shift (bn_words a ! idx) OR carry])
      else ws)"

definition bn_rshift :: "(nat \<Rightarrow> bool) \<Rightarrow> bn_t \<Rightarrow> bn_t \<Rightarrow> nat \<Rightarrow> error_code_t \<times> bn_t" where
  "bn_rshift mem result a bits =
     (if bits = 0 then bn_copy_to mem result a
      else
        let word_shift = bits div 64;
            bit_shift = bits mod 64
        in if word_shift \<ge> bn_top a then bn_set_int mem result 0
           else case bn_alloc mem of
             None \<Rightarrow> (ERR_OUT_OF_MEMORY, result)
           | Some res \<Rightarrow>
               (case bn_ensure mem res (bn_top a - word_shift) of (err, res) \<Rightarrow>
                  if err \<noteq> ERR_OK then (err, result)
                  else
                    let res = bn_clear res;
                        ws = (if bit_shift = 0
                              then for_range word_shift (bn_top a) (\<lambda>i ws. ws[i - word_shift := bn_words a ! i]) (bn_words res)
                              else bn_rshift_loop a word_shift bit_shift (bn_top a) 0 (bn_words res));
                        res = bn_fix_top (res\<lparr>bn_words := ws\<rparr>)
                    in (ERR_OK, snd (bn_copy_to mem result res))))"

section \<open>Division\<close>

text \<open>The loop for a divisor of one word, from word \<open>i\<close> down; \<open>q\<close> is kept only if it is wanted.\<close>

fun bn_div_word :: "bn_t \<Rightarrow> u64 \<Rightarrow> nat \<Rightarrow> u64 \<Rightarrow> u64 list \<Rightarrow> u64 \<times> u64 list" where
  "bn_div_word a divisor 0 rem q = (rem, q)"
| "bn_div_word a divisor (Suc i) rem q =
     (let val = push_bit 64 (ucast rem :: 128 word) OR ucast (bn_words a ! i)
      in bn_div_word a divisor i (ucast (val mod ucast divisor)) (q[i := ucast (val div ucast divisor)]))"

text \<open>The bitwise loop for longer divisors, from bit \<open>i\<close> down, on the quotient and the remainder.\<close>

definition bn_div_bit :: "(nat \<Rightarrow> bool) \<Rightarrow> bn_t \<Rightarrow> bn_t \<Rightarrow> nat \<Rightarrow> bn_t \<times> bn_t \<Rightarrow> bn_t \<times> bn_t" where
  "bn_div_bit mem a b i s =
     (case s of (q, r) \<Rightarrow>
        let r = snd (bn_lshift mem r r 1);
            r = (if bit (bn_words a ! (i div 64)) (i mod 64)
                 then r\<lparr>bn_words := (bn_words r)[0 := bn_words r ! 0 OR 1]\<rparr> else r)
        in if bn_cmp r b \<ge> 0 then
             let r = snd (bn_sub mem r r b);
                 q = (if bn_size q \<le> i div 64 then snd (bn_ensure mem q (i div 64 + 1)) else q);
                 q = q\<lparr>bn_words := (bn_words q)[i div 64 := bn_words q ! (i div 64) OR push_bit (i mod 64) 1]\<rparr>;
                 q = (if i div 64 + 1 > bn_top q then q\<lparr>bn_top := i div 64 + 1\<rparr> else q)
             in (q, r)
           else (q, r))"

fun bn_div_bits :: "(nat \<Rightarrow> bool) \<Rightarrow> bn_t \<Rightarrow> bn_t \<Rightarrow> nat \<Rightarrow> bn_t \<times> bn_t \<Rightarrow> bn_t \<times> bn_t" where
  "bn_div_bits mem a b 0 s = s"
| "bn_div_bits mem a b (Suc i) s = bn_div_bits mem a b i (bn_div_bit mem a b i s)"

definition bn_div ::
  "(nat \<Rightarrow> bool) \<Rightarrow> bn_t option \<Rightarrow> bn_t option \<Rightarrow> bn_t \<Rightarrow> bn_t \<Rightarrow>
   (error_code_t \<times> bn_t option \<times> bn_t option) option" where
  "bn_div mem quot remainder a b =
     (if bn_top b = 0 then Some (ERR_INVALID_ARG, quot, remainder)
      else if bn_cmp a b < 0 then
        Some (ERR_OK, snd (bn_from_int mem quot 0), snd (bn_copy mem remainder (Some a)))
      else if bn_top b = 1 then
        (case quot of
           None \<Rightarrow>
             (case bn_div_word a (bn_words b ! 0) (bn_top a) 0 [] of (rem, _) \<Rightarrow>
                Some (ERR_OK, None, snd (bn_from_int mem remainder rem)))
         | Some dst \<Rightarrow>
             (case bn_alloc mem of
                None \<Rightarrow> None
              | Some q \<Rightarrow>
                  let q = snd (bn_ensure mem q (bn_top a));
                      (rem, ws) = bn_div_word a (bn_words b ! 0) (bn_top a) 0 (bn_words q);
                      q = bn_fix_top (q\<lparr>bn_words := ws\<rparr>)
                  in Some (ERR_OK, Some (snd (bn_copy_to mem dst q)), snd (bn_from_int mem remainder rem))))
      else
        case bn_alloc mem of
          None \<Rightarrow> None
        | Some fresh \<Rightarrow>
            let q = snd (bn_set_int mem fresh 0);
                r = snd (bn_set_int mem fresh 0);
                (q, r) = bn_div_bits mem a b (bn_bit_count a) (q, r)
            in Some (ERR_OK, snd (bn_copy mem quot (Some q)), snd (bn_copy mem remainder (Some r))))"

definition bn_mod :: "(nat \<Rightarrow> bool) \<Rightarrow> bn_t \<Rightarrow> bn_t \<Rightarrow> bn_t \<Rightarrow> (error_code_t \<times> bn_t) option" where
  "bn_mod mem result a m =
     map_option (\<lambda>(err, _, r). (err, the r)) (bn_div mem None (Some result) a m)"

end
