(* ===== verification/Bn_Props.thy ===== *)
theory Bn_Props
  imports Bn
begin

text \<open>
  The arithmetic of \<^verbatim>\<open>bn.c\<close> against the natural numbers: \<open>bn_val\<close> is the number a \<^verbatim>\<open>bn_t\<close> stands for and
  \<open>bn_wf\<close> its representation invariant (the words from \<^verbatim>\<open>top\<close> on are zero, the one below is not).
\<close>

section \<open>Values\<close>

primrec wval :: "(nat \<Rightarrow> u64) \<Rightarrow> nat \<Rightarrow> nat" where
  "wval f 0 = 0"
| "wval f (Suc n) = wval f n + unat (f n) * 2 ^ (64 * n)"

definition bn_val :: "bn_t \<Rightarrow> nat" where
  "bn_val a = wval (bn_word a) (bn_top a)"

definition bn_wf :: "bn_t \<Rightarrow> bool" where
  "bn_wf a \<longleftrightarrow> bn_top a \<le> bn_size a \<and> (\<forall>i. bn_top a \<le> i \<and> i < bn_size a \<longrightarrow> bn_words a ! i = 0) \<and>
     (0 < bn_top a \<longrightarrow> bn_words a ! (bn_top a - 1) \<noteq> 0)"

lemma unat_word_bound: "unat (w :: u64) < 2 ^ 64"
  using unsigned_less [of w] by simp

lemma wval_bound: "wval f n < 2 ^ (64 * n)"
proof (induction n)
  case (Suc n)
  have "wval f n + unat (f n) * 2 ^ (64 * n) < (1 + unat (f n)) * 2 ^ (64 * n)" using Suc by simp
  also have "\<dots> \<le> 2 ^ 64 * 2 ^ (64 * n)" using unat_word_bound [of "f n"] by (intro mult_right_mono) simp_all
  finally show ?case by (simp add: power_add)
qed simp

lemma wval_cong: "(\<And>i. i < n \<Longrightarrow> f i = g i) \<Longrightarrow> wval f n = wval g n"
  by (induction n) simp_all

lemma wval_zeros: "n \<le> m \<Longrightarrow> (\<And>i. n \<le> i \<Longrightarrow> i < m \<Longrightarrow> f i = 0) \<Longrightarrow> wval f m = wval f n"
proof (induction m rule: nat_induct_at_least)
  case (Suc m)
  then show ?case by simp
qed simp

lemma bn_val_ext: "bn_top a \<le> n \<Longrightarrow> bn_val a = wval (bn_word a) n"
  unfolding bn_val_def by (rule wval_zeros [symmetric]) (simp_all add: bn_word_def)

lemma bn_wf_word: "bn_wf a \<Longrightarrow> i < bn_size a \<Longrightarrow> bn_word a i = bn_words a ! i"
  by (simp add: bn_wf_def bn_word_def)

lemma bn_wf_val: "bn_wf a \<Longrightarrow> bn_val a = wval (\<lambda>i. bn_words a ! i) (bn_size a)"
  by (subst bn_val_ext [of a "bn_size a"]) (auto simp: bn_wf_def bn_word_def intro: wval_cong)

text \<open>\<^verbatim>\<open>bn_fix_top\<close> establishes the invariant and keeps the words.\<close>

lemma fix_top_from:
  "fix_top_from ws n \<le> n \<and> (\<forall>i. fix_top_from ws n \<le> i \<and> i < n \<longrightarrow> ws ! i = 0) \<and>
   (0 < fix_top_from ws n \<longrightarrow> ws ! (fix_top_from ws n - 1) \<noteq> 0)"
  by (induction n) (auto simp: less_Suc_eq le_Suc_eq)

lemma bn_fix_top_wf [simp]: "bn_wf (bn_fix_top a)"
  using fix_top_from [of "bn_words a" "bn_size a"] by (simp add: bn_wf_def bn_fix_top_def)

lemma bn_fix_top_val: "bn_val (bn_fix_top a) = wval (\<lambda>i. bn_words a ! i) (bn_size a)"
  using bn_wf_val [OF bn_fix_top_wf [of a]] by (simp add: bn_fix_top_def)

lemma bn_fix_top_words [simp]: "bn_words (bn_fix_top a) = bn_words a"
  by (simp add: bn_fix_top_def)

section \<open>Allocation and copies\<close>

text \<open>Enough memory: every allocation of the call succeeds.\<close>

abbreviation (input) mem_ok :: "(nat \<Rightarrow> bool) \<Rightarrow> bool" where
  "mem_ok mem \<equiv> \<forall>n. mem n"

lemma bn_ensure_ok:
  assumes "mem_ok mem"
  obtains bn' where "bn_ensure mem bn n = (ERR_OK, bn')" "n \<le> bn_size bn'" "bn_size bn \<le> bn_size bn'"
    "bn_top bn' = bn_top bn" "bn_sign bn' = bn_sign bn"
    "\<And>i. i < bn_size bn \<Longrightarrow> bn_words bn' ! i = bn_words bn ! i"
    "\<And>i. bn_size bn \<le> i \<Longrightarrow> i < bn_size bn' \<Longrightarrow> bn_words bn' ! i = 0"
proof -
  let ?m = "if n > bn_size bn * 2 then n else bn_size bn * 2"
  let ?m' = "if ?m < 32 then 32 else ?m"
  show ?thesis
  proof (cases "n \<le> bn_size bn")
    case True
    then show ?thesis using that [of bn] by (simp add: bn_ensure_def)
  next
    case False
    define M where "M = ?m'"
    have m: "n \<le> M" "bn_size bn \<le> M" using False by (auto simp: M_def)
    have "bn_ensure mem bn n = (ERR_OK, bn\<lparr>bn_words := blit (replicate M 0) 0 (bn_words bn)\<rparr>)"
      using False assms by (simp add: bn_ensure_def BN_DEFAULT_CAPACITY_def Let_def M_def)
    from that [OF this] m show ?thesis by (simp add: length_blit nth_blit)
  qed
qed

lemma bn_ensure_wf:
  assumes "mem_ok mem" "bn_wf bn"
  obtains bn' where "bn_ensure mem bn n = (ERR_OK, bn')" "n \<le> bn_size bn'" "bn_wf bn'"
    "bn_top bn' = bn_top bn" "bn_val bn' = bn_val bn"
proof -
  obtain bn' where e: "bn_ensure mem bn n = (ERR_OK, bn')" "n \<le> bn_size bn'" "bn_size bn \<le> bn_size bn'"
    "bn_top bn' = bn_top bn" "\<And>i. i < bn_size bn \<Longrightarrow> bn_words bn' ! i = bn_words bn ! i"
    "\<And>i. bn_size bn \<le> i \<Longrightarrow> i < bn_size bn' \<Longrightarrow> bn_words bn' ! i = 0"
    using bn_ensure_ok [OF assms(1), of bn n] by metis
  have top: "bn_top bn \<le> bn_size bn" using assms(2) by (simp add: bn_wf_def)
  have "bn_wf bn'"
    unfolding bn_wf_def
  proof (intro conjI allI impI)
    show "bn_top bn' \<le> bn_size bn'" using e top by simp
    show "bn_words bn' ! i = 0" if "bn_top bn' \<le> i \<and> i < bn_size bn'" for i
      using that e assms(2) by (cases "i < bn_size bn") (simp_all add: bn_wf_def)
    show "bn_words bn' ! (bn_top bn' - 1) \<noteq> 0" if "0 < bn_top bn'"
      using that e top assms(2) by (simp add: bn_wf_def)
  qed
  moreover have "bn_val bn' = bn_val bn"
    using e top by (auto simp: bn_val_def bn_word_def intro: wval_cong)
  ultimately show ?thesis using that e by blast
qed

lemma bn_alloc_ok:
  assumes "mem_ok mem"
  obtains bn where "bn_alloc mem = Some bn" "bn_words bn = replicate 32 0" "bn_top bn = 0"
  using assms by (simp add: bn_alloc_def BN_DEFAULT_CAPACITY_def)

text \<open>\<^verbatim>\<open>bn_copy\<close> makes the destination the same number, whatever it held.\<close>

lemma bn_copy_to_ok:
  assumes "mem_ok mem" "bn_wf src"
  obtains dest' where "bn_copy_to mem dest src = (ERR_OK, dest')" "bn_wf dest'" "bn_val dest' = bn_val src"
    "bn_top dest' = bn_top src"
proof -
  obtain d where d: "bn_ensure mem dest (bn_top src) = (ERR_OK, d)" "bn_top src \<le> bn_size d"
    using bn_ensure_ok [OF assms(1), of dest "bn_top src"] by metis
  let ?d = "d\<lparr>bn_words := blit (replicate (bn_size d) 0) 0 (take (bn_top src) (bn_words src)),
      bn_top := bn_top src, bn_sign := bn_sign src\<rparr>"
  have top: "bn_top src \<le> bn_size src" using assms(2) by (simp add: bn_wf_def)
  have words: "bn_words ?d ! i = (if i < bn_top src then bn_words src ! i else 0)" if "i < bn_size d" for i
    using that d(2) top by (simp add: nth_blit)
  have size: "bn_size ?d = bn_size d" using d(2) top by (simp add: length_blit)
  have "bn_wf ?d"
    unfolding bn_wf_def size using words d(2) assms(2) by (auto simp: bn_wf_def)
  moreover have "bn_val ?d = bn_val src"
    using words d(2) by (auto simp: bn_val_def bn_word_def intro!: wval_cong)
  moreover have "bn_copy_to mem dest src = (ERR_OK, ?d)"
    using d(1) by (simp add: bn_copy_to_def bn_clear_def Let_def)
  ultimately show ?thesis using that by simp
qed

lemma bn_set_int_ok:
  assumes "mem_ok mem"
  obtains bn' where "bn_set_int mem bn v = (ERR_OK, bn')" "bn_wf bn'" "bn_val bn' = unat v"
    "bn_top bn' = (if v = 0 then 0 else 1)" "1 \<le> bn_size bn'"
proof -
  obtain d where d: "bn_ensure mem bn 1 = (ERR_OK, d)" "1 \<le> bn_size d"
    using bn_ensure_ok [OF assms, of bn 1] by metis
  let ?d = "d\<lparr>bn_words := (replicate (bn_size d) 0)[0 := v], bn_top := (if v = 0 then 0 else 1), bn_sign := 1\<rparr>"
  obtain k where k: "bn_size d = Suc k" using d(2) by (cases "bn_size d") auto
  have "bn_wf ?d" by (auto simp: bn_wf_def k nth_Cons split: nat.splits)
  moreover have "bn_val ?d = unat v" by (simp add: bn_val_def bn_word_def k)
  moreover have "bn_set_int mem bn v = (ERR_OK, ?d)"
    using d(1) by (simp add: bn_set_int_def bn_clear_def Let_def)
  ultimately show ?thesis using that d(2) by simp
qed

section \<open>Comparison\<close>

lemma cmp_from_val:
  "cmp_from a b n = sgn (int (wval (\<lambda>i. a ! i) n) - int (wval (\<lambda>i. b ! i) n))"
proof (induction n)
  case (Suc n)
  let ?a = "wval (\<lambda>i. a ! i) n" and ?b = "wval (\<lambda>i. b ! i) n" and ?p = "2 ^ (64 * n) :: nat"
  have bound: "?a < ?p" "?b < ?p" by (rule wval_bound)+
  have lt: "x + unat v * ?p < y + unat w * ?p" if "v < w" "x < ?p" for x y and v w :: u64
  proof -
    have "unat v + 1 \<le> unat w" using that(1) by (simp add: word_less_nat_alt)
    then have "(unat v + 1) * ?p \<le> unat w * ?p" by (rule mult_right_mono) simp
    with that(2) show ?thesis by simp
  qed
  have sgn: "sgn (int x - int y) = 1" "sgn (int y - int x) = -1" if "y < x" for x y
    using that by simp_all
  consider "a ! n > b ! n" | "a ! n < b ! n" | "a ! n = b ! n" using less_linear by blast
  then show ?case
  proof cases
    case 1
    then show ?thesis unfolding wval.simps sgn(1) [OF lt [OF 1 bound(2)]] by simp
  next
    case 2
    then show ?thesis unfolding wval.simps sgn(2) [OF lt [OF 2 bound(1)]] by simp
  next
    case 3
    then show ?thesis using Suc by simp
  qed
qed simp

lemma bn_val_lower: "bn_wf a \<Longrightarrow> 0 < bn_top a \<Longrightarrow> 2 ^ (64 * (bn_top a - 1)) \<le> bn_val a"
proof -
  assume wf: "bn_wf a" "0 < bn_top a"
  then obtain n where n: "bn_top a = Suc n" by (cases "bn_top a") auto
  with wf have "bn_word a n \<noteq> 0" by (simp add: bn_wf_def bn_word_def)
  then have "1 \<le> unat (bn_word a n)" by (simp add: Suc_le_eq unat_gt_0)
  then have "1 * 2 ^ (64 * n) \<le> unat (bn_word a n) * 2 ^ (64 * n)" by (rule mult_right_mono) simp
  then show ?thesis unfolding bn_val_def n by (simp only: wval.simps diff_Suc_1 mult_1 trans_le_add2)
qed

lemma bn_val_less_top:
  assumes "bn_wf b" "bn_top a < bn_top b"
  shows "bn_val a < bn_val b"
proof -
  have "bn_val a < 2 ^ (64 * bn_top a)" unfolding bn_val_def by (rule wval_bound)
  also have "\<dots> \<le> 2 ^ (64 * (bn_top b - 1))" using assms(2) by (intro power_increasing) auto
  also have "\<dots> \<le> bn_val b" using assms by (intro bn_val_lower) auto
  finally show ?thesis .
qed

lemma bn_cmp_val:
  assumes "bn_wf a" "bn_wf b"
  shows "bn_cmp a b = sgn (int (bn_val a) - int (bn_val b))"
proof -
  consider "bn_top a > bn_top b" | "bn_top a < bn_top b" | "bn_top a = bn_top b" using less_linear by blast
  then show ?thesis
  proof cases
    case 1
    then show ?thesis using bn_val_less_top [OF assms(1) 1] by (simp add: bn_cmp_def sgn_if)
  next
    case 2
    then show ?thesis using bn_val_less_top [OF assms(2) 2] by (simp add: bn_cmp_def sgn_if)
  next
    case 3
    have "wval (\<lambda>i. bn_words x ! i) (bn_top x) = bn_val x" for x
      unfolding bn_val_def by (rule wval_cong) (simp add: bn_word_def)
    from this [of a] this [of b] 3 show ?thesis by (simp add: bn_cmp_def cmp_from_val)
  qed
qed

lemma bn_val_0: "bn_wf a \<Longrightarrow> bn_val a = 0 \<longleftrightarrow> bn_top a = 0"
proof -
  assume wf: "bn_wf a"
  have "0 < bn_val a" if "0 < bn_top a"
    using bn_val_lower [OF wf that] by (rule less_le_trans [rotated]) simp
  then show ?thesis by (cases "bn_top a") (auto simp: bn_val_def)
qed

section \<open>Addition and subtraction\<close>

lemma add_carry:
  fixes wa wb carry :: u64
  assumes "carry = 0 \<or> carry = 1"
  shows "unat (wa + wb + carry) +
      unat (if wa + wb + carry < wa \<or> (carry \<noteq> 0 \<and> wa + wb + carry = wa) then 1 else 0 :: u64) * 2 ^ 64 =
    unat wa + unat wb + unat carry"
proof -
  let ?s = "unat wa + unat wb + unat carry"
  have b: "unat wa < 2 ^ 64" "unat wb < 2 ^ 64" "unat carry \<le> 1"
    using assms unat_word_bound by auto
  have sum: "unat (wa + wb + carry) = ?s mod 2 ^ 64" by (simp add: unat_word_ariths mod_add_left_eq)
  show ?thesis
  proof (cases "?s < 2 ^ 64")
    case True
    then have eq: "unat (wa + wb + carry) = ?s" using sum by simp
    have "\<not> (wa + wb + carry < wa \<or> (carry \<noteq> 0 \<and> wa + wb + carry = wa))"
      using eq assms by (auto simp: word_less_nat_alt word_unat_eq_iff)
    with eq show ?thesis by simp
  next
    case False
    then have eq: "unat (wa + wb + carry) = ?s - 2 ^ 64" using sum b by (simp add: mod_if)
    have "wa + wb + carry < wa \<or> (carry \<noteq> 0 \<and> wa + wb + carry = wa)"
      using eq assms b False by (auto simp: word_less_nat_alt word_unat_eq_iff)
    with eq False show ?thesis by simp
  qed
qed

lemma unat_diff: "unat (x - y) = (if y \<le> x then unat x - unat y else 2 ^ 64 + unat x - unat y)" for x y :: u64
proof (cases "y \<le> x")
  case False
  then have "unat (x - y) = unat x + 2 ^ LENGTH(64) - unat y"
    unfolding word_le_nat_alt by (simp add: unat_sub_if')
  with False show ?thesis by (simp only: if_False add.commute) simp
qed (simp add: unat_sub)

lemma unat_max64: "unat (- 1 :: u64) = 2 ^ 64 - 1"
  by (simp add: unsigned_minus_1_eq_mask mask_eq_exp_minus_1)

lemma sub_borrow:
  fixes wa wb borrow :: u64
  assumes "borrow = 0 \<or> borrow = 1"
  shows "unat (wa - wb - borrow) + unat wb + unat borrow =
    unat wa + unat (if wa < wb + borrow \<or> (borrow \<noteq> 0 \<and> wb = - 1) then 1 else 0 :: u64) * 2 ^ 64"
proof -
  have b: "unat wa < 2 ^ 64" "unat wb < 2 ^ 64" "unat borrow \<le> 1"
    using assms unat_word_bound by auto
  have eq: "wa - wb - borrow = wa - (wb + borrow)" by simp
  have diff: "unat (wa - wb - borrow) =
      (if wb + borrow \<le> wa then unat wa - unat (wb + borrow) else 2 ^ 64 + unat wa - unat (wb + borrow))"
    unfolding eq by (rule unat_diff)
  show ?thesis
  proof (cases "borrow \<noteq> 0 \<and> wb = - 1")
    case True
    then have "unat wb = 2 ^ 64 - 1" "borrow = 1" "wb + borrow = 0" using assms by (auto simp: unat_max64)
    with diff True show ?thesis by simp
  next
    case False
    then have "unat (wb + borrow) = unat wb + unat borrow"
    proof (cases "borrow = 0")
      case False
      then have "borrow = 1" "unat wb \<noteq> 2 ^ 64 - 1"
        using assms \<open>\<not> (borrow \<noteq> 0 \<and> wb = - 1)\<close> unat_max64 by (auto simp: word_unat_eq_iff)
      with b(2) have "unat wb + 1 < 2 ^ 64" by simp
      then show ?thesis using \<open>borrow = 1\<close> by (simp add: unat_word_ariths)
    qed simp
    with diff False b show ?thesis
      by (auto simp: word_less_nat_alt word_le_nat_alt)
  qed
qed

lemma bn_add_loop:
  assumes "n \<le> length ws"
  shows "case for_range 0 n (bn_add_round a b) (0, ws) of (carry, ws') \<Rightarrow>
    length ws' = length ws \<and> (carry = 0 \<or> carry = 1) \<and>
    wval (\<lambda>i. ws' ! i) n + unat carry * 2 ^ (64 * n) = wval (bn_word a) n + wval (bn_word b) n \<and>
    (\<forall>i. n \<le> i \<and> i < length ws \<longrightarrow> ws' ! i = ws ! i)"
  using assms
proof (induction n)
  case (Suc n)
  obtain carry ws' where r: "for_range 0 n (bn_add_round a b) (0, ws) = (carry, ws')" by fastforce
  with Suc have IH: "length ws' = length ws" "carry = 0 \<or> carry = 1"
    "wval (\<lambda>i. ws' ! i) n + unat carry * 2 ^ (64 * n) = wval (bn_word a) n + wval (bn_word b) n"
    "\<And>i. n \<le> i \<Longrightarrow> i < length ws \<Longrightarrow> ws' ! i = ws ! i" by auto
  let ?sum = "bn_word a n + bn_word b n + carry"
  define carry' :: u64 where
    "carry' = (if ?sum < bn_word a n \<or> (carry \<noteq> 0 \<and> ?sum = bn_word a n) then 1 else 0)"
  have step: "for_range 0 (Suc n) (bn_add_round a b) (0, ws) = (carry', ws'[n := ?sum])"
    by (simp add: for_range_Suc r Let_def carry'_def)
  have "unat ?sum + unat carry' * 2 ^ 64 = unat (bn_word a n) + unat (bn_word b n) + unat carry"
    using add_carry [OF IH(2)] by (simp add: carry'_def)
  then have "(unat ?sum + unat carry' * 2 ^ 64) * 2 ^ (64 * n) =
      (unat (bn_word a n) + unat (bn_word b n) + unat carry) * 2 ^ (64 * n)" by (simp only:)
  moreover have "wval (\<lambda>i. ws'[n := ?sum] ! i) n = wval (\<lambda>i. ws' ! i) n" by (rule wval_cong) simp
  ultimately have "wval (\<lambda>i. ws'[n := ?sum] ! i) (Suc n) + unat carry' * 2 ^ (64 * Suc n) =
      wval (bn_word a) (Suc n) + wval (bn_word b) (Suc n)"
    using IH(1,3) Suc.prems by (simp add: algebra_simps power_add)
  with IH(1,4) step show ?case by (auto simp: carry'_def)
qed simp

text \<open>The result of an addition when no stale words are left above the sum.\<close>

lemma bn_add_ok:
  assumes "mem_ok mem" "bn_wf a" "bn_wf b"
    and "\<And>i. max (bn_top a) (bn_top b) < i \<Longrightarrow> i < bn_size result \<Longrightarrow> bn_words result ! i = 0"
  obtains r where "bn_add mem result a b = (ERR_OK, r)" "bn_wf r" "bn_val r = bn_val a + bn_val b"
proof -
  let ?n = "max (bn_top a) (bn_top b) + 1"
  obtain d where d: "bn_ensure mem result ?n = (ERR_OK, d)" "?n \<le> bn_size d" "bn_size result \<le> bn_size d"
    "\<And>i. i < bn_size result \<Longrightarrow> bn_words d ! i = bn_words result ! i"
    "\<And>i. bn_size result \<le> i \<Longrightarrow> i < bn_size d \<Longrightarrow> bn_words d ! i = 0"
    using bn_ensure_ok [OF assms(1), of result ?n] by metis
  obtain carry ws where l: "for_range 0 ?n (bn_add_round a b) (0, bn_words d) = (carry, ws)" by fastforce
  with bn_add_loop [OF d(2), of a b] have w: "length ws = bn_size d"
    "wval (\<lambda>i. ws ! i) ?n + unat carry * 2 ^ (64 * ?n) = wval (bn_word a) ?n + wval (bn_word b) ?n"
    "\<And>i. ?n \<le> i \<Longrightarrow> i < bn_size d \<Longrightarrow> ws ! i = bn_words d ! i" by auto
  let ?r = "bn_fix_top (d\<lparr>bn_words := ws\<rparr>)"
  have top: "(if bn_top a > bn_top b then bn_top a else bn_top b) + 1 = ?n" by simp
  have "bn_add mem result a b = (ERR_OK, ?r)"
    unfolding bn_add_def top using d(1) l by (simp add: Let_def)
  moreover have "bn_val ?r = bn_val a + bn_val b"
  proof -
    have vals: "wval (bn_word x) ?n = bn_val x" if "x = a \<or> x = b" for x
      using that by (subst bn_val_ext [of x ?n]) auto
    then have va: "wval (bn_word a) ?n = bn_val a" and vb: "wval (bn_word b) ?n = bn_val b" by blast+
    have "bn_val a + bn_val b < 2 ^ (64 * max (bn_top a) (bn_top b)) + 2 ^ (64 * max (bn_top a) (bn_top b))"
    proof (rule add_strict_mono)
      have "bn_val x < 2 ^ (64 * max (bn_top a) (bn_top b))" if "x = a \<or> x = b" for x
        using that wval_bound [of "bn_word x"] by (subst bn_val_ext [of x "max (bn_top a) (bn_top b)"]) auto
      then show "bn_val a < 2 ^ (64 * max (bn_top a) (bn_top b))" "bn_val b < 2 ^ (64 * max (bn_top a) (bn_top b))"
        by simp_all
    qed
    also have "\<dots> \<le> 2 ^ (64 * ?n)" by (simp add: power_add)
    finally have "unat carry * 2 ^ (64 * ?n) < 1 * 2 ^ (64 * ?n)" using w(2) va vb by linarith
    then have "unat carry = 0" by (simp only: mult_less_cancel2) simp
    moreover have "wval (\<lambda>i. ws ! i) (length ws) = wval (\<lambda>i. ws ! i) ?n"
    proof (rule wval_zeros)
      show "?n \<le> length ws" using d(2) w(1) by simp
      show "ws ! i = 0" if "?n \<le> i" "i < length ws" for i
      proof -
        have "max (bn_top a) (bn_top b) < i" using that(1) by linarith
        then have "bn_words d ! i = 0"
          using that(2) w(1) d(3-5) assms(4) by (cases "i < bn_size result") auto
        with that w(1,3) show ?thesis by simp
      qed
    qed
    ultimately show ?thesis using w(2) va vb by (simp add: bn_fix_top_val)
  qed
  ultimately show ?thesis using that by simp
qed

lemma bn_sub_loop:
  assumes "n \<le> length ws" "n \<le> bn_top a"
  shows "case for_range 0 n (bn_sub_round a b) (0, ws) of (borrow, ws') \<Rightarrow>
    length ws' = length ws \<and> (borrow = 0 \<or> borrow = 1) \<and>
    wval (\<lambda>i. ws' ! i) n + wval (bn_word b) n = wval (bn_word a) n + unat borrow * 2 ^ (64 * n)"
  using assms
proof (induction n)
  case (Suc n)
  obtain borrow ws' where r: "for_range 0 n (bn_sub_round a b) (0, ws) = (borrow, ws')" by fastforce
  with Suc have IH: "length ws' = length ws" "borrow = 0 \<or> borrow = 1"
    "wval (\<lambda>i. ws' ! i) n + wval (bn_word b) n = wval (bn_word a) n + unat borrow * 2 ^ (64 * n)" by auto
  have wa: "bn_words a ! n = bn_word a n" using Suc.prems by (simp add: bn_word_def)
  let ?diff = "bn_word a n - bn_word b n - borrow"
  define borrow' :: u64 where
    "borrow' = (if bn_word a n < bn_word b n + borrow \<or> (borrow \<noteq> 0 \<and> bn_word b n = - 1) then 1 else 0)"
  have step: "for_range 0 (Suc n) (bn_sub_round a b) (0, ws) = (borrow', ws'[n := ?diff])"
    by (simp add: for_range_Suc r Let_def borrow'_def wa)
  have "unat ?diff + unat (bn_word b n) + unat borrow = unat (bn_word a n) + unat borrow' * 2 ^ 64"
    using sub_borrow [OF IH(2)] by (simp add: borrow'_def)
  then have "(unat ?diff + unat (bn_word b n) + unat borrow) * 2 ^ (64 * n) =
      (unat (bn_word a n) + unat borrow' * 2 ^ 64) * 2 ^ (64 * n)" by (simp only:)
  moreover have "wval (\<lambda>i. ws'[n := ?diff] ! i) n = wval (\<lambda>i. ws' ! i) n" by (rule wval_cong) simp
  ultimately have "wval (\<lambda>i. ws'[n := ?diff] ! i) (Suc n) + wval (bn_word b) (Suc n) =
      wval (bn_word a) (Suc n) + unat borrow' * 2 ^ (64 * Suc n)"
    using IH(1,3) Suc.prems by (simp add: algebra_simps power_add)
  with IH(1) step show ?case by (auto simp: borrow'_def)
qed simp

lemma bn_sub_ok:
  assumes "mem_ok mem" "bn_wf a" "bn_wf b" "bn_val b \<le> bn_val a"
  obtains r where "bn_sub mem result a b = (ERR_OK, r)" "bn_wf r" "bn_val r = bn_val a - bn_val b"
proof -
  let ?n = "bn_top a"
  have cmp: "\<not> bn_cmp a b < 0" using assms(4) by (simp add: bn_cmp_val [OF assms(2,3)] sgn_if)
  obtain d where d: "bn_ensure mem result ?n = (ERR_OK, d)" "?n \<le> bn_size d"
    using bn_ensure_ok [OF assms(1), of result ?n] by metis
  obtain borrow ws where l: "for_range 0 ?n (bn_sub_round a b) (0, bn_words d) = (borrow, ws)" by fastforce
  with bn_sub_loop [OF d(2), of a b] have w: "length ws = bn_size d" "borrow = 0 \<or> borrow = 1"
    "wval (\<lambda>i. ws ! i) ?n + wval (bn_word b) ?n = wval (bn_word a) ?n + unat borrow * 2 ^ (64 * ?n)" by auto
  let ?ws = "blit ws ?n (replicate (bn_size d - ?n) 0)"
  let ?r = "bn_fix_top (d\<lparr>bn_words := ?ws\<rparr>)"
  have "bn_top b \<le> ?n" using bn_val_less_top [OF assms(3), of a] assms(4) by fastforce
  then have vb: "wval (bn_word b) ?n = bn_val b" by (simp add: bn_val_ext)
  have va: "wval (bn_word a) ?n = bn_val a" by (simp add: bn_val_def)
  have "wval (\<lambda>i. ws ! i) ?n < 2 ^ (64 * ?n)" by (rule wval_bound)
  then have borrow: "borrow = 0" using w(2,3) vb va assms(4) by auto
  have len: "length ?ws = bn_size d" using w(1) d(2) by (simp add: length_blit)
  have "wval (\<lambda>i. ?ws ! i) (length ?ws) = wval (\<lambda>i. ?ws ! i) ?n"
    using w(1) d(2) len by (intro wval_zeros) (simp_all add: nth_blit)
  also have "\<dots> = wval (\<lambda>i. ws ! i) ?n" using w(1) d(2) by (intro wval_cong) (simp add: nth_blit)
  finally have "bn_val ?r = bn_val a - bn_val b" using w(3) vb va borrow by (simp add: bn_fix_top_val)
  moreover have "bn_sub mem result a b = (ERR_OK, ?r)"
    using cmp d(1) l by (simp add: bn_sub_def Let_def)
  ultimately show ?thesis using that by simp
qed

end
