(* ===== verification/Bn_Mul.thy ===== *)
theory Bn_Mul
  imports Bn_Props
begin

text \<open>Multiplication and division of \<^verbatim>\<open>bn.c\<close> against the natural numbers.\<close>

section \<open>Double words\<close>

lemma unat_ucast_128: "unat (ucast (x :: u64) :: 128 word) = unat x"
proof -
  have "unat x < 2 ^ 128" using unat_word_bound [of x] by simp
  then show ?thesis by (simp add: unsigned_ucast_eq take_bit_nat_eq_self)
qed

lemma split_128:
  "unat (ucast (p :: 128 word) :: u64) = unat p mod 2 ^ 64"
  "unat (ucast (drop_bit 64 p) :: u64) = unat p div 2 ^ 64"
proof -
  show "unat (ucast p :: u64) = unat p mod 2 ^ 64" by (simp add: unsigned_ucast_eq take_bit_eq_mod)
  have "unat p < 2 ^ 64 * 2 ^ 64" using unsigned_less [of p] by simp
  then have "unat p div 2 ^ 64 < 2 ^ 64" by (rule less_mult_imp_div_less)
  moreover have "unat (drop_bit 64 p) = unat p div 2 ^ 64"
    unfolding unat_drop_bit_eq by (rule drop_bit_eq_div)
  ultimately show "unat (ucast (drop_bit 64 p) :: u64) = unat p div 2 ^ 64"
    unfolding unsigned_ucast_eq by (simp add: take_bit_nat_eq_self)
qed

lemma mul_add_128:
  fixes x y r c :: u64
  defines "p \<equiv> (ucast x :: 128 word) * ucast y + ucast r + ucast c"
  shows "unat (ucast p :: u64) + unat (ucast (drop_bit 64 p) :: u64) * 2 ^ 64 = unat x * unat y + unat r + unat c"
proof -
  let ?M = "2 ^ 64 - 1 :: nat"
  have b: "unat x \<le> ?M" "unat y \<le> ?M" "unat r \<le> ?M" "unat c \<le> ?M"
    using unat_word_bound [of x] unat_word_bound [of y] unat_word_bound [of r] unat_word_bound [of c] by simp_all
  have "unat x * unat y \<le> ?M * ?M" using b(1,2) by (rule mult_mono) simp_all
  then have "unat x * unat y + unat r + unat c \<le> ?M * ?M + ?M + ?M" using b(3,4) by linarith
  also have "\<dots> < 2 ^ 128" by simp
  finally have "unat p = unat x * unat y + unat r + unat c"
    by (simp add: p_def unat_word_ariths unat_ucast_128 mod_simps)
  then show ?thesis unfolding split_128(1) [of p] split_128(2) [of p] by (simp only: mod_div_mult_eq)
qed

lemma join_128: "unat (push_bit 64 (ucast r :: 128 word) OR ucast w) = unat r * 2 ^ 64 + unat w" for r w :: u64
proof -
  have "push_bit 64 (ucast r :: 128 word) + ucast w = push_bit 64 (ucast r) OR ucast w"
    by (rule disjunctive_add) (auto simp: bit_simps dest: bit_imp_le_length)
  then have eq: "push_bit 64 (ucast r :: 128 word) OR ucast w = ucast r * 2 ^ 64 + ucast w"
    by (simp only: push_bit_eq_mult)
  have "unat r * 2 ^ 64 + unat w < 2 ^ 128"
  proof -
    have "unat r * 2 ^ 64 \<le> (2 ^ 64 - 1) * 2 ^ 64"
      using unat_word_bound [of r] by (intro mult_right_mono) simp_all
    then show ?thesis using unat_word_bound [of w] by simp
  qed
  then show ?thesis unfolding eq by (simp add: unat_word_ariths unat_ucast_128 mod_simps)
qed

lemma div_128:
  fixes v :: "128 word" and d :: u64
  assumes "unat v < unat d * 2 ^ 64"
  shows "unat (ucast (v div ucast d) :: u64) = unat v div unat d" "unat (ucast (v mod ucast d) :: u64) = unat v mod unat d"
proof -
  have "unat v div unat d < 2 ^ 64" using assms by (simp add: less_mult_imp_div_less mult.commute)
  then show "unat (ucast (v div ucast d) :: u64) = unat v div unat d"
    by (simp add: split_128(1) unat_div unat_ucast_128)
  have "0 < unat d" using assms by (cases "unat d") simp_all
  then have "unat v mod unat d < 2 ^ 64" using unat_word_bound [of d] by (meson less_trans mod_less_divisor)
  then show "unat (ucast (v mod ucast d) :: u64) = unat v mod unat d"
    by (simp add: split_128(1) unat_mod unat_ucast_128)
qed

section \<open>Multiplication\<close>

lemma wval_update:
  assumes "k < n" "n \<le> length ws"
  shows "wval (\<lambda>i. ws[k := v] ! i) n + unat (ws ! k) * 2 ^ (64 * k) =
    wval (\<lambda>i. ws ! i) n + unat v * 2 ^ (64 * k)"
  using assms
proof (induction n)
  case (Suc n)
  show ?case
  proof (cases "k = n")
    case True
    have "wval (\<lambda>i. ws[k := v] ! i) n = wval (\<lambda>i. ws ! i) n" using True by (intro wval_cong) simp
    with True Suc.prems show ?thesis by simp
  next
    case False
    with Suc show ?thesis by simp
  qed
qed simp

lemma bn_mul_inner_loop:
  assumes "i + m < length ws" "m \<le> bn_top b" "i < bn_top a"
  shows "case for_range 0 m (bn_mul_inner a b i) (0, ws) of (carry, ws') \<Rightarrow>
    length ws' = length ws \<and> (\<forall>k. i + m \<le> k \<and> k < length ws \<longrightarrow> ws' ! k = ws ! k) \<and>
    wval (\<lambda>k. ws' ! k) (length ws) + unat carry * 2 ^ (64 * (i + m)) =
      wval (\<lambda>k. ws ! k) (length ws) + unat (bn_word a i) * wval (bn_word b) m * 2 ^ (64 * i)"
  using assms
proof (induction m)
  case (Suc m)
  obtain carry ws' where r: "for_range 0 m (bn_mul_inner a b i) (0, ws) = (carry, ws')" by fastforce
  with Suc have IH: "length ws' = length ws" "\<And>k. i + m \<le> k \<Longrightarrow> k < length ws \<Longrightarrow> ws' ! k = ws ! k"
    "wval (\<lambda>k. ws' ! k) (length ws) + unat carry * 2 ^ (64 * (i + m)) =
      wval (\<lambda>k. ws ! k) (length ws) + unat (bn_word a i) * wval (bn_word b) m * 2 ^ (64 * i)" by auto
  define p :: "128 word" where
    "p = ucast (bn_word a i) * ucast (bn_word b m) + ucast (ws' ! (i + m)) + ucast carry"
  have words: "bn_words a ! i = bn_word a i" "bn_words b ! m = bn_word b m"
    using Suc.prems by (simp_all add: bn_word_def)
  have step: "for_range 0 (Suc m) (bn_mul_inner a b i) (0, ws) = (ucast (drop_bit 64 p), ws'[i + m := ucast p])"
    by (simp add: for_range_Suc r Let_def words p_def)
  have prod: "unat (ucast p :: u64) + unat (ucast (drop_bit 64 p) :: u64) * 2 ^ 64 =
      unat (bn_word a i) * unat (bn_word b m) + unat (ws' ! (i + m)) + unat carry"
    unfolding p_def by (rule mul_add_128)
  have upd: "wval (\<lambda>k. ws'[i + m := ucast p] ! k) (length ws) + unat (ws' ! (i + m)) * 2 ^ (64 * (i + m)) =
      wval (\<lambda>k. ws' ! k) (length ws) + unat (ucast p :: u64) * 2 ^ (64 * (i + m))"
    using Suc.prems IH(1) by (intro wval_update) simp_all
  have "(unat (ucast p :: u64) + unat (ucast (drop_bit 64 p) :: u64) * 2 ^ 64) * 2 ^ (64 * (i + m)) =
      (unat (bn_word a i) * unat (bn_word b m) + unat (ws' ! (i + m)) + unat carry) * 2 ^ (64 * (i + m))"
    by (simp only: prod)
  then have "wval (\<lambda>k. ws'[i + m := ucast p] ! k) (length ws) +
      unat (ucast (drop_bit 64 p) :: u64) * 2 ^ (64 * (i + Suc m)) =
      wval (\<lambda>k. ws ! k) (length ws) + unat (bn_word a i) * wval (bn_word b) (Suc m) * 2 ^ (64 * i)"
    using upd IH(3) by (simp add: algebra_simps power_add)
  with step IH(1,2) show ?case by auto
qed simp

lemma bn_mul_outer_loop:
  assumes "n \<le> bn_top a" "bn_top a + bn_top b \<le> length ws" "\<And>k. k < length ws \<Longrightarrow> ws ! k = 0"
  shows "length (for_range 0 n (bn_mul_outer a b) ws) = length ws \<and>
    (\<forall>k. n + bn_top b \<le> k \<and> k < length ws \<longrightarrow> for_range 0 n (bn_mul_outer a b) ws ! k = 0) \<and>
    wval (\<lambda>k. for_range 0 n (bn_mul_outer a b) ws ! k) (length ws) =
      wval (bn_word a) n * wval (bn_word b) (bn_top b)"
  using assms(1)
proof (induction n)
  case 0
  have "wval (\<lambda>k. ws ! k) (length ws) = wval (\<lambda>k. ws ! k) 0" using assms(3) by (intro wval_zeros) simp_all
  then show ?case using assms(3) by simp
next
  case (Suc n)
  let ?ws = "for_range 0 n (bn_mul_outer a b) ws" and ?t = "bn_top b"
  have IH: "length ?ws = length ws" "\<And>k. n + ?t \<le> k \<Longrightarrow> k < length ws \<Longrightarrow> ?ws ! k = 0"
    "wval (\<lambda>k. ?ws ! k) (length ws) = wval (bn_word a) n * wval (bn_word b) ?t" using Suc by auto
  obtain carry ws' where r: "for_range 0 ?t (bn_mul_inner a b n) (0, ?ws) = (carry, ws')" by fastforce
  have n: "n + ?t < length ws" using Suc.prems assms(2) by simp
  with bn_mul_inner_loop [of n ?t ?ws b a] r IH(1) Suc.prems
  have in': "length ws' = length ws" "\<And>k. n + ?t \<le> k \<Longrightarrow> k < length ws \<Longrightarrow> ws' ! k = ?ws ! k"
    "wval (\<lambda>k. ws' ! k) (length ws) + unat carry * 2 ^ (64 * (n + ?t)) =
      wval (\<lambda>k. ?ws ! k) (length ws) + unat (bn_word a n) * wval (bn_word b) ?t * 2 ^ (64 * n)" by auto
  have zero: "ws' ! (n + ?t) = 0" using in'(2) IH(2) n by simp
  have step: "for_range 0 (Suc n) (bn_mul_outer a b) ws = ws'[n + ?t := carry]"
    by (simp add: for_range_Suc bn_mul_outer_def r zero)
  have "wval (\<lambda>k. ws'[n + ?t := carry] ! k) (length ws) =
      wval (\<lambda>k. ws' ! k) (length ws) + unat carry * 2 ^ (64 * (n + ?t))"
    using wval_update [of "n + ?t" "length ws" ws' carry] n in'(1) zero by simp
  also have "\<dots> = wval (bn_word a) (Suc n) * wval (bn_word b) ?t"
    using in'(3) IH(3) by (simp add: algebra_simps)
  finally show ?case using step in'(1,2) IH(2) n by auto
qed

lemma bn_mul_ok:
  assumes "mem_ok mem" "bn_wf a" "bn_wf b"
  obtains r where "bn_mul mem result a b = (ERR_OK, r)" "bn_wf r" "bn_val r = bn_val a * bn_val b"
proof -
  obtain fresh where f: "bn_alloc mem = Some fresh" using bn_alloc_ok [OF assms(1)] by blast
  obtain d where d: "bn_ensure mem fresh (bn_top a + bn_top b) = (ERR_OK, d)" "bn_top a + bn_top b \<le> bn_size d"
    using bn_ensure_ok [OF assms(1), of fresh "bn_top a + bn_top b"] by metis
  let ?z = "replicate (bn_size d) 0 :: u64 list"
  let ?ws = "for_range 0 (bn_top a) (bn_mul_outer a b) ?z"
  have ws: "length ?ws = bn_size d" "wval (\<lambda>k. ?ws ! k) (bn_size d) = bn_val a * bn_val b"
    using bn_mul_outer_loop [of "bn_top a" a b ?z] d(2) by (simp_all add: bn_val_def)
  let ?res = "bn_fix_top (d\<lparr>bn_words := ?ws\<rparr>)"
  have "bn_val ?res = bn_val a * bn_val b" using ws by (simp add: bn_fix_top_val)
  moreover obtain r where "bn_copy_to mem result ?res = (ERR_OK, r)" "bn_wf r" "bn_val r = bn_val ?res"
    using bn_copy_to_ok [OF assms(1), of ?res result] by auto
  moreover have "bn_mul mem result a b = (ERR_OK, snd (bn_copy_to mem result ?res))"
    using f d(1) by (simp add: bn_mul_def bn_clear_def Let_def)
  ultimately show ?thesis using that by simp
qed

section \<open>Division by one word\<close>

lemma bn_div_word_loop:
  assumes "divisor \<noteq> 0" "rem < divisor" "i \<le> length q" "i \<le> bn_top a"
  shows "case bn_div_word a divisor i rem q of (rem', q') \<Rightarrow>
    length q' = length q \<and> rem' < divisor \<and> (\<forall>k. i \<le> k \<and> k < length q \<longrightarrow> q' ! k = q ! k) \<and>
    wval (\<lambda>k. q' ! k) i * unat divisor + unat rem' = unat rem * 2 ^ (64 * i) + wval (bn_word a) i"
  using assms(2-)
proof (induction i arbitrary: rem q)
  case (Suc i)
  define v :: "128 word" where "v = push_bit 64 (ucast rem) OR ucast (bn_words a ! i)"
  let ?d = "unat divisor" and ?r = "unat rem" and ?w = "unat (bn_words a ! i)"
  have v: "unat v = ?r * 2 ^ 64 + ?w" unfolding v_def by (rule join_128)
  have dpos: "0 < ?d" using assms(1) by (simp add: unat_gt_0)
  have rd: "?r < ?d" using Suc.prems(1) by (simp add: word_less_nat_alt)
  let ?q = "ucast (v div ucast divisor) :: u64" and ?rem = "ucast (v mod ucast divisor) :: u64"
  have "(?r + 1) * 2 ^ 64 \<le> ?d * 2 ^ 64" using rd by (intro mult_right_mono) simp_all
  then have "unat v < ?d * 2 ^ 64" using v unat_word_bound [of "bn_words a ! i"] by simp
  then have q: "unat ?q = unat v div ?d" and rem: "unat ?rem = unat v mod ?d" by (rule div_128)+
  have lt: "?rem < divisor" using rem dpos by (simp add: word_less_nat_alt)
  obtain rem' q' where r: "bn_div_word a divisor i ?rem (q[i := ?q]) = (rem', q')" by fastforce
  with Suc.IH [OF lt, of "q[i := ?q]"] Suc.prems
  have IH: "length q' = length q" "rem' < divisor" "\<And>k. i \<le> k \<Longrightarrow> k < length q \<Longrightarrow> q' ! k = q[i := ?q] ! k"
    "wval (\<lambda>k. q' ! k) i * ?d + unat rem' = unat ?rem * 2 ^ (64 * i) + wval (bn_word a) i" by auto
  have "q' ! i = ?q" using IH(3) [of i] Suc.prems by simp
  moreover have "unat ?q * ?d + unat ?rem = unat v" unfolding q rem by (rule div_mult_mod_eq)
  ultimately have "wval (\<lambda>k. q' ! k) (Suc i) * ?d + unat rem' = unat v * 2 ^ (64 * i) + wval (bn_word a) i"
    using IH(4) by (simp add: algebra_simps flip: \<open>unat ?q * ?d + unat ?rem = unat v\<close>)
  also have "\<dots> = ?r * 2 ^ (64 * Suc i) + wval (bn_word a) (Suc i)"
    using Suc.prems by (simp add: v bn_word_def algebra_simps power_add)
  finally show ?case using r IH(1-3) by (simp add: v_def Let_def)
qed simp

lemma bn_val_one_word: "bn_top b = 1 \<Longrightarrow> bn_val b = unat (bn_words b ! 0)"
  by (simp add: bn_val_def bn_word_def)

lemma bn_div_one_word:
  assumes "mem_ok mem" "bn_wf a" "bn_wf b" "bn_top b = 1" "bn_val b \<le> bn_val a"
  obtains q' r' where "bn_div mem (Some q) (Some r) a b = Some (ERR_OK, Some q', Some r')" "bn_wf q'" "bn_wf r'"
    "bn_val q' = bn_val a div bn_val b" "bn_val r' = bn_val a mod bn_val b"
proof -
  let ?d = "bn_words b ! 0" and ?n = "bn_top a"
  have d0: "?d \<noteq> 0" using assms(3,4) by (simp add: bn_wf_def)
  have cmp: "\<not> bn_cmp a b < 0" using assms(5) by (simp add: bn_cmp_val [OF assms(2,3)] sgn_if)
  obtain fresh where f: "bn_alloc mem = Some fresh" "bn_words fresh = replicate 32 0"
    using bn_alloc_ok [OF assms(1)] by blast
  obtain e where e: "bn_ensure mem fresh ?n = (ERR_OK, e)" "?n \<le> bn_size e"
    "\<And>i. i < bn_size fresh \<Longrightarrow> bn_words e ! i = bn_words fresh ! i"
    "\<And>i. bn_size fresh \<le> i \<Longrightarrow> i < bn_size e \<Longrightarrow> bn_words e ! i = 0"
    using bn_ensure_ok [OF assms(1), of fresh ?n] by metis
  have e0: "bn_words e ! i = 0" if "i < bn_size e" for i
    using that e(3,4) f(2) by (cases "i < bn_size fresh") simp_all
  obtain rem ws where w: "bn_div_word a ?d ?n 0 (bn_words e) = (rem, ws)" by fastforce
  have "0 < ?d" using d0 by (simp add: word_less_nat_alt unat_gt_0)
  from bn_div_word_loop [OF d0 this e(2), of a] w
  have l: "length ws = bn_size e" "rem < ?d" "\<And>k. ?n \<le> k \<Longrightarrow> k < bn_size e \<Longrightarrow> ws ! k = bn_words e ! k"
    "wval (\<lambda>k. ws ! k) ?n * unat ?d + unat rem = bn_val a" by (auto simp: bn_val_def)
  let ?q = "bn_fix_top (e\<lparr>bn_words := ws\<rparr>)"
  have "wval (\<lambda>k. ws ! k) (length ws) = wval (\<lambda>k. ws ! k) ?n"
    using l(1,3) e(2) e0 by (intro wval_zeros) simp_all
  then have a: "bn_val a = bn_val ?q * unat ?d + unat rem" and rd: "unat rem < unat ?d"
    using l(2,4) by (simp_all add: bn_fix_top_val word_less_nat_alt)
  have val: "bn_val ?q = bn_val a div bn_val b" "unat rem = bn_val a mod bn_val b"
    unfolding a bn_val_one_word [OF assms(4)] using rd by simp_all
  obtain q' where q': "bn_copy_to mem q ?q = (ERR_OK, q')" "bn_wf q'" "bn_val q' = bn_val ?q"
    using bn_copy_to_ok [OF assms(1), of ?q q] by auto
  obtain r' where r': "bn_set_int mem r rem = (ERR_OK, r')" "bn_wf r'" "bn_val r' = unat rem"
    using bn_set_int_ok [OF assms(1), of r rem] by metis
  have "bn_div mem (Some q) (Some r) a b = Some (ERR_OK, Some q', Some r')"
    using assms(4) cmp f(1) e(1) w q'(1) r'(1) by (simp add: bn_div_def Let_def bn_from_int_def)
  with that q' r' val show ?thesis by simp
qed

lemma bn_div_smaller:
  assumes "mem_ok mem" "bn_wf a" "bn_wf b" "bn_val a < bn_val b"
  obtains q' r' where "bn_div mem (Some q) (Some r) a b = Some (ERR_OK, Some q', Some r')" "bn_wf q'" "bn_wf r'"
    "bn_val q' = 0" "bn_val r' = bn_val a"
proof -
  have cmp: "bn_cmp a b < 0" using assms(4) by (simp add: bn_cmp_val [OF assms(2,3)] sgn_if)
  have top: "bn_top b \<noteq> 0" using bn_val_0 [OF assms(3)] assms(4) by auto
  obtain q' where q': "bn_set_int mem q 0 = (ERR_OK, q')" "bn_wf q'" "bn_val q' = unat (0 :: u64)"
    using bn_set_int_ok [OF assms(1), of q 0] by metis
  obtain r' where r': "bn_copy_to mem r a = (ERR_OK, r')" "bn_wf r'" "bn_val r' = bn_val a"
    using bn_copy_to_ok [OF assms(1,2), of r] by metis
  have "bn_div mem (Some q) (Some r) a b = Some (ERR_OK, Some q', Some r')"
    using cmp top q'(1) r'(1) by (simp add: bn_div_def bn_from_int_def bn_copy_def)
  with that q' r' show ?thesis by simp
qed

section \<open>Division by more than one word\<close>

text \<open>The remainder of the bitwise loop starts at 0 with \<^verbatim>\<open>top\<close> 0; shifting it keeps \<^verbatim>\<open>top\<close> 0.\<close>

lemma bn_lshift_zero:
  assumes "mem_ok mem" "bn_top r = 0"
  shows "bn_top (snd (bn_lshift mem r r 1)) = 0"
proof -
  obtain fresh where f: "bn_alloc mem = Some fresh" "bn_words fresh = replicate 32 0"
    using bn_alloc_ok [OF assms(1)] by blast
  have "bn_ensure mem fresh 1 = (ERR_OK, fresh)" using f(2) by (simp add: bn_ensure_def)
  moreover have "fix_top_from (replicate n 0) m = 0" if "m \<le> n" for n m
    using that by (induction m) simp_all
  moreover have "(replicate 32 0)[0 := 0 :: u64] = replicate 32 0" by (simp add: list_update_same_conv)
  ultimately show ?thesis
    using assms(2) f
    by (simp add: bn_lshift_def Let_def bn_clear_def bn_fix_top_def bn_copy_to_def bn_ensure_def)
qed

lemma bn_div_bit_lost:
  assumes "mem_ok mem" "2 \<le> bn_top b" "bn_top r = 0"
  shows "\<exists>r'. bn_div_bit mem a b i (q, r) = (q, r') \<and> bn_top r' = 0"
proof -
  let ?r = "snd (bn_lshift mem r r 1)"
  let ?r' = "if bit (bn_words a ! (i div 64)) (i mod 64)
     then ?r\<lparr>bn_words := (bn_words ?r)[0 := bn_words ?r ! 0 OR 1]\<rparr> else ?r"
  have top: "bn_top ?r' = 0" using bn_lshift_zero [OF assms(1,3)] by simp
  then have "\<not> bn_cmp ?r' b \<ge> 0" using assms(2) unfolding bn_cmp_def by simp
  then have "bn_div_bit mem a b i (q, r) = (q, ?r')" unfolding bn_div_bit_def by (simp only: Let_def case_prod_conv if_False)
  with top show ?thesis by blast
qed

lemma bn_div_bits_lost:
  assumes "mem_ok mem" "2 \<le> bn_top b" "bn_top r = 0"
  shows "\<exists>r'. bn_div_bits mem a b n (q, r) = (q, r') \<and> bn_top r' = 0"
  using assms(3)
proof (induction n arbitrary: r)
  case (Suc n)
  then show ?case using bn_div_bit_lost [OF assms(1,2) Suc.prems, of a n q] by auto
qed simp

lemma bn_copy_zero:
  assumes "bn_top src = 0"
  shows "bn_val (the (snd (bn_copy mem (Some dest) (Some src)))) = 0"
  using assms by (simp add: bn_copy_def bn_copy_to_def bn_ensure_def Let_def bn_val_def)

lemma bn_div_long:
  assumes "mem_ok mem" "bn_wf a" "bn_wf b" "2 \<le> bn_top b" "bn_val b \<le> bn_val a"
  shows "\<exists>q' r'. bn_div mem (Some q) (Some r) a b = Some (ERR_OK, Some q', Some r') \<and> bn_val q' = 0 \<and> bn_val r' = 0"
proof -
  have cmp: "\<not> bn_cmp a b < 0" using assms(5) by (simp add: bn_cmp_val [OF assms(2,3)] sgn_if)
  obtain fresh where f: "bn_alloc mem = Some fresh" using bn_alloc_ok [OF assms(1)] by blast
  obtain z where z: "bn_set_int mem fresh 0 = (ERR_OK, z)" "bn_top z = 0"
    using bn_set_int_ok [OF assms(1), of fresh 0] by (metis (full_types))
  obtain s where s: "bn_div_bits mem a b (bn_bit_count a) (z, z) = (z, s)" "bn_top s = 0"
    using bn_div_bits_lost [OF assms(1,4) z(2)] by blast
  have "\<exists>d'. snd (bn_copy mem (Some d) (Some x)) = Some d'" for d x by (simp add: bn_copy_def split: prod.splits)
  then obtain q' r' where
    c: "snd (bn_copy mem (Some q) (Some z)) = Some q'" "snd (bn_copy mem (Some r) (Some s)) = Some r'" by metis
  then have "bn_val q' = 0" "bn_val r' = 0" using bn_copy_zero [OF z(2), of mem q] bn_copy_zero [OF s(2), of mem r] by simp_all
  moreover have "bn_div mem (Some q) (Some r) a b = Some (ERR_OK, Some q', Some r')"
    using assms(4) cmp f z(1) s(1) c by (simp add: bn_div_def Let_def)
  ultimately show ?thesis by blast
qed

section \<open>Properties\<close>

text \<open>
  C19: the arithmetic is exact. On numbers in normal form, with memory available, \<^verbatim>\<open>bn_cmp\<close> compares the
  values, \<^verbatim>\<open>bn_mul\<close> multiplies them, \<^verbatim>\<open>bn_sub\<close> subtracts them (and refuses a negative result without
  touching it) and \<^verbatim>\<open>bn_add\<close> adds them when the result holds no words above the sum; every result is
  again in normal form. Carries, borrows and 128-bit products never lose a bit.
\<close>

theorem bn_arithmetic:
  assumes "\<forall>n. mem n" "bn_wf a" "bn_wf b"
  shows "bn_cmp a b = sgn (int (bn_val a) - int (bn_val b)) \<and>
    (\<exists>r. bn_mul mem result a b = (ERR_OK, r) \<and> bn_wf r \<and> bn_val r = bn_val a * bn_val b) \<and>
    (bn_val b \<le> bn_val a \<longrightarrow>
      (\<exists>r. bn_sub mem result a b = (ERR_OK, r) \<and> bn_wf r \<and> bn_val r = bn_val a - bn_val b)) \<and>
    (bn_val a < bn_val b \<longrightarrow> bn_sub mem result a b = (ERR_INVALID_ARG, result)) \<and>
    ((\<forall>i. max (bn_top a) (bn_top b) < i \<and> i < bn_size result \<longrightarrow> bn_words result ! i = 0) \<longrightarrow>
      (\<exists>r. bn_add mem result a b = (ERR_OK, r) \<and> bn_wf r \<and> bn_val r = bn_val a + bn_val b))"
proof (intro conjI impI)
  show "bn_cmp a b = sgn (int (bn_val a) - int (bn_val b))" by (rule bn_cmp_val [OF assms(2,3)])
  show "\<exists>r. bn_mul mem result a b = (ERR_OK, r) \<and> bn_wf r \<and> bn_val r = bn_val a * bn_val b"
    using bn_mul_ok [OF assms, of result] by metis
  show "\<exists>r. bn_sub mem result a b = (ERR_OK, r) \<and> bn_wf r \<and> bn_val r = bn_val a - bn_val b"
    if "bn_val b \<le> bn_val a" using bn_sub_ok [OF assms that, of result] by metis
  show "bn_sub mem result a b = (ERR_INVALID_ARG, result)" if "bn_val a < bn_val b"
    using that by (simp add: bn_sub_def bn_cmp_val [OF assms(2,3)] sgn_if)
  show "\<exists>r. bn_add mem result a b = (ERR_OK, r) \<and> bn_wf r \<and> bn_val r = bn_val a + bn_val b"
    if "\<forall>i. max (bn_top a) (bn_top b) < i \<and> i < bn_size result \<longrightarrow> bn_words result ! i = 0"
    using bn_add_ok [OF assms, of result] that by metis
qed

definition bn_small :: "u64 \<Rightarrow> bn_t" where
  "bn_small v = \<lparr>bn_words = [v, 0], bn_top = 1, bn_sign = 1\<rparr>"

lemma bn_small_wf: "v \<noteq> 0 \<Longrightarrow> bn_wf (bn_small v)" "bn_val (bn_small v) = unat v"
  by (auto simp: bn_small_def bn_wf_def bn_val_def bn_word_def less_Suc_eq nth_Cons split: nat.splits)

theorem bn_arithmetic_witness:
  "\<exists>r. bn_mul (\<lambda>_. True) (bn_small 9) (bn_small (- 1)) (bn_small (- 1)) = (ERR_OK, r) \<and>
    bn_val r = (2 ^ 64 - 1) * (2 ^ 64 - 1)"
proof -
  have "(\<forall>n :: nat. (\<lambda>_. True) n)" "bn_wf (bn_small (- 1))" by (simp_all add: bn_small_wf)
  from bn_arithmetic [OF this(1,2,2), of "bn_small 9"] show ?thesis
    by (auto simp: bn_small_wf unat_max64)
qed

text \<open>
  \<^verbatim>\<open>bn_add\<close> takes \<^verbatim>\<open>top\<close> from the whole array of the result but writes only the words of the sum: a number
  that was longer leaves its high words in the result.
\<close>

lemma bn_add_stale:
  "bn_add (\<lambda>_. True) \<lparr>bn_words = [5, 0, 7], bn_top = 3, bn_sign = 1\<rparr> (bn_small 1) (bn_small 1) =
    (ERR_OK, \<lparr>bn_words = [2, 0, 7], bn_top = 3, bn_sign = 1\<rparr>)"
proof -
  have "[0..<2] = [0, 1 :: nat]" by (simp add: upt_rec)
  then show ?thesis
    by (simp add: bn_add_def bn_small_def bn_ensure_def for_range_fold bn_word_def Let_def bn_fix_top_def)
qed

text \<open>
  division. When the divisor has one word or is larger than the dividend, \<^verbatim>\<open>bn_div\<close> gives the
  quotient and the remainder; division by zero is refused.
\<close>

theorem bn_div_correct:
  assumes "\<forall>n. mem n" "bn_wf a" "bn_wf b" "bn_top b \<le> 1 \<or> bn_val a < bn_val b"
  shows "(bn_val b = 0 \<longrightarrow> bn_div mem (Some q) (Some r) a b = Some (ERR_INVALID_ARG, Some q, Some r)) \<and>
    (bn_val b \<noteq> 0 \<longrightarrow> (\<exists>q' r'. bn_div mem (Some q) (Some r) a b = Some (ERR_OK, Some q', Some r') \<and>
      bn_wf q' \<and> bn_wf r' \<and> bn_val q' = bn_val a div bn_val b \<and> bn_val r' = bn_val a mod bn_val b))"
proof (intro conjI impI)
  show "bn_div mem (Some q) (Some r) a b = Some (ERR_INVALID_ARG, Some q, Some r)" if "bn_val b = 0"
    using that by (simp add: bn_val_0 [OF assms(3)] bn_div_def)
  assume "bn_val b \<noteq> 0"
  then have top: "bn_top b \<noteq> 0" by (simp add: bn_val_0 [OF assms(3)])
  show "\<exists>q' r'. bn_div mem (Some q) (Some r) a b = Some (ERR_OK, Some q', Some r') \<and>
      bn_wf q' \<and> bn_wf r' \<and> bn_val q' = bn_val a div bn_val b \<and> bn_val r' = bn_val a mod bn_val b"
  proof (cases "bn_val a < bn_val b")
    case True
    then show ?thesis using bn_div_smaller [OF assms(1-3) True, of q r] by (metis div_less mod_less)
  next
    case False
    then have "bn_top b = 1" "bn_val b \<le> bn_val a" using assms(4) top by auto
    then show ?thesis using bn_div_one_word [OF assms(1-3), of q r] by metis
  qed
qed

theorem bn_div_correct_witness:
  "\<exists>q' r'. bn_div (\<lambda>_. True) (Some (bn_small 1)) (Some (bn_small 1)) (bn_small 17) (bn_small 5) =
      Some (ERR_OK, Some q', Some r') \<and> bn_val q' = 3 \<and> bn_val r' = 2"
proof -
  have "(\<forall>n :: nat. (\<lambda>_. True) n)" "bn_wf (bn_small 17)" "bn_wf (bn_small 5)" by (simp_all add: bn_small_wf)
  moreover have "bn_top (bn_small 5) \<le> 1" by (simp add: bn_small_def)
  ultimately show ?thesis
    using bn_div_correct [of "\<lambda>_. True" "bn_small 17" "bn_small 5" "bn_small 1" "bn_small 1"]
    by (auto simp: bn_small_wf)
qed

text \<open>
  division by a number of two or more words loses everything. The bitwise loop sets bit 0 of a
  remainder whose \<^verbatim>\<open>top\<close> is 0 without raising \<^verbatim>\<open>top\<close>, so the next shift drops the bit: for every
  dividend that is not smaller than the divisor the quotient and the remainder are 0.
\<close>

theorem bn_div_lost:
  assumes "\<forall>n. mem n" "bn_wf a" "bn_wf b" "2 \<le> bn_top b" "bn_val b \<le> bn_val a"
  shows "\<exists>q' r'. bn_div mem (Some q) (Some r) a b = Some (ERR_OK, Some q', Some r') \<and> bn_val q' = 0 \<and> bn_val r' = 0"
  by (rule bn_div_long [OF assms])

definition bn_long :: bn_t where
  "bn_long = \<lparr>bn_words = [0, 1], bn_top = 2, bn_sign = 1\<rparr>"

theorem bn_div_lost_witness:
  "\<exists>q' r'. bn_div (\<lambda>_. True) (Some bn_long) (Some bn_long) bn_long bn_long = Some (ERR_OK, Some q', Some r') \<and>
    bn_val q' = 0 \<and> bn_val bn_long div bn_val bn_long = 1"
proof -
  have "bn_wf bn_long" "2 \<le> bn_top bn_long" by (auto simp: bn_long_def bn_wf_def)
  moreover have "bn_val bn_long = 2 ^ 64" by (simp add: bn_long_def bn_val_def bn_word_def numeral_2_eq_2)
  ultimately show ?thesis
    using bn_div_lost [of "\<lambda>_. True" bn_long bn_long bn_long bn_long] by auto
qed

end
