(* ===== verification/Bn_Bytes.thy ===== *)
theory Bn_Bytes
  imports Bn_Props
begin

text \<open>
  The import and export of big-endian byte strings, bit by bit: byte \<open>p\<close> counted from the end of a
  string of length \<open>len\<close> is the bits \<open>8 p, ..., 8 p + 7\<close> of the number.
\<close>

lemma byte_bits:
  fixes b :: u8
  assumes "p < 8"
  shows "bit (push_bit (p * 8) (ucast b :: u64)) n \<longleftrightarrow> n div 8 = p \<and> bit b (n mod 8)"
proof -
  have "bit (push_bit (p * 8) (ucast b :: u64)) n \<longleftrightarrow> p * 8 \<le> n \<and> n < 64 \<and> bit b (n - p * 8)"
    by (auto simp: bit_simps dest: bit_imp_le_length)
  also have "\<dots> \<longleftrightarrow> n div 8 = p \<and> bit b (n mod 8)"
  proof
    assume "p * 8 \<le> n \<and> n < 64 \<and> bit b (n - p * 8)"
    moreover from this have "n - p * 8 < 8" using bit_imp_le_length [of b "n - p * 8"] by simp
    ultimately obtain m where "n = p * 8 + m" "m < 8" by (metis le_add_diff_inverse)
    then have "n div 8 = p" "n mod 8 = n - p * 8" by simp_all
    with \<open>p * 8 \<le> n \<and> n < 64 \<and> bit b (n - p * 8)\<close> show "n div 8 = p \<and> bit b (n mod 8)" by simp
  next
    assume "n div 8 = p \<and> bit b (n mod 8)"
    moreover from this have "n mod 8 = n - p * 8" "p * 8 \<le> n" by (auto simp: modulo_nat_def minus_mult_div_eq_mod)
    ultimately show "p * 8 \<le> n \<and> n < 64 \<and> bit b (n - p * 8)" using assms by auto
  qed
  finally show ?thesis .
qed

lemma bn_put_bytes:
  assumes "k \<le> len" "(len + 7) div 8 \<le> length ws" "\<And>i. i < length ws \<Longrightarrow> ws ! i = 0"
  shows "length (for_range 0 k (bn_put_byte buf len) ws) = length ws \<and>
    (\<forall>w n. w < length ws \<longrightarrow> bit (for_range 0 k (bn_put_byte buf len) ws ! w) n =
      (n < 64 \<and> len - k \<le> w * 8 + n div 8 \<and> w * 8 + n div 8 < len \<and> bit (buf ! (len - 1 - (w * 8 + n div 8))) (n mod 8)))"
  using assms(1)
proof (induction k)
  case 0
  then show ?case using assms(3) by simp
next
  case (Suc k)
  let ?ws = "for_range 0 k (bn_put_byte buf len) ws" and ?p = "len - 1 - k"
  have p: "?p < len" "len - 1 - ?p = k" "len - k = Suc ?p" "len - Suc k = ?p" using Suc.prems by auto
  have idx: "?p div 8 < length ws"
  proof -
    have "?p div 8 < (len + 7) div 8" using p(1) by (auto simp: div_less_iff_less_mult less_eq_div_iff_mult_less_eq)
    then show ?thesis using assms(2) by simp
  qed
  have len: "length ?ws = length ws" using Suc by simp
  have step: "for_range 0 (Suc k) (bn_put_byte buf len) ws =
      ?ws[?p div 8 := ?ws ! (?p div 8) OR push_bit (?p mod 8 * 8) (ucast (buf ! k))]"
    by (simp add: for_range_Suc bn_put_byte_def Let_def)
  show ?case
  proof (intro conjI allI impI)
    show "length (for_range 0 (Suc k) (bn_put_byte buf len) ws) = length ws" by (simp add: step len)
    fix w n
    assume w: "w < length ws"
    let ?q = "w * 8 + n div 8"
    have old: "bit (?ws ! w) n = (n < 64 \<and> Suc ?p \<le> ?q \<and> ?q < len \<and> bit (buf ! (len - 1 - ?q)) (n mod 8))"
      using Suc w by (simp add: p(3))
    have new: "bit (push_bit (?p mod 8 * 8) (ucast (buf ! k) :: u64)) n \<longleftrightarrow> n div 8 = ?p mod 8 \<and> bit (buf ! k) (n mod 8)"
      by (rule byte_bits) simp
    show "bit (for_range 0 (Suc k) (bn_put_byte buf len) ws ! w) n =
      (n < 64 \<and> len - Suc k \<le> ?q \<and> ?q < len \<and> bit (buf ! (len - 1 - ?q)) (n mod 8))"
    proof (cases "?q = ?p \<and> n < 64")
      case True
      then have q: "?q = ?p" and n: "n < 64" "n div 8 < 8" by (simp_all add: div_less_iff_less_mult)
      have "?q div 8 = w" "?q mod 8 = n div 8" using n(2) by simp_all
      then have pw: "?p div 8 = w" "?p mod 8 = n div 8" unfolding q by blast+
      have "bit (for_range 0 (Suc k) (bn_put_byte buf len) ws ! w) n = (bit (?ws ! w) n \<or> bit (buf ! k) (n mod 8))"
        using w len new unfolding step pw by (simp add: bit_or_iff)
      then show ?thesis unfolding old q p(2,4) using p(1) n(1) by simp
    next
      case False
      have "\<not> (w = ?p div 8 \<and> n div 8 = ?p mod 8)"
      proof
        assume "w = ?p div 8 \<and> n div 8 = ?p mod 8"
        then have "?q = ?p" "n div 8 < 8" by simp_all
        with False show False by (simp add: div_less_iff_less_mult)
      qed
      note apart = this
      have "bit (?ws[?p div 8 := ?ws ! (?p div 8) OR push_bit (?p mod 8 * 8) (ucast (buf ! k))] ! w) n = bit (?ws ! w) n"
      proof (cases "?p div 8 = w")
        case True
        then have "\<not> bit (push_bit (?p mod 8 * 8) (ucast (buf ! k) :: u64)) n" using apart new by blast
        then show ?thesis unfolding True using w len by (simp only: nth_list_update_eq bit_or_iff) simp
      next
        case False
        then show ?thesis by (simp only: nth_list_update_neq not_False_eq_True)
      qed
      then show ?thesis using False old unfolding step p(4) by auto
    qed
  qed
qed

lemma count_bits_bound: "bits \<le> count_bits w bits \<and> (bit w n \<longrightarrow> bits + n < count_bits w bits)"
proof (induction w bits arbitrary: n rule: count_bits.induct)
  case (1 w bits)
  show ?case
  proof (cases "w = 0")
    case True
    then show ?thesis by (simp add: count_bits.simps)
  next
    case False
    then have c: "count_bits w bits = count_bits (drop_bit 1 w) (bits + 1)" by (subst count_bits.simps) simp
    have "bits + n < count_bits (drop_bit 1 w) (bits + 1)" if "bit w n"
    proof (cases n)
      case 0
      then show ?thesis using "1.IH" [OF False, of 0] by simp
    next
      case (Suc m)
      then show ?thesis using "1.IH" [OF False, of m] that by (simp add: bit_drop_bit_eq)
    qed
    then show ?thesis using c "1.IH" [OF False, of 0] by simp
  qed
qed

lemma bn_bit_count_bound:
  assumes "bn_wf a" "w < bn_size a" "bit (bn_words a ! w) n"
  shows "w * 64 + n < bn_bit_count a"
proof -
  have "bn_words a ! w \<noteq> 0" using assms(3) by auto
  then have w: "w < bn_top a" using assms(1,2) by (auto simp: bn_wf_def not_less)
  have n: "n < 64" using bit_imp_le_length [OF assms(3)] by simp
  let ?c = "count_bits (bn_words a ! (bn_top a - 1)) ((bn_top a - 1) * 64)"
  have "w * 64 + n < ?c"
  proof (cases "w = bn_top a - 1")
    case True
    then show ?thesis using count_bits_bound [of "w * 64" "bn_words a ! w" n] assms(3) by simp
  next
    case False
    then have "w + 1 \<le> bn_top a - 1" using w by simp
    then have "(w + 1) * 64 \<le> (bn_top a - 1) * 64" by (rule mult_right_mono) simp
    also have "\<dots> \<le> ?c" using count_bits_bound by blast
    finally have "(w + 1) * 64 \<le> ?c" .
    moreover have "w * 64 + n < (w + 1) * 64" using n by simp
    ultimately show ?thesis by (rule less_le_trans [rotated])
  qed
  with w show ?thesis by (simp add: bn_bit_count_def)
qed

lemma ucast_and_255: "(ucast (x AND 0xFF) :: u8) = ucast x" for x :: u64
proof (rule bit_word_eqI)
  fix n
  assume "n < LENGTH(8)"
  then have n: "n < 8" by simp
  have "(0xFF :: u64) = mask 8" by (simp add: mask_eq_exp_minus_1)
  then have "bit (0xFF :: u64) n" using n by (simp only: bit_mask_iff) simp
  with n show "bit (ucast (x AND 0xFF) :: u8) n \<longleftrightarrow> bit (ucast x :: u8) n"
    unfolding bit_ucast_iff bit_and_iff by simp
qed

lemma for_range_write_down:
  assumes "m \<le> len" "len \<le> length xs"
  shows "length (for_range 0 m (\<lambda>i p. p[len - 1 - i := g i]) xs) = length xs \<and>
    (\<forall>j < length xs. for_range 0 m (\<lambda>i p. p[len - 1 - i := g i]) xs ! j =
       (if j < len \<and> len \<le> j + m then g (len - 1 - j) else xs ! j))"
  using assms
proof (induction m)
  case (Suc m)
  have "(len - 1 - m = j) = (j < len \<and> len = j + Suc m)" for j using Suc.prems by auto
  with Suc show ?case by (auto simp: for_range_Suc nth_list_update)
qed auto

section \<open>Properties\<close>



end
