(* ===== verification/Bn_Alg.thy ===== *)
theory Bn_Alg
  imports Bn_Mul Bn_Bytes
begin

text \<open>
  The algorithms of \<^verbatim>\<open>bn.c\<close> built on division: greatest common divisor, modular exponentiation and
  modular inverse. The loops whose end depends on the values are partial functions; \<open>None\<close> is a loop
  that does not end or a failed allocation that the code does not test.
\<close>

section \<open>Model\<close>

partial_function (option) bn_gcd_loop ::
  "(nat \<Rightarrow> bool) \<Rightarrow> bn_t \<Rightarrow> bn_t \<Rightarrow> bn_t \<Rightarrow> bn_t option" where
  "bn_gcd_loop mem t1 t2 temp =
     (if bn_top t2 > 0 then
        Option.bind (bn_mod mem temp t1 t2) (\<lambda>(err, temp).
          bn_gcd_loop mem (snd (bn_copy_to mem t1 t2)) (snd (bn_copy_to mem t2 temp)) temp)
      else Some t1)"

definition bn_gcd :: "(nat \<Rightarrow> bool) \<Rightarrow> bn_t \<Rightarrow> bn_t \<Rightarrow> bn_t \<Rightarrow> (error_code_t \<times> bn_t) option" where
  "bn_gcd mem result a b =
     Option.bind (bn_alloc mem) (\<lambda>fresh.
       Option.bind (bn_gcd_loop mem (snd (bn_copy_to mem fresh a)) (snd (bn_copy_to mem fresh b)) fresh) (\<lambda>t1.
         Some (ERR_OK, snd (bn_copy_to mem result t1))))"

text \<open>\<^verbatim>\<open>bn_mul(x, x, y); bn_mod(x, x, mod);\<close>\<close>

definition bn_mul_mod :: "(nat \<Rightarrow> bool) \<Rightarrow> bn_t \<Rightarrow> bn_t \<Rightarrow> bn_t \<Rightarrow> bn_t option" where
  "bn_mul_mod mem x y m =
     (let x = snd (bn_mul mem x x y) in map_option snd (bn_mod mem x x m))"

definition bn_mod_exp_round ::
  "(nat \<Rightarrow> bool) \<Rightarrow> bn_t \<Rightarrow> bn_t \<Rightarrow> nat \<Rightarrow> (bn_t \<times> bn_t) option \<Rightarrow> (bn_t \<times> bn_t) option" where
  "bn_mod_exp_round mem e m i s =
     Option.bind s (\<lambda>(r, b).
       Option.bind (if bit (bn_words e ! (i div 64)) (i mod 64) then bn_mul_mod mem r b m else Some r) (\<lambda>r.
         Option.bind (bn_mul_mod mem b b m) (\<lambda>b. Some (r, b))))"

definition bn_mod_exp :: "(nat \<Rightarrow> bool) \<Rightarrow> bn_t \<Rightarrow> bn_t \<Rightarrow> bn_t \<Rightarrow> bn_t \<Rightarrow> (error_code_t \<times> bn_t) option" where
  "bn_mod_exp mem result base e m =
     (case bn_alloc mem of
        None \<Rightarrow> if bn_bit_count e = 0 then Some (ERR_OK, result) else None
      | Some fresh \<Rightarrow>
          Option.bind
            (for_range 0 (bn_bit_count e) (bn_mod_exp_round mem e m)
               (Some (snd (bn_set_int mem fresh 1), snd (bn_copy_to mem fresh base)))) (\<lambda>(r, b).
            Some (ERR_OK, snd (bn_copy_to mem result r))))"

text \<open>The variables \<open>t\<close>, \<open>newt\<close>, \<open>r\<close>, \<open>newr\<close>, \<open>q\<close>, \<open>temp\<close>, \<open>term\<close> and \<open>diff\<close> of \<^verbatim>\<open>bn_mod_inv\<close>.\<close>

record inv_state =
  inv_t :: bn_t
  inv_newt :: bn_t
  inv_r :: bn_t
  inv_newr :: bn_t
  inv_q :: bn_t
  inv_temp :: bn_t
  inv_term :: bn_t
  inv_diff :: bn_t

text \<open>One round once the quotient \<open>q\<close> and \<open>term = (q * newt) % m\<close> are known.\<close>

definition bn_mod_inv_round :: "(nat \<Rightarrow> bool) \<Rightarrow> bn_t \<Rightarrow> inv_state \<Rightarrow> inv_state" where
  "bn_mod_inv_round mem m s =
     (let s = s\<lparr>inv_temp := snd (bn_copy_to mem (inv_temp s) (inv_t s))\<rparr>;
          s = s\<lparr>inv_t := snd (bn_copy_to mem (inv_t s) (inv_newt s))\<rparr>;
          s = (if bn_cmp (inv_temp s) (inv_term s) < 0
               then
                 let s = s\<lparr>inv_diff := snd (bn_sub mem (inv_diff s) (inv_term s) (inv_temp s))\<rparr>
                 in s\<lparr>inv_newt := snd (bn_sub mem (inv_newt s) m (inv_diff s))\<rparr>
               else s\<lparr>inv_newt := snd (bn_sub mem (inv_newt s) (inv_temp s) (inv_term s))\<rparr>);
          s = s\<lparr>inv_term := snd (bn_mul mem (inv_term s) (inv_q s) (inv_newr s))\<rparr>;
          s = s\<lparr>inv_diff := snd (bn_sub mem (inv_diff s) (inv_r s) (inv_term s))\<rparr>;
          s = s\<lparr>inv_r := snd (bn_copy_to mem (inv_r s) (inv_newr s))\<rparr>
      in s\<lparr>inv_newr := snd (bn_copy_to mem (inv_newr s) (inv_diff s))\<rparr>)"

partial_function (option) bn_mod_inv_loop :: "(nat \<Rightarrow> bool) \<Rightarrow> bn_t \<Rightarrow> inv_state \<Rightarrow> inv_state option" where
  "bn_mod_inv_loop mem m s =
     (if bn_top (inv_newr s) > 0 then
        Option.bind (bn_div mem (Some (inv_q s)) None (inv_r s) (inv_newr s)) (\<lambda>(err, q, _).
          Option.bind (bn_mod mem (snd (bn_mul mem (inv_term s) (the q) (inv_newt s)))
              (snd (bn_mul mem (inv_term s) (the q) (inv_newt s))) m) (\<lambda>(err, term).
            bn_mod_inv_loop mem m (bn_mod_inv_round mem m (s\<lparr>inv_q := the q, inv_term := term\<rparr>))))
      else Some s)"

definition bn_mod_inv :: "(nat \<Rightarrow> bool) \<Rightarrow> bn_t \<Rightarrow> bn_t \<Rightarrow> bn_t \<Rightarrow> (error_code_t \<times> bn_t) option" where
  "bn_mod_inv mem result a m =
     Option.bind (bn_alloc mem) (\<lambda>fresh.
       Option.bind (bn_mod_inv_loop mem m
         \<lparr>inv_t = snd (bn_set_int mem fresh 0), inv_newt = snd (bn_set_int mem fresh 1),
          inv_r = snd (bn_copy_to mem fresh m), inv_newr = snd (bn_copy_to mem fresh a),
          inv_q = fresh, inv_temp = fresh, inv_term = fresh, inv_diff = fresh\<rparr>) (\<lambda>s.
         if bn_top (inv_r s) > 1 \<or> (bn_top (inv_r s) = 1 \<and> bn_words (inv_r s) ! 0 > 1)
         then Some (ERR_INVALID_ARG, result)
         else Some (ERR_OK, snd (bn_copy_to mem result (inv_t s)))))"

text \<open>\<^verbatim>\<open>bn_rand\<close>; \<open>rnd\<close> is what the random number generator delivers.\<close>

definition bn_rand :: "(nat \<Rightarrow> bool) \<Rightarrow> u8 list \<Rightarrow> bn_t \<Rightarrow> nat \<Rightarrow> error_code_t \<times> bn_t" where
  "bn_rand mem rnd bn bits =
     (let bytes = (bits + 7) div 8 in
      if \<not> mem bytes then (ERR_OUT_OF_MEMORY, bn)
      else
        let buf = take bytes rnd;
            buf = (if bits mod 8 \<noteq> 0 then buf[0 := buf ! 0 AND (push_bit (bits mod 8) 1 - 1)] else buf)
        in (ERR_OK, the (snd (bn_from_bytes mem (Some bn) (Some buf) bytes))))"

section \<open>Reduction modulo one word\<close>

lemma bn_div_word_rem: "fst (bn_div_word a d i rem q) = fst (bn_div_word a d i rem q')"
  by (induction i arbitrary: rem q q') (simp_all add: Let_def)

lemma bn_mod_ok:
  assumes "mem_ok mem" "bn_wf a" "bn_wf m" "bn_top m = 1"
  obtains r where "bn_mod mem x a m = Some (ERR_OK, r)" "bn_wf r" "bn_val r = bn_val a mod bn_val m" "bn_top r \<le> 1"
proof (cases "bn_val a < bn_val m")
  case True
  then have cmp: "bn_cmp a m < 0" by (simp add: bn_cmp_val [OF assms(2,3)] sgn_if)
  obtain r where r: "bn_copy_to mem x a = (ERR_OK, r)" "bn_wf r" "bn_val r = bn_val a" "bn_top r = bn_top a"
    using bn_copy_to_ok [OF assms(1,2), of x] by metis
  have "\<not> bn_top m < bn_top a" using bn_val_less_top [OF assms(2), of m] True by auto
  then have "bn_top r \<le> 1" using r(4) assms(4) by simp
  moreover have "bn_mod mem x a m = Some (ERR_OK, r)"
    using cmp assms(4) r(1) by (simp add: bn_mod_def bn_div_def bn_copy_def)
  ultimately show ?thesis using that r True by simp
next
  case False
  let ?d = "bn_words m ! 0"
  have d0: "?d \<noteq> 0" using assms(3,4) by (simp add: bn_wf_def)
  then have dpos: "0 < ?d" by (simp add: word_less_nat_alt unat_gt_0)
  have cmp: "\<not> bn_cmp a m < 0" using False by (simp add: bn_cmp_val [OF assms(2,3)] sgn_if)
  obtain rem q' where w: "bn_div_word a ?d (bn_top a) 0 (replicate (bn_top a) 0) = (rem, q')" by fastforce
  with bn_div_word_loop [OF d0 dpos, of "bn_top a" "replicate (bn_top a) 0" a]
  have l: "rem < ?d" "wval (\<lambda>k. q' ! k) (bn_top a) * unat ?d + unat rem = bn_val a" by (auto simp: bn_val_def)
  have "unat rem = (wval (\<lambda>k. q' ! k) (bn_top a) * unat ?d + unat rem) mod unat ?d"
    using l(1) by (simp add: word_less_nat_alt)
  then have val: "unat rem = bn_val a mod bn_val m" unfolding l(2) by (simp add: bn_val_one_word [OF assms(4)])
  obtain rem' q'' where w': "bn_div_word a ?d (bn_top a) 0 [] = (rem', q'')" by fastforce
  then have "rem' = rem" using bn_div_word_rem [of a ?d "bn_top a" 0 "[]" "replicate (bn_top a) 0"] w by simp
  obtain r where r: "bn_set_int mem x rem = (ERR_OK, r)" "bn_wf r" "bn_val r = unat rem"
    "bn_top r = (if rem = 0 then 0 else 1)" using bn_set_int_ok [OF assms(1), of x rem] by metis
  have "bn_mod mem x a m = Some (ERR_OK, r)"
    using cmp assms(4) w' \<open>rem' = rem\<close> r(1) by (simp add: bn_mod_def bn_div_def bn_from_int_def)
  with that r val show ?thesis by simp
qed

section \<open>Greatest common divisor\<close>

lemma bn_gcd_loop_ok:
  assumes "mem_ok mem" "bn_wf t1" "bn_wf t2" "bn_top t2 \<le> 1"
  shows "\<exists>t. bn_gcd_loop mem t1 t2 temp = Some t \<and> bn_wf t \<and> bn_val t = gcd (bn_val t1) (bn_val t2)"
  using assms(2-)
proof (induction "bn_val t2" arbitrary: t1 t2 temp rule: less_induct)
  case less
  show ?case
  proof (cases "bn_top t2 = 0")
    case True
    then have "bn_val t2 = 0" by (simp add: bn_val_def)
    with True less.prems show ?thesis by (subst bn_gcd_loop.simps) simp
  next
    case False
    then have top: "bn_top t2 = 1" using less.prems by simp
    then have pos: "0 < bn_val t2" using bn_val_0 [OF less.prems(2)] by simp
    obtain r where r: "bn_mod mem temp t1 t2 = Some (ERR_OK, r)" "bn_wf r" "bn_val r = bn_val t1 mod bn_val t2" "bn_top r \<le> 1"
      using bn_mod_ok [OF assms(1) less.prems(1,2) top] by metis
    obtain u where u: "bn_copy_to mem t1 t2 = (ERR_OK, u)" "bn_wf u" "bn_val u = bn_val t2"
      using bn_copy_to_ok [OF assms(1) less.prems(2), of t1] by metis
    obtain v where v: "bn_copy_to mem t2 r = (ERR_OK, v)" "bn_wf v" "bn_val v = bn_val r" "bn_top v = bn_top r"
      using bn_copy_to_ok [OF assms(1) r(2), of t2] by metis
    have "bn_val v < bn_val t2" using v(3) r(3) pos by simp
    then obtain t where t: "bn_gcd_loop mem u v r = Some t" "bn_wf t" "bn_val t = gcd (bn_val u) (bn_val v)"
      using less.hyps [of v u r] u(2) v(2,4) r(4) by auto
    have "bn_gcd_loop mem t1 t2 temp = bn_gcd_loop mem u v r"
      using False r(1) u(1) v(1) by (subst bn_gcd_loop.simps) simp
    with t u(3) v(3) r(3) show ?thesis by (simp add: gcd.commute flip: gcd_red_nat)
  qed
qed

section \<open>Modular exponentiation\<close>

lemma bit_split:
  fixes a b :: nat
  assumes "a < 2 ^ k"
  shows "bit (a + b * 2 ^ k) i \<longleftrightarrow> (if i < k then bit a i else bit b (i - k))"
proof -
  have a: "a = take_bit k a" using assms by (simp add: take_bit_nat_eq_self)
  have "a + push_bit k b = a OR push_bit k b"
    by (rule disjunctive_add) (subst a, auto simp: bit_simps)
  moreover have "b * 2 ^ k = push_bit k b" by (simp add: push_bit_eq_mult)
  moreover have "bit a i \<Longrightarrow> i < k" by (subst (asm) a) (simp add: bit_take_bit_iff)
  ultimately show ?thesis by (auto simp: bit_or_iff bit_push_bit_iff)
qed

lemma bit_wval: "bit (wval f n) i \<longleftrightarrow> i < 64 * n \<and> bit (f (i div 64)) (i mod 64)"
proof (induction n)
  case (Suc n)
  have "bit (wval f (Suc n)) i \<longleftrightarrow> (if i < 64 * n then bit (wval f n) i else bit (unat (f n)) (i - 64 * n))"
    unfolding wval.simps by (rule bit_split [OF wval_bound])
  also have "\<dots> \<longleftrightarrow> i < 64 * Suc n \<and> bit (f (i div 64)) (i mod 64)"
  proof (cases "i < 64 * n")
    case True
    then show ?thesis using Suc by simp
  next
    case False
    show ?thesis
    proof (cases "i < 64 * Suc n")
      case True
      then obtain m where "i = 64 * n + m" "m < 64" using False by (auto simp: not_less le_iff_add)
      then have "i div 64 = n" "i mod 64 = i - 64 * n" by simp_all
      then show ?thesis using False True by (simp add: bit_unsigned_iff)
    next
      case False
      then have "\<not> bit (f n) (i - 64 * n)" using bit_imp_le_length [of "f n" "i - 64 * n"] by auto
      then show ?thesis using False \<open>\<not> i < 64 * n\<close> by (simp add: bit_unsigned_iff)
    qed
  qed
  finally show ?case .
qed simp

lemma count_bits_upper: "unat w < 2 ^ k \<Longrightarrow> count_bits w bits \<le> bits + k"
proof (induction k arbitrary: w bits)
  case 0
  then have "w = 0" by (simp add: unat_eq_zero)
  then show ?case by (simp add: count_bits.simps)
next
  case (Suc k)
  have "unat (drop_bit 1 w) < 2 ^ k" 
    using Suc.prems unfolding unat_drop_bit_eq drop_bit_eq_div [of 1 "unat w"] by simp
  then have "count_bits (drop_bit 1 w) (bits + 1) \<le> bits + 1 + k" by (rule Suc.IH)
  then show ?case by (subst count_bits.simps) simp
qed

lemma bn_exponent_bit:
  assumes "bn_wf e" "i < bn_bit_count e"
  shows "bit (bn_words e ! (i div 64)) (i mod 64) \<longleftrightarrow> odd (bn_val e div 2 ^ i)"
proof -
  have top: "bn_top e \<noteq> 0" using assms(2) by (cases "bn_top e") (simp_all add: bn_bit_count_def)
  have "bn_bit_count e \<le> (bn_top e - 1) * 64 + 64"
    using top count_bits_upper [OF unat_word_bound] by (simp add: bn_bit_count_def)
  also have "\<dots> = 64 * bn_top e" using top by (cases "bn_top e") simp_all
  also have "\<dots> \<le> 64 * bn_size e" using assms(1) by (simp add: bn_wf_def)
  finally have "i < 64 * bn_size e" using assms(2) by simp
  then show ?thesis by (simp add: bn_wf_val [OF assms(1)] bit_wval flip: bit_iff_odd)
qed

lemma bn_val_bit_count:
  assumes "bn_wf e"
  shows "bn_val e < 2 ^ bn_bit_count e"
proof -
  have "i < bn_bit_count e" if "bit (bn_val e) i" for i
  proof -
    have "i < 64 * bn_size e" "bit (bn_words e ! (i div 64)) (i mod 64)"
      using that unfolding bn_wf_val [OF assms] bit_wval by auto
    then have "i div 64 * 64 + i mod 64 < bn_bit_count e"
      using assms by (intro bn_bit_count_bound) auto
    then show ?thesis by simp
  qed
  then have "take_bit (bn_bit_count e) (bn_val e) = bn_val e"
    by (intro bit_eqI) (auto simp: bit_take_bit_iff)
  then show ?thesis by (metis take_bit_nat_less_exp)
qed

lemma bn_mul_mod_ok:
  assumes "mem_ok mem" "bn_wf x" "bn_wf y" "bn_wf m" "bn_top m = 1"
  obtains r where "bn_mul_mod mem x y m = Some r" "bn_wf r" "bn_val r = bn_val x * bn_val y mod bn_val m"
proof -
  obtain p where p: "bn_mul mem x x y = (ERR_OK, p)" "bn_wf p" "bn_val p = bn_val x * bn_val y"
    using bn_mul_ok [OF assms(1-3), of x] by metis
  obtain r where "bn_mod mem p p m = Some (ERR_OK, r)" "bn_wf r" "bn_val r = bn_val p mod bn_val m"
    using bn_mod_ok [OF assms(1) p(2) assms(4,5), of p] by metis
  with p that show ?thesis by (simp add: bn_mul_mod_def)
qed

text \<open>The power of the bits seen so far, and the square that is next.\<close>

definition mod_exp_inv :: "nat \<Rightarrow> nat \<Rightarrow> nat \<Rightarrow> nat \<Rightarrow> bn_t \<times> bn_t \<Rightarrow> bool" where
  "mod_exp_inv base e m i s \<longleftrightarrow> bn_wf (fst s) \<and> bn_wf (snd s) \<and>
     (bn_val (fst s) = base ^ (e mod 2 ^ i) mod m \<or> (e mod 2 ^ i = 0 \<and> bn_val (fst s) = 1)) \<and>
     bn_val (snd s) mod m = base ^ (2 ^ i) mod m"

lemma mod_exp_step:
  assumes "mem_ok mem" "bn_wf e" "bn_wf m" "bn_top m = 1" "i < bn_bit_count e"
    and inv: "mod_exp_inv base (bn_val e) (bn_val m) i s"
  shows "\<exists>s'. bn_mod_exp_round mem e m i (Some s) = Some s' \<and> mod_exp_inv base (bn_val e) (bn_val m) (Suc i) s'"
proof -
  let ?e = "bn_val e" and ?m = "bn_val m"
  obtain r b where s: "s = (r, b)" by fastforce
  have wf: "bn_wf r" "bn_wf b" and vb: "bn_val b mod ?m = base ^ (2 ^ i) mod ?m"
    and vr: "bn_val r mod ?m = base ^ (?e mod 2 ^ i) mod ?m"
    using inv by (auto simp: mod_exp_inv_def s)
  obtain b' where b': "bn_mul_mod mem b b m = Some b'" "bn_wf b'" "bn_val b' = bn_val b * bn_val b mod ?m"
    using bn_mul_mod_ok [OF assms(1) wf(2) wf(2) assms(3,4)] by metis
  have vb': "bn_val b' mod ?m = base ^ (2 ^ Suc i) mod ?m"
  proof -
    have "base ^ (2 ^ Suc i) = base ^ (2 ^ i) * base ^ (2 ^ i)" by (simp add: mult_2 power_add)
    moreover have "bn_val b * bn_val b mod ?m = base ^ (2 ^ i) * base ^ (2 ^ i) mod ?m"
      by (rule mod_mult_cong [OF vb vb])
    ultimately show ?thesis by (simp add: b'(3))
  qed
  have split: "?e mod 2 ^ Suc i = (if odd (?e div 2 ^ i) then 2 ^ i else 0) + ?e mod 2 ^ i"
    using mod_mult2_eq [of ?e "2 ^ i" 2] by (simp add: odd_iff_mod_2_eq_one mult.commute)
  show ?thesis
  proof (cases "odd (?e div 2 ^ i)")
    case True
    obtain r' where r': "bn_mul_mod mem r b m = Some r'" "bn_wf r'" "bn_val r' = bn_val r * bn_val b mod ?m"
      using bn_mul_mod_ok [OF assms(1) wf assms(3,4)] by metis
    have "bn_val r' = base ^ (?e mod 2 ^ i) * base ^ (2 ^ i) mod ?m"
      unfolding r'(3) by (rule mod_mult_cong [OF vr vb])
    also have "\<dots> = base ^ (?e mod 2 ^ Suc i) mod ?m"
      by (simp only: split power_add mult.commute if_P [OF True])
    finally show ?thesis
      using True r' b' vb' bn_exponent_bit [OF assms(2,5)]
      by (simp add: bn_mod_exp_round_def s mod_exp_inv_def)
  next
    case False
    then have "?e mod 2 ^ Suc i = ?e mod 2 ^ i" using split by simp
    with False inv b' vb' show ?thesis using bn_exponent_bit [OF assms(2,5)]
      by (simp add: bn_mod_exp_round_def s mod_exp_inv_def)
  qed
qed

lemma bn_mod_exp_ok:
  assumes "mem_ok mem" "bn_wf base" "bn_wf e" "bn_wf m" "bn_top m = 1"
  shows "\<exists>r. bn_mod_exp mem result base e m = Some (ERR_OK, r) \<and> bn_wf r \<and>
    bn_val r = (if bn_val e = 0 then 1 else bn_val base ^ bn_val e mod bn_val m)"
proof -
  let ?n = "bn_bit_count e" and ?f = "bn_mod_exp_round mem e m"
  obtain fresh where f: "bn_alloc mem = Some fresh" using bn_alloc_ok [OF assms(1)] by blast
  obtain one where one: "bn_set_int mem fresh 1 = (ERR_OK, one)" "bn_wf one" "bn_val one = unat (1 :: u64)"
    using bn_set_int_ok [OF assms(1), of fresh 1] by metis
  obtain b where b: "bn_copy_to mem fresh base = (ERR_OK, b)" "bn_wf b" "bn_val b = bn_val base"
    using bn_copy_to_ok [OF assms(1,2), of fresh] by metis
  have "\<exists>s. for_range 0 i ?f (Some (one, b)) = Some s \<and> mod_exp_inv (bn_val base) (bn_val e) (bn_val m) i s"
    if "i \<le> ?n" for i
    using that
  proof (induction i)
    case 0
    then show ?case using one b by (simp add: mod_exp_inv_def)
  next
    case (Suc i)
    then show ?case using mod_exp_step [OF assms(1,3-5)] by (fastforce simp: for_range_Suc)
  qed
  then obtain s where s: "for_range 0 ?n ?f (Some (one, b)) = Some s"
    "mod_exp_inv (bn_val base) (bn_val e) (bn_val m) ?n s" by blast
  obtain r where r: "bn_copy_to mem result (fst s) = (ERR_OK, r)" "bn_wf r" "bn_val r = bn_val (fst s)"
    using bn_copy_to_ok [OF assms(1), of "fst s" result] s(2) by (auto simp: mod_exp_inv_def)
  have "bn_mod_exp mem result base e m = Some (ERR_OK, r)"
    using f one(1) b(1) s(1) r(1) by (cases s) (simp add: bn_mod_exp_def)
  moreover have "bn_val (fst s) = 1" if "bn_val e = 0"
  proof -
    have "?n = 0" using that bn_val_0 [OF assms(3)] by (simp add: bn_bit_count_def)
    then show ?thesis using s(1) one(3) by auto
  qed
  moreover have "bn_val e mod 2 ^ ?n = bn_val e" using bn_val_bit_count [OF assms(3)] by simp
  ultimately show ?thesis using r(2,3) s(2) by (auto simp: mod_exp_inv_def)
qed

section \<open>The modular inverse of long numbers\<close>

lemma bn_mod_defined: "mem_ok mem \<Longrightarrow> \<exists>err r. bn_mod mem x a m = Some (err, r)"
  by (auto simp: bn_mod_def bn_div_def bn_alloc_def Let_def split: prod.splits)

text \<open>The quotient of two long numbers, or of a smaller by a larger, is 0.\<close>

lemma bn_div_quotient_zero:
  assumes "mem_ok mem" "bn_wf a" "bn_wf b" "2 \<le> bn_top b"
  obtains q' where "bn_div mem (Some q) None a b = Some (ERR_OK, Some q', None)" "bn_wf q'" "bn_val q' = 0"
proof (cases "bn_cmp a b < 0")
  case True
  obtain z where "bn_set_int mem q 0 = (ERR_OK, z)" "bn_wf z" "bn_val z = unat (0 :: u64)"
    using bn_set_int_ok [OF assms(1), of q 0] by metis
  then show ?thesis using that True assms(4) by (simp add: bn_div_def bn_from_int_def bn_copy_def)
next
  case False
  obtain fresh where f: "bn_alloc mem = Some fresh" using bn_alloc_ok [OF assms(1)] by blast
  obtain z where z: "bn_set_int mem fresh 0 = (ERR_OK, z)" "bn_wf z" "bn_val z = unat (0 :: u64)" "bn_top z = 0"
    using bn_set_int_ok [OF assms(1), of fresh 0] by (metis (full_types))
  obtain s where s: "bn_div_bits mem a b (bn_bit_count a) (z, z) = (z, s)"
    using bn_div_bits_lost [OF assms(1,4) z(4)] by blast
  obtain q' where "bn_copy_to mem q z = (ERR_OK, q')" "bn_wf q'" "bn_val q' = bn_val z"
    using bn_copy_to_ok [OF assms(1) z(2), of q] by metis
  then show ?thesis using that False assms(4) f z s by (simp add: bn_div_def bn_copy_def Let_def)
qed

definition inv_long :: "inv_state \<Rightarrow> bool" where
  "inv_long s \<longleftrightarrow> bn_wf (inv_r s) \<and> bn_wf (inv_newr s) \<and> 2 \<le> bn_top (inv_r s) \<and> 2 \<le> bn_top (inv_newr s)"

lemma bn_mod_inv_round_long:
  assumes "mem_ok mem" "inv_long s" "bn_wf (inv_q s)" "bn_val (inv_q s) = 0"
  shows "inv_long (bn_mod_inv_round mem m s)"
proof -
  have wf: "bn_wf (inv_r s)" "bn_wf (inv_newr s)" "2 \<le> bn_top (inv_r s)" "2 \<le> bn_top (inv_newr s)"
    using assms(2) by (simp_all add: inv_long_def)
  have prod: "bn_wf (snd (bn_mul mem x (inv_q s) (inv_newr s)))" "bn_val (snd (bn_mul mem x (inv_q s) (inv_newr s))) = 0" for x
    using bn_mul_ok [OF assms(1,3) wf(2), of x] assms(4) by (metis mult_0 snd_conv)+
  have diff: "bn_wf (snd (bn_sub mem y (inv_r s) (snd (bn_mul mem x (inv_q s) (inv_newr s)))))"
    "2 \<le> bn_top (snd (bn_sub mem y (inv_r s) (snd (bn_mul mem x (inv_q s) (inv_newr s)))))" for x y
  proof -
    obtain d where d: "bn_sub mem y (inv_r s) (snd (bn_mul mem x (inv_q s) (inv_newr s))) = (ERR_OK, d)"
      "bn_wf d" "bn_val d = bn_val (inv_r s)"
      using bn_sub_ok [OF assms(1) wf(1) prod(1) [of x], of y] prod(2) [of x] by auto
    then have "\<not> bn_top d < bn_top (inv_r s)" using bn_val_less_top [OF wf(1), of d] by auto
    with d wf(3) show "bn_wf (snd (bn_sub mem y (inv_r s) (snd (bn_mul mem x (inv_q s) (inv_newr s)))))"
      "2 \<le> bn_top (snd (bn_sub mem y (inv_r s) (snd (bn_mul mem x (inv_q s) (inv_newr s)))))" by simp_all
  qed
  have copy: "bn_wf (snd (bn_copy_to mem x y)) \<and> bn_top (snd (bn_copy_to mem x y)) = bn_top y" if "bn_wf y" for x y
    using bn_copy_to_ok [OF assms(1) that, of x] by (metis snd_conv)
  show ?thesis
    using wf diff copy by (simp add: inv_long_def bn_mod_inv_round_def Let_def)
qed

lemma bn_mod_inv_loop_long:
  assumes "mem_ok mem" "bn_mod_inv_loop mem m s = Some s'"
  shows "\<not> inv_long s"
proof -
  have "mem_ok mem \<longrightarrow> \<not> inv_long s"
  proof (rule bn_mod_inv_loop.raw_induct [OF _ assms(2), of "\<lambda>mem m s s'. mem_ok mem \<longrightarrow> \<not> inv_long s"], intro impI notI)
    fix loop mem m s s'
    assume IH: "\<And>mem m s s'. loop mem m s = Some s' \<Longrightarrow> mem_ok mem \<longrightarrow> \<not> inv_long s"
      and body: "(if bn_top (inv_newr s) > 0 then
        Option.bind (bn_div mem (Some (inv_q s)) None (inv_r s) (inv_newr s)) (\<lambda>(err, q, _).
          Option.bind (bn_mod mem (snd (bn_mul mem (inv_term s) (the q) (inv_newt s)))
              (snd (bn_mul mem (inv_term s) (the q) (inv_newt s))) m) (\<lambda>(err, term).
            loop mem m (bn_mod_inv_round mem m (s\<lparr>inv_q := the q, inv_term := term\<rparr>))))
      else Some s) = Some s'"
      and mem: "mem_ok mem" and long: "inv_long s"
    obtain q where q: "bn_div mem (Some (inv_q s)) None (inv_r s) (inv_newr s) = Some (ERR_OK, Some q, None)"
      "bn_wf q" "bn_val q = 0"
      using bn_div_quotient_zero [OF mem, of "inv_r s" "inv_newr s" "inv_q s"] long unfolding inv_long_def by metis
    obtain err trm where t: "bn_mod mem (snd (bn_mul mem (inv_term s) q (inv_newt s)))
        (snd (bn_mul mem (inv_term s) q (inv_newt s))) m = Some (err, trm)"
      using bn_mod_defined [OF mem] by blast
    let ?s = "s\<lparr>inv_q := q, inv_term := trm\<rparr>"
    have "loop mem m (bn_mod_inv_round mem m ?s) = Some s'"
      using body q t long by (simp add: inv_long_def)
    then have "\<not> inv_long (bn_mod_inv_round mem m ?s)" using IH mem by blast
    moreover have "inv_long (bn_mod_inv_round mem m ?s)"
      using bn_mod_inv_round_long [OF mem, of ?s] long q by (simp add: inv_long_def)
    ultimately show False by simp
  qed
  then show ?thesis using assms(1) by simp
qed

lemma bn_gcd_ok:
  assumes "mem_ok mem" "bn_wf a" "bn_wf b" "bn_top b \<le> 1"
  shows "\<exists>r. bn_gcd mem result a b = Some (ERR_OK, r) \<and> bn_wf r \<and> bn_val r = gcd (bn_val a) (bn_val b)"
proof -
  obtain fresh where f: "bn_alloc mem = Some fresh" using bn_alloc_ok [OF assms(1)] by blast
  obtain t1 where t1: "bn_copy_to mem fresh a = (ERR_OK, t1)" "bn_wf t1" "bn_val t1 = bn_val a"
    using bn_copy_to_ok [OF assms(1,2), of fresh] by metis
  obtain t2 where t2: "bn_copy_to mem fresh b = (ERR_OK, t2)" "bn_wf t2" "bn_val t2 = bn_val b" "bn_top t2 = bn_top b"
    using bn_copy_to_ok [OF assms(1,3), of fresh] by metis
  obtain t where t: "bn_gcd_loop mem t1 t2 fresh = Some t" "bn_wf t" "bn_val t = gcd (bn_val t1) (bn_val t2)"
    using bn_gcd_loop_ok [OF assms(1) t1(2) t2(2), of fresh] t2(4) assms(4) by auto
  obtain r where "bn_copy_to mem result t = (ERR_OK, r)" "bn_wf r" "bn_val r = bn_val t"
    using bn_copy_to_ok [OF assms(1) t(2), of result] by metis
  with f t1 t2 t show ?thesis by (simp add: bn_gcd_def)
qed

section \<open>Properties\<close>

text \<open>
  the number-theoretic loops end with the right number when they reduce modulo one word.
  \<^verbatim>\<open>bn_gcd\<close> returns the greatest common divisor when its second argument has at most one word, and
  \<^verbatim>\<open>bn_mod_exp\<close> returns the power modulo \<open>m\<close> for a modulus of one word and an exponent of any length,
  with 1 for the exponent 0.
\<close>

theorem bn_modular:
  assumes "\<forall>n. mem n" "bn_wf a" "bn_wf e" "bn_wf m" "bn_top m = 1"
  shows "(\<exists>r. bn_gcd mem result a m = Some (ERR_OK, r) \<and> bn_wf r \<and> bn_val r = gcd (bn_val a) (bn_val m)) \<and>
    (\<exists>r. bn_mod_exp mem result a e m = Some (ERR_OK, r) \<and> bn_wf r \<and>
      bn_val r = (if bn_val e = 0 then 1 else bn_val a ^ bn_val e mod bn_val m))"
  using bn_gcd_ok [of mem a m result] bn_mod_exp_ok [of mem a e m result] assms by simp

theorem bn_modular_witness:
  "\<exists>r. bn_mod_exp (\<lambda>_. True) (bn_small 1) (bn_small 3) (bn_small 5) (bn_small 7) = Some (ERR_OK, r) \<and> bn_val r = 5"
proof -
  have "(\<forall>n :: nat. (\<lambda>_. True) n)" "bn_wf (bn_small 3)" "bn_wf (bn_small 5)" "bn_wf (bn_small 7)"
    by (simp_all add: bn_small_wf)
  moreover have "bn_top (bn_small 7) = 1" by (simp add: bn_small_def)
  ultimately show ?thesis
    using bn_modular [of "\<lambda>_. True" "bn_small 3" "bn_small 5" "bn_small 7" "bn_small 1"] by (auto simp: bn_small_wf)
qed

text \<open>
  \<^verbatim>\<open>bn_mod_inv\<close> does not return when both the number and the modulus have two or more words. Each
  division yields 0, so the loop only exchanges \<open>r\<close> and \<open>newr\<close>, and neither becomes 0.
\<close>

theorem bn_mod_inv_diverges:
  assumes "\<forall>n. mem n" "bn_wf a" "bn_wf m" "2 \<le> bn_top a" "2 \<le> bn_top m"
  shows "bn_mod_inv mem result a m = None"
proof -
  obtain fresh where f: "bn_alloc mem = Some fresh" using bn_alloc_ok [OF assms(1)] by blast
  let ?s = "\<lparr>inv_t = snd (bn_set_int mem fresh 0), inv_newt = snd (bn_set_int mem fresh 1),
    inv_r = snd (bn_copy_to mem fresh m), inv_newr = snd (bn_copy_to mem fresh a),
    inv_q = fresh, inv_temp = fresh, inv_term = fresh, inv_diff = fresh\<rparr>"
  have copy: "bn_wf (snd (bn_copy_to mem fresh y)) \<and> bn_top (snd (bn_copy_to mem fresh y)) = bn_top y" if "bn_wf y" for y
    using bn_copy_to_ok [OF assms(1) that, of fresh] by (metis snd_conv)
  then have "inv_long ?s" using assms(2-5) by (simp add: inv_long_def)
  then have "bn_mod_inv_loop mem m ?s = None"
    using bn_mod_inv_loop_long [OF assms(1), of m ?s] by (cases "bn_mod_inv_loop mem m ?s") auto
  then show ?thesis by (simp add: bn_mod_inv_def f)
qed

theorem bn_mod_inv_diverges_witness:
  "bn_mod_inv (\<lambda>_. True) (bn_small 1) bn_long bn_long = None"
  by (rule bn_mod_inv_diverges) (auto simp: bn_long_def bn_wf_def)

end
