(* ===== verification/Cstring.thy ===== *)
theory Cstring
  imports Prelude
begin

text \<open>
  The byte and string functions of \<^verbatim>\<open>kernel/core/string.c\<close>. An object in memory is the list of its
  bytes; a pointer argument is \<open>None\<close> for NULL. A pointer that is only read through is the list of the
  bytes from it to the end of its object, so that moving it on is taking the tail; a destination is
  an object that is written from an index on. A result \<open>None\<close> is an access outside an object, which C
  leaves undefined.

  \<open>cstr b s\<close> says that the bytes at \<open>b\<close> begin with the string \<open>s\<close> and its terminating zero.
\<close>

section \<open>Memory\<close>

text \<open>One round of a copying loop inside an object: \<^verbatim>\<open>d[i] = s[i]\<close>.\<close>

definition copy_byte :: "nat \<Rightarrow> nat \<Rightarrow> nat \<Rightarrow> u8 list option \<Rightarrow> u8 list option" where
  "copy_byte d s i m =
     Option.bind m (\<lambda>m. if d + i < length m \<and> s + i < length m then Some (m[d + i := m ! (s + i)]) else None)"

text \<open>
  \<^verbatim>\<open>memcpy\<close> and \<^verbatim>\<open>memmove\<close> with both pointers in the object \<open>m\<close>, at the offsets \<open>dest\<close> and \<open>src\<close>.
\<close>

definition memcpy :: "u8 list \<Rightarrow> nat option \<Rightarrow> nat option \<Rightarrow> nat \<Rightarrow> u8 list option" where
  "memcpy m dest src n =
     (case (dest, src) of
        (Some d, Some s) \<Rightarrow> for_range 0 n (copy_byte d s) (Some m)
      | _ \<Rightarrow> Some m)"

fun copy_backward :: "nat \<Rightarrow> nat \<Rightarrow> nat \<Rightarrow> u8 list option \<Rightarrow> u8 list option" where
  "copy_backward d s 0 m = m"
| "copy_backward d s (Suc i) m = copy_backward d s i (copy_byte d s i m)"

definition memmove :: "u8 list \<Rightarrow> nat option \<Rightarrow> nat option \<Rightarrow> nat \<Rightarrow> u8 list option" where
  "memmove m dest src n =
     (case (dest, src) of
        (Some d, Some s) \<Rightarrow>
          if d < s then for_range 0 n (copy_byte d s) (Some m)
          else if d > s then copy_backward d s n (Some m)
          else Some m
      | _ \<Rightarrow> Some m)"

text \<open>\<^verbatim>\<open>*d = c\<close> for a destination object and an index.\<close>

definition put :: "u8 list \<Rightarrow> nat \<Rightarrow> u8 \<Rightarrow> u8 list option" where
  "put m d c = (if d < length m then Some (m[d := c]) else None)"

definition memset :: "u8 list option \<Rightarrow> u32 \<Rightarrow> nat \<Rightarrow> u8 list option option" where
  "memset s c n =
     (case s of
        None \<Rightarrow> Some None
      | Some p \<Rightarrow> map_option Some (for_range 0 n (\<lambda>i m. Option.bind m (\<lambda>m. put m i (ucast c))) (Some p)))"

fun memcmp_loop :: "u8 list \<Rightarrow> u8 list \<Rightarrow> nat \<Rightarrow> int option" where
  "memcmp_loop p1 p2 0 = Some 0"
| "memcmp_loop (a # p1) (b # p2) (Suc n) = (if a \<noteq> b then Some (uint a - uint b) else memcmp_loop p1 p2 n)"
| "memcmp_loop _ _ (Suc n) = None"

text \<open>The test for NULL of the comparisons: \<^verbatim>\<open>(s1 == s2) ? 0 : 1\<close>.\<close>

definition null_cmp :: "'a option \<Rightarrow> 'a option \<Rightarrow> int" where
  "null_cmp s1 s2 = (if Option.is_none s1 \<and> Option.is_none s2 then 0 else 1)"

definition memcmp :: "u8 list option \<Rightarrow> u8 list option \<Rightarrow> nat \<Rightarrow> int option" where
  "memcmp s1 s2 n =
     (case (s1, s2) of (Some p1, Some p2) \<Rightarrow> memcmp_loop p1 p2 n | _ \<Rightarrow> Some (null_cmp s1 s2))"

text \<open>The result of a search is the offset from the pointer, \<open>Some None\<close> for NULL.\<close>

fun memchr_loop :: "u8 list \<Rightarrow> u8 \<Rightarrow> nat \<Rightarrow> nat option option" where
  "memchr_loop p ch 0 = Some None"
| "memchr_loop (a # p) ch (Suc n) = (if a = ch then Some (Some 0) else map_option (map_option Suc) (memchr_loop p ch n))"
| "memchr_loop [] ch (Suc n) = None"

definition memchr :: "u8 list option \<Rightarrow> u32 \<Rightarrow> nat \<Rightarrow> nat option option" where
  "memchr s c n = (case s of None \<Rightarrow> Some None | Some p \<Rightarrow> memchr_loop p (ucast c) n)"

section \<open>Strings\<close>

fun strlen_loop :: "u8 list \<Rightarrow> nat option" where
  "strlen_loop [] = None"
| "strlen_loop (c # str) = (if c \<noteq> 0 then map_option Suc (strlen_loop str) else Some 0)"

definition strlen :: "u8 list option \<Rightarrow> nat option" where
  "strlen str = (case str of None \<Rightarrow> Some 0 | Some p \<Rightarrow> strlen_loop p)"

text \<open>\<^verbatim>\<open>while (*src) *d++ = *src++; *d = 0;\<close>\<close>

fun strcpy_loop :: "u8 list \<Rightarrow> nat \<Rightarrow> u8 list \<Rightarrow> u8 list option" where
  "strcpy_loop m d [] = None"
| "strcpy_loop m d (c # src) =
     (if c \<noteq> 0 then Option.bind (put m d c) (\<lambda>m. strcpy_loop m (Suc d) src) else put m d 0)"

text \<open>A function that writes to \<open>dest\<close>, after the test for NULL: \<open>Some None\<close> is the NULL it returns.\<close>

definition with_dest ::
  "(u8 list \<Rightarrow> u8 list \<Rightarrow> u8 list option) \<Rightarrow> u8 list option \<Rightarrow> u8 list option \<Rightarrow> u8 list option option" where
  "with_dest f dest src =
     (case (dest, src) of (Some d, Some s) \<Rightarrow> map_option Some (f d s) | _ \<Rightarrow> Some dest)"

definition strcpy :: "u8 list option \<Rightarrow> u8 list option \<Rightarrow> u8 list option option" where
  "strcpy dest src = with_dest (\<lambda>d s. strcpy_loop d 0 s) dest src"

text \<open>The two loops of \<^verbatim>\<open>strncpy\<close>; \<open>n\<close> is what is left to write.\<close>

fun pad_zeros :: "u8 list \<Rightarrow> nat \<Rightarrow> nat \<Rightarrow> u8 list option" where
  "pad_zeros m d 0 = Some m"
| "pad_zeros m d (Suc n) = Option.bind (put m d 0) (\<lambda>m. pad_zeros m (Suc d) n)"

fun strncpy_loop :: "u8 list \<Rightarrow> nat \<Rightarrow> u8 list \<Rightarrow> nat \<Rightarrow> u8 list option" where
  "strncpy_loop m d src 0 = Some m"
| "strncpy_loop m d [] (Suc n) = None"
| "strncpy_loop m d (c # src) (Suc n) =
     (if c \<noteq> 0 then Option.bind (put m d c) (\<lambda>m. strncpy_loop m (Suc d) src n) else pad_zeros m d (Suc n))"

definition strncpy :: "u8 list option \<Rightarrow> u8 list option \<Rightarrow> nat \<Rightarrow> u8 list option option" where
  "strncpy dest src n = with_dest (\<lambda>d s. strncpy_loop d 0 s n) dest src"

text \<open>The first loop of \<^verbatim>\<open>strcat\<close> and \<^verbatim>\<open>strncat\<close> moves \<^verbatim>\<open>d\<close> to the terminating zero.\<close>

definition strcat :: "u8 list option \<Rightarrow> u8 list option \<Rightarrow> u8 list option option" where
  "strcat dest src = with_dest (\<lambda>d s. Option.bind (strlen_loop d) (\<lambda>i. strcpy_loop d i s)) dest src"

fun strncat_loop :: "u8 list \<Rightarrow> nat \<Rightarrow> u8 list \<Rightarrow> nat \<Rightarrow> u8 list option" where
  "strncat_loop m d src 0 = put m d 0"
| "strncat_loop m d [] (Suc n) = None"
| "strncat_loop m d (c # src) (Suc n) =
     (if c \<noteq> 0 then Option.bind (put m d c) (\<lambda>m. strncat_loop m (Suc d) src n) else put m d 0)"

definition strncat :: "u8 list option \<Rightarrow> u8 list option \<Rightarrow> nat \<Rightarrow> u8 list option option" where
  "strncat dest src n = with_dest (\<lambda>d s. Option.bind (strlen_loop d) (\<lambda>i. strncat_loop d i s n)) dest src"

fun strcmp_loop :: "u8 list \<Rightarrow> u8 list \<Rightarrow> int option" where
  "strcmp_loop (a # s1) (b # s2) =
     (if a \<noteq> 0 \<and> b \<noteq> 0 \<and> a = b then strcmp_loop s1 s2 else Some (uint a - uint b))"
| "strcmp_loop _ _ = None"

definition strcmp :: "u8 list option \<Rightarrow> u8 list option \<Rightarrow> int option" where
  "strcmp s1 s2 =
     (case (s1, s2) of (Some p1, Some p2) \<Rightarrow> strcmp_loop p1 p2 | _ \<Rightarrow> Some (null_cmp s1 s2))"

fun strncmp_loop :: "u8 list \<Rightarrow> u8 list \<Rightarrow> nat \<Rightarrow> int option" where
  "strncmp_loop s1 s2 0 = Some 0"
| "strncmp_loop (a # s1) (b # s2) (Suc n) =
     (if a \<noteq> 0 \<and> b \<noteq> 0 \<and> a = b then strncmp_loop s1 s2 n else Some (uint a - uint b))"
| "strncmp_loop _ _ (Suc n) = None"

definition strncmp :: "u8 list option \<Rightarrow> u8 list option \<Rightarrow> nat \<Rightarrow> int option" where
  "strncmp s1 s2 n =
     (case (s1, s2) of (Some p1, Some p2) \<Rightarrow> strncmp_loop p1 p2 n | _ \<Rightarrow> Some (null_cmp s1 s2))"

fun strchr_loop :: "u8 list \<Rightarrow> u8 \<Rightarrow> nat option option" where
  "strchr_loop [] ch = None"
| "strchr_loop (a # s) ch =
     (if a \<noteq> 0 then
        if a = ch then Some (Some 0) else map_option (map_option Suc) (strchr_loop s ch)
      else if ch = 0 then Some (Some 0) else Some None)"

definition strchr :: "u8 list option \<Rightarrow> u32 \<Rightarrow> nat option option" where
  "strchr s c = (case s of None \<Rightarrow> Some None | Some p \<Rightarrow> strchr_loop p (ucast c))"

text \<open>\<open>i\<close> is the offset reached, \<open>seen\<close> the variable \<^verbatim>\<open>last\<close>.\<close>

fun strrchr_loop :: "u8 list \<Rightarrow> u8 \<Rightarrow> nat \<Rightarrow> nat option \<Rightarrow> nat option option" where
  "strrchr_loop [] ch i seen = None"
| "strrchr_loop (a # s) ch i seen =
     (if a \<noteq> 0 then strrchr_loop s ch (Suc i) (if a = ch then Some i else seen)
      else if ch = 0 then Some (Some i) else Some seen)"

definition strrchr :: "u8 list option \<Rightarrow> u32 \<Rightarrow> nat option option" where
  "strrchr s c = (case s of None \<Rightarrow> Some None | Some p \<Rightarrow> strrchr_loop p (ucast c) 0 None)"

fun strstr_loop :: "u8 list \<Rightarrow> u8 list \<Rightarrow> nat \<Rightarrow> nat option option" where
  "strstr_loop [] needle needle_len = None"
| "strstr_loop (h # haystack) needle needle_len =
     (if h \<noteq> 0 then
        case strncmp_loop (h # haystack) needle needle_len of
          None \<Rightarrow> None
        | Some r \<Rightarrow> if r = 0 then Some (Some 0) else map_option (map_option Suc) (strstr_loop haystack needle needle_len)
      else Some None)"

definition strstr :: "u8 list option \<Rightarrow> u8 list option \<Rightarrow> nat option option" where
  "strstr haystack needle =
     (case (haystack, needle) of
        (Some h, Some (c # n)) \<Rightarrow>
          if c = 0 then Some (Some 0)
          else Option.bind (strlen needle) (\<lambda>needle_len. strstr_loop h (c # n) needle_len)
      | (Some h, Some []) \<Rightarrow> None
      | _ \<Rightarrow> Some None)"

text \<open>\<open>mem n\<close> is what \<^verbatim>\<open>kmalloc(n)\<close> returns, with its contents.\<close>

definition strdup :: "(nat \<Rightarrow> u8 list option) \<Rightarrow> u8 list option \<Rightarrow> u8 list option option" where
  "strdup mem s =
     (case s of
        None \<Rightarrow> Some None
      | Some p \<Rightarrow>
          Option.bind (strlen s) (\<lambda>l.
            case mem (l + 1) of
              None \<Rightarrow> Some None
            | Some dup \<Rightarrow> Some (Some (blit dup 0 (take (l + 1) p)))))"

end
