(* ===== verification/Cstring_Props.thy ===== *)
theory Cstring_Props
  imports Cstring
begin

text \<open>
  What the functions of \<^verbatim>\<open>string.c\<close> compute: copies as one block move, whatever the overlap, and
  the string functions as operations on the strings their arguments hold. Each function that writes
  is characterised together with the exact condition under which it leaves its destination.
\<close>

section \<open>Copies\<close>

lemma copy_byte_Some:
  "d + i < length m \<Longrightarrow> s + i < length m \<Longrightarrow> copy_byte d s i (Some m) = Some (m[d + i := m ! (s + i)])"
  by (simp add: copy_byte_def)

lemma copy_forward:
  assumes "d + n \<le> length m" "s + n \<le> length m" "d \<le> s \<or> s + n \<le> d"
  shows "for_range 0 n (copy_byte d s) (Some m) = Some (blit m d (take n (drop s m)))"
proof -
  have "k \<le> n \<Longrightarrow> \<exists>m'. for_range 0 k (copy_byte d s) (Some m) = Some m' \<and> length m' = length m \<and>
      (\<forall>j < length m. m' ! j = (if d \<le> j \<and> j < d + k then m ! (s + (j - d)) else m ! j))" for k
  proof (induction k)
    case (Suc k)
    then obtain m' where m': "for_range 0 k (copy_byte d s) (Some m) = Some m'" "length m' = length m"
      "\<forall>j < length m. m' ! j = (if d \<le> j \<and> j < d + k then m ! (s + (j - d)) else m ! j)" by auto
    moreover have "m' ! (s + k) = m ! (s + k)" using m'(3) assms Suc.prems by auto
    ultimately show ?case
      using assms Suc.prems by (auto simp: for_range_Suc copy_byte_Some nth_list_update less_Suc_eq)
  qed auto
  then obtain m' where m': "for_range 0 n (copy_byte d s) (Some m) = Some m'" "length m' = length m"
    "\<forall>j < length m. m' ! j = (if d \<le> j \<and> j < d + n then m ! (s + (j - d)) else m ! j)" by blast
  have "m' = blit m d (take n (drop s m))"
    using m'(2,3) assms by (intro nth_equalityI) (auto simp: length_blit nth_blit)
  with m'(1) show ?thesis by simp
qed

lemma copy_backward_ok:
  assumes "d + n \<le> length m" "s + n \<le> length m" "s < d"
  shows "copy_backward d s n (Some m) = Some (blit m d (take n (drop s m)))"
proof -
  have "\<exists>m''. copy_backward d s k (Some m') = Some m'' \<and> length m'' = length m \<and>
      (\<forall>j < length m. m'' ! j = (if d \<le> j \<and> j < d + n then m ! (s + (j - d)) else m ! j))"
    if "k \<le> n" "length m' = length m"
      "\<forall>j < length m. m' ! j = (if d + k \<le> j \<and> j < d + n then m ! (s + (j - d)) else m ! j)" for k m'
    using that
  proof (induction k arbitrary: m')
    case (Suc k)
    then have "m' ! (s + k) = m ! (s + k)" using assms by auto
    then have "length (m'[d + k := m' ! (s + k)]) = length m \<and>
      (\<forall>j < length m. m'[d + k := m' ! (s + k)] ! j =
        (if d + k \<le> j \<and> j < d + n then m ! (s + (j - d)) else m ! j))"
      using Suc.prems assms by (auto simp: nth_list_update)
    with Suc show ?case using assms by (simp add: copy_byte_Some)
  qed auto
  moreover have "\<forall>j < length m. m ! j = (if d + n \<le> j \<and> j < d + n then m ! (s + (j - d)) else m ! j)" by auto
  ultimately obtain m'' where m'': "copy_backward d s n (Some m) = Some m''" "length m'' = length m"
    "\<forall>j < length m. m'' ! j = (if d \<le> j \<and> j < d + n then m ! (s + (j - d)) else m ! j)" by blast
  have "m'' = blit m d (take n (drop s m))"
    using m''(2,3) assms by (intro nth_equalityI) (auto simp: length_blit nth_blit)
  with m''(1) show ?thesis by simp
qed

lemma copy_byte_None [simp]: "copy_byte d s i None = None"
  by (simp add: copy_byte_def)

lemma copy_backward_None [simp]: "copy_backward d s n None = None"
  by (induction n) simp_all

lemma for_range_copy_None [simp]: "for_range i n (copy_byte d s) None = None"
  by (rule for_range_invariant) auto

lemma copy_length: "for_range 0 k (copy_byte d s) (Some m) = Some m' \<Longrightarrow> length m' = length m"
  by (induction k arbitrary: m')
    (auto simp: for_range_Suc copy_byte_def bind_eq_Some_conv split: if_splits)

lemma copy_out_of_range:
  assumes "0 < n" "length m < d + n \<or> length m < s + n"
  shows "for_range 0 n (copy_byte d s) (Some m) = None" "copy_backward d s n (Some m) = None"
proof -
  obtain k where k: "n = Suc k" using assms(1) by (cases n) auto
  note len = copy_length [of k d s m]
  show "for_range 0 n (copy_byte d s) (Some m) = None"
    using assms(2) len by (cases "for_range 0 k (copy_byte d s) (Some m)") (auto simp: k for_range_Suc copy_byte_def)
  show "copy_backward d s n (Some m) = None"
    using assms(2) by (auto simp: k copy_byte_def)
qed

lemma blit_same: "blit m d (take n (drop d m)) = m"
proof (cases "d \<le> length m")
  case True
  have "drop (d + length (take n (drop d m))) m = drop n (drop d m)"
    by (cases "n \<le> length m - d") (auto simp: add.commute)
  then show ?thesis by (metis append_take_drop_id blit_def)
qed (simp add: blit_def)

text \<open>
  C21: \<^verbatim>\<open>memmove\<close> moves a block: for source and destination inside the object, overlapping or not, the
  destination holds what the source held and every other byte is unchanged. \<^verbatim>\<open>memcpy\<close> computes the
  same when the destination does not begin inside the source. A range that leaves the object is an
  access outside it, except for \<^verbatim>\<open>memmove\<close> of a block onto itself, which does nothing.
\<close>

theorem memmove_moves:
  "(d + n \<le> length m \<and> s + n \<le> length m \<longrightarrow>
     memmove m (Some d) (Some s) n = Some (blit m d (take n (drop s m))) \<and>
     (d \<le> s \<or> s + n \<le> d \<longrightarrow> memcpy m (Some d) (Some s) n = memmove m (Some d) (Some s) n)) \<and>
   (0 < n \<and> (length m < d + n \<or> length m < s + n) \<longrightarrow>
     memcpy m (Some d) (Some s) n = None \<and> memmove m (Some d) (Some s) n = (if d = s then Some m else None)) \<and>
   memmove m None src n = Some m \<and> memmove m dest None n = Some m"
proof (intro conjI impI)
  assume in_range: "d + n \<le> length m \<and> s + n \<le> length m"
  then show "memmove m (Some d) (Some s) n = Some (blit m d (take n (drop s m)))"
    by (auto simp: memmove_def copy_forward copy_backward_ok blit_same)
  then show "memcpy m (Some d) (Some s) n = memmove m (Some d) (Some s) n" if "d \<le> s \<or> s + n \<le> d"
    using in_range that by (simp add: memcpy_def copy_forward)
qed (auto simp: memcpy_def memmove_def copy_out_of_range split: option.splits)

theorem memmove_moves_witness:
  "memmove [1, 2, 3, 4, 5] (Some 1) (Some 0) 4 = Some [1, 1, 2, 3, 4] \<and>
   memcpy [1, 2, 3, 4, 5] (Some 3) (Some 2) 3 = None"
  using memmove_moves [of 1 4 "[1, 2, 3, 4, 5]" 0 None None] memmove_moves [of 3 3 "[1, 2, 3, 4, 5]" 2 None None]
  by (simp add: blit_def)

section \<open>Strings\<close>

definition cstr :: "u8 list \<Rightarrow> u8 list \<Rightarrow> bool" where
  "cstr b s \<longleftrightarrow> (\<exists>r. b = s @ 0 # r) \<and> 0 \<notin> set s"

lemma strlen_loop_cstr: "0 \<notin> set s \<Longrightarrow> strlen_loop (s @ 0 # r) = Some (length s)"
  by (induction s) auto

lemma put_blit: "d < length m \<Longrightarrow> put m d c = Some (blit m d [c])"
  by (simp add: put_def blit_def upd_conv_take_nth_drop)

lemma put_out [simp]: "length m \<le> d \<Longrightarrow> put m d c = None"
  by (simp add: put_def)

lemma blit_blit: "d < length m \<Longrightarrow> blit (blit m d [c]) (Suc d) xs = blit m d (c # xs)"
  by (simp add: blit_def min_def Suc_diff_le add.commute)

lemma strcpy_loop_cstr:
  assumes "0 \<notin> set s"
  shows "strcpy_loop m d (s @ 0 # r) = (if d + length s < length m then Some (blit m d (s @ [0])) else None)"
  using assms
proof (induction s arbitrary: m d)
  case (Cons c s)
  then show ?case
    by (cases "d < length m") (auto simp: put_blit length_blit blit_blit)
qed (auto simp: put_blit)

lemma pad_zeros_blit:
  "pad_zeros m d n = (if n = 0 \<or> d + n \<le> length m then Some (blit m d (replicate n 0)) else None)"
proof (induction n arbitrary: m d)
  case 0
  then show ?case by (simp add: blit_def)
next
  case (Suc n)
  then show ?case
    by (cases "d < length m") (auto simp: put_blit length_blit blit_blit)
qed

lemma strncpy_loop_cstr:
  assumes "0 \<notin> set s"
  shows "strncpy_loop m d (s @ 0 # r) n =
    (if n = 0 \<or> d + n \<le> length m then Some (blit m d (take n (s @ replicate n 0))) else None)"
  using assms
proof (induction s arbitrary: m d n)
  case Nil
  then show ?case by (cases n) (auto simp: pad_zeros_blit blit_def)
next
  case (Cons c s)
  then show ?case
  proof (cases n)
    case (Suc k)
    have "take k (s @ replicate (Suc k) 0) = take k (s @ replicate k 0)"
      by (cases "k \<le> length s") (auto simp: min_def simp flip: replicate_Suc)
    then show ?thesis
      using Cons Suc by (cases "d < length m") (auto simp: put_blit length_blit blit_blit)
  qed (simp add: blit_def)
qed

lemma strncat_loop_cstr:
  assumes "0 \<notin> set s"
  shows "strncat_loop m d (s @ 0 # r) n =
    (if d + min n (length s) < length m then Some (blit m d (take n s @ [0])) else None)"
  using assms
proof (induction s arbitrary: m d n)
  case Nil
  then show ?case by (cases n) (auto simp: put_blit)
next
  case (Cons c s)
  then show ?case
    by (cases n; cases "d < length m") (auto simp: put_blit length_blit blit_blit)
qed

lemma uint_byte [simp]:
  "uint a = uint b \<longleftrightarrow> a = b" "0 < uint b \<longleftrightarrow> b \<noteq> 0" "uint b = 0 \<longleftrightarrow> b = 0" for a b :: u8
  by (simp_all add: word_uint_eq_iff order_less_le)

lemma strcmp_loop_cstr:
  assumes "0 \<notin> set s" "0 \<notin> set t"
  obtains c where "strcmp_loop (s @ 0 # r) (t @ 0 # r') = Some c" "c = 0 \<longleftrightarrow> s = t" "c < 0 \<longleftrightarrow> (s, t) \<in> lexord {(a, b). a < b}"
proof -
  have "\<exists>c. strcmp_loop (s @ 0 # r) (t @ 0 # r') = Some c \<and> (c = 0 \<longleftrightarrow> s = t) \<and> (c < 0 \<longleftrightarrow> (s, t) \<in> lexord {(a, b). a < b})"
    using assms
  proof (induction s arbitrary: t)
    case Nil
    then show ?case
      by (cases t) (auto simp: word_less_def)
  next
    case (Cons a s)
    show ?case
    proof (cases t)
      case Nil
      with Cons.prems show ?thesis by (auto simp: word_less_def)
    next
      case (Cons b t')
      with Cons.IH [of t'] Cons.prems show ?thesis
        by (cases "a = b") (auto simp: word_less_def)
    qed
  qed
  with that show ?thesis by blast
qed

lemma strncmp_loop_cstr:
  assumes "0 \<notin> set s" "0 \<notin> set t"
  obtains c where "strncmp_loop (s @ 0 # r) (t @ 0 # r') n = Some c" "c = 0 \<longleftrightarrow> take n s = take n t"
proof -
  have "\<exists>c. strncmp_loop (s @ 0 # r) (t @ 0 # r') n = Some c \<and> (c = 0 \<longleftrightarrow> take n s = take n t)"
    using assms
  proof (induction s arbitrary: t n)
    case Nil
    then show ?case by (cases t; cases n) auto
  next
    case (Cons a s)
    show ?case
    proof (cases n)
      case (Suc k)
      show ?thesis
      proof (cases t)
        case Nil
        with Cons.prems Suc show ?thesis by auto
      next
        case (Cons b t')
        with Cons.IH [of t' k] Cons.prems Suc show ?thesis
          by (cases "a = b") auto
      qed
    qed simp
  qed
  with that show ?thesis by blast
qed

lemma first_index_shift: "first_index P (Suc i) (Suc n) = map_option Suc (first_index (\<lambda>k. P (Suc k)) i n)"
proof -
  have "[Suc i..<Suc n] = map Suc [i..<n]" by (simp add: map_Suc_upt)
  then show ?thesis by (simp only: first_index_def find_map_eq)
qed

lemma first_index_Suc:
  "first_index P 0 (Suc n) = (if P 0 then Some 0 else map_option Suc (first_index (\<lambda>k. P (Suc k)) 0 n))"
proof -
  have "[0..<Suc n] = 0 # [Suc 0..<Suc n]" by (rule upt_conv_Cons) simp
  then show ?thesis using first_index_shift [of P 0 n] by (simp add: first_index_def)
qed

lemma strchr_loop_cstr:
  "0 \<notin> set s \<Longrightarrow> ch \<noteq> 0 \<Longrightarrow> strchr_loop (s @ 0 # r) ch = Some (first_index (\<lambda>i. s ! i = ch) 0 (length s))"
  by (induction s) (auto simp: first_index_Suc, simp add: first_index_def)

lemma strchr_loop_end: "0 \<notin> set s \<Longrightarrow> strchr_loop (s @ 0 # r) 0 = Some (Some (length s))"
  by (induction s) auto

lemma strrchr_loop_cstr:
  assumes "0 \<notin> set s" "ch \<noteq> 0"
  shows "strrchr_loop (s @ 0 # r) ch i seen =
    Some (if ch \<in> set s then Some (i + (length s - 1 - the (first_index (\<lambda>k. rev s ! k = ch) 0 (length s)))) else seen)"
  using assms(1)
proof (induction s arbitrary: i seen)
  case Nil
  then show ?case using assms(2) by simp
next
  case (Cons a s)
  show ?case
  proof (cases "ch \<in> set s")
    case True
    then obtain k where k: "first_index (\<lambda>k. rev s ! k = ch) 0 (length s) = Some k"
      by (cases "first_index (\<lambda>k. rev s ! k = ch) 0 (length s)")
        (auto simp: first_index_None_iff in_set_conv_nth dest: spec [of _ "length s - 1 - _"], metis in_set_conv_nth length_rev set_rev)
    then have kl: "k < length s" by (simp add: first_index_Some_iff)
    have "first_index (\<lambda>k. (rev s @ [a]) ! k = ch) 0 (Suc (length s)) = Some k"
      using k by (auto simp: first_index_Some_iff nth_append)
    with Cons True kl show ?thesis by (simp add: k)
  next
    case False
    have "first_index (\<lambda>k. rev (a # s) ! k = ch) 0 (length (a # s)) = Some (length s)" if "a = ch"
      using that False by (auto simp: first_index_Some_iff nth_append rev_nth)
    with Cons False show ?thesis by auto
  qed
qed

lemma strstr_loop_cstr:
  assumes "0 \<notin> set s" "0 \<notin> set t" "t \<noteq> []"
  shows "strstr_loop (s @ 0 # r) (t @ 0 # r') (length t) =
    Some (first_index (\<lambda>i. take (length t) (drop i s) = t) 0 (length s))"
  using assms(1)
proof (induction s)
  case Nil
  then show ?case by (simp add: first_index_def)
next
  case (Cons h s)
  obtain c where "strncmp_loop ((h # s) @ 0 # r) (t @ 0 # r') (length t) = Some c"
    "c = 0 \<longleftrightarrow> take (length t) (h # s) = take (length t) t"
    using strncmp_loop_cstr [OF Cons.prems assms(2), of r r' "length t"] by metis
  with Cons show ?case by (auto simp: first_index_Suc)
qed

text \<open>
  C22: on terminated strings the string functions compute what their names promise. \<^verbatim>\<open>strlen\<close> is the
  length; \<^verbatim>\<open>strcpy\<close>, \<^verbatim>\<open>strcat\<close> and \<^verbatim>\<open>strncat\<close> leave the copied or joined string in the destination, and
  leave the destination object exactly when it is too short for the string and its zero; \<^verbatim>\<open>strncpy\<close>
  writes exactly \<open>n\<close> bytes, the string cut or padded with zeros; \<^verbatim>\<open>strcmp\<close> is 0 for equal strings only
  and negative exactly for a string that is lexicographically smaller; \<^verbatim>\<open>strncmp\<close> compares the first
  \<open>n\<close> characters; \<^verbatim>\<open>strchr\<close> and \<^verbatim>\<open>strstr\<close> find the first occurrence.
\<close>

theorem string_contracts:
  assumes "cstr a s" "cstr b t"
  shows "strlen (Some a) = Some (length s) \<and>
    strcpy (Some m) (Some b) = (if length t < length m then Some (Some (blit m 0 (t @ [0]))) else None) \<and>
    strncpy (Some m) (Some b) n =
      (if n \<le> length m then Some (Some (blit m 0 (take n (t @ replicate n 0)))) else None) \<and>
    strcat (Some a) (Some b) =
      (if length (s @ t) < length a then Some (Some (blit a 0 (s @ t @ [0]))) else None) \<and>
    strncat (Some a) (Some b) n =
      (if length (s @ take n t) < length a then Some (Some (blit a 0 (s @ take n t @ [0]))) else None) \<and>
    (\<exists>c. strcmp (Some a) (Some b) = Some c \<and> (c = 0 \<longleftrightarrow> s = t) \<and> (c < 0 \<longleftrightarrow> (s, t) \<in> lexord {(x, y). x < y})) \<and>
    (\<exists>c. strncmp (Some a) (Some b) n = Some c \<and> (c = 0 \<longleftrightarrow> take n s = take n t)) \<and>
    strchr (Some a) ch = Some (if ucast ch = (0 :: u8) then Some (length s)
                               else first_index (\<lambda>i. s ! i = ucast ch) 0 (length s)) \<and>
    strstr (Some a) (Some b) = Some (if t = [] then Some 0
                                     else first_index (\<lambda>i. take (length t) (drop i s) = t) 0 (length s))"
proof -
  obtain r r' where ab: "a = s @ 0 # r" "b = t @ 0 # r'" and z: "0 \<notin> set s" "0 \<notin> set t"
    using assms by (auto simp: cstr_def)
  have join: "blit a (length s) xs = blit a 0 (s @ xs)" for xs by (simp add: blit_def ab)
  have "strlen (Some a) = Some (length s)" by (simp add: strlen_def ab strlen_loop_cstr [OF z(1)])
  moreover have "strcpy (Some m) (Some b) = (if length t < length m then Some (Some (blit m 0 (t @ [0]))) else None)"
    by (simp add: strcpy_def with_dest_def ab strcpy_loop_cstr [OF z(2)])
  moreover have "strncpy (Some m) (Some b) n =
      (if n \<le> length m then Some (Some (blit m 0 (take n (t @ replicate n 0)))) else None)"
    by (auto simp: strncpy_def with_dest_def ab strncpy_loop_cstr [OF z(2)])
  moreover have "strcat (Some a) (Some b) =
      (if length (s @ t) < length a then Some (Some (blit a 0 (s @ t @ [0]))) else None)"
    using join [of "t @ [0]"] by (simp add: strcat_def with_dest_def ab strlen_loop_cstr [OF z(1)] strcpy_loop_cstr [OF z(2)])
  moreover have "strncat (Some a) (Some b) n =
      (if length (s @ take n t) < length a then Some (Some (blit a 0 (s @ take n t @ [0]))) else None)"
    using join [of "take n t @ [0]"]
    by (simp add: strncat_def with_dest_def ab strlen_loop_cstr [OF z(1)] strncat_loop_cstr [OF z(2)] min.commute)
  moreover have "\<exists>c. strcmp (Some a) (Some b) = Some c \<and> (c = 0 \<longleftrightarrow> s = t) \<and> (c < 0 \<longleftrightarrow> (s, t) \<in> lexord {(x, y). x < y})"
    using strcmp_loop_cstr [OF z, of r r'] by (simp add: strcmp_def ab) metis
  moreover have "\<exists>c. strncmp (Some a) (Some b) n = Some c \<and> (c = 0 \<longleftrightarrow> take n s = take n t)"
    using strncmp_loop_cstr [OF z, of r r' n] by (simp add: strncmp_def ab) metis
  moreover have "strchr (Some a) ch = Some (if ucast ch = (0 :: u8) then Some (length s)
      else first_index (\<lambda>i. s ! i = ucast ch) 0 (length s))"
    by (simp add: strchr_def ab strchr_loop_cstr [OF z(1)] strchr_loop_end [OF z(1)])
  moreover have "strstr (Some a) (Some b) = Some (if t = [] then Some 0
      else first_index (\<lambda>i. take (length t) (drop i s) = t) 0 (length s))"
    using strstr_loop_cstr [OF z, of r r'] z(2) strlen_loop_cstr [OF z(2), of r']
    by (cases t) (auto simp: strstr_def strlen_def ab)
  ultimately show ?thesis by blast
qed

theorem string_contracts_witness:
  "strlen (Some [104, 105, 0, 7]) = Some 2 \<and> strstr (Some [104, 105, 0, 7]) (Some [105, 0]) = Some (Some 1)"
proof -
  have "cstr [104, 105, 0, 7] [104, 105]" "cstr [105, 0] [105]" by (simp_all add: cstr_def)
  from string_contracts [OF this, of "[]" 0 0] show ?thesis by (simp add: first_index_Suc)
qed

end
