(* ===== verification/Tables.thy ===== *)
theory Tables
  imports Prelude
begin

text \<open>
  Tables kept as an array and a count, searched by a key, filled at the end and closed up on removal:
  the shape of the access control lists, the sandboxes and the role tables. \<open>keyed\<close> is the finite map
  such a table stands for. The locale \<open>bounded_map\<close> is the contract of a table with room for a fixed
  number of keys, with what its clients can rely on.
\<close>

section \<open>Sequences of calls\<close>

text \<open>The codes a sequence of calls returns, and the last state.\<close>

fun calls :: "('c \<Rightarrow> 's \<Rightarrow> error_code_t \<times> 's) \<Rightarrow> 'c list \<Rightarrow> 's \<Rightarrow> error_code_t list \<times> 's" where
  "calls f [] s = ([], s)"
| "calls f (c # cs) s = (case f c s of (err, s) \<Rightarrow> case calls f cs s of (errs, s) \<Rightarrow> (err # errs, s))"

section \<open>Lists with a key\<close>

definition keyed :: "('a \<Rightarrow> 'k) \<Rightarrow> 'a list \<Rightarrow> 'k \<Rightarrow> 'a option" where
  "keyed key xs k = find (\<lambda>x. key x = k) xs"

lemma keyed_None: "keyed key xs k = None \<longleftrightarrow> k \<notin> key ` set xs"
  by (auto simp: keyed_def find_None_iff)

lemma keyed_Some_key: "keyed key xs k = Some x \<Longrightarrow> x \<in> set xs \<and> key x = k"
  by (auto simp: keyed_def find_Some_iff)

lemma keyed_nth: "distinct (map key xs) \<Longrightarrow> i < length xs \<Longrightarrow> keyed key xs (key (xs ! i)) = Some (xs ! i)"
  by (auto simp: keyed_def find_Some_iff distinct_conv_nth intro!: exI [of _ i])

lemma dom_keyed: "dom (keyed key xs) = key ` set xs"
  by (auto simp: dom_def keyed_None simp flip: not_None_eq)

lemma finite_dom_keyed [simp]: "finite (dom (keyed key xs))"
  by (simp add: dom_keyed)

lemma card_dom_keyed: "distinct (map key xs) \<Longrightarrow> card (dom (keyed key xs)) = length xs"
  by (metis dom_keyed distinct_card length_map set_map)

lemma keyed_push: "key x \<notin> key ` set xs \<Longrightarrow> keyed key (xs @ [x]) = (keyed key xs)(key x \<mapsto> x)"
proof
  fix k
  assume "key x \<notin> key ` set xs"
  then show "keyed key (xs @ [x]) k = ((keyed key xs)(key x \<mapsto> x)) k"
    by (induction xs) (auto simp: keyed_def)
qed

lemma distinct_update_same:
  "distinct (map key xs) \<Longrightarrow> i < length xs \<Longrightarrow> key y = key (xs ! i) \<Longrightarrow> distinct (map key (xs[i := y]))"
  by (metis list_update_id map_update nth_map)

lemma keyed_update:
  assumes "distinct (map key xs)" "i < length xs" "key y = key (xs ! i)"
  shows "keyed key (xs[i := y]) = (keyed key xs)(key y \<mapsto> y)"
  using assms
proof (induction xs arbitrary: i)
  case (Cons x xs)
  show ?case
  proof (cases i)
    case 0
    with Cons.prems show ?thesis by (auto simp: keyed_def)
  next
    case (Suc j)
    with Cons have "keyed key (xs[j := y]) = (keyed key xs)(key y \<mapsto> y)" "key x \<noteq> key y" by auto
    with Suc show ?thesis by (auto simp: keyed_def fun_eq_iff)
  qed
qed simp

definition remove_nth :: "nat \<Rightarrow> 'a list \<Rightarrow> 'a list" where
  "remove_nth i xs = take i xs @ drop (Suc i) xs"

lemma distinct_remove_nth: "distinct (map key xs) \<Longrightarrow> distinct (map key (remove_nth i xs))"
proof -
  assume "distinct (map key xs)"
  then have "distinct (take i (map key xs) @ drop (Suc i) (map key xs))"
    using set_take_disj_set_drop_if_distinct [of "map key xs" i "Suc i"] by simp
  then show ?thesis by (simp add: remove_nth_def take_map drop_map)
qed

lemma set_remove_nth: "distinct xs \<Longrightarrow> i < length xs \<Longrightarrow> set (remove_nth i xs) = set xs - {xs ! i}"
proof -
  assume d: "distinct xs" "i < length xs"
  then have "xs = take i xs @ xs ! i # drop (Suc i) xs" by (simp add: id_take_nth_drop)
  with d(1) show ?thesis unfolding remove_nth_def
    by (metis (no_types, lifting) Diff_insert_absorb Un_insert_right distinct_append
        distinct.simps(2) UnE disjoint_insert(1) list.simps(15) set_append)
qed

lemma keyed_remove:
  assumes "distinct (map key xs)" "i < length xs"
  shows "keyed key (remove_nth i xs) = (keyed key xs)(key (xs ! i) := None)"
  using assms
proof (induction xs arbitrary: i)
  case (Cons x xs)
  show ?case
  proof (cases i)
    case 0
    have "keyed key xs (key x) = None" using Cons.prems by (auto simp: keyed_None)
    with 0 show ?thesis by (auto simp: keyed_def remove_nth_def fun_eq_iff)
  next
    case (Suc j)
    with Cons have "keyed key (remove_nth j xs) = (keyed key xs)(key (xs ! j) := None)" "key x \<noteq> key (xs ! j)"
      by auto
    with Suc show ?thesis by (auto simp: keyed_def remove_nth_def fun_eq_iff)
  qed
qed simp

lemma cells_remove: "i < n \<Longrightarrow> cells (shift_down a i n) (n - 1) = remove_nth i (cells a n)"
  unfolding remove_nth_def by (rule cells_shift_down)

text \<open>The search for a key in a table, and the map the table stands for.\<close>

lemma first_index_keyed:
  "keyed key (cells a n) k = map_option a (first_index (\<lambda>i. key (a i) = k) 0 n)"
  by (simp add: keyed_def find_cells)

lemma list_all_update: "list_all P xs \<Longrightarrow> P y \<Longrightarrow> list_all P (xs[i := y])"
  by (auto simp: list_all_iff dest: set_update_subset_insert [THEN subsetD])

lemma list_all_cells: "list_all P (cells a n) \<Longrightarrow> i < n \<Longrightarrow> P (a i)"
  by (auto simp: list_all_iff set_cells)

section \<open>Tables of bounded size\<close>

datatype ('k, 'v) table_op = Insert 'k 'v | Remove 'k

fun map_op :: "('k, 'v) table_op \<Rightarrow> ('k \<Rightarrow> 'v option) \<Rightarrow> 'k \<Rightarrow> 'v option" where
  "map_op (Insert k v) m = m(k \<mapsto> v)"
| "map_op (Remove k) m = m(k := None)"

text \<open>One operation on a table with the given insertion and removal.\<close>

fun table_run ::
  "('k \<Rightarrow> 'v \<Rightarrow> 's \<Rightarrow> error_code_t \<times> 's) \<Rightarrow> ('k \<Rightarrow> 's \<Rightarrow> error_code_t \<times> 's) \<Rightarrow> ('k, 'v) table_op \<Rightarrow> 's \<Rightarrow> 's" where
  "table_run ins del (Insert k v) s = snd (ins k v s)"
| "table_run ins del (Remove k) s = snd (del k s)"

locale bounded_map =
  fixes lookup :: "'s \<Rightarrow> 'k \<Rightarrow> 'v option"
    and insert :: "'k \<Rightarrow> 'v \<Rightarrow> 's \<Rightarrow> error_code_t \<times> 's"
    and remove :: "'k \<Rightarrow> 's \<Rightarrow> error_code_t \<times> 's"
    and inv :: "'s \<Rightarrow> bool" and bound :: nat
  assumes inv_bound: "inv s \<Longrightarrow> finite (dom (lookup s)) \<and> card (dom (lookup s)) \<le> bound"
    and insert_ok: "inv s \<Longrightarrow> insert k v s = (ERR_OK, s') \<Longrightarrow> inv s' \<and> lookup s' = (lookup s)(k \<mapsto> v)"
    and insert_refused: "inv s \<Longrightarrow> insert k v s = (err, s') \<Longrightarrow> err \<noteq> ERR_OK \<Longrightarrow>
      err = ERR_OUT_OF_MEMORY \<and> s' = s \<and> card (dom (lookup s)) = bound"
    and remove_ok: "inv s \<Longrightarrow> remove k s = (err, s') \<Longrightarrow>
      err = (if lookup s k = None then ERR_NOT_FOUND else ERR_OK) \<and> inv s' \<and> lookup s' = (lookup s)(k := None)"
begin

lemma insert_room: "inv s \<Longrightarrow> card (dom (lookup s)) < bound \<Longrightarrow> fst (insert k v s) = ERR_OK"
  using insert_refused [of s k v "fst (insert k v s)" "snd (insert k v s)"] by fastforce

lemma run_inv: "inv s \<Longrightarrow> inv (table_run insert remove op s)"
proof (cases op)
  case (Insert k v)
  then show "inv s \<Longrightarrow> ?thesis"
    using insert_ok [of s k v] insert_refused [of s k v]
    by (cases "insert k v s"; cases "fst (insert k v s) = ERR_OK") auto
next
  case (Remove k)
  then show "inv s \<Longrightarrow> ?thesis" using remove_ok [of s k] by (cases "remove k s") simp
qed

lemma history_inv: "inv s \<Longrightarrow> inv (fold (table_run insert remove) ops s)"
  by (induction ops arbitrary: s) (simp_all add: run_inv)

lemma run_room:
  assumes "inv s" "card (dom (lookup s)) < bound"
  shows "lookup (table_run insert remove op s) = map_op op (lookup s) \<and>
    card (dom (lookup (table_run insert remove op s))) \<le> Suc (card (dom (lookup s)))"
proof -
  have fin: "finite (dom (lookup s))" using inv_bound [OF assms(1)] by simp
  have l: "lookup (table_run insert remove op s) = map_op op (lookup s)"
  proof (cases op)
    case (Insert k v)
    then show ?thesis
      using insert_ok [OF assms(1), of k v] insert_room [OF assms, of k v] by (cases "insert k v s") simp
  next
    case (Remove k)
    then show ?thesis using remove_ok [OF assms(1), of k] by (cases "remove k s") simp
  qed
  have "card (dom (map_op op (lookup s))) \<le> Suc (card (dom (lookup s)))"
    using fin by (cases op) (auto simp: card_insert_if le_SucI card_Diff1_le)
  with l show ?thesis by simp
qed

text \<open>With room for all of them, a history of insertions and removals acts on the map.\<close>

lemma history_lookup:
  assumes "inv s" "card (dom (lookup s)) + length ops \<le> bound"
  shows "lookup (fold (table_run insert remove) ops s) = fold map_op ops (lookup s)"
  using assms
proof (induction ops arbitrary: s)
  case (Cons op ops)
  then have r: "lookup (table_run insert remove op s) = map_op op (lookup s)"
    "card (dom (lookup (table_run insert remove op s))) \<le> Suc (card (dom (lookup s)))"
    using run_room [of s op] by auto
  with Cons run_inv [of s op] show ?case by simp
qed simp

text \<open>An insertion of a new key is undone by its removal.\<close>

lemma insert_remove:
  assumes "inv s" "lookup s k = None" "insert k v s = (ERR_OK, s')"
  shows "fst (remove k s') = ERR_OK \<and> lookup (snd (remove k s')) = lookup s"
  using insert_ok [OF assms(1,3)] remove_ok [of s' k] assms(2)
  by (cases "remove k s'") (auto simp: fun_upd_idem)

end

text \<open>A table that refuses every insertion once it is full.\<close>

fun bounded_op :: "nat \<Rightarrow> ('k, 'v) table_op \<Rightarrow> ('k \<Rightarrow> 'v option) \<Rightarrow> 'k \<Rightarrow> 'v option" where
  "bounded_op n (Insert k v) m = (if card (dom m) < n then m(k \<mapsto> v) else m)"
| "bounded_op n (Remove k) m = m(k := None)"

locale full_map = bounded_map +
  assumes insert_full: "inv s \<Longrightarrow> card (dom (lookup s)) = bound \<Longrightarrow> fst (insert k v s) \<noteq> ERR_OK"
begin

lemma full_run: "inv s \<Longrightarrow> lookup (table_run insert remove op s) = bounded_op bound op (lookup s)"
proof (cases op)
  case (Insert k v)
  assume inv: "inv s"
  show ?thesis
  proof (cases "card (dom (lookup s)) < bound")
    case True
    with inv Insert show ?thesis using run_room [of s op] by simp
  next
    case False
    then have "card (dom (lookup s)) = bound" using inv_bound [OF inv] by simp
    with inv Insert False show ?thesis
      using insert_full [of s k v] insert_refused [of s k v] by (cases "insert k v s") auto
  qed
next
  case (Remove k)
  assume "inv s"
  with Remove show ?thesis using remove_ok [of s k] by (cases "remove k s") simp
qed

lemma full_history: "inv s \<Longrightarrow> lookup (fold (table_run insert remove) ops s) = fold (bounded_op bound) ops (lookup s)"
  by (induction ops arbitrary: s) (simp_all add: full_run run_inv)

end

end
