(* ===== verification/Acl.thy ===== *)
theory Acl
  imports Tables
begin

text \<open>
  File permissions and access control lists, \<^verbatim>\<open>kernel/fs/permissions.c\<close> and \<^verbatim>\<open>kernel/fs/acl.c\<close>. A list
  is an array of 32 entries and a count; \<open>acl_map\<close> is the finite map from type and id to permissions it
  stands for. A NULL pointer is \<open>None\<close>. The lists hold no lock: \<^verbatim>\<open>acl_lock\<close> is initialised and never
  taken.
\<close>

section \<open>Mode bits\<close>

definition PERM_READ :: u16 where "PERM_READ = 0x04"
definition PERM_WRITE :: u16 where "PERM_WRITE = 0x02"
definition PERM_EXECUTE :: u16 where "PERM_EXECUTE = 0x01"
definition PERM_OWNER_READ :: u16 where "PERM_OWNER_READ = push_bit 6 PERM_READ"
definition PERM_OWNER_WRITE :: u16 where "PERM_OWNER_WRITE = push_bit 6 PERM_WRITE"
definition PERM_OWNER_EXECUTE :: u16 where "PERM_OWNER_EXECUTE = push_bit 6 PERM_EXECUTE"
definition PERM_GROUP_READ :: u16 where "PERM_GROUP_READ = push_bit 3 PERM_READ"
definition PERM_GROUP_WRITE :: u16 where "PERM_GROUP_WRITE = push_bit 3 PERM_WRITE"
definition PERM_GROUP_EXECUTE :: u16 where "PERM_GROUP_EXECUTE = push_bit 3 PERM_EXECUTE"
definition PERM_OTHER_READ :: u16 where "PERM_OTHER_READ = push_bit 0 PERM_READ"
definition PERM_OTHER_WRITE :: u16 where "PERM_OTHER_WRITE = push_bit 0 PERM_WRITE"
definition PERM_OTHER_EXECUTE :: u16 where "PERM_OTHER_EXECUTE = push_bit 0 PERM_EXECUTE"

record file_permissions_t =
  mode :: u16
  perm_uid :: u32
  perm_gid :: u32

definition permissions_check_read :: "file_permissions_t option \<Rightarrow> u32 \<Rightarrow> u32 \<Rightarrow> bool" where
  "permissions_check_read perms uid gid =
     (case perms of
        None \<Rightarrow> False
      | Some p \<Rightarrow>
          if uid = 0 then True
          else if uid = perm_uid p then mode p AND PERM_OWNER_READ \<noteq> 0
          else if gid = perm_gid p then mode p AND PERM_GROUP_READ \<noteq> 0
          else mode p AND PERM_OTHER_READ \<noteq> 0)"

definition permissions_check_write :: "file_permissions_t option \<Rightarrow> u32 \<Rightarrow> u32 \<Rightarrow> bool" where
  "permissions_check_write perms uid gid =
     (case perms of
        None \<Rightarrow> False
      | Some p \<Rightarrow>
          if uid = 0 then True
          else if uid = perm_uid p then mode p AND PERM_OWNER_WRITE \<noteq> 0
          else if gid = perm_gid p then mode p AND PERM_GROUP_WRITE \<noteq> 0
          else mode p AND PERM_OTHER_WRITE \<noteq> 0)"

definition permissions_check_execute :: "file_permissions_t option \<Rightarrow> u32 \<Rightarrow> u32 \<Rightarrow> bool" where
  "permissions_check_execute perms uid gid =
     (case perms of
        None \<Rightarrow> False
      | Some p \<Rightarrow>
          if uid = 0 then True
          else if uid = perm_uid p then mode p AND PERM_OWNER_EXECUTE \<noteq> 0
          else if gid = perm_gid p then mode p AND PERM_GROUP_EXECUTE \<noteq> 0
          else mode p AND PERM_OTHER_EXECUTE \<noteq> 0)"

definition permissions_set_mode :: "file_permissions_t option \<Rightarrow> u16 \<Rightarrow> file_permissions_t option" where
  "permissions_set_mode perms m = map_option (\<lambda>p. p\<lparr>mode := m AND 0x0FFF\<rparr>) perms"

definition permissions_set_owner :: "file_permissions_t option \<Rightarrow> u32 \<Rightarrow> u32 \<Rightarrow> file_permissions_t option" where
  "permissions_set_owner perms uid gid = map_option (\<lambda>p. p\<lparr>perm_uid := uid, perm_gid := gid\<rparr>) perms"

section \<open>Access control lists\<close>

definition ACL_ENTRY_USER :: u8 where "ACL_ENTRY_USER = 0x01"
definition ACL_ENTRY_GROUP :: u8 where "ACL_ENTRY_GROUP = 0x02"
definition ACL_ENTRY_OTHER :: u8 where "ACL_ENTRY_OTHER = 0x04"
definition ACL_ENTRY_MASK :: u8 where "ACL_ENTRY_MASK = 0x08"
definition ACL_READ :: u8 where "ACL_READ = 0x04"
definition ACL_WRITE :: u8 where "ACL_WRITE = 0x02"
definition ACL_EXECUTE :: u8 where "ACL_EXECUTE = 0x01"
definition MAX_ACL_ENTRIES :: u32 where "MAX_ACL_ENTRIES = 32"

record acl_entry_t =
  ae_type :: u8
  ae_id :: u32
  ae_perms :: u8

record acl_t =
  entries :: "acl_entry_t array"
  entry_count :: u32

definition acl_create :: "acl_t option \<Rightarrow> error_code_t \<times> acl_t option" where
  "acl_create acl =
     (case acl of
        None \<Rightarrow> (ERR_INVALID_ARG, None)
      | Some a \<Rightarrow> (ERR_OK, Some \<lparr>entries = (\<lambda>_. \<lparr>ae_type = 0, ae_id = 0, ae_perms = 0\<rparr>), entry_count = 0\<rparr>))"

text \<open>The loop that looks for an entry of the given type and id.\<close>

definition acl_find :: "acl_t \<Rightarrow> u8 \<Rightarrow> u32 \<Rightarrow> nat option" where
  "acl_find a t i =
     first_index (\<lambda>k. ae_type (entries a k) = t \<and> ae_id (entries a k) = i) 0 (unat (entry_count a))"

definition acl_put :: "u8 \<times> u32 \<Rightarrow> u8 \<Rightarrow> acl_t \<Rightarrow> error_code_t \<times> acl_t" where
  "acl_put k perms a =
     (case k of (t, i) \<Rightarrow>
        if entry_count a \<ge> MAX_ACL_ENTRIES then (ERR_OUT_OF_MEMORY, a)
        else case acl_find a t i of
          Some j \<Rightarrow> (ERR_OK, a\<lparr>entries := (entries a)(j := (entries a j)\<lparr>ae_perms := perms\<rparr>)\<rparr>)
        | None \<Rightarrow> (ERR_OK, a\<lparr>entries := (entries a)(unat (entry_count a) :=
                              \<lparr>ae_type = t, ae_id = i, ae_perms = perms\<rparr>),
                            entry_count := entry_count a + 1\<rparr>))"

definition acl_add_entry :: "acl_t option \<Rightarrow> u8 \<Rightarrow> u32 \<Rightarrow> u8 \<Rightarrow> error_code_t \<times> acl_t option" where
  "acl_add_entry acl t i perms =
     (case acl of
        None \<Rightarrow> (ERR_INVALID_ARG, None)
      | Some a \<Rightarrow> (case acl_put (t, i) perms a of (err, a) \<Rightarrow> (err, Some a)))"

definition acl_del :: "u8 \<times> u32 \<Rightarrow> acl_t \<Rightarrow> error_code_t \<times> acl_t" where
  "acl_del k a =
     (case k of (t, i) \<Rightarrow>
        case acl_find a t i of
          Some j \<Rightarrow> (ERR_OK, a\<lparr>entries := shift_down (entries a) j (unat (entry_count a)),
                              entry_count := entry_count a - 1\<rparr>)
        | None \<Rightarrow> (ERR_NOT_FOUND, a))"

definition acl_remove_entry :: "acl_t option \<Rightarrow> u8 \<Rightarrow> u32 \<Rightarrow> error_code_t \<times> acl_t option" where
  "acl_remove_entry acl t i =
     (case acl of
        None \<Rightarrow> (ERR_INVALID_ARG, None)
      | Some a \<Rightarrow> (case acl_del (t, i) a of (err, a) \<Rightarrow> (err, Some a)))"

text \<open>The entry is written through a pointer; \<open>want\<close> is whether that pointer is not NULL.\<close>

definition acl_get_entry :: "acl_t option \<Rightarrow> u8 \<Rightarrow> u32 \<Rightarrow> bool \<Rightarrow> error_code_t \<times> acl_entry_t option" where
  "acl_get_entry acl t i want =
     (case acl of
        None \<Rightarrow> (ERR_INVALID_ARG, None)
      | Some a \<Rightarrow>
          if \<not> want then (ERR_INVALID_ARG, None)
          else case acl_find a t i of
            Some j \<Rightarrow> (ERR_OK, Some (entries a j))
          | None \<Rightarrow> (ERR_NOT_FOUND, None))"

definition acl_check_access :: "acl_t option \<Rightarrow> u32 \<Rightarrow> u32 \<Rightarrow> u8 \<Rightarrow> error_code_t" where
  "acl_check_access acl uid gid req =
     (if acl = None then ERR_INVALID_ARG
      else case acl_get_entry acl ACL_ENTRY_USER uid True of
        (ERR_OK, Some user_entry) \<Rightarrow>
          if ae_perms user_entry AND req = req then ERR_OK else ERR_PERMISSION_DENIED
      | _ \<Rightarrow>
          let group_ok =
                (case acl_get_entry acl ACL_ENTRY_GROUP gid True of
                   (ERR_OK, Some group_entry) \<Rightarrow>
                     let effective_perms = ae_perms group_entry;
                         effective_perms =
                           (case acl_get_entry acl ACL_ENTRY_MASK 0 True of
                              (ERR_OK, Some mask_entry) \<Rightarrow> effective_perms AND ae_perms mask_entry
                            | _ \<Rightarrow> effective_perms)
                     in effective_perms AND req = req
                 | _ \<Rightarrow> False)
          in if group_ok then ERR_OK
             else case acl_get_entry acl ACL_ENTRY_OTHER 0 True of
               (ERR_OK, Some other_entry) \<Rightarrow>
                 if ae_perms other_entry AND req = req then ERR_OK else ERR_PERMISSION_DENIED
             | _ \<Rightarrow> ERR_PERMISSION_DENIED)"

definition class_perms :: "u16 \<Rightarrow> u16 \<Rightarrow> u16 \<Rightarrow> u16 \<Rightarrow> u8" where
  "class_perms m r w x =
     (let p = 0;
          p = (if m AND r \<noteq> 0 then p OR ACL_READ else p);
          p = (if m AND w \<noteq> 0 then p OR ACL_WRITE else p)
      in if m AND x \<noteq> 0 then p OR ACL_EXECUTE else p)"

definition acl_set_default :: "acl_t option \<Rightarrow> u16 \<Rightarrow> u32 \<Rightarrow> u32 \<Rightarrow> error_code_t \<times> acl_t option" where
  "acl_set_default acl m uid gid =
     (if acl = None then (ERR_INVALID_ARG, None)
      else
        let acl = snd (acl_create acl);
            acl = snd (acl_add_entry acl ACL_ENTRY_USER uid
                    (class_perms m PERM_OWNER_READ PERM_OWNER_WRITE PERM_OWNER_EXECUTE));
            acl = snd (acl_add_entry acl ACL_ENTRY_GROUP gid
                    (class_perms m PERM_GROUP_READ PERM_GROUP_WRITE PERM_GROUP_EXECUTE));
            acl = snd (acl_add_entry acl ACL_ENTRY_OTHER 0
                    (class_perms m PERM_OTHER_READ PERM_OTHER_WRITE PERM_OTHER_EXECUTE))
        in (ERR_OK, acl))"

section \<open>Refinement of a bounded map\<close>

definition acl_key :: "acl_entry_t \<Rightarrow> u8 \<times> u32" where
  "acl_key e = (ae_type e, ae_id e)"

abbreviation acl_cells :: "acl_t \<Rightarrow> acl_entry_t list" where
  "acl_cells a \<equiv> cells (entries a) (unat (entry_count a))"

definition acl_map :: "acl_t \<Rightarrow> u8 \<times> u32 \<Rightarrow> u8 option" where
  "acl_map a k = map_option ae_perms (keyed acl_key (acl_cells a) k)"

definition acl_inv :: "acl_t \<Rightarrow> bool" where
  "acl_inv a \<longleftrightarrow> entry_count a \<le> MAX_ACL_ENTRIES \<and> distinct (map acl_key (acl_cells a))"

lemma acl_find_keyed: "keyed acl_key (acl_cells a) (t, i) = map_option (entries a) (acl_find a t i)"
  by (simp add: first_index_keyed acl_find_def acl_key_def)

lemma acl_map_find: "acl_map a (t, i) = map_option (\<lambda>j. ae_perms (entries a j)) (acl_find a t i)"
  by (simp add: acl_map_def acl_find_keyed option.map_comp comp_def)

lemma dom_acl_map: "dom (acl_map a) = dom (keyed acl_key (acl_cells a))"
  by (auto simp: acl_map_def dom_def)

lemma acl_find_SomeD:
  assumes "acl_find a t i = Some j"
  shows "j < unat (entry_count a)" "acl_key (entries a j) = (t, i)"
  using assms by (auto simp: acl_find_def first_index_Some_iff acl_key_def)

lemma acl_map_upd:
  "(\<lambda>k. map_option ae_perms ((m(x \<mapsto> e)) k)) = (\<lambda>k. map_option ae_perms (m k))(x \<mapsto> ae_perms e)"
  by auto

lemma acl_put_ok:
  assumes "acl_inv a" "acl_put k p a = (err, a')" "entry_count a < MAX_ACL_ENTRIES"
  shows "err = ERR_OK \<and> acl_inv a' \<and> acl_map a' = (acl_map a)(k \<mapsto> p)"
proof -
  obtain t i where k: "k = (t, i)" by fastforce
  let ?n = "unat (entry_count a)"
  have dist: "distinct (map acl_key (acl_cells a))" using assms(1) by (simp add: acl_inv_def)
  have room: "\<not> MAX_ACL_ENTRIES \<le> entry_count a" using assms(3) by simp
  show ?thesis
  proof (cases "acl_find a t i")
    case None
    let ?e = "\<lparr>ae_type = t, ae_id = i, ae_perms = p\<rparr>"
    have a': "err = ERR_OK" "a' = a\<lparr>entries := (entries a)(?n := ?e), entry_count := entry_count a + 1\<rparr>"
      using assms(2) room None by (auto simp: acl_put_def k)
    have key_new: "acl_key ?e = (t, i)" by (simp add: acl_key_def)
    have new: "acl_key ?e \<notin> acl_key ` set (acl_cells a)"
      using None acl_find_keyed [of a t i] keyed_None [of acl_key "acl_cells a" "(t, i)"] by (simp add: acl_key_def)
    have n: "unat (entry_count a') = Suc ?n" using assms(3) by (simp add: a' unat_succ_less)
    then have c: "acl_cells a' = acl_cells a @ [?e]" by (simp add: a'(2) cells_push)
    have "acl_inv a'"
      using dist new assms(3) c n
      by (auto simp: acl_inv_def word_le_nat_alt word_less_nat_alt distinct_append)
    moreover have "acl_map a' = (acl_map a)(k \<mapsto> p)"
      using keyed_push [OF new] by (auto simp: acl_map_def c k fun_eq_iff key_new)
    ultimately show ?thesis using a'(1) by simp
  next
    case (Some j)
    let ?e = "(entries a j)\<lparr>ae_perms := p\<rparr>"
    note j = acl_find_SomeD [OF Some]
    have a': "err = ERR_OK" "a' = a\<lparr>entries := (entries a)(j := ?e)\<rparr>"
      using assms(2) room Some by (auto simp: acl_put_def k)
    have c: "acl_cells a' = (acl_cells a)[j := ?e]" using j(1) by (simp add: a'(2) cells_upd)
    have key: "acl_key ?e = acl_key (acl_cells a ! j)" using j(1) by (simp add: acl_key_def)
    have "acl_inv a'"
      using distinct_update_same [OF dist _ key] j(1) assms(1) unfolding acl_inv_def c by (simp add: a'(2))
    moreover have "acl_map a' = (acl_map a)(k \<mapsto> p)"
      using keyed_update [OF dist _ key] j key unfolding acl_map_def c by (auto simp: k fun_eq_iff)
    ultimately show ?thesis using a'(1) by simp
  qed
qed

lemma acl_del_ok:
  assumes "acl_inv a" "acl_del k a = (err, a')"
  shows "err = (if acl_map a k = None then ERR_NOT_FOUND else ERR_OK) \<and> acl_inv a' \<and>
    acl_map a' = (acl_map a)(k := None)"
proof -
  obtain t i where k: "k = (t, i)" by fastforce
  let ?n = "unat (entry_count a)"
  have dist: "distinct (map acl_key (acl_cells a))" using assms(1) by (simp add: acl_inv_def)
  show ?thesis
  proof (cases "acl_find a t i")
    case None
    with assms show ?thesis by (auto simp: acl_del_def k acl_map_find fun_eq_iff)
  next
    case (Some j)
    note j = acl_find_SomeD [OF Some]
    have a': "err = ERR_OK" "a' = a\<lparr>entries := shift_down (entries a) j ?n, entry_count := entry_count a - 1\<rparr>"
      using assms(2) Some by (auto simp: acl_del_def k)
    have n: "unat (entry_count a') = ?n - 1" using j(1) by (simp add: a' unat_pred)
    then have c: "acl_cells a' = remove_nth j (acl_cells a)"
      using j(1) by (simp add: a'(2) cells_remove del: One_nat_def)
    have "acl_inv a'"
      using distinct_remove_nth [OF dist, of j] assms(1) n c
      by (simp add: acl_inv_def word_le_nat_alt le_diff_conv)
    moreover have "acl_map a' = (acl_map a)(k := None)"
      using keyed_remove [OF dist, of j] j by (auto simp: acl_map_def c k fun_eq_iff)
    moreover have "acl_map a k \<noteq> None" by (simp add: k acl_map_find Some)
    ultimately show ?thesis using a'(1) by simp
  qed
qed

interpretation acl_table: full_map acl_map acl_put acl_del acl_inv 32
proof
  fix a k p err and a' :: acl_t
  assume inv: "acl_inv a"
  then have len: "card (dom (acl_map a)) = unat (entry_count a)"
    by (simp add: dom_acl_map acl_inv_def card_dom_keyed)
  show "finite (dom (acl_map a)) \<and> card (dom (acl_map a)) \<le> 32"
    using inv len by (simp add: dom_acl_map acl_inv_def MAX_ACL_ENTRIES_def word_le_nat_alt)
  show "acl_inv a' \<and> acl_map a' = (acl_map a)(k \<mapsto> p)" if "acl_put k p a = (ERR_OK, a')"
  proof -
    have "entry_count a < MAX_ACL_ENTRIES" using that by (auto simp: acl_put_def split: if_splits prod.splits)
    with acl_put_ok [OF inv that] show ?thesis by simp
  qed
  show "err = ERR_OUT_OF_MEMORY \<and> a' = a \<and> card (dom (acl_map a)) = 32"
    if "acl_put k p a = (err, a')" "err \<noteq> ERR_OK"
    using that len inv
    by (auto simp: acl_put_def acl_inv_def MAX_ACL_ENTRIES_def word_le_nat_alt split: if_splits prod.splits option.splits)
  show "err = (if acl_map a k = None then ERR_NOT_FOUND else ERR_OK) \<and> acl_inv a' \<and>
      acl_map a' = (acl_map a)(k := None)" if "acl_del k a = (err, a')"
    by (rule acl_del_ok [OF inv that])
  show "fst (acl_put k p a) \<noteq> ERR_OK" if "card (dom (acl_map a)) = 32"
    using that len by (simp add: acl_put_def MAX_ACL_ENTRIES_def word_le_nat_alt split: prod.splits)
qed

section \<open>Properties\<close>

definition acl_empty :: acl_t where
  "acl_empty = \<lparr>entries = (\<lambda>_. \<lparr>ae_type = 0, ae_id = 0, ae_perms = 0\<rparr>), entry_count = 0\<rparr>"

lemma acl_empty_inv [simp]: "acl_inv acl_empty" "acl_map acl_empty = Map.empty"
  by (auto simp: acl_empty_def acl_inv_def acl_map_def keyed_def MAX_ACL_ENTRIES_def)

lemma acl_create_empty: "acl_create (Some a) = (ERR_OK, Some acl_empty)"
  by (simp add: acl_create_def acl_empty_def)

lemma acl_get_entry_map:
  "acl_get_entry (Some a) t i True =
    (case acl_map a (t, i) of
       None \<Rightarrow> (ERR_NOT_FOUND, None)
     | Some p \<Rightarrow> (ERR_OK, Some \<lparr>ae_type = t, ae_id = i, ae_perms = p\<rparr>))"
  using acl_find_SomeD(2) [of a t i]
  by (auto simp: acl_get_entry_def acl_map_find acl_key_def split: option.splits)

text \<open>The operations of the interface on a list.\<close>

fun acl_op :: "(u8 \<times> u32, u8) table_op \<Rightarrow> acl_t option \<Rightarrow> acl_t option" where
  "acl_op (Insert (t, i) p) acl = snd (acl_add_entry acl t i p)"
| "acl_op (Remove (t, i)) acl = snd (acl_remove_entry acl t i)"

lemma acl_op_run: "acl_op op (Some a) = Some (table_run acl_put acl_del op a)"
proof (cases op)
  case (Insert k p)
  then show ?thesis
    by (cases k) (simp add: acl_add_entry_def split: prod.splits)
next
  case (Remove k)
  then show ?thesis
    by (cases k) (simp add: acl_remove_entry_def split: prod.splits)
qed

lemma acl_ops_run: "fold acl_op ops (Some a) = Some (fold (table_run acl_put acl_del) ops a)"
  by (induction ops arbitrary: a) (simp_all add: acl_op_run)

text \<open>
  C23: an access control list is a finite map with room for 32 entries. After \<^verbatim>\<open>acl_create\<close> and any
  sequence of additions and removals, \<^verbatim>\<open>acl_get_entry\<close> finds exactly the entries of the map on which
  an addition sets the permissions of its type and id, unless the map has 32 entries, and a removal
  deletes them.
\<close>

theorem acl_refines_map:
  "acl_get_entry (fold acl_op ops (snd (acl_create (Some a)))) t i True =
    (case fold (bounded_op 32) ops Map.empty (t, i) of
       None \<Rightarrow> (ERR_NOT_FOUND, None)
     | Some p \<Rightarrow> (ERR_OK, Some \<lparr>ae_type = t, ae_id = i, ae_perms = p\<rparr>))"
  using acl_table.full_history [of acl_empty ops]
  by (simp add: acl_create_empty acl_ops_run acl_get_entry_map)

lemma acl_check_access_map:
  "acl_check_access (Some a) uid gid req =
    (case acl_map a (ACL_ENTRY_USER, uid) of
       Some p \<Rightarrow> if p AND req = req then ERR_OK else ERR_PERMISSION_DENIED
     | None \<Rightarrow>
         if (case acl_map a (ACL_ENTRY_GROUP, gid) of
               None \<Rightarrow> False
             | Some p \<Rightarrow> (case acl_map a (ACL_ENTRY_MASK, 0) of None \<Rightarrow> p | Some m \<Rightarrow> p AND m) AND req = req)
         then ERR_OK
         else case acl_map a (ACL_ENTRY_OTHER, 0) of
                None \<Rightarrow> ERR_PERMISSION_DENIED
              | Some p \<Rightarrow> if p AND req = req then ERR_OK else ERR_PERMISSION_DENIED)"
  by (simp add: acl_check_access_def acl_get_entry_map Let_def split: option.splits)

lemma acl_set_default_map:
  "\<exists>d. acl_set_default (Some a) m uid gid = (ERR_OK, Some d) \<and>
    acl_map d = [(ACL_ENTRY_USER, uid) \<mapsto> class_perms m PERM_OWNER_READ PERM_OWNER_WRITE PERM_OWNER_EXECUTE,
      (ACL_ENTRY_GROUP, gid) \<mapsto> class_perms m PERM_GROUP_READ PERM_GROUP_WRITE PERM_GROUP_EXECUTE,
      (ACL_ENTRY_OTHER, 0) \<mapsto> class_perms m PERM_OTHER_READ PERM_OTHER_WRITE PERM_OTHER_EXECUTE]"
proof -
  let ?ops = "[Insert (ACL_ENTRY_USER, uid) (class_perms m PERM_OWNER_READ PERM_OWNER_WRITE PERM_OWNER_EXECUTE),
    Insert (ACL_ENTRY_GROUP, gid) (class_perms m PERM_GROUP_READ PERM_GROUP_WRITE PERM_GROUP_EXECUTE),
    Insert (ACL_ENTRY_OTHER, 0) (class_perms m PERM_OTHER_READ PERM_OTHER_WRITE PERM_OTHER_EXECUTE)]"
  have "acl_set_default (Some a) m uid gid = (ERR_OK, fold acl_op ?ops (snd (acl_create (Some a))))"
    by (simp add: acl_set_default_def)
  also have "\<dots> = (ERR_OK, Some (fold (table_run acl_put acl_del) ?ops acl_empty))"
    by (simp only: acl_create_empty acl_ops_run snd_conv)
  finally show ?thesis
    using acl_table.history_lookup [of acl_empty ?ops] by auto
qed

lemma class_perms_bit:
  "class_perms m r w x AND ACL_READ = ACL_READ \<longleftrightarrow> m AND r \<noteq> 0"
  "class_perms m r w x AND ACL_WRITE = ACL_WRITE \<longleftrightarrow> m AND w \<noteq> 0"
  "class_perms m r w x AND ACL_EXECUTE = ACL_EXECUTE \<longleftrightarrow> m AND x \<noteq> 0"
  by (simp_all add: class_perms_def ACL_READ_def ACL_WRITE_def ACL_EXECUTE_def Let_def)

text \<open>
  C24: the list that \<^verbatim>\<open>acl_set_default\<close> builds from mode bits decides as \<^verbatim>\<open>permissions_check_read\<close>,
  \<^verbatim>\<open>_write\<close> and \<^verbatim>\<open>_execute\<close> do on those mode bits, for every user but root, with one difference: a member
  of the file's group whom the group bits refuse is still let in by the bits for others.
\<close>

theorem acl_default_agrees:
  assumes "uid \<noteq> 0" "file = \<lparr>mode = m, perm_uid = owner, perm_gid = grp\<rparr>"
    and "acl = snd (acl_set_default (Some a) m owner grp)"
  shows "(acl_check_access acl uid gid ACL_READ = ERR_OK \<longleftrightarrow> permissions_check_read (Some file) uid gid \<or>
      uid \<noteq> owner \<and> gid = grp \<and> m AND PERM_OTHER_READ \<noteq> 0) \<and>
    (acl_check_access acl uid gid ACL_WRITE = ERR_OK \<longleftrightarrow> permissions_check_write (Some file) uid gid \<or>
      uid \<noteq> owner \<and> gid = grp \<and> m AND PERM_OTHER_WRITE \<noteq> 0) \<and>
    (acl_check_access acl uid gid ACL_EXECUTE = ERR_OK \<longleftrightarrow> permissions_check_execute (Some file) uid gid \<or>
      uid \<noteq> owner \<and> gid = grp \<and> m AND PERM_OTHER_EXECUTE \<noteq> 0)"
proof -
  obtain d where d: "acl = Some d"
    "acl_map d = [(ACL_ENTRY_USER, owner) \<mapsto> class_perms m PERM_OWNER_READ PERM_OWNER_WRITE PERM_OWNER_EXECUTE,
      (ACL_ENTRY_GROUP, grp) \<mapsto> class_perms m PERM_GROUP_READ PERM_GROUP_WRITE PERM_GROUP_EXECUTE,
      (ACL_ENTRY_OTHER, 0) \<mapsto> class_perms m PERM_OTHER_READ PERM_OTHER_WRITE PERM_OTHER_EXECUTE]"
    using acl_set_default_map [of a m owner grp] assms(3) by auto
  have types: "ACL_ENTRY_USER \<noteq> ACL_ENTRY_GROUP" "ACL_ENTRY_USER \<noteq> ACL_ENTRY_OTHER" "ACL_ENTRY_GROUP \<noteq> ACL_ENTRY_OTHER"
    "ACL_ENTRY_MASK \<noteq> ACL_ENTRY_USER" "ACL_ENTRY_MASK \<noteq> ACL_ENTRY_GROUP" "ACL_ENTRY_MASK \<noteq> ACL_ENTRY_OTHER"
    by (simp_all add: ACL_ENTRY_USER_def ACL_ENTRY_GROUP_def ACL_ENTRY_OTHER_def ACL_ENTRY_MASK_def)
  show ?thesis
    using assms(1) types
    by (auto simp: d acl_check_access_map class_perms_bit assms(2)
        permissions_check_read_def permissions_check_write_def permissions_check_execute_def)
qed

theorem acl_default_agrees_witness:
  "acl_check_access (snd (acl_set_default (Some acl_empty) 0x1A4 7 8)) 7 9 ACL_WRITE = ERR_OK \<and>
   acl_check_access (snd (acl_set_default (Some acl_empty) 0x1A4 7 8)) 5 8 ACL_WRITE \<noteq> ERR_OK"
  using acl_default_agrees [of 7 "\<lparr>mode = 0x1A4, perm_uid = 7, perm_gid = 8\<rparr>" "0x1A4" 7 8 _ acl_empty, OF _ refl refl, of 9]
    acl_default_agrees [of 5 "\<lparr>mode = 0x1A4, perm_uid = 7, perm_gid = 8\<rparr>" "0x1A4" 7 8 _ acl_empty, OF _ refl refl, of 8]
  by (simp add: permissions_check_write_def PERM_OWNER_WRITE_def PERM_GROUP_WRITE_def PERM_OTHER_WRITE_def PERM_WRITE_def)

end
