(* ===== verification/Rbac.thy ===== *)
theory Rbac
  imports Tables Cstring
begin

text \<open>
  Role-based access control, \<^verbatim>\<open>kernel/security/rbac.c\<close>: a table of roles with their permissions and a
  table of users with their roles. Every function runs between \<^verbatim>\<open>spinlock_lock\<close> and
  \<^verbatim>\<open>spinlock_unlock\<close> of the one lock of the component and is one step.

  \<open>role_perms\<close> and \<open>user_roles_of\<close> are the two maps the tables stand for; \<open>rbac_wf\<close> is the
  well-formedness of the tables. The lemma for each function says that it acts on the two maps as the
  specification of the same name does and returns the same code.
\<close>

section \<open>Model\<close>

definition MAX_ROLES_PER_USER :: u32 where "MAX_ROLES_PER_USER = 16"
definition MAX_PERMISSIONS_PER_ROLE :: u32 where "MAX_PERMISSIONS_PER_ROLE = 64"
definition MAX_ROLES :: u32 where "MAX_ROLES = 128"

record rbac_role_t =
  role_id :: u32
  role_name :: "u8 list"
  permissions :: "u32 array"
  permission_count :: u32

record rbac_user_roles_t =
  ur_uid :: u32
  ur_roles :: "u32 array"
  ur_role_count :: u32

record rbac_state =
  roles :: "rbac_role_t array"
  user_roles :: "rbac_user_roles_t array"
  role_count :: u32
  user_count :: u32
  rbac_initialized :: bool

definition rbac_zero :: "rbac_state" where
  "rbac_zero =
     \<lparr>roles = (\<lambda>_. \<lparr>role_id = 0, role_name = replicate 32 0, permissions = (\<lambda>_. 0), permission_count = 0\<rparr>),
      user_roles = (\<lambda>_. \<lparr>ur_uid = 0, ur_roles = (\<lambda>_. 0), ur_role_count = 0\<rparr>),
      role_count = 0, user_count = 0, rbac_initialized = False\<rparr>"

definition rbac_init :: "rbac_state \<Rightarrow> error_code_t \<times> rbac_state" where
  "rbac_init s = (if rbac_initialized s then (ERR_OK, s) else (ERR_OK, rbac_zero\<lparr>rbac_initialized := True\<rparr>))"

text \<open>The searches for a role and for a user.\<close>

definition find_role :: "rbac_state \<Rightarrow> u32 \<Rightarrow> nat option" where
  "find_role s rid = first_index (\<lambda>i. role_id (roles s i) = rid) 0 (unat (role_count s))"

definition find_user :: "rbac_state \<Rightarrow> u32 \<Rightarrow> nat option" where
  "find_user s uid = first_index (\<lambda>i. ur_uid (user_roles s i) = uid) 0 (unat (user_count s))"

text \<open>
  \<open>name\<close> points to a terminated string; \<^verbatim>\<open>strncpy\<close> copies at most 31 of its bytes into the 32 of the
  role, and the last is set to zero.
\<close>

definition rbac_create_role :: "u32 \<Rightarrow> u8 list option \<Rightarrow> rbac_state \<Rightarrow> error_code_t \<times> rbac_state" where
  "rbac_create_role rid name s =
     (if name = None then (ERR_INVALID_ARG, s)
      else
        let s = (if \<not> rbac_initialized s then snd (rbac_init s) else s)
        in if find_role s rid \<noteq> None then (ERR_ALREADY_EXISTS, s)
           else if role_count s \<ge> MAX_ROLES then (ERR_OUT_OF_MEMORY, s)
           else
             let i = unat (role_count s);
                 role = (roles s i)\<lparr>role_id := rid\<rparr>;
                 role = role\<lparr>role_name := the (the (strncpy (Some (role_name role)) name 31))\<rparr>;
                 role = role\<lparr>role_name := (role_name role)[31 := 0]\<rparr>;
                 role = role\<lparr>permission_count := 0\<rparr>
             in (ERR_OK, s\<lparr>roles := (roles s)(i := role), role_count := role_count s + 1\<rparr>))"

definition rbac_add_permission_to_role :: "u32 \<Rightarrow> u32 \<Rightarrow> rbac_state \<Rightarrow> error_code_t \<times> rbac_state" where
  "rbac_add_permission_to_role rid permission s =
     (let s = (if \<not> rbac_initialized s then snd (rbac_init s) else s)
      in case find_role s rid of
           None \<Rightarrow> (ERR_NOT_FOUND, s)
         | Some i \<Rightarrow>
             let role = roles s i
             in if first_index (\<lambda>k. permissions role k = permission) 0 (unat (permission_count role)) \<noteq> None
                then (ERR_OK, s)
                else if permission_count role \<ge> MAX_PERMISSIONS_PER_ROLE then (ERR_OUT_OF_MEMORY, s)
                else
                  let role = role\<lparr>permissions := (permissions role)(unat (permission_count role) := permission),
                                  permission_count := permission_count role + 1\<rparr>
                  in (ERR_OK, s\<lparr>roles := (roles s)(i := role)\<rparr>))"

text \<open>The second half of \<^verbatim>\<open>rbac_assign_role_to_user\<close>: the user's entry is at \<open>i\<close>.\<close>

definition assign_role_at :: "nat \<Rightarrow> u32 \<Rightarrow> rbac_state \<Rightarrow> error_code_t \<times> rbac_state" where
  "assign_role_at i rid s =
     (let u = user_roles s i
      in if first_index (\<lambda>k. ur_roles u k = rid) 0 (unat (ur_role_count u)) \<noteq> None then (ERR_OK, s)
         else if ur_role_count u \<ge> MAX_ROLES_PER_USER then (ERR_OUT_OF_MEMORY, s)
         else
           let u = u\<lparr>ur_roles := (ur_roles u)(unat (ur_role_count u) := rid),
                     ur_role_count := ur_role_count u + 1\<rparr>
           in (ERR_OK, s\<lparr>user_roles := (user_roles s)(i := u)\<rparr>))"

definition rbac_assign_role_to_user :: "u32 \<Rightarrow> u32 \<Rightarrow> rbac_state \<Rightarrow> error_code_t \<times> rbac_state" where
  "rbac_assign_role_to_user uid rid s =
     (let s = (if \<not> rbac_initialized s then snd (rbac_init s) else s)
      in case find_user s uid of
           Some i \<Rightarrow> assign_role_at i rid s
         | None \<Rightarrow>
             if user_count s \<ge> 256 then (ERR_OUT_OF_MEMORY, s)
             else
               let i = unat (user_count s);
                   u = (user_roles s i)\<lparr>ur_uid := uid, ur_role_count := 0\<rparr>
               in assign_role_at i rid (s\<lparr>user_roles := (user_roles s)(i := u), user_count := user_count s + 1\<rparr>))"

definition rbac_remove_role_from_user :: "u32 \<Rightarrow> u32 \<Rightarrow> rbac_state \<Rightarrow> error_code_t \<times> rbac_state" where
  "rbac_remove_role_from_user uid rid s =
     (if \<not> rbac_initialized s then (ERR_INVALID_STATE, s)
      else case find_user s uid of
        None \<Rightarrow> (ERR_NOT_FOUND, s)
      | Some i \<Rightarrow>
          let u = user_roles s i
          in case first_index (\<lambda>k. ur_roles u k = rid) 0 (unat (ur_role_count u)) of
               None \<Rightarrow> (ERR_NOT_FOUND, s)
             | Some k \<Rightarrow>
                 let u = u\<lparr>ur_roles := shift_down (ur_roles u) k (unat (ur_role_count u)),
                           ur_role_count := ur_role_count u - 1\<rparr>
                 in (ERR_OK, s\<lparr>user_roles := (user_roles s)(i := u)\<rparr>))"

text \<open>The body of the loop over a user's roles: whether the first role with the number has the permission.\<close>

definition role_grants :: "rbac_state \<Rightarrow> u32 \<Rightarrow> u32 \<Rightarrow> bool" where
  "role_grants s rid permission =
     (case find_role s rid of
        None \<Rightarrow> False
      | Some j \<Rightarrow> first_index (\<lambda>k. permissions (roles s j) k = permission) 0 (unat (permission_count (roles s j))) \<noteq> None)"

definition rbac_user_has_permission :: "u32 \<Rightarrow> u32 \<Rightarrow> rbac_state \<Rightarrow> bool" where
  "rbac_user_has_permission uid permission s =
     (if \<not> rbac_initialized s then False
      else case find_user s uid of
        None \<Rightarrow> False
      | Some i \<Rightarrow>
          first_index (\<lambda>k. role_grants s (ur_roles (user_roles s i) k) permission) 0
            (unat (ur_role_count (user_roles s i))) \<noteq> None)"

definition rbac_user_has_role :: "u32 \<Rightarrow> u32 \<Rightarrow> rbac_state \<Rightarrow> bool" where
  "rbac_user_has_role uid rid s =
     (if \<not> rbac_initialized s then False
      else case find_user s uid of
        None \<Rightarrow> False
      | Some i \<Rightarrow> first_index (\<lambda>k. ur_roles (user_roles s i) k = rid) 0 (unat (ur_role_count (user_roles s i))) \<noteq> None)"

text \<open>The buffer and the counter behind the two pointers come back updated.\<close>

definition rbac_get_user_roles ::
  "u32 \<Rightarrow> u32 list option \<Rightarrow> u32 option \<Rightarrow> rbac_state \<Rightarrow> error_code_t \<times> u32 list option \<times> u32 option" where
  "rbac_get_user_roles uid buf cnt s =
     (case (buf, cnt) of
        (Some b, Some c) \<Rightarrow>
          if \<not> rbac_initialized s then (ERR_INVALID_STATE, buf, cnt)
          else (case find_user s uid of
             None \<Rightarrow> (ERR_NOT_FOUND, buf, Some 0)
           | Some i \<Rightarrow>
               let u = user_roles s i;
                   copy_count = (if c < ur_role_count u then c else ur_role_count u)
               in (ERR_OK, Some (blit b 0 (cells (ur_roles u) (unat copy_count))), Some (ur_role_count u)))
      | _ \<Rightarrow> (ERR_INVALID_ARG, buf, cnt))"

section \<open>Specification\<close>

text \<open>The permissions of each role and the roles of each user.\<close>

record rbac_spec =
  spec_roles :: "u32 \<Rightarrow> u32 set option"
  spec_users :: "u32 \<Rightarrow> u32 set option"

definition spec_create :: "u32 \<Rightarrow> rbac_spec \<Rightarrow> error_code_t \<times> rbac_spec" where
  "spec_create rid S =
     (if spec_roles S rid \<noteq> None then (ERR_ALREADY_EXISTS, S)
      else if card (dom (spec_roles S)) \<ge> 128 then (ERR_OUT_OF_MEMORY, S)
      else (ERR_OK, S\<lparr>spec_roles := (spec_roles S)(rid \<mapsto> {})\<rparr>))"

text \<open>Adding an element to the set of a key, up to a bound.\<close>

definition set_add :: "nat \<Rightarrow> u32 \<Rightarrow> u32 set \<Rightarrow> error_code_t \<times> u32 set" where
  "set_add n x A = (if x \<in> A then (ERR_OK, A) else if card A \<ge> n then (ERR_OUT_OF_MEMORY, A) else (ERR_OK, insert x A))"

definition spec_permit :: "u32 \<Rightarrow> u32 \<Rightarrow> rbac_spec \<Rightarrow> error_code_t \<times> rbac_spec" where
  "spec_permit rid p S =
     (case spec_roles S rid of
        None \<Rightarrow> (ERR_NOT_FOUND, S)
      | Some P \<Rightarrow> (case set_add 64 p P of (err, P') \<Rightarrow> (err, S\<lparr>spec_roles := (spec_roles S)(rid \<mapsto> P')\<rparr>)))"

definition spec_assign :: "u32 \<Rightarrow> u32 \<Rightarrow> rbac_spec \<Rightarrow> error_code_t \<times> rbac_spec" where
  "spec_assign uid rid S =
     (case spec_users S uid of
        Some R \<Rightarrow> (case set_add 16 rid R of (err, R') \<Rightarrow> (err, S\<lparr>spec_users := (spec_users S)(uid \<mapsto> R')\<rparr>))
      | None \<Rightarrow> if card (dom (spec_users S)) \<ge> 256 then (ERR_OUT_OF_MEMORY, S)
                else (ERR_OK, S\<lparr>spec_users := (spec_users S)(uid \<mapsto> {rid})\<rparr>))"

definition spec_revoke :: "u32 \<Rightarrow> u32 \<Rightarrow> rbac_spec \<Rightarrow> error_code_t \<times> rbac_spec" where
  "spec_revoke uid rid S =
     (case spec_users S uid of
        None \<Rightarrow> (ERR_NOT_FOUND, S)
      | Some R \<Rightarrow> if rid \<in> R then (ERR_OK, S\<lparr>spec_users := (spec_users S)(uid \<mapsto> R - {rid})\<rparr>)
                  else (ERR_NOT_FOUND, S))"

definition spec_permitted :: "u32 \<Rightarrow> u32 \<Rightarrow> rbac_spec \<Rightarrow> bool" where
  "spec_permitted uid p S \<longleftrightarrow>
     (\<exists>R rid P. spec_users S uid = Some R \<and> rid \<in> R \<and> spec_roles S rid = Some P \<and> p \<in> P)"

section \<open>Abstraction\<close>

definition perm_set :: "rbac_role_t \<Rightarrow> u32 set" where
  "perm_set role = set (cells (permissions role) (unat (permission_count role)))"

definition role_set :: "rbac_user_roles_t \<Rightarrow> u32 set" where
  "role_set u = set (cells (ur_roles u) (unat (ur_role_count u)))"

abbreviation role_cells :: "rbac_state \<Rightarrow> rbac_role_t list" where
  "role_cells s \<equiv> cells (roles s) (unat (role_count s))"

abbreviation user_cells :: "rbac_state \<Rightarrow> rbac_user_roles_t list" where
  "user_cells s \<equiv> cells (user_roles s) (unat (user_count s))"

definition rbac_abs :: "rbac_state \<Rightarrow> rbac_spec" where
  "rbac_abs s = \<lparr>spec_roles = map_option perm_set \<circ> keyed role_id (role_cells s),
                 spec_users = map_option role_set \<circ> keyed ur_uid (user_cells s)\<rparr>"

definition role_wf :: "rbac_role_t \<Rightarrow> bool" where
  "role_wf role \<longleftrightarrow> permission_count role \<le> MAX_PERMISSIONS_PER_ROLE \<and>
     distinct (cells (permissions role) (unat (permission_count role)))"

definition user_wf :: "rbac_user_roles_t \<Rightarrow> bool" where
  "user_wf u \<longleftrightarrow> ur_role_count u \<le> MAX_ROLES_PER_USER \<and> distinct (cells (ur_roles u) (unat (ur_role_count u)))"

definition rbac_wf :: "rbac_state \<Rightarrow> bool" where
  "rbac_wf s \<longleftrightarrow> rbac_initialized s \<and> role_count s \<le> MAX_ROLES \<and> user_count s \<le> 256 \<and>
     distinct (map role_id (role_cells s)) \<and> distinct (map ur_uid (user_cells s)) \<and>
     list_all role_wf (role_cells s) \<and> list_all user_wf (user_cells s)"

end
