(* ===== verification/Rbac_Props.thy ===== *)
theory Rbac_Props
  imports Rbac
begin

text \<open>The role tables implement their specification, and stay well-formed.\<close>

section \<open>Updates of the tables\<close>

lemma first_index_mem: "first_index (\<lambda>k. a k = x) 0 n \<noteq> None \<longleftrightarrow> x \<in> set (cells a n)"
  by (auto simp: first_index_None_iff set_cells)

lemma find_role_keyed: "keyed role_id (role_cells s) rid = map_option (roles s) (find_role s rid)"
  by (simp add: first_index_keyed find_role_def)

lemma find_user_keyed: "keyed ur_uid (user_cells s) uid = map_option (user_roles s) (find_user s uid)"
  by (simp add: first_index_keyed find_user_def)

lemma abs_role: "spec_roles (rbac_abs s) rid = map_option (\<lambda>i. perm_set (roles s i)) (find_role s rid)"
  by (simp add: rbac_abs_def find_role_keyed option.map_comp comp_def)

lemma abs_user: "spec_users (rbac_abs s) uid = map_option (\<lambda>i. role_set (user_roles s i)) (find_user s uid)"
  by (simp add: rbac_abs_def find_user_keyed option.map_comp comp_def)

lemma dom_map_option: "dom (map_option f \<circ> m) = dom m"
  by (auto simp: dom_def)

lemma card_roles: "rbac_wf s \<Longrightarrow> card (dom (spec_roles (rbac_abs s))) = unat (role_count s)"
  by (simp add: rbac_abs_def dom_map_option card_dom_keyed rbac_wf_def)

lemma card_users: "rbac_wf s \<Longrightarrow> card (dom (spec_users (rbac_abs s))) = unat (user_count s)"
  by (simp add: rbac_abs_def dom_map_option card_dom_keyed rbac_wf_def)

lemma find_roleD:
  assumes "find_role s rid = Some i"
  shows "i < unat (role_count s)" "role_id (roles s i) = rid"
  using assms by (auto simp: find_role_def first_index_Some_iff)

lemma find_userD:
  assumes "find_user s uid = Some i"
  shows "i < unat (user_count s)" "ur_uid (user_roles s i) = uid"
  using assms by (auto simp: find_user_def first_index_Some_iff)

lemma map_option_upd: "map_option f \<circ> m(k \<mapsto> v) = (map_option f \<circ> m)(k \<mapsto> f v)"
  by auto

lemma role_update:
  assumes "rbac_wf s" "find_role s rid = Some i" "role_wf role" "role_id role = rid"
  shows "rbac_wf (s\<lparr>roles := (roles s)(i := role)\<rparr>) \<and>
    rbac_abs (s\<lparr>roles := (roles s)(i := role)\<rparr>) =
      (rbac_abs s)\<lparr>spec_roles := (spec_roles (rbac_abs s))(rid \<mapsto> perm_set role)\<rparr>"
proof -
  note i = find_roleD [OF assms(2)]
  have d: "distinct (map role_id (role_cells s))" using assms(1) by (simp add: rbac_wf_def)
  have key: "role_id role = role_id (role_cells s ! i)" using i assms(4) by simp
  show ?thesis
    using assms(1,3) i distinct_update_same [OF d _ key] keyed_update [OF d _ key] assms(4)
    by (simp add: rbac_wf_def rbac_abs_def cells_upd list_all_update map_option_upd)
qed

lemma user_update:
  assumes "rbac_wf s" "find_user s uid = Some i" "user_wf u" "ur_uid u = uid"
  shows "rbac_wf (s\<lparr>user_roles := (user_roles s)(i := u)\<rparr>) \<and>
    rbac_abs (s\<lparr>user_roles := (user_roles s)(i := u)\<rparr>) =
      (rbac_abs s)\<lparr>spec_users := (spec_users (rbac_abs s))(uid \<mapsto> role_set u)\<rparr>"
proof -
  note i = find_userD [OF assms(2)]
  have d: "distinct (map ur_uid (user_cells s))" using assms(1) by (simp add: rbac_wf_def)
  have key: "ur_uid u = ur_uid (user_cells s ! i)" using i assms(4) by simp
  show ?thesis
    using assms(1,3) i distinct_update_same [OF d _ key] keyed_update [OF d _ key] assms(4)
    by (simp add: rbac_wf_def rbac_abs_def cells_upd list_all_update map_option_upd)
qed

lemma role_push:
  assumes "rbac_wf s" "find_role s rid = None" "role_wf role" "role_id role = rid" "role_count s < MAX_ROLES"
  shows "rbac_wf (s\<lparr>roles := (roles s)(unat (role_count s) := role), role_count := role_count s + 1\<rparr>) \<and>
    rbac_abs (s\<lparr>roles := (roles s)(unat (role_count s) := role), role_count := role_count s + 1\<rparr>) =
      (rbac_abs s)\<lparr>spec_roles := (spec_roles (rbac_abs s))(rid \<mapsto> perm_set role)\<rparr>"
proof -
  have n: "unat (role_count s + 1) = Suc (unat (role_count s))" by (rule unat_succ_less [OF assms(5)])
  have le: "role_count s + 1 \<le> MAX_ROLES"
    using assms(5) n by (simp add: word_le_nat_alt word_less_nat_alt)
  have new: "role_id role \<notin> role_id ` set (role_cells s)"
    using find_role_keyed [of s rid] assms(2,4) keyed_None [of role_id "role_cells s" rid] by simp
  show ?thesis
    using assms(1,3,4) new keyed_push [OF new] le
    by (simp add: rbac_wf_def rbac_abs_def n cells_push map_option_upd)
qed

lemma user_push:
  assumes "rbac_wf s" "find_user s uid = None" "user_wf u" "ur_uid u = uid" "user_count s < 256"
  shows "rbac_wf (s\<lparr>user_roles := (user_roles s)(unat (user_count s) := u), user_count := user_count s + 1\<rparr>) \<and>
    rbac_abs (s\<lparr>user_roles := (user_roles s)(unat (user_count s) := u), user_count := user_count s + 1\<rparr>) =
      (rbac_abs s)\<lparr>spec_users := (spec_users (rbac_abs s))(uid \<mapsto> role_set u)\<rparr>"
proof -
  have n: "unat (user_count s + 1) = Suc (unat (user_count s))" by (rule unat_succ_less [OF assms(5)])
  have le: "user_count s + 1 \<le> 256"
    using assms(5) n by (simp add: word_le_nat_alt word_less_nat_alt)
  have new: "ur_uid u \<notin> ur_uid ` set (user_cells s)"
    using find_user_keyed [of s uid] assms(2,4) keyed_None [of ur_uid "user_cells s" uid] by simp
  show ?thesis
    using assms(1,3,4) new keyed_push [OF new] le
    by (simp add: rbac_wf_def rbac_abs_def n cells_push map_option_upd)
qed

section \<open>Each function implements its specification\<close>

lemma card_perm_set: "role_wf role \<Longrightarrow> card (perm_set role) = unat (permission_count role)"
  by (simp add: role_wf_def perm_set_def distinct_card)

lemma card_role_set: "user_wf u \<Longrightarrow> card (role_set u) = unat (ur_role_count u)"
  by (simp add: user_wf_def role_set_def distinct_card)

lemma spec_roles_same [simp]: "m k = Some v \<Longrightarrow> S\<lparr>spec_roles := m(k \<mapsto> v)\<rparr> = S\<lparr>spec_roles := m\<rparr>"
  by (simp add: fun_upd_idem)

text \<open>\<open>implements r S\<close>: the result \<open>r\<close> of a function is that of the specification, on a well-formed state.\<close>

definition implements :: "error_code_t \<times> rbac_state \<Rightarrow> error_code_t \<times> rbac_spec \<Rightarrow> bool" where
  "implements r S \<longleftrightarrow> fst r = fst S \<and> rbac_wf (snd r) \<and> rbac_abs (snd r) = snd S"

lemma rbac_create_role_implements:
  assumes "rbac_wf s"
  shows "implements (rbac_create_role rid (Some name) s) (spec_create rid (rbac_abs s))"
proof -
  have init: "rbac_initialized s" using assms by (simp add: rbac_wf_def)
  have full: "MAX_ROLES \<le> role_count s \<longleftrightarrow> 128 \<le> card (dom (spec_roles (rbac_abs s)))"
    by (simp add: card_roles [OF assms] MAX_ROLES_def word_le_nat_alt)
  consider "find_role s rid \<noteq> None" | "find_role s rid = None" "MAX_ROLES \<le> role_count s"
    | "find_role s rid = None" "role_count s < MAX_ROLES" by fastforce
  then show ?thesis
  proof cases
    case 3
    let ?role = "(roles s (unat (role_count s)))\<lparr>role_id := rid,
      role_name := (the (the (strncpy (Some (role_name (roles s (unat (role_count s))))) (Some name) 31)))[31 := 0],
      permission_count := 0\<rparr>"
    have "role_wf ?role" by (simp add: role_wf_def MAX_PERMISSIONS_PER_ROLE_def)
    from role_push [OF assms 3(1) this _ 3(2)] 3 full init show ?thesis
      by (auto simp: implements_def rbac_create_role_def spec_create_def Let_def abs_role perm_set_def)
  qed (use assms init full in \<open>auto simp: implements_def rbac_create_role_def spec_create_def abs_role\<close>)
qed

lemma rbac_add_permission_implements:
  assumes "rbac_wf s"
  shows "implements (rbac_add_permission_to_role rid p s) (spec_permit rid p (rbac_abs s))"
proof (cases "find_role s rid")
  case None
  with assms show ?thesis
    by (simp add: implements_def rbac_add_permission_to_role_def spec_permit_def abs_role rbac_wf_def)
next
  case (Some i)
  let ?role = "roles s i" and ?n = "unat (permission_count (roles s i))"
  have init: "rbac_initialized s" using assms by (simp add: rbac_wf_def)
  have wf: "role_wf ?role"
    using assms list_all_cells [of role_wf "roles s" "unat (role_count s)" i] find_roleD(1) [OF Some] by (simp add: rbac_wf_def)
  have R: "spec_roles (rbac_abs s) rid = Some (perm_set ?role)" by (simp add: abs_role Some)
  have mem: "first_index (\<lambda>k. permissions ?role k = p) 0 ?n \<noteq> None \<longleftrightarrow> p \<in> perm_set ?role"
    by (simp only: first_index_mem perm_set_def)
  have full: "MAX_PERMISSIONS_PER_ROLE \<le> permission_count ?role \<longleftrightarrow> 64 \<le> card (perm_set ?role)"
    by (simp add: card_perm_set [OF wf] MAX_PERMISSIONS_PER_ROLE_def word_le_nat_alt)
  show ?thesis
  proof (cases "p \<in> perm_set ?role \<or> MAX_PERMISSIONS_PER_ROLE \<le> permission_count ?role")
    case True
    with assms init R mem full show ?thesis
      by (auto simp: implements_def rbac_add_permission_to_role_def spec_permit_def set_add_def Some fun_upd_idem)
  next
    case False
    let ?role' = "?role\<lparr>permissions := (permissions ?role)(?n := p), permission_count := permission_count ?role + 1\<rparr>"
    have lt: "permission_count ?role < MAX_PERMISSIONS_PER_ROLE" using False by (simp add: not_le)
    then have n: "unat (permission_count ?role + 1) = Suc ?n" by (rule unat_succ_less)
    have "role_wf ?role'"
      using wf lt n False
      by (auto simp: role_wf_def cells_push perm_set_def word_le_nat_alt word_less_nat_alt)
    moreover have "perm_set ?role' = insert p (perm_set ?role)" by (simp add: perm_set_def n cells_push)
    ultimately show ?thesis
      using role_update [OF assms Some, of ?role'] find_roleD(2) [OF Some] False init R mem full
      by (simp add: implements_def rbac_add_permission_to_role_def spec_permit_def set_add_def Some Let_def)
  qed
qed

lemma assign_role_at_implements:
  assumes "rbac_wf s" "find_user s uid = Some i"
  shows "implements (assign_role_at i rid s)
    (case set_add 16 rid (role_set (user_roles s i)) of
       (err, R) \<Rightarrow> (err, (rbac_abs s)\<lparr>spec_users := (spec_users (rbac_abs s))(uid \<mapsto> R)\<rparr>))"
proof -
  let ?u = "user_roles s i" and ?n = "unat (ur_role_count (user_roles s i))"
  have wf: "user_wf ?u"
    using assms list_all_cells [of user_wf "user_roles s" "unat (user_count s)" i] find_userD(1) [OF assms(2)] by (simp add: rbac_wf_def)
  have U: "spec_users (rbac_abs s) uid = Some (role_set ?u)" by (simp add: abs_user assms(2))
  have mem: "first_index (\<lambda>k. ur_roles ?u k = rid) 0 ?n \<noteq> None \<longleftrightarrow> rid \<in> role_set ?u"
    by (simp only: first_index_mem role_set_def)
  have full: "MAX_ROLES_PER_USER \<le> ur_role_count ?u \<longleftrightarrow> 16 \<le> card (role_set ?u)"
    by (simp add: card_role_set [OF wf] MAX_ROLES_PER_USER_def word_le_nat_alt)
  show ?thesis
  proof (cases "rid \<in> role_set ?u \<or> MAX_ROLES_PER_USER \<le> ur_role_count ?u")
    case True
    with assms U mem full show ?thesis
      by (auto simp: implements_def assign_role_at_def set_add_def fun_upd_idem)
  next
    case False
    let ?u' = "?u\<lparr>ur_roles := (ur_roles ?u)(?n := rid), ur_role_count := ur_role_count ?u + 1\<rparr>"
    have lt: "ur_role_count ?u < MAX_ROLES_PER_USER" using False by (simp add: not_le)
    then have n: "unat (ur_role_count ?u + 1) = Suc ?n" by (rule unat_succ_less)
    have "user_wf ?u'"
      using wf lt n False
      by (auto simp: user_wf_def cells_push role_set_def word_le_nat_alt word_less_nat_alt)
    moreover have "role_set ?u' = insert rid (role_set ?u)" by (simp add: role_set_def n cells_push)
    ultimately show ?thesis
      using user_update [OF assms, of ?u'] find_userD(2) [OF assms(2)] False mem full
      by (simp add: implements_def assign_role_at_def set_add_def Let_def)
  qed
qed

lemma rbac_assign_role_implements:
  assumes "rbac_wf s"
  shows "implements (rbac_assign_role_to_user uid rid s) (spec_assign uid rid (rbac_abs s))"
proof (cases "find_user s uid")
  case (Some i)
  with assms assign_role_at_implements [OF assms Some, of rid] show ?thesis
    by (simp add: rbac_assign_role_to_user_def spec_assign_def abs_user rbac_wf_def)
next
  case None
  have init: "rbac_initialized s" using assms by (simp add: rbac_wf_def)
  have full: "256 \<le> user_count s \<longleftrightarrow> 256 \<le> card (dom (spec_users (rbac_abs s)))"
    by (simp add: card_users [OF assms] word_le_nat_alt)
  show ?thesis
  proof (cases "256 \<le> user_count s")
    case True
    with assms init full None show ?thesis
      by (simp add: implements_def rbac_assign_role_to_user_def spec_assign_def abs_user)
  next
    case False
    let ?i = "unat (user_count s)"
    let ?u = "(user_roles s ?i)\<lparr>ur_uid := uid, ur_role_count := 0\<rparr>"
    let ?s = "s\<lparr>user_roles := (user_roles s)(?i := ?u), user_count := user_count s + 1\<rparr>"
    have u: "user_wf ?u" "role_set ?u = {}" by (simp_all add: user_wf_def role_set_def MAX_ROLES_PER_USER_def)
    then have s: "rbac_wf ?s" "rbac_abs ?s = (rbac_abs s)\<lparr>spec_users := (spec_users (rbac_abs s))(uid \<mapsto> {})\<rparr>"
      using user_push [OF assms None, of ?u] False by simp_all
    have n: "unat (user_count s + 1) = Suc ?i" using False by (intro unat_succ_less [of _ 256]) simp
    have "find_user ?s uid = Some ?i"
      using None by (auto simp: find_user_def first_index_iff n)
    from assign_role_at_implements [OF s(1) this, of rid] show ?thesis
      using False full None init
      by (simp add: implements_def rbac_assign_role_to_user_def spec_assign_def abs_user s(2) set_add_def role_set_def Let_def)
  qed
qed

lemma rbac_remove_role_implements:
  assumes "rbac_wf s"
  shows "implements (rbac_remove_role_from_user uid rid s) (spec_revoke uid rid (rbac_abs s))"
proof (cases "find_user s uid")
  case None
  with assms show ?thesis
    by (simp add: implements_def rbac_remove_role_from_user_def spec_revoke_def abs_user rbac_wf_def)
next
  case (Some i)
  let ?u = "user_roles s i" and ?n = "unat (ur_role_count (user_roles s i))"
  have init: "rbac_initialized s" using assms by (simp add: rbac_wf_def)
  have wf: "user_wf ?u"
    using assms list_all_cells [of user_wf "user_roles s" "unat (user_count s)" i] find_userD(1) [OF Some] by (simp add: rbac_wf_def)
  have mem: "first_index (\<lambda>k. ur_roles ?u k = rid) 0 ?n \<noteq> None \<longleftrightarrow> rid \<in> role_set ?u"
    by (simp only: first_index_mem role_set_def)
  show ?thesis
  proof (cases "first_index (\<lambda>k. ur_roles ?u k = rid) 0 ?n")
    case None
    with assms init mem Some show ?thesis
      by (auto simp: implements_def rbac_remove_role_from_user_def spec_revoke_def abs_user)
  next
    case k: (Some k)
    let ?u' = "?u\<lparr>ur_roles := shift_down (ur_roles ?u) k ?n, ur_role_count := ur_role_count ?u - 1\<rparr>"
    have kn: "k < ?n" "ur_roles ?u k = rid" using k by (auto simp: first_index_Some_iff)
    have n: "unat (ur_role_count ?u - 1) = ?n - 1" using kn by (intro unat_pred) simp
    have c: "cells (shift_down (ur_roles ?u) k ?n) (unat (ur_role_count ?u - 1)) = remove_nth k (cells (ur_roles ?u) ?n)"
      unfolding n by (rule cells_remove [OF kn(1)])
    have d: "distinct (cells (ur_roles ?u) ?n)" using wf by (simp add: user_wf_def)
    have "user_wf ?u'"
      using wf n c distinct_remove_nth [of "\<lambda>x. x" "cells (ur_roles ?u) ?n" k]
      by (simp add: user_wf_def word_le_nat_alt le_diff_conv)
    moreover have "role_set ?u' = role_set ?u - {rid}"
      using set_remove_nth [OF d, of k] kn c by (simp add: role_set_def)
    ultimately show ?thesis
      using user_update [OF assms Some, of ?u'] find_userD(2) [OF Some] init mem k
      by (simp add: implements_def rbac_remove_role_from_user_def spec_revoke_def abs_user Some Let_def)
  qed
qed

lemma rbac_user_has_permission_spec:
  assumes "rbac_wf s"
  shows "rbac_user_has_permission uid p s = spec_permitted uid p (rbac_abs s)"
proof -
  have grants: "role_grants s rid p \<longleftrightarrow> (\<exists>P. spec_roles (rbac_abs s) rid = Some P \<and> p \<in> P)" for rid
  proof (cases "find_role s rid")
    case (Some j)
    then show ?thesis
      unfolding role_grants_def using first_index_mem [of "permissions (roles s j)" p]
      by (simp add: abs_role perm_set_def)
  qed (simp add: role_grants_def abs_role)
  have init: "rbac_initialized s" using assms by (simp add: rbac_wf_def)
  show ?thesis
  proof (cases "find_user s uid")
    case None
    then show ?thesis by (simp add: rbac_user_has_permission_def spec_permitted_def abs_user init)
  next
    case (Some i)
    let ?a = "ur_roles (user_roles s i)" and ?n = "unat (ur_role_count (user_roles s i))"
    have "first_index (\<lambda>k. role_grants s (?a k) p) 0 ?n \<noteq> None \<longleftrightarrow> (\<exists>rid \<in> set (cells ?a ?n). role_grants s rid p)"
      using first_index_cells_None [of "\<lambda>rid. role_grants s rid p" ?a ?n] by simp
    with Some show ?thesis
      by (auto simp: rbac_user_has_permission_def spec_permitted_def abs_user init role_set_def grants)
  qed
qed

section \<open>Properties\<close>

datatype rbac_request = Create u32 "u8 list" | Permit u32 u32 | Assign u32 u32 | Revoke u32 u32

fun rbac_call :: "rbac_request \<Rightarrow> rbac_state \<Rightarrow> error_code_t \<times> rbac_state" where
  "rbac_call (Create rid name) s = rbac_create_role rid (Some name) s"
| "rbac_call (Permit rid p) s = rbac_add_permission_to_role rid p s"
| "rbac_call (Assign uid rid) s = rbac_assign_role_to_user uid rid s"
| "rbac_call (Revoke uid rid) s = rbac_remove_role_from_user uid rid s"

fun spec_call :: "rbac_request \<Rightarrow> rbac_spec \<Rightarrow> error_code_t \<times> rbac_spec" where
  "spec_call (Create rid name) S = spec_create rid S"
| "spec_call (Permit rid p) S = spec_permit rid p S"
| "spec_call (Assign uid rid) S = spec_assign uid rid S"
| "spec_call (Revoke uid rid) S = spec_revoke uid rid S"

lemma rbac_call_implements: "rbac_wf s \<Longrightarrow> implements (rbac_call c s) (spec_call c (rbac_abs s))"
  by (cases c) (simp_all add: rbac_create_role_implements rbac_add_permission_implements
      rbac_assign_role_implements rbac_remove_role_implements)

lemma rbac_calls_implement:
  assumes "rbac_wf s"
  shows "fst (calls rbac_call cs s) = fst (calls spec_call cs (rbac_abs s)) \<and> rbac_wf (snd (calls rbac_call cs s)) \<and>
    rbac_abs (snd (calls rbac_call cs s)) = snd (calls spec_call cs (rbac_abs s))"
  using assms
proof (induction cs arbitrary: s)
  case (Cons c cs)
  obtain err s1 where s1: "rbac_call c s = (err, s1)" by fastforce
  have "spec_call c (rbac_abs s) = (err, rbac_abs s1)" "rbac_wf s1"
    using rbac_call_implements [OF Cons.prems, of c] by (simp_all add: implements_def s1 prod_eq_iff)
  with Cons.IH [of s1] show ?case by (auto simp: s1 split: prod.splits)
qed simp

definition rbac_start :: rbac_state where
  "rbac_start = snd (rbac_init rbac_zero)"

lemma rbac_start_wf: "rbac_wf rbac_start" "rbac_abs rbac_start = \<lparr>spec_roles = Map.empty, spec_users = Map.empty\<rparr>"
  by (auto simp: rbac_start_def rbac_init_def rbac_zero_def rbac_wf_def rbac_abs_def keyed_def fun_eq_iff)

text \<open>
  C25: the role tables implement their specification. After \<^verbatim>\<open>rbac_init\<close>, any sequence of calls that
  create roles, give them permissions, and assign and withdraw roles returns the codes of the
  specification on sets, and then a user has a permission exactly when one of the roles assigned and
  not withdrawn is a created role with that permission.
\<close>

theorem rbac_decides:
  "fst (calls rbac_call cs rbac_start) =
     fst (calls spec_call cs \<lparr>spec_roles = Map.empty, spec_users = Map.empty\<rparr>) \<and>
   rbac_user_has_permission uid p (snd (calls rbac_call cs rbac_start)) =
     spec_permitted uid p (snd (calls spec_call cs \<lparr>spec_roles = Map.empty, spec_users = Map.empty\<rparr>))"
  using rbac_calls_implement [OF rbac_start_wf(1), of cs]
  by (simp add: rbac_start_wf(2) rbac_user_has_permission_spec)

text \<open>
  C26: the tables stay well-formed. After any such sequence the counts are within the arrays, no role
  and no user has two entries, and no role lists a permission twice and no user a role twice.
\<close>

theorem rbac_well_formed: "rbac_wf (snd (calls rbac_call cs rbac_start))"
  using rbac_calls_implement [OF rbac_start_wf(1), of cs] by simp

end
