(* ===== verification/Sandbox.thy ===== *)
theory Sandbox
  imports Tables
begin

text \<open>
  Sandboxes, \<^verbatim>\<open>kernel/security/sandbox.c\<close>: a table of at most 256 processes with limits and current use.
  Creation and removal run under the lock of the table. \<^verbatim>\<open>sandbox_get\<close> looks up an entry under the lock
  and returns its address after releasing it; the checks read through that address without the lock
  and the updates take the lock again. An update is therefore two steps here, the look-up of the index
  and the update of the entry at that index.
\<close>

section \<open>Model\<close>

record sandbox_limits_t =
  max_memory :: size_t
  max_files :: size_t
  max_processes :: u32
  max_fds :: u32
  sb_flags :: u32

record sandbox_t =
  sb_pid :: u32
  limits :: sandbox_limits_t
  current_memory :: size_t
  current_files :: u32
  current_processes :: u32
  current_fds :: u32
  active :: bool

definition MAX_SANDBOXES :: u32 where "MAX_SANDBOXES = 256"

record sandbox_state =
  sandboxes :: "sandbox_t array"
  sandbox_count :: u32
  sandbox_initialized :: bool

definition sandbox_zero :: sandbox_state where
  "sandbox_zero =
     \<lparr>sandboxes = (\<lambda>_. \<lparr>sb_pid = 0,
        limits = \<lparr>max_memory = 0, max_files = 0, max_processes = 0, max_fds = 0, sb_flags = 0\<rparr>,
        current_memory = 0, current_files = 0, current_processes = 0, current_fds = 0, active = False\<rparr>),
      sandbox_count = 0, sandbox_initialized = False\<rparr>"

definition sandbox_init :: "sandbox_state \<Rightarrow> error_code_t \<times> sandbox_state" where
  "sandbox_init s =
     (if sandbox_initialized s then (ERR_OK, s) else (ERR_OK, sandbox_zero\<lparr>sandbox_initialized := True\<rparr>))"

definition find_sandbox :: "sandbox_state \<Rightarrow> pid_t \<Rightarrow> nat option" where
  "find_sandbox s pid = first_index (\<lambda>i. sb_pid (sandboxes s i) = pid) 0 (unat (sandbox_count s))"

definition sandbox_create :: "pid_t \<Rightarrow> sandbox_limits_t option \<Rightarrow> sandbox_state \<Rightarrow> error_code_t \<times> sandbox_state" where
  "sandbox_create pid lim s =
     (case lim of
        None \<Rightarrow> (ERR_INVALID_ARG, s)
      | Some l \<Rightarrow>
          let s = (if \<not> sandbox_initialized s then snd (sandbox_init s) else s)
          in case find_sandbox s pid of
               Some i \<Rightarrow> (ERR_OK, s\<lparr>sandboxes := (sandboxes s)(i := (sandboxes s i)\<lparr>limits := l, active := True\<rparr>)\<rparr>)
             | None \<Rightarrow>
                 if sandbox_count s \<ge> MAX_SANDBOXES then (ERR_OUT_OF_MEMORY, s)
                 else
                   let i = unat (sandbox_count s);
                       sb = (sandboxes s i)\<lparr>sb_pid := pid, limits := l, current_memory := 0, current_files := 0,
                              current_processes := 0, current_fds := 0, active := True\<rparr>
                   in (ERR_OK, s\<lparr>sandboxes := (sandboxes s)(i := sb), sandbox_count := sandbox_count s + 1\<rparr>))"

definition sandbox_destroy :: "pid_t \<Rightarrow> sandbox_state \<Rightarrow> error_code_t \<times> sandbox_state" where
  "sandbox_destroy pid s =
     (if \<not> sandbox_initialized s then (ERR_INVALID_STATE, s)
      else case find_sandbox s pid of
        Some i \<Rightarrow> (ERR_OK, s\<lparr>sandboxes := shift_down (sandboxes s) i (unat (sandbox_count s)),
                           sandbox_count := sandbox_count s - 1\<rparr>)
      | None \<Rightarrow> (ERR_NOT_FOUND, s))"

definition sandbox_get :: "pid_t \<Rightarrow> sandbox_state \<Rightarrow> nat option" where
  "sandbox_get pid s =
     (if \<not> sandbox_initialized s then None
      else first_index (\<lambda>i. sb_pid (sandboxes s i) = pid \<and> active (sandboxes s i)) 0 (unat (sandbox_count s)))"

definition sandbox_check_memory :: "pid_t \<Rightarrow> size_t \<Rightarrow> sandbox_state \<Rightarrow> error_code_t" where
  "sandbox_check_memory pid requested s =
     (case sandbox_get pid s of
        None \<Rightarrow> ERR_OK
      | Some i \<Rightarrow>
          if current_memory (sandboxes s i) + requested > max_memory (limits (sandboxes s i))
          then ERR_OUT_OF_MEMORY else ERR_OK)"

definition sandbox_check_file :: "pid_t \<Rightarrow> sandbox_state \<Rightarrow> error_code_t" where
  "sandbox_check_file pid s =
     (case sandbox_get pid s of
        None \<Rightarrow> ERR_OK
      | Some i \<Rightarrow>
          if ucast (current_files (sandboxes s i)) \<ge> max_files (limits (sandboxes s i))
          then ERR_OUT_OF_MEMORY else ERR_OK)"

definition sandbox_check_process :: "pid_t \<Rightarrow> sandbox_state \<Rightarrow> error_code_t" where
  "sandbox_check_process pid s =
     (case sandbox_get pid s of
        None \<Rightarrow> ERR_OK
      | Some i \<Rightarrow>
          if current_processes (sandboxes s i) \<ge> max_processes (limits (sandboxes s i))
          then ERR_OUT_OF_MEMORY else ERR_OK)"

definition sandbox_check_fd :: "pid_t \<Rightarrow> sandbox_state \<Rightarrow> error_code_t" where
  "sandbox_check_fd pid s =
     (case sandbox_get pid s of
        None \<Rightarrow> ERR_OK
      | Some i \<Rightarrow>
          if current_fds (sandboxes s i) \<ge> max_fds (limits (sandboxes s i))
          then ERR_OUT_OF_MEMORY else ERR_OK)"

definition sandbox_check_flag :: "pid_t \<Rightarrow> u32 \<Rightarrow> sandbox_state \<Rightarrow> error_code_t" where
  "sandbox_check_flag pid flag s =
     (case sandbox_get pid s of
        None \<Rightarrow> ERR_OK
      | Some i \<Rightarrow> if sb_flags (limits (sandboxes s i)) AND flag = 0 then ERR_PERMISSION_DENIED else ERR_OK)"

text \<open>
  The body of every update: a signed \<open>delta\<close> is refused when it is positive and the new value is over
  the limit, and a value below zero becomes zero.
\<close>

definition bump :: "'a::len word \<Rightarrow> ('a word \<Rightarrow> bool) \<Rightarrow> 'a word \<Rightarrow> 'a word option" where
  "bump current over delta =
     (if sint delta > 0 \<and> over (current + delta) then None
      else if sint delta < 0 \<and> current < - delta then Some 0
      else Some (current + delta))"

text \<open>The second half of an update, with the lock held: the entry at \<open>i\<close>.\<close>

definition update_memory_at :: "nat \<Rightarrow> u64 \<Rightarrow> sandbox_state \<Rightarrow> error_code_t \<times> sandbox_state" where
  "update_memory_at i delta s =
     (let sb = sandboxes s i in
      case bump (current_memory sb) (\<lambda>n. n > max_memory (limits sb)) delta of
        None \<Rightarrow> (ERR_OUT_OF_MEMORY, s)
      | Some n \<Rightarrow> (ERR_OK, s\<lparr>sandboxes := (sandboxes s)(i := sb\<lparr>current_memory := n\<rparr>)\<rparr>))"

definition update_files_at :: "nat \<Rightarrow> u32 \<Rightarrow> sandbox_state \<Rightarrow> error_code_t \<times> sandbox_state" where
  "update_files_at i delta s =
     (let sb = sandboxes s i in
      case bump (current_files sb) (\<lambda>n. ucast n > max_files (limits sb)) delta of
        None \<Rightarrow> (ERR_OUT_OF_MEMORY, s)
      | Some n \<Rightarrow> (ERR_OK, s\<lparr>sandboxes := (sandboxes s)(i := sb\<lparr>current_files := n\<rparr>)\<rparr>))"

definition update_processes_at :: "nat \<Rightarrow> u32 \<Rightarrow> sandbox_state \<Rightarrow> error_code_t \<times> sandbox_state" where
  "update_processes_at i delta s =
     (let sb = sandboxes s i in
      case bump (current_processes sb) (\<lambda>n. n > max_processes (limits sb)) delta of
        None \<Rightarrow> (ERR_OUT_OF_MEMORY, s)
      | Some n \<Rightarrow> (ERR_OK, s\<lparr>sandboxes := (sandboxes s)(i := sb\<lparr>current_processes := n\<rparr>)\<rparr>))"

definition update_fds_at :: "nat \<Rightarrow> u32 \<Rightarrow> sandbox_state \<Rightarrow> error_code_t \<times> sandbox_state" where
  "update_fds_at i delta s =
     (let sb = sandboxes s i in
      case bump (current_fds sb) (\<lambda>n. n > max_fds (limits sb)) delta of
        None \<Rightarrow> (ERR_OUT_OF_MEMORY, s)
      | Some n \<Rightarrow> (ERR_OK, s\<lparr>sandboxes := (sandboxes s)(i := sb\<lparr>current_fds := n\<rparr>)\<rparr>))"

text \<open>The updates when nothing else runs between their two steps.\<close>

definition with_sandbox ::
  "pid_t \<Rightarrow> (nat \<Rightarrow> sandbox_state \<Rightarrow> error_code_t \<times> sandbox_state) \<Rightarrow> sandbox_state \<Rightarrow> error_code_t \<times> sandbox_state" where
  "with_sandbox pid f s = (case sandbox_get pid s of None \<Rightarrow> (ERR_OK, s) | Some i \<Rightarrow> f i s)"

definition sandbox_update_memory :: "pid_t \<Rightarrow> u64 \<Rightarrow> sandbox_state \<Rightarrow> error_code_t \<times> sandbox_state" where
  "sandbox_update_memory pid delta = with_sandbox pid (\<lambda>i. update_memory_at i delta)"

definition sandbox_update_files :: "pid_t \<Rightarrow> u32 \<Rightarrow> sandbox_state \<Rightarrow> error_code_t \<times> sandbox_state" where
  "sandbox_update_files pid delta = with_sandbox pid (\<lambda>i. update_files_at i delta)"

definition sandbox_update_processes :: "pid_t \<Rightarrow> u32 \<Rightarrow> sandbox_state \<Rightarrow> error_code_t \<times> sandbox_state" where
  "sandbox_update_processes pid delta = with_sandbox pid (\<lambda>i. update_processes_at i delta)"

definition sandbox_update_fds :: "pid_t \<Rightarrow> u32 \<Rightarrow> sandbox_state \<Rightarrow> error_code_t \<times> sandbox_state" where
  "sandbox_update_fds pid delta = with_sandbox pid (\<lambda>i. update_fds_at i delta)"

section \<open>Signed changes of a counter\<close>

lemma of_int_sint_same: "of_int (sint w) = (w :: 'a::len word)"
  by (simp only: of_int_sint scast_id)

lemma uint_of_int: "0 \<le> k \<Longrightarrow> k < 2 ^ LENGTH('a) \<Longrightarrow> uint (of_int k :: 'a::len word) = k"
  by (simp add: unsigned_of_int take_bit_int_eq_self)

lemma sint_bounds:
  "- (2 ^ (LENGTH('a) - 1)) \<le> sint (w :: 'a::len word)" "sint w < 2 ^ (LENGTH('a) - 1)"
  using sint_greater_eq [of w] sint_less [of w] by simp_all

lemma half_range: "(2 :: int) ^ LENGTH('a::len) = 2 * 2 ^ (LENGTH('a) - 1)"
  by (metis One_nat_def Suc_pred len_gt_0 power_Suc)

lemma uint_minus_sint:
  assumes "sint (w :: 'a::len word) < 0"
  shows "uint (- w) = - sint w"
proof -
  have "- w = of_int (- sint w)" by (simp only: of_int_minus of_int_sint_same)
  moreover have "- sint w < 2 ^ LENGTH('a)"
    using sint_bounds(1) [of w] zero_less_power [of "2 :: int" "LENGTH('a) - 1"] unfolding half_range by linarith
  ultimately show ?thesis using assms uint_of_int [of "- sint w", where 'a = 'a] by (simp only:)
qed

text \<open>With a limit below half the range, \<open>bump\<close> is exact: no sum wraps.\<close>

lemma bump_exact:
  fixes c d :: "'a::len word"
  assumes "uint c \<le> B" "B < 2 ^ (LENGTH('a) - 1)" "\<And>n. over n \<longleftrightarrow> B < uint n"
  shows "bump c over d = (if B < uint c + sint d then None else Some (of_int (max 0 (uint c + sint d))))"
proof -
  have sum: "c + d = of_int (uint c + sint d)"
    by (simp only: of_int_add of_int_sint_same of_int_uint ucast_id)
  consider "0 < sint d" | "sint d < 0" | "sint d = 0" by linarith
  then show ?thesis
  proof cases
    case 1
    have "uint c + sint d < 2 ^ LENGTH('a)"
      using assms(1,2) sint_bounds(2) [of d] unfolding half_range by linarith
    then have "uint (c + d) = uint c + sint d"
      unfolding sum using 1 by (intro uint_of_int) simp_all
    with 1 assms(3) [of "c + d"] show ?thesis by (simp add: bump_def max_def)
  next
    case 2
    have "c < - d \<longleftrightarrow> uint c < - sint d" by (simp only: word_less_def uint_minus_sint [OF 2])
    with 2 assms(1) show ?thesis by (auto simp: bump_def max_def)
  next
    case 3
    then have "d = 0" using of_int_sint_same [of d] by simp
    with 3 assms(1) show ?thesis by (simp add: bump_def)
  qed
qed

section \<open>The table\<close>

abbreviation sandbox_cells :: "sandbox_state \<Rightarrow> sandbox_t list" where
  "sandbox_cells s \<equiv> cells (sandboxes s) (unat (sandbox_count s))"

definition sandbox_inv :: "sandbox_state \<Rightarrow> bool" where
  "sandbox_inv s \<longleftrightarrow> sandbox_initialized s \<and> sandbox_count s \<le> MAX_SANDBOXES \<and>
     distinct (map sb_pid (sandbox_cells s)) \<and> list_all active (sandbox_cells s)"

definition sandbox_of :: "sandbox_state \<Rightarrow> pid_t \<Rightarrow> sandbox_t option" where
  "sandbox_of s = keyed sb_pid (sandbox_cells s)"

definition limits_of :: "sandbox_state \<Rightarrow> pid_t \<Rightarrow> sandbox_limits_t option" where
  "limits_of s = map_option limits \<circ> sandbox_of s"

lemma sandbox_of_find: "sandbox_of s pid = map_option (sandboxes s) (find_sandbox s pid)"
  by (simp add: sandbox_of_def first_index_keyed find_sandbox_def)

lemma find_sandboxD:
  assumes "find_sandbox s pid = Some i"
  shows "i < unat (sandbox_count s)" "sb_pid (sandboxes s i) = pid"
  using assms by (auto simp: find_sandbox_def first_index_Some_iff)

lemma sandbox_get_find: "sandbox_inv s \<Longrightarrow> sandbox_get pid s = find_sandbox s pid"
  unfolding sandbox_get_def find_sandbox_def sandbox_inv_def
  by (auto intro!: first_index_cong simp: list_all_iff set_cells)

lemma sandbox_update_entry:
  assumes "sandbox_inv s" "find_sandbox s pid = Some i" "sb_pid sb = pid" "active sb"
  shows "sandbox_inv (s\<lparr>sandboxes := (sandboxes s)(i := sb)\<rparr>) \<and>
    sandbox_of (s\<lparr>sandboxes := (sandboxes s)(i := sb)\<rparr>) = (sandbox_of s)(pid \<mapsto> sb)"
proof -
  note i = find_sandboxD [OF assms(2)]
  have d: "distinct (map sb_pid (sandbox_cells s))" using assms(1) by (simp add: sandbox_inv_def)
  have key: "sb_pid sb = sb_pid (sandbox_cells s ! i)" using i assms(3) by simp
  have "list_all active ((sandbox_cells s)[i := sb])"
    using assms(1,4) by (auto simp: sandbox_inv_def list_all_iff dest: set_update_subset_insert [THEN subsetD])
  then show ?thesis
    using assms(1,3) i distinct_update_same [OF d _ key] keyed_update [OF d _ key]
    by (simp add: sandbox_inv_def sandbox_of_def cells_upd)
qed

lemma sandbox_create_new:
  assumes "sandbox_inv s" "find_sandbox s pid = None" "sandbox_count s < MAX_SANDBOXES"
    and "sandbox_create pid (Some l) s = (err, s')"
  obtains sb where "err = ERR_OK" "sandbox_inv s'" "sandbox_of s' = (sandbox_of s)(pid \<mapsto> sb)" "limits sb = l"
    "current_memory sb = 0" "current_files sb = 0" "current_processes sb = 0" "current_fds sb = 0"
proof -
  let ?i = "unat (sandbox_count s)"
  let ?sb = "(sandboxes s ?i)\<lparr>sb_pid := pid, limits := l, current_memory := 0, current_files := 0,
    current_processes := 0, current_fds := 0, active := True\<rparr>"
  have init: "sandbox_initialized s" using assms(1) by (simp add: sandbox_inv_def)
  have room: "\<not> MAX_SANDBOXES \<le> sandbox_count s" using assms(3) by simp
  have s': "err = ERR_OK" "s' = s\<lparr>sandboxes := (sandboxes s)(?i := ?sb), sandbox_count := sandbox_count s + 1\<rparr>"
    using assms(2,4) init room by (auto simp: sandbox_create_def Let_def)
  have n: "unat (sandbox_count s + 1) = Suc ?i" by (rule unat_succ_less [OF assms(3)])
  have le: "sandbox_count s + 1 \<le> MAX_SANDBOXES" using assms(3) n by (simp add: word_le_nat_alt word_less_nat_alt)
  have new: "sb_pid ?sb \<notin> sb_pid ` set (sandbox_cells s)"
    using sandbox_of_find [of s pid] assms(2) keyed_None [of sb_pid "sandbox_cells s" pid] by (simp add: sandbox_of_def)
  have "sandbox_inv s'" using assms(1) new le by (simp add: sandbox_inv_def s'(2) n cells_push)
  moreover have "sandbox_of s' = (sandbox_of s)(pid \<mapsto> ?sb)"
    using keyed_push [OF new] by (simp add: sandbox_of_def s'(2) n cells_push)
  ultimately show ?thesis using that s'(1) by simp
qed

lemma sandbox_destroy_ok:
  assumes "sandbox_inv s" "sandbox_destroy pid s = (err, s')"
  shows "err = (if sandbox_of s pid = None then ERR_NOT_FOUND else ERR_OK) \<and> sandbox_inv s' \<and>
    sandbox_of s' = (sandbox_of s)(pid := None)"
proof -
  have init: "sandbox_initialized s" and d: "distinct (map sb_pid (sandbox_cells s))"
    using assms(1) by (simp_all add: sandbox_inv_def)
  show ?thesis
  proof (cases "find_sandbox s pid")
    case None
    with assms init show ?thesis by (auto simp: sandbox_destroy_def sandbox_of_find fun_eq_iff)
  next
    case (Some i)
    let ?n = "unat (sandbox_count s)"
    note i = find_sandboxD [OF Some]
    have s': "err = ERR_OK" "s' = s\<lparr>sandboxes := shift_down (sandboxes s) i ?n, sandbox_count := sandbox_count s - 1\<rparr>"
      using assms(2) init Some by (auto simp: sandbox_destroy_def)
    have n: "unat (sandbox_count s - 1) = ?n - 1" using i(1) by (intro unat_pred) simp
    have c: "sandbox_cells s' = remove_nth i (sandbox_cells s)"
      unfolding s'(2) by (simp add: n cells_remove [OF i(1), simplified One_nat_def])
    have "set (remove_nth i (sandbox_cells s)) \<subseteq> set (sandbox_cells s)"
      by (auto simp: remove_nth_def dest: in_set_takeD in_set_dropD)
    then have "sandbox_inv s'"
      using assms(1) distinct_remove_nth [OF d, of i] n unfolding sandbox_inv_def c
      by (auto simp: s'(2) word_le_nat_alt le_diff_conv list_all_iff)
    moreover have "sandbox_of s' = (sandbox_of s)(pid := None)"
      using keyed_remove [OF d, of i] i by (simp add: sandbox_of_def c)
    ultimately show ?thesis using s'(1) Some by (simp add: sandbox_of_find)
  qed
qed

lemma sandbox_create_old:
  assumes "sandbox_inv s" "find_sandbox s pid = Some i" "sandbox_create pid (Some l) s = (err, s')"
  shows "err = ERR_OK \<and> sandbox_inv s' \<and> sandbox_of s' = (sandbox_of s)(pid \<mapsto> (sandboxes s i)\<lparr>limits := l, active := True\<rparr>)"
  using sandbox_update_entry [OF assms(1,2), of "(sandboxes s i)\<lparr>limits := l, active := True\<rparr>"] assms
    find_sandboxD(2) [OF assms(2)]
  by (auto simp: sandbox_create_def sandbox_inv_def Let_def)

lemma card_limits: "sandbox_inv s \<Longrightarrow> card (dom (limits_of s)) = unat (sandbox_count s)"
proof -
  have "dom (limits_of s) = dom (sandbox_of s)" by (auto simp: limits_of_def dom_def)
  then show "sandbox_inv s \<Longrightarrow> ?thesis" by (simp add: sandbox_of_def card_dom_keyed sandbox_inv_def)
qed

lemma limits_upd: "sandbox_of s' = (sandbox_of s)(pid \<mapsto> sb) \<Longrightarrow> limits_of s' = (limits_of s)(pid \<mapsto> limits sb)"
  by (auto simp: limits_of_def)

interpretation sandbox_table: bounded_map limits_of "\<lambda>pid l. sandbox_create pid (Some l)" sandbox_destroy sandbox_inv 256
proof
  fix s pid l err and s' :: sandbox_state
  assume inv: "sandbox_inv s"
  note len = card_limits [OF inv]
  show "finite (dom (limits_of s)) \<and> card (dom (limits_of s)) \<le> 256"
  proof
    have "dom (limits_of s) = dom (sandbox_of s)" by (auto simp: limits_of_def dom_def)
    then show "finite (dom (limits_of s))" by (simp add: sandbox_of_def)
    show "card (dom (limits_of s)) \<le> 256"
      using inv by (simp add: len sandbox_inv_def MAX_SANDBOXES_def word_le_nat_alt)
  qed
  show "sandbox_inv s' \<and> limits_of s' = (limits_of s)(pid \<mapsto> l)" if c: "sandbox_create pid (Some l) s = (ERR_OK, s')"
  proof (cases "find_sandbox s pid")
    case None
    have "sandbox_count s < MAX_SANDBOXES"
      using c None inv by (auto simp: sandbox_create_def sandbox_inv_def Let_def split: if_splits)
    from sandbox_create_new [OF inv None this c] show ?thesis by (metis limits_upd)
  next
    case (Some i)
    from sandbox_create_old [OF inv this c] show ?thesis by (auto dest: limits_upd)
  qed
  show "err = ERR_OUT_OF_MEMORY \<and> s' = s \<and> card (dom (limits_of s)) = 256"
    if "sandbox_create pid (Some l) s = (err, s')" "err \<noteq> ERR_OK"
    using that inv len
    by (auto simp: sandbox_create_def sandbox_inv_def MAX_SANDBOXES_def word_le_nat_alt Let_def split: if_splits option.splits)
  show "err = (if limits_of s pid = None then ERR_NOT_FOUND else ERR_OK) \<and> sandbox_inv s' \<and>
      limits_of s' = (limits_of s)(pid := None)" if "sandbox_destroy pid s = (err, s')"
    using sandbox_destroy_ok [OF inv that] by (auto simp: limits_of_def fun_eq_iff)
qed

end
