(* ===== verification/Sandbox_Props.thy ===== *)
theory Sandbox_Props
  imports Sandbox
begin

text \<open>
  No sandbox ever uses more than its limits, in any interleaving of the steps of the component, as long
  as the limits are below half the range of their counters and are not changed while in use.
\<close>

section \<open>Steps\<close>

definition sane_limits :: "sandbox_limits_t \<Rightarrow> bool" where
  "sane_limits l \<longleftrightarrow> uint (max_memory l) < 2 ^ 63 \<and> uint (max_files l) < 2 ^ 31 \<and>
     uint (max_processes l) < 2 ^ 31 \<and> uint (max_fds l) < 2 ^ 31"

text \<open>
  An update changes the entry at an index that some earlier \<^verbatim>\<open>sandbox_get\<close> returned: any index, since
  entries may have been removed in between.
\<close>

inductive sandbox_step :: "sandbox_state \<Rightarrow> sandbox_state \<Rightarrow> bool" where
  create: "find_sandbox s pid = None \<Longrightarrow> sane_limits l \<Longrightarrow> sandbox_step s (snd (sandbox_create pid (Some l) s))"
| destroy: "sandbox_step s (snd (sandbox_destroy pid s))"
| memory: "sandbox_step s (snd (update_memory_at i d s))"
| files: "sandbox_step s (snd (update_files_at i d s))"
| processes: "sandbox_step s (snd (update_processes_at i d s))"
| fds: "sandbox_step s (snd (update_fds_at i d s))"

definition within :: "sandbox_t \<Rightarrow> bool" where
  "within sb \<longleftrightarrow> sane_limits (limits sb) \<and> uint (current_memory sb) \<le> uint (max_memory (limits sb)) \<and>
     uint (current_files sb) \<le> uint (max_files (limits sb)) \<and>
     uint (current_processes sb) \<le> uint (max_processes (limits sb)) \<and>
     uint (current_fds sb) \<le> uint (max_fds (limits sb))"

definition sandbox_safe :: "sandbox_state \<Rightarrow> bool" where
  "sandbox_safe s \<longleftrightarrow> sandbox_inv s \<and> list_all within (sandbox_cells s)"

lemma safe_entry:
  assumes "sandbox_safe s" "sb_pid sb = sb_pid (sandboxes s i)" "active sb = active (sandboxes s i)"
    and "within (sandboxes s i) \<Longrightarrow> within sb"
  shows "sandbox_safe (s\<lparr>sandboxes := (sandboxes s)(i := sb)\<rparr>)"
proof (cases "i < unat (sandbox_count s)")
  case True
  have all: "list_all within (sandbox_cells s)" "list_all active (sandbox_cells s)"
    "distinct (map sb_pid (sandbox_cells s))"
    using assms(1) by (simp_all add: sandbox_safe_def sandbox_inv_def)
  then have "within sb" "active sb" using True assms by (auto dest: list_all_cells)
  then show ?thesis
    using assms(1,2) True all distinct_update_same [OF all(3), of i sb]
    by (simp add: sandbox_safe_def sandbox_inv_def cells_upd list_all_update)
next
  case False
  with assms(1) show ?thesis by (simp add: sandbox_safe_def sandbox_inv_def)
qed

lemma uint_bumped:
  assumes "uint c \<le> uint (B :: 'b::len word)" "uint B < 2 ^ (LENGTH('a) - 1)"
    and "bump (c :: 'a::len word) over d = Some n" "\<And>n. over n \<longleftrightarrow> uint B < uint n"
  shows "uint n \<le> uint B"
proof -
  let ?n = "max 0 (uint c + sint d)"
  have n: "?n \<le> uint B" "n = of_int ?n"
    using bump_exact [OF assms(1,2,4), of d] assms(1,3) by (auto split: if_splits simp: max_def)
  then have "?n < 2 ^ LENGTH('a)" using assms(2) zero_le_power [of "2 :: int" "LENGTH('a) - 1"] unfolding half_range by linarith
  then have "uint n = ?n" unfolding n(2) by (intro uint_of_int) simp_all
  with n(1) show ?thesis by simp
qed

lemma safe_updates:
  assumes "sandbox_safe s"
  shows "sandbox_safe (snd (update_memory_at i d s))" "sandbox_safe (snd (update_files_at i e s))"
    "sandbox_safe (snd (update_processes_at i e s))" "sandbox_safe (snd (update_fds_at i e s))"
proof -
  have over: "(max_files l < ucast n) = (uint (max_files l) < uint (n :: u32))" for l n
  proof -
    have "uint n < 2 ^ 32" using unsigned_less [of n] by simp
    then have "take_bit 64 (uint n) = uint n" by (simp add: take_bit_int_eq_self)
    then show ?thesis by (simp add: word_less_def unsigned_ucast_eq)
  qed
  have len: "LENGTH(32) - 1 = 31" "LENGTH(64) - 1 = 63" by simp_all
  show "sandbox_safe (snd (update_memory_at i d s))"
    unfolding update_memory_at_def Let_def using assms
    by (auto split: option.splits intro!: safe_entry
        simp: within_def sane_limits_def word_less_def len dest: uint_bumped [rotated 2])
  show "sandbox_safe (snd (update_files_at i e s))"
    unfolding update_files_at_def Let_def over using assms
    by (auto split: option.splits intro!: safe_entry
        simp: within_def sane_limits_def word_less_def len dest: uint_bumped [rotated 2])
  show "sandbox_safe (snd (update_processes_at i e s))"
    unfolding update_processes_at_def Let_def using assms
    by (auto split: option.splits intro!: safe_entry
        simp: within_def sane_limits_def word_less_def len dest: uint_bumped [rotated 2])
  show "sandbox_safe (snd (update_fds_at i e s))"
    unfolding update_fds_at_def Let_def using assms
    by (auto split: option.splits intro!: safe_entry
        simp: within_def sane_limits_def word_less_def len dest: uint_bumped [rotated 2])
qed

lemma cells_ran: "sandbox_inv s \<Longrightarrow> set (sandbox_cells s) = ran (sandbox_of s)"
  using keyed_nth [of sb_pid "sandbox_cells s"] keyed_Some_key [of sb_pid "sandbox_cells s"]
  by (fastforce simp: sandbox_of_def sandbox_inv_def ran_def in_set_conv_nth)

lemma safe_create:
  assumes "sandbox_safe s" "find_sandbox s pid = None" "sane_limits l"
  shows "sandbox_safe (snd (sandbox_create pid (Some l) s))"
proof (cases "sandbox_count s < MAX_SANDBOXES")
  case True
  have inv: "sandbox_inv s" using assms(1) by (simp add: sandbox_safe_def)
  obtain err s' where s': "sandbox_create pid (Some l) s = (err, s')" by fastforce
  obtain sb where sb: "sandbox_inv s'" "sandbox_of s' = (sandbox_of s)(pid \<mapsto> sb)" "limits sb = l"
    "current_memory sb = 0" "current_files sb = 0" "current_processes sb = 0" "current_fds sb = 0"
    by (rule sandbox_create_new [OF inv assms(2) True s'])
  then have "within sb" using assms(3) by (simp add: within_def)
  moreover have "set (sandbox_cells s') \<subseteq> insert sb (set (sandbox_cells s))"
    using inv sb(1,2) by (auto simp: cells_ran ran_def)
  ultimately show ?thesis using assms(1) s' sb(1) by (auto simp: sandbox_safe_def list_all_iff)
next
  case False
  then have "snd (sandbox_create pid (Some l) s) = s"
    using assms(1,2) by (simp add: sandbox_create_def sandbox_safe_def sandbox_inv_def not_less)
  with assms(1) show ?thesis by simp
qed

lemma safe_destroy:
  assumes "sandbox_safe s"
  shows "sandbox_safe (snd (sandbox_destroy pid s))"
proof -
  have inv: "sandbox_inv s" using assms by (simp add: sandbox_safe_def)
  obtain err s' where s': "sandbox_destroy pid s = (err, s')" by fastforce
  have "sandbox_inv s'" "sandbox_of s' = (sandbox_of s)(pid := None)"
    using sandbox_destroy_ok [OF inv s'] by simp_all
  then have "set (sandbox_cells s') \<subseteq> set (sandbox_cells s)"
    using inv by (auto simp: cells_ran ran_def)
  with \<open>sandbox_inv s'\<close> assms s' show ?thesis by (auto simp: sandbox_safe_def list_all_iff)
qed

interpretation sandbox_system: transition_system "\<lambda>s. s = snd (sandbox_init sandbox_zero)" sandbox_step sandbox_safe
proof
  show "sandbox_safe s" if "s = snd (sandbox_init sandbox_zero)" for s
    using that by (simp add: sandbox_safe_def sandbox_inv_def sandbox_init_def sandbox_zero_def MAX_SANDBOXES_def)
  show "sandbox_safe t" if "sandbox_safe s" "sandbox_step s t" for s t
    using that(2,1) by cases (simp_all add: safe_create safe_destroy safe_updates)
qed

section \<open>Properties\<close>


definition small_limits :: sandbox_limits_t where
  "small_limits = \<lparr>max_memory = 100, max_files = 2, max_processes = 3, max_fds = 4, sb_flags = 0\<rparr>"


text \<open>
  The look-up and the update of an entry are two critical sections: when a removal comes between them
  the change lands in the entry of another process. Here process 1 is charged and process 2 pays.
\<close>

lemma sandbox_charge_misplaced:
  defines "s \<equiv> snd (sandbox_create 2 (Some small_limits) (snd (sandbox_create 1 (Some small_limits) sandbox_zero)))"
  shows "sandbox_get 1 s = Some 0 \<and>
    (let t = snd (update_memory_at 0 60 (snd (sandbox_destroy 1 s)))
     in sb_pid (sandboxes t 0) = 2 \<and> current_memory (sandboxes t 0) = 60)"
  using word_le_nat_alt [of "256 :: u32" 1]
  by (simp add: s_def sandbox_get_def sandbox_create_def sandbox_destroy_def update_memory_at_def bump_def find_sandbox_def
      first_index_def sandbox_init_def sandbox_zero_def small_limits_def MAX_SANDBOXES_def Let_def upt_rec shift_down_apply)

text \<open>The unsigned sum of \<^verbatim>\<open>sandbox_check_memory\<close> wraps: a request for almost all of the address space passes.\<close>

lemma sandbox_check_memory_wraps:
  defines "s \<equiv> snd (update_memory_at 0 60 (snd (sandbox_create 1 (Some small_limits) sandbox_zero)))"
  shows "sandbox_check_memory 1 (- 60) s = ERR_OK \<and> sandbox_check_memory 1 41 s = ERR_OUT_OF_MEMORY"
  by (simp add: s_def sandbox_check_memory_def sandbox_get_def sandbox_create_def update_memory_at_def bump_def
      find_sandbox_def first_index_def sandbox_init_def sandbox_zero_def small_limits_def MAX_SANDBOXES_def Let_def upt_rec)

end
