(* ===== verification/Audit_Log.thy ===== *)
theory Audit_Log
  imports Tables Cstring
begin

text \<open>
  The audit log, \<^verbatim>\<open>kernel/security/audit.c\<close>: a circular buffer of 10000 entries with consecutive
  numbers. Every access to the buffer is between \<^verbatim>\<open>spinlock_lock\<close> and \<^verbatim>\<open>spinlock_unlock\<close> and is one
  step. The uptime read by \<^verbatim>\<open>audit_log\<close> is its argument \<open>now\<close>; the results of the file system calls of
  \<^verbatim>\<open>audit_flush\<close> are arguments. An event type is the number of its enumerator.
\<close>

section \<open>Model\<close>

definition AUDIT_EVENT_MAX :: u32 where "AUDIT_EVENT_MAX = 17"
definition AUDIT_LOG_MAX_ENTRIES :: u64 where "AUDIT_LOG_MAX_ENTRIES = 10000"

record audit_event_t =
  timestamp :: u64
  event_type :: u32
  ev_uid :: u32
  ev_gid :: u32
  ev_pid :: u32
  ev_result :: u32
  subject :: "u8 list"
  object :: "u8 list"
  action :: "u8 list"
  details :: "u8 list"

record audit_log_entry_t =
  sequence :: u64
  event :: audit_event_t

record audit_state =
  audit_log_buffer :: "audit_log_entry_t array"
  audit_log_head :: u64
  audit_log_tail :: u64
  audit_sequence :: u64
  audit_enabled_flag :: bool
  audit_initialized :: bool
  audit_total_events :: u64
  audit_failed_events :: u64
  audit_last_event_time :: u64

text \<open>A text member of \<open>n\<close> zero bytes after \<^verbatim>\<open>if (p) strncpy(member, p, n - 1)\<close>.\<close>

definition text_field :: "nat \<Rightarrow> u8 list option \<Rightarrow> u8 list" where
  "text_field n p =
     (case p of
        None \<Rightarrow> replicate n 0
      | Some str \<Rightarrow> the (the (strncpy (Some (replicate n 0)) (Some str) (n - 1))))"

definition zero_entry :: audit_log_entry_t where
  "zero_entry =
     \<lparr>sequence = 0, event = \<lparr>timestamp = 0, event_type = 0, ev_uid = 0, ev_gid = 0, ev_pid = 0, ev_result = 0,
        subject = replicate 64 0, object = replicate 256 0, action = replicate 64 0, details = replicate 512 0\<rparr>\<rparr>"

definition audit_init :: "audit_state \<Rightarrow> error_code_t \<times> audit_state" where
  "audit_init s =
     (if audit_initialized s then (ERR_OK, s)
      else (ERR_OK, s\<lparr>audit_log_buffer := (\<lambda>_. zero_entry), audit_log_head := 0, audit_log_tail := 0,
              audit_sequence := 0, audit_enabled_flag := True, audit_total_events := 0,
              audit_failed_events := 0, audit_last_event_time := 0, audit_initialized := True\<rparr>))"

text \<open>The arguments of \<^verbatim>\<open>audit_log\<close>, with the time at which it runs.\<close>

record audit_args =
  now :: u64
  arg_type :: u32
  arg_uid :: u32
  arg_gid :: u32
  arg_pid :: u32
  arg_result :: u32
  arg_subject :: "u8 list option"
  arg_object :: "u8 list option"
  arg_action :: "u8 list option"
  arg_details :: "u8 list option"

definition audit_event :: "audit_args \<Rightarrow> audit_event_t" where
  "audit_event a =
     \<lparr>timestamp = now a, event_type = arg_type a, ev_uid = arg_uid a, ev_gid = arg_gid a, ev_pid = arg_pid a,
      ev_result = arg_result a, subject = text_field 64 (arg_subject a), object = text_field 256 (arg_object a),
      action = text_field 64 (arg_action a), details = text_field 512 (arg_details a)\<rparr>"

definition audit_log :: "audit_args \<Rightarrow> audit_state \<Rightarrow> error_code_t \<times> audit_state" where
  "audit_log a s =
     (if \<not> audit_initialized s \<or> \<not> audit_enabled_flag s then (ERR_OK, s)
      else if arg_type a \<ge> AUDIT_EVENT_MAX then (ERR_INVALID_ARG, s)
      else
        let next_head = (audit_log_head s + 1) mod AUDIT_LOG_MAX_ENTRIES;
            s = (if next_head = audit_log_tail s
                 then s\<lparr>audit_log_tail := (audit_log_tail s + 1) mod AUDIT_LOG_MAX_ENTRIES\<rparr> else s);
            entry = \<lparr>sequence = audit_sequence s, event = audit_event a\<rparr>;
            s = s\<lparr>audit_log_buffer := (audit_log_buffer s)(unat (audit_log_head s) := entry),
                  audit_sequence := audit_sequence s + 1, audit_log_head := next_head,
                  audit_total_events := audit_total_events s + 1\<rparr>;
            s = (if arg_result a \<noteq> 0 then s\<lparr>audit_failed_events := audit_failed_events s + 1\<rparr> else s)
        in (ERR_OK, s\<lparr>audit_last_event_time := now a\<rparr>))"

text \<open>The filters of \<^verbatim>\<open>audit_query\<close>; 0 (for the type: a value from the maximum on) means any.\<close>

definition audit_match :: "u64 \<Rightarrow> u64 \<Rightarrow> u32 \<Rightarrow> u32 \<Rightarrow> audit_log_entry_t \<Rightarrow> bool" where
  "audit_match start_time end_time etype uid e \<longleftrightarrow>
     \<not> (start_time > 0 \<and> timestamp (event e) < start_time) \<and>
     \<not> (end_time > 0 \<and> timestamp (event e) > end_time) \<and>
     \<not> (etype < AUDIT_EVENT_MAX \<and> event_type (event e) \<noteq> etype) \<and>
     \<not> (uid \<noteq> 0 \<and> ev_uid (event e) \<noteq> uid)"

text \<open>The loop over the buffer; \<open>acc\<close> are the results found so far.\<close>

partial_function (option) audit_scan ::
  "audit_state \<Rightarrow> (audit_log_entry_t \<Rightarrow> bool) \<Rightarrow> nat \<Rightarrow> u64 \<Rightarrow> audit_log_entry_t list \<Rightarrow> audit_log_entry_t list option" where
  "audit_scan s P max_results cur acc =
     (if cur \<noteq> audit_log_head s \<and> length acc < max_results then
        audit_scan s P max_results ((cur + 1) mod AUDIT_LOG_MAX_ENTRIES)
          (if P (audit_log_buffer s (unat cur)) then acc @ [audit_log_buffer s (unat cur)] else acc)
      else Some acc)"

text \<open>\<open>wanted\<close> is whether both result pointers are not NULL; the results are those stored through them.\<close>

definition audit_query ::
  "u64 \<Rightarrow> u64 \<Rightarrow> u32 \<Rightarrow> u32 \<Rightarrow> bool \<Rightarrow> nat \<Rightarrow> audit_state \<Rightarrow> (error_code_t \<times> audit_log_entry_t list) option" where
  "audit_query start_time end_time etype uid wanted max_results s =
     (if \<not> audit_initialized s \<or> \<not> wanted then Some (ERR_INVALID_ARG, [])
      else map_option (\<lambda>res. (ERR_OK, res))
        (audit_scan s (audit_match start_time end_time etype uid) max_results (audit_log_tail s) []))"

definition audit_get_stats :: "audit_state \<Rightarrow> error_code_t \<times> (u64 \<times> u64 \<times> u64) option" where
  "audit_get_stats s =
     (if \<not> audit_initialized s then (ERR_NOT_INITIALIZED, None)
      else (ERR_OK, Some (audit_total_events s, audit_failed_events s, audit_last_event_time s)))"

text \<open>
  The entries \<^verbatim>\<open>audit_flush\<close> writes: \<open>open1\<close> and \<open>open2\<close> are the results of the two attempts to open the
  file, and \<open>write i\<close> tells whether the write of the \<open>i\<close>-th entry succeeds.
\<close>

partial_function (option) audit_write ::
  "audit_state \<Rightarrow> (nat \<Rightarrow> bool) \<Rightarrow> u64 \<Rightarrow> audit_log_entry_t list \<Rightarrow> audit_log_entry_t list option" where
  "audit_write s write cur written =
     (if cur \<noteq> audit_log_head s then
        if \<not> write (length written) then Some written
        else audit_write s write ((cur + 1) mod AUDIT_LOG_MAX_ENTRIES) (written @ [audit_log_buffer s (unat cur)])
      else Some written)"

definition audit_flush ::
  "error_code_t \<Rightarrow> error_code_t \<Rightarrow> (nat \<Rightarrow> bool) \<Rightarrow> audit_state \<Rightarrow> (error_code_t \<times> audit_log_entry_t list) option" where
  "audit_flush open1 open2 write s =
     (if \<not> audit_initialized s then Some (ERR_NOT_INITIALIZED, [])
      else if open1 \<noteq> ERR_OK \<and> open2 \<noteq> ERR_OK then Some (open2, [])
      else map_option (\<lambda>w. (ERR_OK, w)) (audit_write s write (audit_log_tail s) []))"

definition audit_clear :: "audit_state \<Rightarrow> error_code_t \<times> audit_state" where
  "audit_clear s =
     (if \<not> audit_initialized s then (ERR_NOT_INITIALIZED, s)
      else (ERR_OK, s\<lparr>audit_log_buffer := (\<lambda>_. zero_entry), audit_log_head := 0, audit_log_tail := 0,
              audit_sequence := 0, audit_total_events := 0, audit_failed_events := 0, audit_last_event_time := 0\<rparr>))"

definition audit_enable :: "audit_state \<Rightarrow> error_code_t \<times> audit_state" where
  "audit_enable s =
     (if \<not> audit_initialized s then (ERR_NOT_INITIALIZED, s) else (ERR_OK, s\<lparr>audit_enabled_flag := True\<rparr>))"

definition audit_disable :: "audit_state \<Rightarrow> error_code_t \<times> audit_state" where
  "audit_disable s =
     (if \<not> audit_initialized s then (ERR_NOT_INITIALIZED, s) else (ERR_OK, s\<lparr>audit_enabled_flag := False\<rparr>))"

definition audit_is_enabled :: "audit_state \<Rightarrow> bool" where
  "audit_is_enabled s \<longleftrightarrow> audit_initialized s \<and> audit_enabled_flag s"

section \<open>The window of the buffer\<close>

text \<open>
  \<open>ring s es\<close>: the log has seen the entries \<open>es\<close> since it was last empty. The last 9999 of them are in
  the buffer, entry \<open>k\<close> at \<open>k mod 10000\<close>.
\<close>

abbreviation kept :: "nat \<Rightarrow> nat" where
  "kept n \<equiv> n - 9999"

definition ring :: "audit_state \<Rightarrow> audit_log_entry_t list \<Rightarrow> bool" where
  "ring s es \<longleftrightarrow> audit_initialized s \<and> audit_log_head s = of_nat (length es mod 10000) \<and>
     audit_log_tail s = of_nat (kept (length es) mod 10000) \<and> audit_sequence s = of_nat (length es) \<and>
     (\<forall>k. kept (length es) \<le> k \<and> k < length es \<longrightarrow> audit_log_buffer s (k mod 10000) = es ! k) \<and>
     audit_total_events s = of_nat (length es) \<and>
     audit_failed_events s = of_nat (length (filter (\<lambda>e. ev_result (event e) \<noteq> 0) es))"

lemma unat_index: "unat (of_nat (n mod 10000) :: u64) = n mod 10000"
proof -
  have "n mod 10000 < 10000" by simp
  also have "\<dots> < (2 :: nat) ^ 64" by simp
  finally show ?thesis by (simp add: unsigned_of_nat take_bit_nat_eq_self)
qed

lemma next_index: "(of_nat (n mod 10000) + 1) mod AUDIT_LOG_MAX_ENTRIES = (of_nat (Suc n mod 10000) :: u64)"
proof -
  have lt: "n mod 10000 < 10000" by simp
  have "unat (of_nat (n mod 10000) + 1 :: u64) = Suc (n mod 10000)"
    using lt by (subst unat_succ) (simp_all add: unat_index)
  then have "unat ((of_nat (n mod 10000) + 1) mod AUDIT_LOG_MAX_ENTRIES :: u64) = Suc n mod 10000"
    by (simp add: AUDIT_LOG_MAX_ENTRIES_def unat_mod mod_Suc_eq)
  then show ?thesis by (metis unat_index word_unat_eq_iff)
qed

lemma index_eq: "(of_nat (m mod 10000) :: u64) = of_nat (n mod 10000) \<longleftrightarrow> m mod 10000 = n mod 10000"
  by (metis unat_index)

text \<open>Two entries less than 10000 apart have different places.\<close>

lemma window_index:
  assumes "k \<le> n" "n - k < 10000"
  shows "k mod 10000 = n mod 10000 \<longleftrightarrow> k = (n :: nat)"
proof
  assume "k mod 10000 = n mod 10000"
  then have "10000 dvd n - k" using assms(1) by (metis mod_eq_dvd_iff_nat)
  with assms show "k = n" by (auto simp: dvd_def)
qed simp

lemma audit_log_effect:
  assumes "audit_initialized s" "audit_enabled_flag s" "arg_type a < AUDIT_EVENT_MAX"
    and "next = (audit_log_head s + 1) mod AUDIT_LOG_MAX_ENTRIES"
  obtains s' where "audit_log a s = (ERR_OK, s')" "audit_initialized s'" "audit_enabled_flag s'"
    "audit_log_buffer s' = (audit_log_buffer s)(unat (audit_log_head s) := \<lparr>sequence = audit_sequence s, event = audit_event a\<rparr>)"
    "audit_log_head s' = next"
    "audit_log_tail s' = (if next = audit_log_tail s then (audit_log_tail s + 1) mod AUDIT_LOG_MAX_ENTRIES else audit_log_tail s)"
    "audit_sequence s' = audit_sequence s + 1" "audit_total_events s' = audit_total_events s + 1"
    "audit_failed_events s' = (if arg_result a \<noteq> 0 then audit_failed_events s + 1 else audit_failed_events s)"
proof -
  have "\<not> AUDIT_EVENT_MAX \<le> arg_type a" using assms(3) by (simp add: not_le)
  with that [of "snd (audit_log a s)"] assms(1,2) show ?thesis
    unfolding assms(4) by (simp add: audit_log_def Let_def)
qed

lemma audit_log_ring:
  assumes "ring s es" "audit_enabled_flag s" "arg_type a < AUDIT_EVENT_MAX"
  shows "fst (audit_log a s) = ERR_OK \<and> audit_enabled_flag (snd (audit_log a s)) \<and>
    ring (snd (audit_log a s)) (es @ [\<lparr>sequence = of_nat (length es), event = audit_event a\<rparr>])"
proof -
  let ?n = "length es" and ?e = "\<lparr>sequence = of_nat (length es), event = audit_event a\<rparr> :: audit_log_entry_t"
  have s: "audit_initialized s" "audit_log_head s = of_nat (?n mod 10000)" "audit_log_tail s = of_nat (kept ?n mod 10000)"
    "audit_sequence s = of_nat ?n" "\<And>k. kept ?n \<le> k \<Longrightarrow> k < ?n \<Longrightarrow> audit_log_buffer s (k mod 10000) = es ! k"
    "audit_total_events s = of_nat ?n" "audit_failed_events s = of_nat (length (filter (\<lambda>e. ev_result (event e) \<noteq> 0) es))"
    using assms(1) by (simp_all add: ring_def)
  have head: "of_nat (Suc ?n mod 10000) = (audit_log_head s + 1) mod AUDIT_LOG_MAX_ENTRIES" by (simp only: s(2) next_index)
  obtain s' where s': "audit_log a s = (ERR_OK, s')" "audit_initialized s'" "audit_enabled_flag s'"
    "audit_log_buffer s' = (audit_log_buffer s)(unat (audit_log_head s) := \<lparr>sequence = audit_sequence s, event = audit_event a\<rparr>)"
    "audit_log_head s' = of_nat (Suc ?n mod 10000)"
    "audit_log_tail s' = (if of_nat (Suc ?n mod 10000) = audit_log_tail s then (audit_log_tail s + 1) mod AUDIT_LOG_MAX_ENTRIES else audit_log_tail s)"
    "audit_sequence s' = audit_sequence s + 1" "audit_total_events s' = audit_total_events s + 1"
    "audit_failed_events s' = (if arg_result a \<noteq> 0 then audit_failed_events s + 1 else audit_failed_events s)"
    by (rule audit_log_effect [OF s(1) assms(2,3) head])
  have full: "(of_nat (Suc ?n mod 10000) :: u64) = of_nat (kept ?n mod 10000) \<longleftrightarrow> 9999 \<le> ?n"
  proof (cases "9999 \<le> ?n")
    case True
    then obtain m where "?n = m + 9999" by (metis add.commute le_Suc_ex)
    then have "Suc ?n mod 10000 = kept ?n mod 10000" by simp
    with True show ?thesis by simp
  next
    case False
    then show ?thesis by (simp only: index_eq) simp
  qed
  have kept: "kept (Suc ?n) = (if 9999 \<le> ?n then Suc (kept ?n) else kept ?n)" by auto
  have tail: "audit_log_tail s' = of_nat (kept (Suc ?n) mod 10000)"
    using s'(6) unfolding s(3) full next_index kept by auto
  have buffer: "audit_log_buffer s' (k mod 10000) = (es @ [?e]) ! k" if "kept (Suc ?n) \<le> k" "k < Suc ?n" for k
  proof (cases "k = ?n")
    case True
    then show ?thesis by (simp only: s'(4) s(2,4) unat_index) simp
  next
    case False
    with that have k: "k < ?n" "kept ?n \<le> k" by auto
    then have "k mod 10000 \<noteq> ?n mod 10000" using window_index [of k ?n] that by auto
    then show ?thesis using s(5) [OF k(2,1)] k(1) by (simp only: s'(4) s(2) unat_index) (simp add: nth_append)
  qed
  show ?thesis
    using s' s(4,6,7) tail buffer by (simp add: ring_def audit_event_def add.commute)
qed

lemma audit_scan_ring:
  assumes "ring s es" "kept (length es) \<le> k" "k \<le> length es"
  shows "audit_scan s P m (of_nat (k mod 10000)) acc = Some (acc @ take (m - length acc) (filter P (drop k es)))"
  using assms(2,3)
proof (induction "length es - k" arbitrary: k acc)
  case 0
  then have "k = length es" by simp
  with assms(1) show ?case by (subst audit_scan.simps) (simp add: ring_def)
next
  case (Suc d)
  then have k: "k < length es" by simp
  have "k mod 10000 \<noteq> length es mod 10000" using window_index [of k "length es"] Suc k by simp
  then have ne: "of_nat (k mod 10000) \<noteq> audit_log_head s"
    using assms(1) index_eq [of k "length es"] by (simp add: ring_def)
  have e: "audit_log_buffer s (unat (of_nat (k mod 10000) :: u64)) = es ! k"
    using assms(1) Suc.prems k by (simp add: ring_def unat_index)
  have d: "drop k es = es ! k # drop (Suc k) es" using k by (simp add: Cons_nth_drop_Suc)
  show ?case
  proof (cases "length acc < m")
    case True
    then obtain j where "m - length acc = Suc j" by (metis Suc_diff_Suc)
    moreover from this have "m - Suc (length acc) = j" by simp
    ultimately show ?thesis using True Suc ne e
      by (subst audit_scan.simps) (simp add: next_index d)
  next
    case False
    then show ?thesis by (subst audit_scan.simps) simp
  qed
qed

lemma audit_write_ring:
  assumes "ring s es" "kept (length es) \<le> k" "k \<le> length es" "\<And>i. write i"
  shows "audit_write s write (of_nat (k mod 10000)) w = Some (w @ drop k es)"
  using assms(2,3)
proof (induction "length es - k" arbitrary: k w)
  case 0
  then have "k = length es" by simp
  with assms(1) show ?case by (subst audit_write.simps) (simp add: ring_def)
next
  case (Suc d)
  then have k: "k < length es" by simp
  have "k mod 10000 \<noteq> length es mod 10000" using window_index [of k "length es"] Suc k by simp
  then have ne: "of_nat (k mod 10000) \<noteq> audit_log_head s"
    using assms(1) index_eq [of k "length es"] by (simp add: ring_def)
  have e: "audit_log_buffer s (unat (of_nat (k mod 10000) :: u64)) = es ! k"
    using assms(1) Suc.prems k by (simp add: ring_def unat_index)
  have d: "drop k es = es ! k # drop (Suc k) es" using k by (simp add: Cons_nth_drop_Suc)
  show ?case using Suc ne e assms(4) by (subst audit_write.simps) (simp add: next_index d)
qed

section \<open>Properties\<close>

datatype audit_request = Log audit_args | Clear | Enable | Disable

fun audit_call :: "audit_request \<Rightarrow> audit_state \<Rightarrow> error_code_t \<times> audit_state" where
  "audit_call (Log a) s = audit_log a s"
| "audit_call Clear s = audit_clear s"
| "audit_call Enable s = audit_enable s"
| "audit_call Disable s = audit_disable s"

text \<open>The specification: whether logging is on, and all entries since the log was last cleared.\<close>

fun audit_spec :: "audit_request \<Rightarrow> bool \<times> audit_log_entry_t list \<Rightarrow> error_code_t \<times> bool \<times> audit_log_entry_t list" where
  "audit_spec (Log a) (on, es) =
     (if \<not> on then (ERR_OK, on, es)
      else if arg_type a \<ge> AUDIT_EVENT_MAX then (ERR_INVALID_ARG, on, es)
      else (ERR_OK, on, es @ [\<lparr>sequence = of_nat (length es), event = audit_event a\<rparr>]))"
| "audit_spec Clear (on, es) = (ERR_OK, on, [])"
| "audit_spec Enable (on, es) = (ERR_OK, True, es)"
| "audit_spec Disable (on, es) = (ERR_OK, False, es)"

lemma audit_call_spec:
  assumes "ring s es"
  shows "\<exists>err on es'. audit_spec c (audit_enabled_flag s, es) = (err, on, es') \<and>
    fst (audit_call c s) = err \<and> audit_enabled_flag (snd (audit_call c s)) = on \<and> ring (snd (audit_call c s)) es'"
proof (cases c)
  case (Log a)
  show ?thesis
  proof (cases "audit_enabled_flag s \<and> arg_type a < AUDIT_EVENT_MAX")
    case True
    then have "\<not> AUDIT_EVENT_MAX \<le> arg_type a" by (simp add: not_le)
    with True Log audit_log_ring [OF assms, of a] show ?thesis by auto
  next
    case False
    with assms Log show ?thesis by (auto simp: audit_log_def ring_def not_less)
  qed
qed (use assms in \<open>auto simp: ring_def audit_clear_def audit_enable_def audit_disable_def\<close>)

lemma audit_calls_spec:
  assumes "ring s es"
  shows "\<exists>errs on es'. calls audit_spec cs (audit_enabled_flag s, es) = (errs, on, es') \<and>
    fst (calls audit_call cs s) = errs \<and> audit_enabled_flag (snd (calls audit_call cs s)) = on \<and>
    ring (snd (calls audit_call cs s)) es'"
  using assms
proof (induction cs arbitrary: s es)
  case (Cons c cs)
  obtain err s1 where s1: "audit_call c s = (err, s1)" by fastforce
  then obtain es1 where spec: "audit_spec c (audit_enabled_flag s, es) = (err, audit_enabled_flag s1, es1)" "ring s1 es1"
    using audit_call_spec [OF Cons.prems, of c] by auto
  from Cons.IH [OF this(2)] show ?case by (auto simp: s1 spec(1) split: prod.splits)
qed simp

text \<open>
  C28: the log keeps the latest events. After \<^verbatim>\<open>audit_init\<close> and any sequence of calls that log events,
  clear the log and switch it on and off, the calls have returned the codes of the specification that
  keeps every entry, and every query returns, oldest first and up to the number asked for, exactly the
  entries among the last 9999 that pass its filters. A flush whose writes all succeed writes those
  last entries in the same order.
\<close>

theorem audit_keeps_latest:
  assumes "\<not> audit_initialized s0" "calls audit_spec cs (True, []) = (errs, on, es)"
    and "calls audit_call cs (snd (audit_init s0)) = (errs', s)"
  shows "errs' = errs \<and> audit_is_enabled s = on \<and>
    audit_query start_time end_time etype uid True m s =
      Some (ERR_OK, take m (filter (audit_match start_time end_time etype uid) (drop (length es - 9999) es))) \<and>
    audit_flush ERR_OK err (\<lambda>_. True) s = Some (ERR_OK, drop (length es - 9999) es)"
proof -
  have "ring (snd (audit_init s0)) []" "audit_enabled_flag (snd (audit_init s0))"
    using assms(1) by (simp_all add: ring_def audit_init_def)
  from audit_calls_spec [OF this(1), of cs] this(2) assms(2,3)
  have r: "errs' = errs" "audit_enabled_flag s = on" "ring s es" by auto
  have k: "kept (length es) \<le> length es" by simp
  have t: "audit_log_tail s = of_nat (kept (length es) mod 10000)" "audit_initialized s"
    using r(3) by (simp_all add: ring_def)
  show ?thesis
    using r t audit_scan_ring [OF r(3) order_refl k] audit_write_ring [OF r(3) order_refl k, of "\<lambda>_. True"]
    by (simp add: audit_query_def audit_flush_def audit_is_enabled_def)
qed

text \<open>The static initialisers of \<^verbatim>\<open>audit.c\<close>.\<close>

definition audit_boot :: audit_state where
  "audit_boot =
     \<lparr>audit_log_buffer = (\<lambda>_. zero_entry), audit_log_head = 0, audit_log_tail = 0, audit_sequence = 0,
      audit_enabled_flag = True, audit_initialized = False, audit_total_events = 0, audit_failed_events = 0,
      audit_last_event_time = 0\<rparr>"

definition login_args :: "u32 \<Rightarrow> audit_args" where
  "login_args uid = \<lparr>now = 7, arg_type = 0, arg_uid = uid, arg_gid = 0, arg_pid = 1, arg_result = 0,
     arg_subject = None, arg_object = None, arg_action = None, arg_details = None\<rparr>"

theorem audit_keeps_latest_witness:
  "\<exists>s. snd (calls audit_call [Log (login_args 3), Log (login_args 4)]
      (snd (audit_init audit_boot))) = s \<and>
    audit_query 0 0 17 4 True 5 s = Some (ERR_OK, [\<lparr>sequence = 1, event = audit_event (login_args 4)\<rparr>])"
proof -
  let ?cs = "[Log (login_args 3), Log (login_args 4)]"
  obtain errs' s where run: "calls audit_call ?cs (snd (audit_init audit_boot)) = (errs', s)" by fastforce
  have spec: "calls audit_spec ?cs (True, []) = ([ERR_OK, ERR_OK], True,
      [\<lparr>sequence = 0, event = audit_event (login_args 3)\<rparr>, \<lparr>sequence = 1, event = audit_event (login_args 4)\<rparr>])"
    by (simp add: login_args_def AUDIT_EVENT_MAX_def)
  from audit_keeps_latest [OF _ spec run, of 0 0 17 4 5 ERR_OK] run show ?thesis
    by (simp add: audit_boot_def audit_match_def AUDIT_EVENT_MAX_def login_args_def audit_event_def)
qed

end
