(* ===== verification/Heap.thy ===== *)
theory Heap
  imports Pmm
begin

text \<open>
  The kernel heap, \<^verbatim>\<open>kernel/mm/heap.c\<close> and \<^verbatim>\<open>kernel/mm/slab.c\<close>: \<^verbatim>\<open>kmalloc\<close> serves requests of up to a
  page from slab caches and the others from a list of blocks, first fit. The two files call each
  other: a slab cache without a page gets one from \<^verbatim>\<open>kmalloc\<close>.

  Memory is three stores by address: the block headers, the slab page headers and the bytes of the
  payload. Block headers have 40 bytes and slab page headers 32. NULL is \<open>None\<close>. An operation that
  does not return (a spinlock taken twice by the same thread, a list that does not end, a panic) has the result
  \<open>None\<close>. The \<open>k\<close>-th attempt to allocate a physical page and to map it succeeds when \<open>env k\<close>.
\<close>

section \<open>State\<close>

definition HEAP_MAGIC :: u32 where "HEAP_MAGIC = 0xDEADBEEF"
definition BLOCK_HEADER_SIZE :: size_t where "BLOCK_HEADER_SIZE = 40"
definition HEAP_START :: vaddr_t where "HEAP_START = 0xFFFFFFFFC0000000"
definition HEAP_INITIAL_SIZE :: size_t where "HEAP_INITIAL_SIZE = 16 * 1024 * 1024"
definition HEAP_MAX_SIZE :: size_t where "HEAP_MAX_SIZE = 256 * 1024 * 1024"

record heap_block_t =
  blk_size :: size_t
  blk_free :: bool
  blk_next :: "vaddr_t option"
  blk_prev :: "vaddr_t option"
  blk_magic :: u32

definition NUM_SLAB_SIZES :: nat where "NUM_SLAB_SIZES = 11"

definition slab_sizes :: "size_t list" where
  "slab_sizes = [8, 16, 32, 64, 128, 256, 512, 1024, 2048, 4096, 0]"

definition SLAB_PAGE_HEADER :: size_t where "SLAB_PAGE_HEADER = 32"

record slab_page_t =
  pg_next :: "vaddr_t option"
  pg_prev :: "vaddr_t option"
  pg_free_count :: u32
  pg_objects :: u32
  pg_class :: u32
  pg_bitmap :: "u8 array"

record slab_cache_t =
  object_size :: size_t
  partial_pages :: "vaddr_t option"
  full_pages :: "vaddr_t option"
  cache_pages :: u32
  cache_objects :: u32
  cache_free_objects :: u32
  cache_lock :: u32

record heap_state =
  heap_start :: "vaddr_t option"
  heap_current :: vaddr_t
  heap_max :: vaddr_t
  heap_total_size :: size_t
  heap_used_size :: size_t
  headers :: "vaddr_t \<Rightarrow> heap_block_t"
  bytes :: "vaddr_t \<Rightarrow> u8"
  slab_caches :: "slab_cache_t array"
  slab_initialized :: bool
  slab_pages :: "vaddr_t \<Rightarrow> slab_page_t"
  tried :: nat

section \<open>The block list\<close>

text \<open>The loop of \<^verbatim>\<open>expand_heap\<close> over the pages still to map.\<close>

primrec expand_pages :: "(nat \<Rightarrow> bool) \<Rightarrow> nat \<Rightarrow> heap_state \<Rightarrow> bool \<times> heap_state" where
  "expand_pages env 0 s = (True, s)"
| "expand_pages env (Suc n) s =
     (if env (tried s)
      then expand_pages env n (s\<lparr>tried := Suc (tried s), heap_current := heap_current s + PAGE_SIZE\<rparr>)
      else (False, s\<lparr>tried := Suc (tried s)\<rparr>))"

definition expand_heap :: "(nat \<Rightarrow> bool) \<Rightarrow> size_t \<Rightarrow> heap_state \<Rightarrow> bool \<times> heap_state" where
  "expand_heap env needed_size s =
     (let sz = ALIGN_UP needed_size PAGE_SIZE in
      if heap_current s + sz > HEAP_START + HEAP_MAX_SIZE then (False, s)
      else
        (case expand_pages env (unat (sz div PAGE_SIZE)) s of
           (False, s) \<Rightarrow> (False, s)
         | (True, s) \<Rightarrow> (True, s\<lparr>heap_max := heap_current s, heap_total_size := heap_total_size s + sz\<rparr>)))"

text \<open>The loop of \<^verbatim>\<open>coalesce_free_blocks\<close> from block \<open>p\<close>.\<close>

partial_function (option) coalesce_loop ::
  "(vaddr_t \<Rightarrow> heap_block_t) \<Rightarrow> vaddr_t option \<Rightarrow> (vaddr_t \<Rightarrow> heap_block_t) option" where
  "coalesce_loop h p =
     (case p of
        None \<Rightarrow> Some h
      | Some a \<Rightarrow>
          (case blk_next (h a) of
             None \<Rightarrow> Some h
           | Some b \<Rightarrow>
               if blk_free (h a) \<and> blk_free (h b) then
                 let h' = h(a := (h a)\<lparr>blk_size := blk_size (h a) + (BLOCK_HEADER_SIZE + blk_size (h b)),
                                      blk_next := blk_next (h b)\<rparr>);
                     h'' = (case blk_next (h b) of
                              None \<Rightarrow> h'
                            | Some c \<Rightarrow> h'(c := (h' c)\<lparr>blk_prev := Some a\<rparr>))
                 in coalesce_loop h'' (Some a)
               else coalesce_loop h (Some b)))"

definition coalesce_free_blocks :: "heap_state \<Rightarrow> heap_state option" where
  "coalesce_free_blocks s =
     (case heap_start s of
        None \<Rightarrow> Some s
      | Some a \<Rightarrow> map_option (\<lambda>h. s\<lparr>headers := h\<rparr>) (coalesce_loop (headers s) (Some a)))"

text \<open>The search of \<^verbatim>\<open>kmalloc\<close> for the first free block that is large enough, and for the last block.\<close>

partial_function (option) find_block ::
  "(vaddr_t \<Rightarrow> heap_block_t) \<Rightarrow> vaddr_t option \<Rightarrow> size_t \<Rightarrow> vaddr_t option option" where
  "find_block h p sz =
     (case p of
        None \<Rightarrow> Some None
      | Some a \<Rightarrow> if blk_free (h a) \<and> blk_size (h a) \<ge> sz then Some (Some a) else find_block h (blk_next (h a)) sz)"

partial_function (option) last_block :: "(vaddr_t \<Rightarrow> heap_block_t) \<Rightarrow> vaddr_t \<Rightarrow> vaddr_t option" where
  "last_block h a = (case blk_next (h a) of None \<Rightarrow> Some a | Some b \<Rightarrow> last_block h b)"

text \<open>Taking the block at \<open>a\<close>: split when the rest has room for a header and 32 bytes, then mark used.\<close>

definition split_block :: "size_t \<Rightarrow> vaddr_t \<Rightarrow> (vaddr_t \<Rightarrow> heap_block_t) \<Rightarrow> vaddr_t \<Rightarrow> heap_block_t" where
  "split_block sz a h =
     (if blk_size (h a) \<ge> sz + BLOCK_HEADER_SIZE + 32 then
        let b = a + BLOCK_HEADER_SIZE + sz;
            nx = blk_next (h a);
            h = h(b := \<lparr>blk_size = blk_size (h a) - sz - BLOCK_HEADER_SIZE, blk_free = True,
                        blk_next = nx, blk_prev = Some a, blk_magic = HEAP_MAGIC\<rparr>);
            h = (case nx of None \<Rightarrow> h | Some c \<Rightarrow> h(c := (h c)\<lparr>blk_prev := Some b\<rparr>))
        in h(a := (h a)\<lparr>blk_next := Some b, blk_size := sz\<rparr>)
      else h)"

definition take_block :: "size_t \<Rightarrow> vaddr_t \<Rightarrow> heap_state \<Rightarrow> vaddr_t option \<times> heap_state" where
  "take_block sz a s =
     (let h = split_block sz a (headers s);
          h = h(a := (h a)\<lparr>blk_free := False\<rparr>)
      in (Some (a + BLOCK_HEADER_SIZE),
          s\<lparr>headers := h, heap_used_size := heap_used_size s + (blk_size (h a) + BLOCK_HEADER_SIZE)\<rparr>))"

text \<open>The new block behind the last one, after the heap has been expanded.\<close>

definition append_block :: "size_t \<Rightarrow> vaddr_t \<Rightarrow> heap_state \<Rightarrow> vaddr_t option \<times> heap_state" where
  "append_block expand_size l s =
     (let h = headers s;
          b = l + BLOCK_HEADER_SIZE + blk_size (h l);
          h = h(b := \<lparr>blk_size = expand_size - BLOCK_HEADER_SIZE, blk_free = False,
                      blk_next = None, blk_prev = Some l, blk_magic = HEAP_MAGIC\<rparr>);
          h = h(l := (h l)\<lparr>blk_next := Some b\<rparr>)
      in (Some (b + BLOCK_HEADER_SIZE),
          s\<lparr>headers := h, heap_used_size := heap_used_size s + (blk_size (h b) + BLOCK_HEADER_SIZE)\<rparr>))"

text \<open>What \<^verbatim>\<open>kmalloc\<close> does once the slab allocator is out of the question.\<close>

definition heap_alloc :: "(nat \<Rightarrow> bool) \<Rightarrow> size_t \<Rightarrow> heap_state \<Rightarrow> (vaddr_t option \<times> heap_state) option" where
  "heap_alloc env size0 s =
     (let sz = ALIGN_UP size0 8 in
      case find_block (headers s) (heap_start s) sz of
        None \<Rightarrow> None
      | Some (Some a) \<Rightarrow> Some (take_block sz a s)
      | Some None \<Rightarrow>
          let expand_size = sz + BLOCK_HEADER_SIZE in
          (case expand_heap env expand_size s of
             (False, s) \<Rightarrow> Some (None, s)
           | (True, s) \<Rightarrow>
               (case heap_start s of
                  None \<Rightarrow> None
                | Some a \<Rightarrow> map_option (\<lambda>l. append_block expand_size l s) (last_block (headers s) a))))"

section \<open>Slab pages\<close>

definition find_size_class :: "size_t \<Rightarrow> nat" where
  "find_size_class sz =
     (case first_index (\<lambda>i. slab_sizes ! i \<ge> sz) 0 NUM_SLAB_SIZES of
        Some i \<Rightarrow> i
      | None \<Rightarrow> NUM_SLAB_SIZES - 1)"

definition SLAB_OBJECTS_PER_PAGE :: "size_t \<Rightarrow> u32" where
  "SLAB_OBJECTS_PER_PAGE sz = ucast ((PAGE_SIZE - SLAB_PAGE_HEADER) div sz)"

definition get_bitmap_size :: "u32 \<Rightarrow> size_t" where
  "get_bitmap_size object_count = ucast ((object_count + 7) div 8)"

definition init_slab_cache :: "size_t \<Rightarrow> slab_cache_t" where
  "init_slab_cache sz =
     \<lparr>object_size = sz, partial_pages = None, full_pages = None, cache_pages = 0, cache_objects = 0,
      cache_free_objects = 0, cache_lock = 0\<rparr>"

text \<open>The header \<^verbatim>\<open>alloc_slab_page\<close> writes; the bitmap behind its last byte stays as it was.\<close>

definition init_slab_page :: "nat \<Rightarrow> slab_page_t \<Rightarrow> slab_page_t" where
  "init_slab_page c old =
     (let n = SLAB_OBJECTS_PER_PAGE (slab_sizes ! c) in
      \<lparr>pg_next = None, pg_prev = None, pg_free_count = n, pg_objects = n, pg_class = of_nat c,
       pg_bitmap = for_range 0 (unat (get_bitmap_size n)) (\<lambda>i b. b(i := 0xFF)) (pg_bitmap old)\<rparr>)"

text \<open>The object the inner loop of \<^verbatim>\<open>find_free_object\<close> stops at in one byte of the bitmap.\<close>

definition byte_object :: "slab_page_t \<Rightarrow> nat \<Rightarrow> nat option" where
  "byte_object pg i =
     (if pg_bitmap pg i \<noteq> 0 then
        (case first_index (\<lambda>k. pg_bitmap pg i AND push_bit k 1 \<noteq> 0) 0 8 of
           None \<Rightarrow> None
         | Some k \<Rightarrow> if i * 8 + k \<ge> unat (pg_objects pg) then None else Some (i * 8 + k))
      else None)"

definition object_address :: "vaddr_t \<Rightarrow> slab_page_t \<Rightarrow> nat \<Rightarrow> vaddr_t" where
  "object_address p pg i =
     p + (SLAB_PAGE_HEADER + get_bitmap_size (pg_objects pg)) + of_nat i * slab_sizes ! unat (pg_class pg)"

definition find_free_object :: "vaddr_t \<Rightarrow> slab_page_t \<Rightarrow> vaddr_t option \<times> slab_page_t" where
  "find_free_object p pg =
     (case first_index (\<lambda>i. byte_object pg i \<noteq> None) 0 (unat (get_bitmap_size (pg_objects pg))) of
        None \<Rightarrow> (None, pg)
      | Some i \<Rightarrow>
          let k = the (byte_object pg i) in
          (Some (object_address p pg k),
           pg\<lparr>pg_bitmap := (pg_bitmap pg)(k div 8 := pg_bitmap pg (k div 8) AND NOT (push_bit (k mod 8) 1)),
              pg_free_count := pg_free_count pg - 1\<rparr>))"

definition free_object_in_page :: "vaddr_t \<Rightarrow> vaddr_t \<Rightarrow> slab_page_t \<Rightarrow> slab_page_t" where
  "free_object_in_page p ptr pg =
     (let offset = ptr - (p + (SLAB_PAGE_HEADER + get_bitmap_size (pg_objects pg)));
          index = ucast (offset div slab_sizes ! unat (pg_class pg)) :: u32;
          k = unat index
      in if index \<ge> pg_objects pg then pg
         else pg\<lparr>pg_bitmap := (pg_bitmap pg)(k div 8 := pg_bitmap pg (k div 8) OR push_bit (k mod 8) 1),
                 pg_free_count := pg_free_count pg + 1\<rparr>)"

section \<open>Slab caches\<close>

abbreviation page_upd :: "vaddr_t \<Rightarrow> (slab_page_t \<Rightarrow> slab_page_t) \<Rightarrow> heap_state \<Rightarrow> heap_state" where
  "page_upd p f s \<equiv> s\<lparr>slab_pages := (slab_pages s)(p := f (slab_pages s p))\<rparr>"

abbreviation cache_upd :: "nat \<Rightarrow> (slab_cache_t \<Rightarrow> slab_cache_t) \<Rightarrow> heap_state \<Rightarrow> heap_state" where
  "cache_upd c f s \<equiv> s\<lparr>slab_caches := (slab_caches s)(c := f (slab_caches s c))\<rparr>"

text \<open>
  Moving a page between the lists of a cache: take it out of the list whose first page \<open>upd\<close> sets, and
  put it in front of the list \<open>fld\<close>.
\<close>

definition unlink_page ::
  "((vaddr_t option \<Rightarrow> vaddr_t option) \<Rightarrow> slab_cache_t \<Rightarrow> slab_cache_t) \<Rightarrow> nat \<Rightarrow> vaddr_t \<Rightarrow> heap_state \<Rightarrow> heap_state" where
  "unlink_page upd c p s =
     (let nx = pg_next (slab_pages s p); pv = pg_prev (slab_pages s p);
          s = (case pv of
                 Some q \<Rightarrow> page_upd q (\<lambda>pg. pg\<lparr>pg_next := nx\<rparr>) s
               | None \<Rightarrow> cache_upd c (upd (\<lambda>_. nx)) s)
      in case pg_next (slab_pages s p) of
           Some q \<Rightarrow> page_upd q (\<lambda>pg. pg\<lparr>pg_prev := pg_prev (slab_pages s p)\<rparr>) s
         | None \<Rightarrow> s)"

definition push_page ::
  "(slab_cache_t \<Rightarrow> vaddr_t option) \<Rightarrow> ((vaddr_t option \<Rightarrow> vaddr_t option) \<Rightarrow> slab_cache_t \<Rightarrow> slab_cache_t) \<Rightarrow>
   nat \<Rightarrow> vaddr_t \<Rightarrow> heap_state \<Rightarrow> heap_state" where
  "push_page fld upd c p s =
     (let first = fld (slab_caches s c);
          s = page_upd p (\<lambda>pg. pg\<lparr>pg_next := first, pg_prev := None\<rparr>) s;
          s = (case first of Some q \<Rightarrow> page_upd q (\<lambda>pg. pg\<lparr>pg_prev := Some p\<rparr>) s | None \<Rightarrow> s)
      in cache_upd c (upd (\<lambda>_. Some p)) s)"

text \<open>
  The branch of \<^verbatim>\<open>slab_alloc\<close> that serves the request from the first page of the partial list, with the cache locked.
\<close>

definition alloc_partial :: "nat \<Rightarrow> heap_state \<Rightarrow> (vaddr_t \<times> heap_state) option" where
  "alloc_partial c s =
     (case partial_pages (slab_caches s c) of
        None \<Rightarrow> None
      | Some p \<Rightarrow>
          (case find_free_object p (slab_pages s p) of
             (None, _) \<Rightarrow> None
           | (Some ob, pg) \<Rightarrow>
               let s = page_upd p (\<lambda>_. pg) s;
                   s = (if pg_free_count pg = 0
                        then push_page full_pages full_pages_update c p (unlink_page partial_pages_update c p s)
                        else s)
               in Some (ob, cache_upd c (\<lambda>k. k\<lparr>cache_objects := cache_objects k + 1,
                                             cache_free_objects := cache_free_objects k - 1\<rparr>) s)))"

text \<open>The new page \<open>p\<close> enters the cache; the result is its first object.\<close>

definition add_slab_page :: "nat \<Rightarrow> vaddr_t \<Rightarrow> heap_state \<Rightarrow> vaddr_t option \<times> heap_state" where
  "add_slab_page c p s =
     (case find_free_object p (slab_pages s p) of
        (ob, pg) \<Rightarrow>
          let s = push_page partial_pages partial_pages_update c p (page_upd p (\<lambda>_. pg) s)
          in (ob, cache_upd c (\<lambda>k. k\<lparr>cache_pages := cache_pages k + 1, cache_objects := cache_objects k + 1,
                                   cache_free_objects := cache_free_objects k + (pg_free_count pg - 1)\<rparr>) s))"

definition free_locks :: "heap_state \<Rightarrow> nat set" where
  "free_locks s = {c. c < NUM_SLAB_SIZES \<and> cache_lock (slab_caches s c) = 0}"

lemma find_size_class_less: "find_size_class sz < NUM_SLAB_SIZES"
  by (auto simp: find_size_class_def NUM_SLAB_SIZES_def split: option.split dest: first_index_SomeD)

lemma free_locks_lock:
  assumes "cache_lock (slab_caches s (find_size_class sz)) = 0"
  shows "card (free_locks (cache_upd (find_size_class sz) (cache_lock_update (\<lambda>_. 1)) s)) < card (free_locks s)"
proof (rule psubset_card_mono)
  show "finite (free_locks s)" by (simp add: free_locks_def)
  have "find_size_class sz \<in> free_locks s"
    using assms by (simp add: free_locks_def find_size_class_less)
  moreover have "find_size_class sz \<notin> free_locks (cache_upd (find_size_class sz) (cache_lock_update (\<lambda>_. 1)) s)"
    by (simp add: free_locks_def)
  moreover have "free_locks (cache_upd (find_size_class sz) (cache_lock_update (\<lambda>_. 1)) s) \<subseteq> free_locks s"
    using assms by (auto simp: free_locks_def split: if_splits)
  ultimately show "free_locks (cache_upd (find_size_class sz) (cache_lock_update (\<lambda>_. 1)) s) \<subset> free_locks s"
    by blast
qed

section \<open>Allocation\<close>

text \<open>
  \<^verbatim>\<open>spinlock_lock\<close> on a cache whose lock the caller already holds spins for ever; this bounds the
  depth of the recursion.
\<close>

function kmalloc :: "(nat \<Rightarrow> bool) \<Rightarrow> size_t \<Rightarrow> heap_state \<Rightarrow> (vaddr_t option \<times> heap_state) option"
  and slab_alloc :: "(nat \<Rightarrow> bool) \<Rightarrow> size_t \<Rightarrow> heap_state \<Rightarrow> (vaddr_t option \<times> heap_state) option"
  and alloc_slab_page :: "(nat \<Rightarrow> bool) \<Rightarrow> nat \<Rightarrow> heap_state \<Rightarrow> (vaddr_t option \<times> heap_state) option" where
  "kmalloc env sz s =
     (if sz = 0 then Some (None, s)
      else if sz \<le> 4096 then
        (case slab_alloc env sz s of
           None \<Rightarrow> None
         | Some (Some ptr, s) \<Rightarrow> Some (Some ptr, s)
         | Some (None, s) \<Rightarrow> heap_alloc env sz s)
      else heap_alloc env sz s)"
| "slab_alloc env sz s =
     (if sz = 0 \<or> sz > 4096 then Some (None, s)
      else if cache_lock (slab_caches s (find_size_class sz)) \<noteq> 0 then None
      else
        (case alloc_partial (find_size_class sz) (cache_upd (find_size_class sz) (cache_lock_update (\<lambda>_. 1)) s) of
           Some (ob, s) \<Rightarrow> Some (Some ob, cache_upd (find_size_class sz) (cache_lock_update (\<lambda>_. 0)) s)
         | None \<Rightarrow>
             (case alloc_slab_page env (find_size_class sz)
                     (cache_upd (find_size_class sz) (cache_lock_update (\<lambda>_. 1)) s) of
                None \<Rightarrow> None
              | Some (None, s) \<Rightarrow> Some (None, cache_upd (find_size_class sz) (cache_lock_update (\<lambda>_. 0)) s)
              | Some (Some p, s) \<Rightarrow>
                  (case add_slab_page (find_size_class sz) p s of
                     (ob, s) \<Rightarrow> Some (ob, cache_upd (find_size_class sz) (cache_lock_update (\<lambda>_. 0)) s)))))"
| "alloc_slab_page env c s =
     (case kmalloc env PAGE_SIZE s of
        None \<Rightarrow> None
      | Some (None, s) \<Rightarrow> Some (None, s)
      | Some (Some p, s) \<Rightarrow> Some (Some p, page_upd p (init_slab_page c) s))"
  by pat_completeness auto

termination
  by (relation "inv_image (less_than <*lex*> less_than)
        (\<lambda>x. case x of
           Inl (env, sz, s) \<Rightarrow> (card (free_locks s), 1)
         | Inr (Inl (env, sz, s)) \<Rightarrow> (card (free_locks s), 0)
         | Inr (Inr (env, c, s)) \<Rightarrow> (card (free_locks s), 2))")
    (auto simp del: fun_upd_apply intro: free_locks_lock)

declare kmalloc.simps [simp del] slab_alloc.simps [simp del] alloc_slab_page.simps [simp del]

definition zero_bytes :: "vaddr_t \<Rightarrow> nat \<Rightarrow> (vaddr_t \<Rightarrow> u8) \<Rightarrow> vaddr_t \<Rightarrow> u8" where
  "zero_bytes p n m = for_range 0 n (\<lambda>i m. m(p + of_nat i := 0)) m"

definition kzalloc :: "(nat \<Rightarrow> bool) \<Rightarrow> size_t \<Rightarrow> heap_state \<Rightarrow> (vaddr_t option \<times> heap_state) option" where
  "kzalloc env sz s =
     (case kmalloc env sz s of
        None \<Rightarrow> None
      | Some (None, s) \<Rightarrow> Some (None, s)
      | Some (Some p, s) \<Rightarrow> Some (Some p, s\<lparr>bytes := zero_bytes p (unat sz) (bytes s)\<rparr>))"

section \<open>Release\<close>

text \<open>The page of one list of pages that contains \<open>ptr\<close>, and the search through all caches.\<close>

partial_function (option) page_in_list ::
  "heap_state \<Rightarrow> vaddr_t option \<Rightarrow> vaddr_t \<Rightarrow> vaddr_t option option" where
  "page_in_list s p ptr =
     (case p of
        None \<Rightarrow> Some None
      | Some a \<Rightarrow>
          if ptr \<ge> a \<and> ptr < a + PAGE_SIZE then Some (Some a)
          else page_in_list s (pg_next (slab_pages s a)) ptr)"

primrec page_in_caches :: "heap_state \<Rightarrow> vaddr_t \<Rightarrow> nat list \<Rightarrow> vaddr_t option option" where
  "page_in_caches s ptr [] = Some None"
| "page_in_caches s ptr (c # cs) =
     (case page_in_list s (partial_pages (slab_caches s c)) ptr of
        None \<Rightarrow> None
      | Some (Some p) \<Rightarrow> Some (Some p)
      | Some None \<Rightarrow>
          (case page_in_list s (full_pages (slab_caches s c)) ptr of
             None \<Rightarrow> None
           | Some (Some p) \<Rightarrow> Some (Some p)
           | Some None \<Rightarrow> page_in_caches s ptr cs))"

definition find_page_for_ptr :: "vaddr_t \<Rightarrow> heap_state \<Rightarrow> vaddr_t option option" where
  "find_page_for_ptr ptr s = page_in_caches s ptr [0..<NUM_SLAB_SIZES]"

text \<open>What \<^verbatim>\<open>slab_free\<close> and \<^verbatim>\<open>slab_try_free\<close> do with the cache \<open>c\<close> locked.\<close>

definition release_object :: "nat \<Rightarrow> vaddr_t \<Rightarrow> vaddr_t \<Rightarrow> heap_state \<Rightarrow> heap_state" where
  "release_object c p ptr s =
     (let s = (if pg_free_count (slab_pages s p) = 0
               then push_page partial_pages partial_pages_update c p (unlink_page full_pages_update c p s)
               else s);
          s = page_upd p (free_object_in_page p ptr) s
      in cache_upd c (\<lambda>k. k\<lparr>cache_objects := cache_objects k - 1,
                           cache_free_objects := cache_free_objects k + 1\<rparr>) s)"

definition slab_free :: "vaddr_t option \<Rightarrow> size_t \<Rightarrow> heap_state \<Rightarrow> heap_state option" where
  "slab_free ptr sz s =
     (case ptr of
        None \<Rightarrow> Some s
      | Some a \<Rightarrow>
          if sz = 0 \<or> sz > 4096 then Some s
          else
            let c = find_size_class sz in
            if cache_lock (slab_caches s c) \<noteq> 0 then None
            else
              (case find_page_for_ptr a s of
                 None \<Rightarrow> None
               | Some None \<Rightarrow> Some s
               | Some (Some p) \<Rightarrow>
                   if unat (pg_class (slab_pages s p)) \<noteq> c then Some s
                   else Some (release_object c p a s)))"

definition slab_try_free :: "vaddr_t option \<Rightarrow> heap_state \<Rightarrow> (bool \<times> heap_state) option" where
  "slab_try_free ptr s =
     (case ptr of
        None \<Rightarrow> Some (False, s)
      | Some a \<Rightarrow>
          (case find_page_for_ptr a s of
             None \<Rightarrow> None
           | Some None \<Rightarrow> Some (False, s)
           | Some (Some p) \<Rightarrow>
               let c = unat (pg_class (slab_pages s p)) in
               if cache_lock (slab_caches s c) \<noteq> 0 then None
               else Some (True, release_object c p a s)))"

definition kfree :: "vaddr_t option \<Rightarrow> heap_state \<Rightarrow> heap_state option" where
  "kfree ptr s =
     (case ptr of
        None \<Rightarrow> Some s
      | Some p \<Rightarrow>
          let a = p - BLOCK_HEADER_SIZE; h = headers s in
          if blk_magic (h a) = HEAP_MAGIC then
            if blk_free (h a) then Some s
            else coalesce_free_blocks
                   (s\<lparr>headers := h(a := (h a)\<lparr>blk_free := True\<rparr>),
                      heap_used_size := heap_used_size s - (blk_size (h a) + BLOCK_HEADER_SIZE)\<rparr>)
          else map_option snd (slab_try_free (Some p) s))"

section \<open>Reallocation, statistics and initialisation\<close>

definition copy_bytes :: "vaddr_t \<Rightarrow> vaddr_t \<Rightarrow> nat \<Rightarrow> (vaddr_t \<Rightarrow> u8) \<Rightarrow> vaddr_t \<Rightarrow> u8" where
  "copy_bytes dst src n m = for_range 0 n (\<lambda>i m. m(dst + of_nat i := m (src + of_nat i))) m"

definition krealloc ::
  "(nat \<Rightarrow> bool) \<Rightarrow> vaddr_t option \<Rightarrow> size_t \<Rightarrow> heap_state \<Rightarrow> (vaddr_t option \<times> heap_state) option" where
  "krealloc env ptr new_size s =
     (case ptr of
        None \<Rightarrow> kmalloc env new_size s
      | Some p \<Rightarrow>
          if new_size = 0 then map_option (\<lambda>s. (None, s)) (kfree ptr s)
          else
            let a = p - BLOCK_HEADER_SIZE in
            if blk_size (headers s a) \<ge> new_size then Some (ptr, s)
            else
              (case kmalloc env new_size s of
                 None \<Rightarrow> None
               | Some (None, s) \<Rightarrow> Some (None, s)
               | Some (Some q, s) \<Rightarrow>
                   map_option (\<lambda>s. (Some q, s))
                     (kfree ptr (s\<lparr>bytes := copy_bytes q p (unat (blk_size (headers s a))) (bytes s)\<rparr>))))"

definition heap_get_stats :: "heap_state \<Rightarrow> size_t \<times> size_t \<times> size_t" where
  "heap_get_stats s = (heap_total_size s, heap_used_size s, heap_total_size s - heap_used_size s)"

definition slab_get_stats :: "heap_state \<Rightarrow> size_t \<times> size_t \<times> size_t" where
  "slab_get_stats s =
     for_range 0 NUM_SLAB_SIZES
       (\<lambda>i (total, free, used).
          (total + ucast (cache_objects (slab_caches s i)), free + ucast (cache_free_objects (slab_caches s i)),
           used + ucast (cache_objects (slab_caches s i) - cache_free_objects (slab_caches s i)))) (0, 0, 0)"

definition slab_init :: "heap_state \<Rightarrow> heap_state" where
  "slab_init s =
     (if slab_initialized s then s
      else s\<lparr>slab_caches := for_range 0 NUM_SLAB_SIZES (\<lambda>i k. k(i := init_slab_cache (slab_sizes ! i))) (slab_caches s),
             slab_initialized := True\<rparr>)"

definition heap_init :: "(nat \<Rightarrow> bool) \<Rightarrow> heap_state \<Rightarrow> heap_state option" where
  "heap_init env s =
     (case expand_heap env HEAP_INITIAL_SIZE (slab_init s) of
        (False, s) \<Rightarrow> None
      | (True, s) \<Rightarrow>
          Some (s\<lparr>heap_start := Some HEAP_START,
                  headers := (headers s)(HEAP_START :=
                    \<lparr>blk_size = HEAP_INITIAL_SIZE - BLOCK_HEADER_SIZE, blk_free = True, blk_next = None,
                     blk_prev = None, blk_magic = HEAP_MAGIC\<rparr>)\<rparr>))"

end
