(* ===== verification/Heap_Blocks.thy ===== *)
theory Heap_Blocks
  imports Heap Tables
begin

text \<open>
  The doubly linked list of heap blocks as a list of sizes and free marks: the blocks lie one behind
  the other from \<^verbatim>\<open>HEAP_START\<close> on, so sizes determine addresses. The loops and updates of
  \<^verbatim>\<open>heap.c\<close> on headers are shown to be operations on that list.
\<close>

section \<open>Addresses\<close>

definition hat :: "nat \<Rightarrow> vaddr_t" where
  "hat off = HEAP_START + of_nat off"

lemma unat_hat: "off < 2 ^ 30 \<Longrightarrow> unat (hat off) = 0xFFFFFFFFC0000000 + off"
  by (simp add: hat_def HEAP_START_def unat_word_ariths unat_of_nat)

lemma hat_eq_iff: "a < 2 ^ 30 \<Longrightarrow> b < 2 ^ 30 \<Longrightarrow> hat a = hat b \<longleftrightarrow> a = b"
  by (metis add_left_cancel unat_hat)

lemma hat_add: "hat a + of_nat b = hat (a + b)"
  by (simp add: hat_def)

lemma hat_add_numeral: "hat a + numeral k = hat (a + numeral k)"
  by (simp add: hat_def)

lemma hat_0: "HEAP_START = hat 0"
  by (simp add: hat_def)

lemma hat_header: "hat (a + 40) - BLOCK_HEADER_SIZE = hat a"
  by (simp add: hat_def BLOCK_HEADER_SIZE_def)

section \<open>Lists of blocks in memory\<close>

type_synonym block = "nat \<times> bool"

definition span :: "block list \<Rightarrow> nat" where
  "span bs = (\<Sum>b\<leftarrow>bs. 40 + fst b)"

lemma span_simps [simp]:
  "span [] = 0" "span (b # bs) = 40 + fst b + span bs" "span (xs @ ys) = span xs + span ys"
  by (simp_all add: span_def)

definition header :: "block \<Rightarrow> vaddr_t option \<Rightarrow> vaddr_t option \<Rightarrow> heap_block_t" where
  "header b nx pv =
     \<lparr>blk_size = of_nat (fst b), blk_free = snd b, blk_next = nx, blk_prev = pv, blk_magic = HEAP_MAGIC\<rparr>"

lemma header_simps [simp]:
  "blk_size (header b nx pv) = of_nat (fst b)" "blk_free (header b nx pv) = snd b"
  "blk_next (header b nx pv) = nx" "blk_prev (header b nx pv) = pv" "blk_magic (header b nx pv) = HEAP_MAGIC"
  "(header b nx pv)\<lparr>blk_next := nx'\<rparr> = header b nx' pv"
  "(header b nx pv)\<lparr>blk_prev := pv'\<rparr> = header b nx pv'"
  "(header b nx pv)\<lparr>blk_free := f\<rparr> = header (fst b, f) nx pv"
  "(header b nx pv)\<lparr>blk_size := of_nat n\<rparr> = header (n, snd b) nx pv"
  by (simp_all add: header_def)

text \<open>The address of the first block of a list at an offset, \<open>z\<close> when there is none.\<close>

definition first_at :: "nat \<Rightarrow> block list \<Rightarrow> vaddr_t option \<Rightarrow> vaddr_t option" where
  "first_at off bs z = (if bs = [] then z else Some (hat off))"

definition last_at :: "nat \<Rightarrow> vaddr_t option \<Rightarrow> block list \<Rightarrow> vaddr_t option" where
  "last_at off pv bs = (if bs = [] then pv else Some (hat (off + span (butlast bs))))"

primrec seg ::
  "(vaddr_t \<Rightarrow> heap_block_t) \<Rightarrow> nat \<Rightarrow> vaddr_t option \<Rightarrow> block list \<Rightarrow> vaddr_t option \<Rightarrow> bool" where
  "seg h off pv [] nx \<longleftrightarrow> True"
| "seg h off pv (b # bs) nx \<longleftrightarrow>
     h (hat off) = header b (first_at (off + 40 + fst b) bs nx) pv \<and>
     seg h (off + 40 + fst b) (Some (hat off)) bs nx"

lemma first_at_simps [simp]:
  "first_at off [] z = z" "first_at off (b # bs) z = Some (hat off)"
  "first_at off (xs @ ys) z = first_at off xs (first_at (off + span xs) ys z)"
  by (simp_all add: first_at_def)

lemma last_at_simps [simp]:
  "last_at off pv [] = pv" "last_at off pv (b # bs) = last_at (off + 40 + fst b) (Some (hat off)) bs"
  by (auto simp: last_at_def add.assoc)

lemma seg_append:
  "seg h off pv (xs @ ys) nx \<longleftrightarrow>
     seg h off pv xs (first_at (off + span xs) ys nx) \<and> seg h (off + span xs) (last_at off pv xs) ys nx"
  by (induction xs arbitrary: off pv) (auto simp: add.assoc)

lemma seg_cong:
  assumes "\<And>o'. off \<le> o' \<Longrightarrow> o' < off + span bs \<Longrightarrow> h' (hat o') = h (hat o')"
  shows "seg h' off pv bs nx = seg h off pv bs nx"
  using assms
proof (induction bs arbitrary: off pv)
  case (Cons b bs)
  have "seg h' (off + 40 + fst b) (Some (hat off)) bs nx = seg h (off + 40 + fst b) (Some (hat off)) bs nx"
    by (rule Cons.IH) (rule Cons.prems, simp_all)
  moreover have "h' (hat off) = h (hat off)" by (rule Cons.prems) simp_all
  ultimately show ?case by simp
qed simp

lemma seg_upd:
  assumes "x < off \<or> off + span bs \<le> x" "x < 2 ^ 30" "off + span bs \<le> 2 ^ 30"
  shows "seg (h(hat x := v)) off pv bs nx = seg h off pv bs nx"
proof (rule seg_cong)
  fix o' assume "off \<le> o'" "o' < off + span bs"
  with assms have "o' \<noteq> x" "o' < 2 ^ 30" by auto
  with assms(2) have "hat o' \<noteq> hat x" by (simp add: hat_eq_iff)
  then show "(h(hat x := v)) (hat o') = h (hat o')" by simp
qed

text \<open>Setting the back pointer of the first block of a list, as the code does when there is one.\<close>

definition set_prev :: "vaddr_t option \<Rightarrow> vaddr_t \<Rightarrow> (vaddr_t \<Rightarrow> heap_block_t) \<Rightarrow> vaddr_t \<Rightarrow> heap_block_t" where
  "set_prev p a h = (case p of None \<Rightarrow> h | Some c \<Rightarrow> h(c := (h c)\<lparr>blk_prev := Some a\<rparr>))"

lemma seg_set_prev:
  assumes "seg h off pv bs None" "off + span bs \<le> 2 ^ 30"
  shows "seg (set_prev (first_at off bs None) a h) off (Some a) bs None"
proof (cases bs)
  case (Cons b cs)
  have "seg (h(hat off := v)) (off + 40 + fst b) q cs None = seg h (off + 40 + fst b) q cs None" for v q
    using assms(2) Cons by (intro seg_upd) auto
  with assms(1) Cons show ?thesis by (simp add: set_prev_def)
qed (simp add: set_prev_def)

lemma set_prev_other:
  assumes "\<And>c. p = Some c \<Longrightarrow> x \<noteq> c"
  shows "set_prev p a h x = h x"
  using assms by (auto simp: set_prev_def split: option.split)

lemma seg_set_prev_other:
  assumes "y < off \<or> off + span bs \<le> y" "y < 2 ^ 30" "off + span bs \<le> 2 ^ 30"
  shows "seg (set_prev (first_at y cs None) a h) off pv bs nx = seg h off pv bs nx"
  using assms by (cases cs) (simp_all add: set_prev_def seg_upd)

section \<open>Searches\<close>

primrec first_fit :: "nat \<Rightarrow> nat \<Rightarrow> block list \<Rightarrow> nat option" where
  "first_fit n off [] = None"
| "first_fit n off (b # bs) = (if snd b \<and> n \<le> fst b then Some off else first_fit n (off + 40 + fst b) bs)"

lemma first_fit_Some:
  assumes "first_fit n off bs = Some x"
  obtains xs m ys where "bs = xs @ (m, True) # ys" "n \<le> m" "x = off + span xs"
    "\<forall>b \<in> set xs. snd b \<longrightarrow> fst b < n"
  using assms
proof (induction bs arbitrary: off thesis)
  case (Cons b bs)
  show ?case
  proof (cases "snd b \<and> n \<le> fst b")
    case True
    with Cons.prems(2) show ?thesis by (intro Cons.prems(1) [of "[]" "fst b" bs]) (auto simp: prod_eq_iff)
  next
    case False
    with Cons.prems(2) have "first_fit n (off + 40 + fst b) bs = Some x" by (simp split: if_splits)
    then show ?thesis
    proof (rule Cons.IH [rotated])
      fix xs m ys assume "bs = xs @ (m, True) # ys" "n \<le> m" "x = off + 40 + fst b + span xs"
        "\<forall>b\<in>set xs. snd b \<longrightarrow> fst b < n"
      with False show ?thesis by (intro Cons.prems(1) [of "b # xs" m ys]) auto
    qed
  qed
qed simp

lemma first_fit_None: "first_fit n off bs = None \<longleftrightarrow> (\<forall>b \<in> set bs. snd b \<longrightarrow> fst b < n)"
  by (induction bs arbitrary: off) (auto simp: not_le)

lemma span_member: "b \<in> set bs \<Longrightarrow> 40 + fst b \<le> span bs"
  by (induction bs) auto

lemma of_nat_le_size:
  assumes "m < 2 ^ 30"
  shows "(of_nat m :: size_t) \<ge> sz \<longleftrightarrow> unat sz \<le> m"
  using assms by (simp add: word_le_nat_alt unat_of_nat)

lemma find_block_seg:
  assumes "seg h off pv bs None" "span bs \<le> 2 ^ 29"
  shows "find_block h (first_at off bs None) sz = Some (map_option hat (first_fit (unat sz) off bs))"
  using assms
proof (induction bs arbitrary: off pv)
  case Nil
  show ?case by (subst find_block.simps) simp
next
  case (Cons b bs)
  then have "(of_nat (fst b) :: size_t) \<ge> sz \<longleftrightarrow> unat sz \<le> fst b" by (intro of_nat_le_size) simp
  moreover have "find_block h (first_at (off + 40 + fst b) bs None) sz =
      Some (map_option hat (first_fit (unat sz) (off + 40 + fst b) bs))"
    by (rule Cons.IH [where pv = "Some (hat off)"]) (use Cons.prems in simp_all)
  moreover have "h (hat off) = header b (first_at (off + 40 + fst b) bs None) pv"
    using Cons.prems by simp
  ultimately show ?case by (subst find_block.simps) simp
qed

lemma last_block_seg:
  assumes "seg h off pv (b # bs) None"
  shows "last_block h (hat off) = last_at off pv (b # bs)"
  using assms
proof (induction bs arbitrary: off pv b)
  case Nil
  then show ?case by (subst last_block.simps) simp
next
  case (Cons c bs)
  have "last_block h (hat (off + 40 + fst b)) = last_at (off + 40 + fst b) (Some (hat off)) (c # bs)"
    by (rule Cons.IH) (use Cons.prems in \<open>simp only: seg.simps\<close>)
  moreover have "blk_next (h (hat off)) = Some (hat (off + 40 + fst b))"
    using Cons.prems by simp
  ultimately show ?case by (subst last_block.simps) (simp del: last_at_simps add: last_at_simps(2) [of off])
qed

section \<open>Taking and appending blocks\<close>

definition carve :: "nat \<Rightarrow> nat \<Rightarrow> block list" where
  "carve n m = (if n + 72 \<le> m then [(n, False), (m - n - 40, True)] else [(m, False)])"

definition carved :: "nat \<Rightarrow> nat \<Rightarrow> nat" where
  "carved n m = (if n + 72 \<le> m then n else m)"

lemma span_carve: "n \<le> m \<Longrightarrow> span (carve n m) = 40 + m"
  by (simp add: carve_def)

lemma split_condition:
  assumes "m < 2 ^ 29" "unat sz \<le> m"
  shows "(of_nat m :: size_t) \<ge> sz + BLOCK_HEADER_SIZE + 32 \<longleftrightarrow> unat sz + 72 \<le> m"
proof -
  have "unat (sz + BLOCK_HEADER_SIZE + 32) = unat sz + 72"
    using assms by (simp add: BLOCK_HEADER_SIZE_def unat_word_ariths)
  with assms show ?thesis by (simp add: of_nat_le_size)
qed

lemma split_block_seg:
  assumes seg: "seg h 0 None (xs @ (m, True) # ys) None" and small: "span (xs @ (m, True) # ys) \<le> 2 ^ 28"
    and fits: "unat sz \<le> m"
  defines "a \<equiv> hat (span xs)"
  defines "h' \<equiv> split_block sz a h"
  shows "seg (h'(a := (h' a)\<lparr>blk_free := False\<rparr>)) 0 None (xs @ carve (unat sz) m @ ys) None"
    "blk_size (h' a) = of_nat (carved (unat sz) m)"
proof -
  let ?n = "unat sz" and ?x = "span xs"
  let ?e = "?x + 40 + m"
  have xs: "seg h 0 None xs (Some (hat ?x))"
    and ha: "h a = header (m, True) (first_at ?e ys None) (last_at 0 None xs)"
    and ys: "seg h ?e (Some (hat ?x)) ys None"
    using seg by (simp_all add: seg_append a_def)
  have small: "?x + 40 + m + span ys \<le> 2 ^ 28" using small by simp
  have cond: "blk_size (h a) \<ge> sz + BLOCK_HEADER_SIZE + 32 \<longleftrightarrow> ?n + 72 \<le> m"
    using split_condition [of m sz] small fits by (simp add: ha)
  show "seg (h'(a := (h' a)\<lparr>blk_free := False\<rparr>)) 0 None (xs @ carve ?n m @ ys) None"
  proof (cases "?n + 72 \<le> m")
    case False
    then have "h' = h" "carve ?n m = [(m, False)]" using cond by (simp_all add: h'_def split_block_def carve_def)
    moreover have "seg (h(a := v)) 0 None xs (Some (hat ?x)) = seg h 0 None xs (Some (hat ?x))" for v
      unfolding a_def using small by (intro seg_upd) auto
    moreover have "seg (h(a := v)) ?e q ys None = seg h ?e q ys None" for v q
      unfolding a_def using small by (intro seg_upd) auto
    ultimately show ?thesis
      using xs ha ys by (simp add: seg_append a_def)
  next
    case True
    let ?b = "?x + 40 + ?n"
    have b: "a + BLOCK_HEADER_SIZE + sz = hat ?b"
      by (simp add: a_def hat_def BLOCK_HEADER_SIZE_def)
    have rest: "blk_size (h a) - sz - BLOCK_HEADER_SIZE = of_nat (m - ?n - 40)"
      using True by (simp add: ha BLOCK_HEADER_SIZE_def of_nat_diff)
    let ?h1 = "h(hat ?b := header (m - ?n - 40, True) (first_at ?e ys None) (Some a))"
    let ?h2 = "set_prev (first_at ?e ys None) (hat ?b) ?h1"
    have "?h1 a = h a" using small True by (simp add: a_def hat_eq_iff)
    moreover have "?h2 a = ?h1 a"
      using small by (intro set_prev_other) (auto simp: first_at_def a_def hat_eq_iff split: if_splits)
    ultimately have h2a: "?h2 a = h a" by simp
    have new: "\<lparr>blk_size = blk_size (h a) - sz - BLOCK_HEADER_SIZE, blk_free = True, blk_next = blk_next (h a),
        blk_prev = Some a, blk_magic = HEAP_MAGIC\<rparr> = header (m - ?n - 40, True) (first_at ?e ys None) (Some a)"
      unfolding rest by (simp add: ha header_def)
    have nx: "blk_next (h a) = first_at ?e ys None" by (simp add: ha)
    have "h' = ?h2(a := (?h2 a)\<lparr>blk_next := Some (hat ?b), blk_size := sz\<rparr>)"
      unfolding h'_def split_block_def Let_def set_prev_def b new unfolding nx using True cond by simp
    moreover have "(header (m, True) (first_at ?e ys None) (last_at 0 None xs))\<lparr>blk_next := Some (hat ?b), blk_size := sz\<rparr> =
        header (?n, True) (Some (hat ?b)) (last_at 0 None xs)"
      by (simp add: header_def)
    ultimately have h': "h' = ?h2(a := header (?n, True) (Some (hat ?b)) (last_at 0 None xs))"
      by (simp only: h2a ha)
    have eq: "h'(a := (h' a)\<lparr>blk_free := False\<rparr>) = ?h2(a := header (?n, False) (Some (hat ?b)) (last_at 0 None xs))"
      by (simp add: h')
    have f1: "seg (?h2(a := v)) 0 None xs (Some (hat ?x))" for v
    proof -
      have "seg (?h2(a := v)) 0 None xs (Some (hat ?x)) = seg ?h2 0 None xs (Some (hat ?x))"
        unfolding a_def using small by (intro seg_upd) auto
      also have "\<dots> = seg ?h1 0 None xs (Some (hat ?x))"
        using small by (intro seg_set_prev_other) auto
      also have "\<dots> = seg h 0 None xs (Some (hat ?x))"
        using small True by (intro seg_upd) auto
      finally show ?thesis using xs by simp
    qed
    have f2: "seg (?h2(a := v)) ?e (Some (hat ?b)) ys None" for v
    proof -
      have "seg (?h2(a := v)) ?e (Some (hat ?b)) ys None = seg ?h2 ?e (Some (hat ?b)) ys None"
        unfolding a_def using small by (intro seg_upd) auto
      moreover have "seg ?h1 ?e (Some (hat ?x)) ys None = seg h ?e (Some (hat ?x)) ys None"
        using small True by (intro seg_upd) auto
      ultimately show ?thesis
        using ys small by (simp add: seg_set_prev [where pv = "Some (hat ?x)"])
    qed
    have f3: "(?h2(a := v)) (hat ?b) = header (m - ?n - 40, True) (first_at ?e ys None) (Some a)" for v
    proof -
      have "hat ?b \<noteq> a" using small True by (simp add: a_def hat_eq_iff)
      moreover have "?h2 (hat ?b) = ?h1 (hat ?b)"
        using small True by (intro set_prev_other) (auto simp: first_at_def hat_eq_iff split: if_splits)
      ultimately show ?thesis by simp
    qed
    have e: "?b + 40 + (m - ?n - 40) = ?e" using True by simp
    have carve: "carve ?n m = [(?n, False), (m - ?n - 40, True)]" using True by (simp add: carve_def)
    show ?thesis
      unfolding eq carve seg_append append_Cons append_Nil seg.simps first_at_simps fst_conv add_0 e
      using f1 f2 f3 by (simp add: a_def)
  qed
  show "blk_size (h' a) = of_nat (carved ?n m)"
    using cond ha by (simp add: h'_def split_block_def Let_def carved_def)
qed

lemma append_block_seg:
  assumes h: "headers s = h" and seg: "seg h 0 None (xs @ [(m, f)]) None" and small: "span (xs @ [(m, f)]) + 40 + n \<le> 2 ^ 28"
    and n: "unat sz = n"
  defines "l \<equiv> hat (span xs)" and "b \<equiv> hat (span xs + 40 + m)"
  shows "append_block (sz + BLOCK_HEADER_SIZE) l s =
     (Some (hat (span xs + 40 + m + 40)),
      s\<lparr>headers := h(b := header (n, False) None (Some l), l := header (m, f) (Some b) (last_at 0 None xs)),
        heap_used_size := heap_used_size s + of_nat (n + 40)\<rparr>)"
    "seg (h(b := header (n, False) None (Some l), l := header (m, f) (Some b) (last_at 0 None xs))) 0 None
       (xs @ [(m, f), (n, False)]) None"
proof -
  let ?h = "h(b := header (n, False) None (Some l), l := header (m, f) (Some b) (last_at 0 None xs))"
  have xs: "seg h 0 None xs (Some l)" and hl: "h l = header (m, f) None (last_at 0 None xs)"
    using seg by (simp_all add: seg_append l_def)
  have bl: "b \<noteq> l" using small by (simp add: b_def l_def hat_eq_iff)
  have sz: "sz = of_nat n" using n by auto
  have b: "l + BLOCK_HEADER_SIZE + of_nat m = b"
    by (simp add: l_def b_def hat_def BLOCK_HEADER_SIZE_def)
  have b40: "b + BLOCK_HEADER_SIZE = hat (span xs + 40 + m + 40)"
    by (simp add: b_def hat_def BLOCK_HEADER_SIZE_def)
  show "append_block (sz + BLOCK_HEADER_SIZE) l s =
     (Some (hat (span xs + 40 + m + 40)), s\<lparr>headers := ?h, heap_used_size := heap_used_size s + of_nat (n + 40)\<rparr>)"
  proof -
    have e: "sz + BLOCK_HEADER_SIZE - BLOCK_HEADER_SIZE = of_nat n"
      "(of_nat n + BLOCK_HEADER_SIZE :: size_t) = of_nat (n + 40)"
      by (simp_all add: sz BLOCK_HEADER_SIZE_def)
    have new: "\<lparr>blk_size = of_nat n, blk_free = False, blk_next = None, blk_prev = Some l, blk_magic = HEAP_MAGIC\<rparr>
        = header (n, False) None (Some l)" by (simp add: header_def)
    show ?thesis
      unfolding append_block_def Let_def h hl header_simps fst_conv b b40 e(1) new
      using bl e(2) by (simp add: hl del: of_nat_add)
  qed
  have "seg ?h 0 None xs (Some l) = seg (h(b := header (n, False) None (Some l))) 0 None xs (Some l)"
    unfolding l_def using small by (intro seg_upd) auto
  also have "\<dots> = seg h 0 None xs (Some l)"
    unfolding b_def using small by (intro seg_upd) auto
  finally show "seg ?h 0 None (xs @ [(m, f), (n, False)]) None"
    using xs bl by (simp add: seg_append) (simp add: l_def b_def)
qed

section \<open>Coalescing\<close>

fun merge :: "block list \<Rightarrow> block list" where
  "merge [] = []"
| "merge [b] = [b]"
| "merge ((m, f) # (n, g) # bs) =
     (if f \<and> g then merge ((m + 40 + n, True) # bs) else (m, f) # merge ((n, g) # bs))"

lemma span_merge: "span (merge bs) = span bs"
  by (induction bs rule: merge.induct) auto

lemma merge_Nil_iff [simp]: "merge bs = [] \<longleftrightarrow> bs = []"
  by (induction bs rule: merge.induct) auto

lemma merge_hd_free: "merge ((m, f) # bs) = b # cs \<Longrightarrow> snd b = f"
  by (induction "(m, f) # bs" arbitrary: m f bs b cs rule: merge.induct) (auto split: if_splits)

text \<open>A list in which no two free blocks are neighbours.\<close>

definition settled :: "block list \<Rightarrow> bool" where
  "settled bs = successively (\<lambda>a b. \<not> (snd a \<and> snd b)) bs"

lemma settled_Cons: "settled (b # bs) \<longleftrightarrow> bs = [] \<or> \<not> (snd b \<and> snd (hd bs)) \<and> settled bs"
  by (auto simp: settled_def successively_Cons)

lemma settled_merge: "settled (merge bs)"
proof (induction bs rule: merge.induct)
  case (3 m f n g bs)
  show ?case
  proof (cases "f \<and> g")
    case False
    obtain b cs where b: "merge ((n, g) # bs) = b # cs"
      by (metis list.distinct(1) merge_Nil_iff neq_Nil_conv)
    with False have "\<not> (f \<and> snd b)" using merge_hd_free [OF b] by simp
    with 3(2) [OF False] b show ?thesis
      unfolding merge.simps if_not_P [OF False] by (simp add: settled_Cons)
  qed (use 3 in simp)
qed (simp_all add: settled_def)

lemma coalesce_seg:
  assumes "seg h off pv bs None" "bs \<noteq> []" "off + span bs \<le> 2 ^ 28"
  obtains h' where "coalesce_loop h (Some (hat off)) = Some h'" "seg h' off pv (merge bs) None"
    "\<And>x. (\<And>o'. off \<le> o' \<Longrightarrow> o' < off + span bs \<Longrightarrow> x \<noteq> hat o') \<Longrightarrow> h' x = h x"
  using assms
proof (induction bs arbitrary: h off pv thesis rule: merge.induct)
  case (3 m f n g bs)
  let ?b = "off + 40 + m"
  let ?e = "?b + 40 + n"
  have ha: "h (hat off) = header (m, f) (Some (hat ?b)) pv"
    and hb: "h (hat ?b) = header (n, g) (first_at ?e bs None) (Some (hat off))"
    and bs: "seg h ?e (Some (hat ?b)) bs None"
    using 3(4) by simp_all
  have small: "?e + span bs \<le> 2 ^ 28" using 3(6) by simp
  show ?case
  proof (cases "f \<and> g")
    case True
    let ?h1 = "h(hat off := header (m + 40 + n, True) (first_at ?e bs None) pv)"
    let ?h2 = "set_prev (first_at ?e bs None) (hat off) ?h1"
    have step: "coalesce_loop h (Some (hat off)) = coalesce_loop ?h2 (Some (hat off))"
    proof -
      have "(of_nat m + (BLOCK_HEADER_SIZE + of_nat n) :: size_t) = of_nat (m + 40 + n)"
        by (simp add: BLOCK_HEADER_SIZE_def)
      with True show ?thesis
        by (subst coalesce_loop.simps) (simp add: ha hb Let_def set_prev_def del: of_nat_add)
    qed
    have "?h2 (hat off) = ?h1 (hat off)"
      using small by (intro set_prev_other) (auto simp: first_at_def hat_eq_iff split: if_splits)
    moreover have "seg ?h1 ?e (Some (hat ?b)) bs None"
      using bs small by (subst seg_upd) auto
    then have "seg ?h2 ?e (Some (hat off)) bs None"
      using small by (intro seg_set_prev) auto
    ultimately have seg2: "seg ?h2 off pv ((m + 40 + n, True) # bs) None"
      by (simp add: add.assoc)
    obtain h' where h': "coalesce_loop ?h2 (Some (hat off)) = Some h'"
      "seg h' off pv (merge ((m + 40 + n, True) # bs)) None"
      "\<And>x. (\<And>o'. off \<le> o' \<Longrightarrow> o' < off + span ((m + 40 + n, True) # bs) \<Longrightarrow> x \<noteq> hat o') \<Longrightarrow> h' x = ?h2 x"
      by (rule 3(1) [OF True _ seg2]) (use small in auto)
    show ?thesis
    proof (rule 3(3))
      show "coalesce_loop h (Some (hat off)) = Some h'" using step h'(1) by simp
      show "seg h' off pv (merge ((m, f) # (n, g) # bs)) None" using True h'(2) by simp
      fix x assume out: "\<And>o'. off \<le> o' \<Longrightarrow> o' < off + span ((m, f) # (n, g) # bs) \<Longrightarrow> x \<noteq> hat o'"
      have "h' x = ?h2 x" by (rule h'(3)) (rule out, auto)
      also have "\<dots> = ?h1 x"
      proof (rule set_prev_other)
        fix c assume "first_at ?e bs None = Some c"
        then have "c = hat ?e" "bs \<noteq> []" by (auto simp: first_at_def split: if_splits)
        moreover have "0 < span bs" using \<open>bs \<noteq> []\<close> by (cases bs) auto
        ultimately show "x \<noteq> c" using out [of ?e] by simp
      qed
      also have "\<dots> = h x" using out [of off] by simp
      finally show "h' x = h x" .
    qed
  next
    case False
    have seg2: "seg h ?b (Some (hat off)) ((n, g) # bs) None" using hb bs by simp
    obtain h' where h': "coalesce_loop h (Some (hat ?b)) = Some h'"
      "seg h' ?b (Some (hat off)) (merge ((n, g) # bs)) None"
      "\<And>x. (\<And>o'. ?b \<le> o' \<Longrightarrow> o' < ?b + span ((n, g) # bs) \<Longrightarrow> x \<noteq> hat o') \<Longrightarrow> h' x = h x"
      by (rule 3(2) [OF False _ seg2]) (use small in auto)
    have "h' (hat off) = h (hat off)"
      using small by (intro h'(3)) (auto simp: hat_eq_iff)
    moreover have "first_at ?b (merge ((n, g) # bs)) None = Some (hat ?b)"
      by (simp add: first_at_def)
    ultimately have merged: "seg h' off pv (merge ((m, f) # (n, g) # bs)) None"
      unfolding merge.simps if_not_P [OF False] using ha h'(2) by simp
    have "coalesce_loop h (Some (hat off)) = coalesce_loop h (Some (hat ?b))"
      using False by (subst coalesce_loop.simps) (auto simp: ha hb)
    with h'(1) have loop: "coalesce_loop h (Some (hat off)) = Some h'" by simp
    have "h' x = h x" if "\<And>o'. off \<le> o' \<Longrightarrow> o' < off + span ((m, f) # (n, g) # bs) \<Longrightarrow> x \<noteq> hat o'" for x
      by (rule h'(3)) (rule that, auto)
    with loop merged show ?thesis by (rule 3(3))
  qed
next
  case (2 b)
  then show ?case
    by (cases b) (subst (asm) coalesce_loop.simps, simp)
qed simp

end
