(* ===== verification/Heap_Alloc.thy ===== *)
theory Heap_Alloc
  imports Heap_Blocks
begin

text \<open>
  The invariant of the heap and what \<^verbatim>\<open>heap_alloc\<close> and \<^verbatim>\<open>kfree\<close> do to the set of allocated blocks. Requests
  are bounded by 512 MiB: twice the maximal size of the heap, and small enough that no sum in the code wraps.
\<close>

section \<open>Allocated blocks\<close>

text \<open>Offset and size of the payloads of the used blocks of a list.\<close>

fun allocs :: "nat \<Rightarrow> block list \<Rightarrow> (nat \<times> nat) list" where
  "allocs off [] = []"
| "allocs off ((n, f) # bs) = (if f then [] else [(off + 40, n)]) @ allocs (off + 40 + n) bs"

definition used :: "block list \<Rightarrow> nat" where
  "used bs = (\<Sum>b\<leftarrow>bs. if snd b then 0 else 40 + fst b)"

lemma used_simps [simp]:
  "used [] = 0" "used (b # bs) = (if snd b then 0 else 40 + fst b) + used bs" "used (xs @ ys) = used xs + used ys"
  by (simp_all add: used_def)

lemma used_le_span: "used bs \<le> span bs"
  by (induction bs) auto

lemma allocs_append: "allocs off (xs @ ys) = allocs off xs @ allocs (off + span xs) ys"
  by (induction off xs rule: allocs.induct) (auto simp: add.assoc)

lemma allocs_merge: "allocs off (merge bs) = allocs off bs"
  by (induction bs arbitrary: off rule: merge.induct) (auto simp: algebra_simps)

lemma used_merge: "used (merge bs) = used bs"
  by (induction bs rule: merge.induct) auto

lemma merge_dvd: "\<forall>b \<in> set bs. 8 dvd fst b \<Longrightarrow> \<forall>b \<in> set (merge bs). 8 dvd fst b"
  by (induction bs rule: merge.induct) auto

lemma allocs_Nil_iff: "allocs off bs = [] \<longleftrightarrow> (\<forall>b \<in> set bs. snd b)"
  by (induction off bs rule: allocs.induct) auto

lemma allocs_bounds:
  assumes "(x, n) \<in> set (allocs off bs)"
  shows "off + 40 \<le> x" "x + n \<le> off + span bs"
  using assms by (induction off bs rule: allocs.induct) (force split: if_splits)+

lemma allocs_apart:
  assumes "(x, n) \<in> set (allocs off bs)" "(y, m) \<in> set (allocs off bs)" "x \<noteq> y"
  shows "x + n \<le> y \<or> y + m \<le> x"
  using assms
proof (induction off bs rule: allocs.induct)
  case (2 off k f bs)
  have "off + 40 + k \<le> x'" if "(x', n') \<in> set (allocs (off + 40 + k) bs)" for x' n'
    using allocs_bounds(1) [OF that] by simp
  with 2 show ?case by (fastforce split: if_splits)
qed simp

lemma allocs_unique:
  assumes "(x, n) \<in> set (allocs off bs)" "(x, m) \<in> set (allocs off bs)"
  shows "n = m"
  using assms
proof (induction off bs rule: allocs.induct)
  case (2 off k f bs)
  have "off + 40 + k < x'" if "(x', n') \<in> set (allocs (off + 40 + k) bs)" for x' n'
    using allocs_bounds(1) [OF that] by simp
  with 2 show ?case by (fastforce split: if_splits)
qed simp

lemma allocs_split:
  assumes "(x, n) \<in> set (allocs off bs)"
  obtains xs ys where "bs = xs @ (n, False) # ys" "x = off + span xs + 40"
  using assms
proof (induction off bs arbitrary: thesis rule: allocs.induct)
  case (2 off k f bs)
  show ?case
  proof (cases "(x, n) \<in> set (allocs (off + 40 + k) bs)")
    case True
    then show ?thesis
    proof (rule 2(1) [rotated])
      fix xs ys assume "bs = xs @ (n, False) # ys" "x = off + 40 + k + span xs + 40"
      then show ?thesis by (intro 2(2) [of "(k, f) # xs" ys]) auto
    qed
  next
    case False
    with 2(3) show ?thesis by (intro 2(2) [of "[]" bs]) (auto split: if_splits)
  qed
qed simp

lemma allocs_insert:
  "set (allocs off (xs @ (m, False) # ys)) = insert (off + span xs + 40, m) (set (allocs off (xs @ (m, True) # ys)))"
  by (auto simp: allocs_append)

lemma allocs_remove:
  "set (allocs off (xs @ (m, True) # ys)) = set (allocs off (xs @ (m, False) # ys)) - {(off + span xs + 40, m)}"
proof -
  have "(off + span xs + 40, m) \<notin> set (allocs off xs)"
    using allocs_bounds(2) [of "off + span xs + 40" m off xs] by auto
  moreover have "(off + span xs + 40, m) \<notin> set (allocs (off + span xs + 40 + m) ys)"
    using allocs_bounds(1) [of "off + span xs + 40" m "off + span xs + 40 + m" ys] by auto
  ultimately show ?thesis by (auto simp: allocs_append)
qed

lemma allocs_fresh:
  assumes "(off + span xs + 40, k) \<in> set (allocs off (xs @ (m, True) # ys))"
  shows False
  using assms allocs_bounds(1) [of "off + span xs + 40" k "off + span xs + 40 + m" ys]
    allocs_bounds(2) [of "off + span xs + 40" k off xs]
  by (auto simp: allocs_append)

lemma allocs_carve:
  assumes "n \<le> m"
  shows "set (allocs off (xs @ carve n m @ ys)) = insert (off + span xs + 40, carved n m) (set (allocs off (xs @ (m, True) # ys)))"
  using assms by (auto simp: carve_def carved_def allocs_append algebra_simps)

lemma unat_of_nat_small: "n < 2 ^ 64 \<Longrightarrow> unat (of_nat n :: u64) = n"
  by (simp add: unat_of_nat)

section \<open>The invariant\<close>

definition heap_rep :: "heap_state \<Rightarrow> block list \<Rightarrow> bool" where
  "heap_rep s bs \<longleftrightarrow>
     heap_start s = Some HEAP_START \<and> bs \<noteq> [] \<and> seg (headers s) 0 None bs None \<and>
     (\<exists>c. heap_current s = hat c \<and> c \<le> 2 ^ 28 \<and> unat (heap_total_size s) \<le> c) \<and>
     span bs \<le> unat (heap_total_size s) \<and> (\<forall>b \<in> set bs. 8 dvd fst b) \<and>
     unat (heap_used_size s) = used bs \<and> settled bs"

lemma heap_repD:
  assumes "heap_rep s bs"
  shows "heap_start s = Some (hat 0)" "bs \<noteq> []" "seg (headers s) 0 None bs None" "span bs \<le> 2 ^ 28"
    "span bs \<le> unat (heap_total_size s)" "unat (heap_used_size s) = used bs" "settled bs"
    "\<forall>b \<in> set bs. 8 dvd fst b"
  using assms by (auto simp: heap_rep_def hat_0)

text \<open>What every operation on blocks leaves alone.\<close>

definition kept :: "heap_state \<Rightarrow> heap_state \<Rightarrow> bool" where
  "kept s t \<longleftrightarrow> bytes t = bytes s \<and> slab_caches t = slab_caches s \<and> slab_pages t = slab_pages s"

section \<open>Expansion\<close>

lemma expand_pages_result:
  obtains k t where "k \<le> n" "expand_pages env n s =
    (k = n, s\<lparr>heap_current := heap_current s + of_nat (k * 4096), tried := t\<rparr>)"
proof (induction n arbitrary: s thesis)
  case 0
  then show ?case by (intro 0 [of 0 "tried s"]) simp_all
next
  case (Suc n)
  show ?case
  proof (cases "env (tried s)")
    case True
    let ?s = "s\<lparr>tried := Suc (tried s), heap_current := heap_current s + PAGE_SIZE\<rparr>"
    obtain k t where "k \<le> n" "expand_pages env n ?s = (k = n, ?s\<lparr>heap_current := heap_current ?s + of_nat (k * 4096), tried := t\<rparr>)"
      by (rule Suc.IH)
    with True show ?thesis
      by (intro Suc.prems [of "Suc k" t]) (simp_all add: PAGE_SIZE_def algebra_simps)
  next
    case False
    then show ?thesis by (intro Suc.prems [of 0 "Suc (tried s)"]) simp_all
  qed
qed

lemma unat_page_round:
  assumes "unat sz \<le> 2 ^ 29 + 40"
  shows "unat (ALIGN_UP sz PAGE_SIZE) = (unat sz + 4095) div 4096 * 4096"
    "unat (ALIGN_UP sz PAGE_SIZE div PAGE_SIZE) = (unat sz + 4095) div 4096"
proof -
  show *: "unat (ALIGN_UP sz PAGE_SIZE) = (unat sz + 4095) div 4096 * 4096"
    by (rule unat_ALIGN_UP) (use assms in simp)
  then show "unat (ALIGN_UP sz PAGE_SIZE div PAGE_SIZE) = (unat sz + 4095) div 4096"
    by (simp add: unat_div PAGE_SIZE_def)
qed

lemma expand_heap_rep:
  assumes rep: "heap_rep s bs" and small: "unat sz \<le> 2 ^ 29 + 40"
  obtains ok t where "expand_heap env sz s = (ok, t)" "heap_rep t bs" "kept s t" "headers t = headers s"
    "heap_used_size t = heap_used_size s" "ok \<longrightarrow> span bs + unat sz \<le> unat (heap_total_size t)"
proof -
  obtain c where c: "heap_current s = hat c" "c \<le> 2 ^ 28" "unat (heap_total_size s) \<le> c"
    using rep by (auto simp: heap_rep_def)
  let ?sz = "ALIGN_UP sz PAGE_SIZE" and ?p = "(unat sz + 4095) div 4096"
  note sz = unat_page_round [OF small]
  have p: "unat sz \<le> ?p * 4096" "?p * 4096 \<le> unat sz + 4095" by auto
  have "hat c + of_nat (unat ?sz) = hat (c + ?p * 4096)" by (simp only: hat_add sz(1))
  then have "hat c + ?sz = hat (c + ?p * 4096)" by simp
  moreover have "unat (hat (c + ?p * 4096)) = 0xFFFFFFFFC0000000 + (c + ?p * 4096)"
    using c(2) p small by (intro unat_hat) auto
  ultimately have check: "heap_current s + ?sz > HEAP_START + HEAP_MAX_SIZE \<longleftrightarrow> c + ?p * 4096 > 2 ^ 28"
    by (simp add: c word_less_nat_alt HEAP_START_def HEAP_MAX_SIZE_def)
  show ?thesis
  proof (cases "c + ?p * 4096 > 2 ^ 28")
    case True
    with check have "expand_heap env sz s = (False, s)" by (simp add: expand_heap_def)
    with rep show ?thesis by (intro that) (auto simp: kept_def)
  next
    case False
    obtain k t where k: "k \<le> ?p" "expand_pages env ?p s = (k = ?p, s\<lparr>heap_current := heap_current s + of_nat (k * 4096), tried := t\<rparr>)"
      by (rule expand_pages_result)
    have cur: "heap_current s + of_nat (k * 4096) = hat (c + k * 4096)" by (simp only: c hat_add)
    note kp = k(2) [unfolded cur]
    have le: "k * 4096 \<le> ?p * 4096" using k(1) by simp
    have tot: "unat (heap_total_size s + ?sz) = unat (heap_total_size s) + ?p * 4096"
      using False c(3) sz(1) by (subst unat_add_lem [THEN iffD1]) auto
    show ?thesis
    proof (cases "k = ?p")
      case True
      with check False kp sz(2) have e: "expand_heap env sz s =
          (True, s\<lparr>heap_current := hat (c + k * 4096), tried := t, heap_max := hat (c + k * 4096),
                   heap_total_size := heap_total_size s + ?sz\<rparr>)" (is "_ = (True, ?t)")
        by (simp add: expand_heap_def Let_def)
      have "\<exists>d. heap_current ?t = hat d \<and> d \<le> 2 ^ 28 \<and> unat (heap_total_size ?t) \<le> d"
        using True False c(3) tot by (intro exI [of _ "c + k * 4096"]) simp
      with rep tot have "heap_rep ?t bs" by (simp add: heap_rep_def)
      moreover have "span bs + unat sz \<le> unat (heap_total_size ?t)"
        using heap_repD(5) [OF rep] p tot by simp
      ultimately show ?thesis by (intro that [OF e]) (auto simp: kept_def)
    next
      case nk: False
      with check False kp sz(2) have e: "expand_heap env sz s =
          (False, s\<lparr>heap_current := hat (c + k * 4096), tried := t\<rparr>)" (is "_ = (False, ?t)")
        by (simp add: expand_heap_def Let_def)
      have "\<exists>d. heap_current ?t = hat d \<and> d \<le> 2 ^ 28 \<and> unat (heap_total_size ?t) \<le> d"
        using False le c(3) by (intro exI [of _ "c + k * 4096"]) simp
      with rep have "heap_rep ?t bs" by (simp add: heap_rep_def)
      then show ?thesis by (intro that [OF e]) (auto simp: kept_def)
    qed
  qed
qed

section \<open>Allocation\<close>

lemma unat_ALIGN_UP_8:
  assumes "unat sz \<le> 2 ^ 29"
  shows "unat (ALIGN_UP sz 8) = (unat sz + 7) div 8 * 8"
proof -
  have "unat (sz + 7) = unat sz + 7" using assms by (simp add: unat_word_ariths)
  moreover have "(7 :: u64) = mask 3" by (simp add: mask_eq_exp_minus_1)
  ultimately show ?thesis
    using unat_and_not_mask [of 3 "sz + 7"] by (simp add: ALIGN_UP_def)
qed

lemma settled_carve:
  assumes "settled (xs @ (m, True) # ys)"
  shows "settled (xs @ carve n m @ ys)"
  using assms by (cases ys) (auto simp: settled_def carve_def successively_append_iff successively_Cons)

lemma settled_snoc_used: "settled bs \<Longrightarrow> settled (bs @ [(n, False)])"
  by (auto simp: settled_def successively_append_iff)

text \<open>
  \<^verbatim>\<open>heap_alloc\<close> returns: a new payload, or NULL when no free block is large enough.
\<close>

lemma heap_alloc_rep:
  assumes rep: "heap_rep s bs" and small: "unat sz \<le> 2 ^ 29"
  obtains t where "heap_alloc env sz s = Some (None, t)" "heap_rep t bs" "kept s t"
      "\<forall>b \<in> set bs. snd b \<longrightarrow> fst b < unat sz + 8"
  | x n t bs' where "heap_alloc env sz s = Some (Some (hat x), t)" "heap_rep t bs'" "kept s t"
      "unat sz \<le> n" "set (allocs 0 bs') = insert (x, n) (set (allocs 0 bs))"
      "\<And>k. (x, k) \<notin> set (allocs 0 bs)"
proof -
  define sz' where "sz' = ALIGN_UP sz 8"
  have sz': "unat sz' = (unat sz + 7) div 8 * 8"
    unfolding sz'_def by (rule unat_ALIGN_UP_8) (rule small)
  then have ge: "unat sz \<le> unat sz'" and le: "unat sz' < unat sz + 8" and dvd: "8 dvd unat sz'" by auto
  note r = heap_repD [OF rep]
  have "heap_start s = first_at 0 bs None" using r(1,2) by (simp add: first_at_def)
  then have find: "find_block (headers s) (heap_start s) sz' = Some (map_option hat (first_fit (unat sz') 0 bs))"
    using find_block_seg [OF r(3)] r(4) by simp
  show ?thesis
  proof (cases "first_fit (unat sz') 0 bs")
    case (Some x)
    then obtain xs m ys where bs: "bs = xs @ (m, True) # ys" and m: "unat sz' \<le> m" and x: "x = span xs"
      by (auto elim: first_fit_Some)
    define h where "h = split_block sz' (hat x) (headers s)"
    define h' where "h' = h(hat x := (h (hat x))\<lparr>blk_free := False\<rparr>)"
    let ?n = "carved (unat sz') m" and ?bs = "xs @ carve (unat sz') m @ ys"
    have h: "seg h' 0 None ?bs None" "blk_size (h (hat x)) = of_nat ?n"
      using split_block_seg [of "headers s" xs m ys sz'] r(3,4) m unfolding bs h'_def h_def x by auto
    let ?t = "s\<lparr>headers := h', heap_used_size := heap_used_size s + of_nat (?n + 40)\<rparr>"
    have alloc: "heap_alloc env sz s = Some (Some (hat (x + 40)), ?t)"
      using find Some h(2)
      by (simp add: heap_alloc_def sz'_def [symmetric] take_block_def Let_def h_def [symmetric] h'_def
          BLOCK_HEADER_SIZE_def hat_add_numeral)
    have n: "?n \<le> m" "unat sz' \<le> ?n" using m by (auto simp: carved_def)
    have "used bs + (?n + 40) \<le> span bs" using n(1) used_le_span [of xs] used_le_span [of ys] by (simp add: bs)
    moreover have "unat (of_nat (?n + 40) :: size_t) = ?n + 40"
      using n(1) r(4) by (intro unat_of_nat_small) (simp add: bs)
    ultimately have u: "unat (heap_used_size s + of_nat (?n + 40)) = used bs + (?n + 40)"
      using r(4,6) by (subst unat_add_lem [THEN iffD1]) auto
    have sp: "span ?bs = span bs" using m by (simp add: bs span_carve)
    have us: "used ?bs = used bs + (?n + 40)" using m by (simp add: bs carve_def carved_def)
    have d: "\<forall>b \<in> set ?bs. 8 dvd fst b"
      using r(8) dvd by (auto simp: bs carve_def intro!: dvd_diff_nat)
    have "settled ?bs" using r(7) unfolding bs by (rule settled_carve)
    then have "heap_rep ?t ?bs"
      using rep h(1) sp u us d unfolding heap_rep_def by (auto simp: carve_def)
    with alloc show ?thesis
    proof (rule that(2))
      show "kept s ?t" by (simp add: kept_def)
      show "unat sz \<le> ?n" using ge n(2) by simp
      show "set (allocs 0 ?bs) = insert (x + 40, ?n) (set (allocs 0 bs))"
        using allocs_carve [OF m, of 0 xs ys] by (simp add: bs x)
      show "(x + 40, k) \<notin> set (allocs 0 bs)" for k
        using allocs_fresh [of 0 xs k m ys] by (auto simp: bs x)
    qed
  next
    case None
    then have none: "\<forall>b \<in> set bs. snd b \<longrightarrow> fst b < unat sz'" by (simp add: first_fit_None)
    let ?e = "sz' + BLOCK_HEADER_SIZE"
    have e: "unat ?e = unat sz' + 40"
      using sz' small by (simp add: BLOCK_HEADER_SIZE_def unat_word_ariths)
    have sz'_small: "unat sz' \<le> 2 ^ 29" using sz' small by simp
    obtain ok t where t: "expand_heap env ?e s = (ok, t)" "heap_rep t bs" "kept s t" "headers t = headers s"
      "heap_used_size t = heap_used_size s" "ok \<longrightarrow> span bs + unat ?e \<le> unat (heap_total_size t)"
      by (rule expand_heap_rep [OF rep, of ?e env]) (use e sz'_small in simp)
    show ?thesis
    proof (cases ok)
      case False
      have "heap_alloc env sz s = Some (None, t)"
        using find None t(1) False by (simp add: heap_alloc_def sz'_def [symmetric] Let_def)
      then show ?thesis
        using t(2,3) by (rule that(1)) (use none le in fastforce)
    next
      case True
      obtain xs m f where bs: "bs = xs @ [(m, f)]" using r(2) by (metis rev_exhaust surj_pair)
      have tot: "span bs + unat sz' + 40 \<le> unat (heap_total_size t)" using t(6) True e by simp
      have big: "span (xs @ [(m, f)]) + 40 + unat sz' \<le> 2 ^ 28"
        using t(2) tot by (auto simp: heap_rep_def bs)
      let ?l = "hat (span xs)" and ?b = "hat (span xs + 40 + m)"
      let ?h = "(headers s)(?b := header (unat sz', False) None (Some ?l), ?l := header (m, f) (Some ?b) (last_at 0 None xs))"
      let ?t = "t\<lparr>headers := ?h, heap_used_size := heap_used_size t + of_nat (unat sz' + 40)\<rparr>"
      let ?bs = "xs @ [(m, f), (unat sz', False)]"
      note ab = append_block_seg [OF t(4) r(3) [unfolded bs] big refl]
      have "last_block (headers t) (hat 0) = Some ?l"
      proof -
        obtain b cs where b: "bs = b # cs" using r(2) by (cases bs) auto
        have "last_block (headers s) (hat 0) = last_at 0 None bs"
          unfolding b by (rule last_block_seg) (use r(3) b in simp)
        then show ?thesis by (simp add: t(4)) (simp add: bs last_at_def)
      qed
      then have alloc: "heap_alloc env sz s = Some (Some (hat (span xs + 40 + m + 40)), ?t)"
        using find None t(1) True heap_repD(1) [OF t(2)] ab(1)
        by (simp add: heap_alloc_def sz'_def [symmetric] Let_def)
      have "used bs + (unat sz' + 40) < 2 ^ 64" using used_le_span [of bs] big by (simp add: bs)
      moreover have "unat (of_nat (unat sz' + 40) :: size_t) = unat sz' + 40"
        using big by (intro unat_of_nat_small) simp
      ultimately have u: "unat (heap_used_size t + of_nat (unat sz' + 40)) = used bs + (unat sz' + 40)"
        using r(6) t(5) by (subst unat_add_lem [THEN iffD1]) auto
      have us: "used ?bs = used bs + (unat sz' + 40)" and sp: "span ?bs = span bs + unat sz' + 40"
        by (simp_all add: bs)
      have d: "\<forall>b \<in> set ?bs. 8 dvd fst b" using r(8) dvd by (auto simp: bs)
      have "settled ?bs" using settled_snoc_used [OF r(7)] by (simp add: bs)
      then have "heap_rep ?t ?bs"
        using t(2) ab(2) sp u us d tot unfolding heap_rep_def by auto
      with alloc show ?thesis
      proof (rule that(2))
        show "kept s ?t" using t(3) by (simp add: kept_def)
        show "unat sz \<le> unat sz'" by (rule ge)
        show "set (allocs 0 ?bs) = insert (span xs + 40 + m + 40, unat sz') (set (allocs 0 bs))"
          by (auto simp: bs allocs_append)
        show "(span xs + 40 + m + 40, k) \<notin> set (allocs 0 bs)" for k
          using allocs_bounds(2) [of "span xs + 40 + m + 40" k 0 bs] by (auto simp: bs)
      qed
    qed
  qed
qed

section \<open>Release\<close>

lemma kfree_rep:
  assumes rep: "heap_rep s bs" and alloc: "(x, n) \<in> set (allocs 0 bs)"
  obtains t bs' where "kfree (Some (hat x)) s = Some t" "heap_rep t bs'" "kept s t"
    "set (allocs 0 bs') = set (allocs 0 bs) - {(x, n)}"
proof -
  obtain xs ys where bs: "bs = xs @ (n, False) # ys" and x: "x = span xs + 40"
    using alloc by (auto elim: allocs_split)
  note r = heap_repD [OF rep]
  let ?a = "hat (span xs)" and ?bs = "xs @ (n, True) # ys"
  let ?nx = "first_at (span xs + 40 + n) ys None" and ?pv = "last_at 0 None xs"
  have seg: "seg (headers s) 0 None xs (Some ?a)" "headers s ?a = header (n, False) ?nx ?pv"
    "seg (headers s) (span xs + 40 + n) (Some ?a) ys None"
    using r(3) by (simp_all add: bs seg_append)
  have small: "span xs + 40 + n + span ys \<le> 2 ^ 28" using r(4) by (simp add: bs)
  let ?h = "(headers s)(?a := header (n, True) ?nx ?pv)"
  have "seg ?h 0 None xs (Some ?a) = seg (headers s) 0 None xs (Some ?a)"
    using small by (intro seg_upd) auto
  moreover have "seg ?h (span xs + 40 + n) (Some ?a) ys None = seg (headers s) (span xs + 40 + n) (Some ?a) ys None"
    using small by (intro seg_upd) auto
  ultimately have seg': "seg ?h 0 None ?bs None" using seg by (simp add: seg_append)
  obtain h' where h': "coalesce_loop ?h (Some (hat 0)) = Some h'" "seg h' 0 None (merge ?bs) None"
    by (rule coalesce_seg [OF seg']) (use small in auto)
  let ?t = "s\<lparr>headers := h', heap_used_size := heap_used_size s - of_nat (n + 40)\<rparr>"
  have size: "(of_nat n + BLOCK_HEADER_SIZE :: size_t) = of_nat (n + 40)"
    by (simp add: BLOCK_HEADER_SIZE_def)
  have free: "kfree (Some (hat x)) s = Some ?t"
    using seg(2) h'(1) r(1)
    by (simp add: kfree_def x hat_header coalesce_free_blocks_def size del: of_nat_add)
  have "unat (of_nat (n + 40) :: size_t) = n + 40"
    using small by (intro unat_of_nat_small) simp
  moreover have "n + 40 \<le> used bs" by (simp add: bs)
  ultimately have "unat (heap_used_size s - of_nat (n + 40)) = used bs - (n + 40)"
    using r(6) by (simp add: unat_sub word_le_nat_alt)
  moreover have "used (merge ?bs) = used bs - (n + 40)" "span (merge ?bs) = span bs"
    by (simp_all add: used_merge span_merge bs)
  moreover have "8 dvd fst b" if "b \<in> set (merge ?bs)" for b
  proof -
    have "\<forall>b \<in> set ?bs. 8 dvd fst b" using r(8) by (auto simp: bs)
    from merge_dvd [OF this] that show ?thesis by blast
  qed
  ultimately have "heap_rep ?t (merge ?bs)"
    using rep h'(2) settled_merge [of ?bs] unfolding heap_rep_def by auto
  moreover have "set (allocs 0 (merge ?bs)) = set (allocs 0 bs) - {(x, n)}"
    using allocs_remove [of 0 xs n ys] by (simp add: allocs_merge bs x)
  ultimately show ?thesis by (intro that [OF free]) (auto simp: kept_def)
qed

end
