(* ===== verification/Heap_Props.thy ===== *)
theory Heap_Props
  imports Heap_Alloc
begin

text \<open>
  What clients of \<^verbatim>\<open>kmalloc\<close>, \<^verbatim>\<open>kzalloc\<close>, \<^verbatim>\<open>kfree\<close> and \<^verbatim>\<open>krealloc\<close> rely on: every object they hold keeps
  its bytes whatever else is allocated, grown and released, for objects of more than a page. Smaller requests go to the slab
  allocator and never return.
\<close>

section \<open>Clients of the heap\<close>

text \<open>
  A client holds objects, each an address with the bytes it expects there. A new object holds the
  bytes found in memory, or zeros; \<^verbatim>\<open>krealloc\<close> keeps the bytes that fit. The client names an object
  by its place in the list and writes only inside its objects.
\<close>

type_synonym objects = "(vaddr_t \<times> u8 list) list"

datatype heap_request =
    Kmalloc size_t | Kzalloc size_t | Kfree nat | Krealloc nat size_t | Write nat nat u8

definition read_bytes :: "heap_state \<Rightarrow> vaddr_t \<Rightarrow> nat \<Rightarrow> nat \<Rightarrow> u8 list" where
  "read_bytes s p i n = map (\<lambda>k. bytes s (p + of_nat k)) [i..<n]"

fun heap_call :: "(nat \<Rightarrow> bool) \<Rightarrow> heap_request \<Rightarrow> objects \<times> heap_state \<Rightarrow> (objects \<times> heap_state) option" where
  "heap_call env (Kmalloc sz) (objs, s) =
     (case kmalloc env sz s of
        None \<Rightarrow> None
      | Some (None, s) \<Rightarrow> Some (objs, s)
      | Some (Some p, s) \<Rightarrow> Some (objs @ [(p, read_bytes s p 0 (unat sz))], s))"
| "heap_call env (Kzalloc sz) (objs, s) =
     (case kzalloc env sz s of
        None \<Rightarrow> None
      | Some (None, s) \<Rightarrow> Some (objs, s)
      | Some (Some p, s) \<Rightarrow> Some (objs @ [(p, replicate (unat sz) 0)], s))"
| "heap_call env (Kfree i) (objs, s) =
     (if i < length objs then map_option (Pair (remove_nth i objs)) (kfree (Some (fst (objs ! i))) s)
      else Some (objs, s))"
| "heap_call env (Krealloc i sz) (objs, s) =
     (if i < length objs then
        (case krealloc env (Some (fst (objs ! i))) sz s of
           None \<Rightarrow> None
         | Some (None, s) \<Rightarrow> Some (if sz = 0 then remove_nth i objs else objs, s)
         | Some (Some p, s) \<Rightarrow>
             let c = snd (objs ! i)
             in Some (objs[i := (p, take (unat sz) c @ read_bytes s p (length c) (unat sz))], s))
      else Some (objs, s))"
| "heap_call env (Write i k b) (objs, s) =
     (if i < length objs \<and> k < length (snd (objs ! i)) then
        let (p, c) = objs ! i
        in Some (objs[i := (p, c[k := b])], s\<lparr>bytes := (bytes s)(p + of_nat k := b)\<rparr>)
      else Some (objs, s))"

primrec heap_calls :: "(nat \<Rightarrow> bool) \<Rightarrow> heap_request list \<Rightarrow> objects \<times> heap_state \<Rightarrow> (objects \<times> heap_state) option" where
  "heap_calls env [] st = Some st"
| "heap_calls env (r # rs) st = Option.bind (heap_call env r st) (heap_calls env rs)"

text \<open>Requests of more than a page and at most 512 MiB; shrinking an object is not bounded.\<close>

fun large_request :: "heap_request \<Rightarrow> bool" where
  "large_request (Kmalloc sz) \<longleftrightarrow> 4096 < sz \<and> unat sz \<le> 2 ^ 29"
| "large_request (Kzalloc sz) \<longleftrightarrow> 4096 < sz \<and> unat sz \<le> 2 ^ 29"
| "large_request (Krealloc i sz) \<longleftrightarrow> unat sz \<le> 2 ^ 29"
| "large_request _ \<longleftrightarrow> True"

section \<open>Invariant\<close>

definition slab_idle :: "heap_state \<Rightarrow> bool" where
  "slab_idle s \<longleftrightarrow> (\<forall>c < NUM_SLAB_SIZES. slab_caches s c = init_slab_cache (slab_sizes ! c))"

definition object_ok :: "heap_state \<Rightarrow> block list \<Rightarrow> vaddr_t \<times> u8 list \<Rightarrow> bool" where
  "object_ok s bs ob \<longleftrightarrow>
     (\<exists>x n. (x, n) \<in> set (allocs 0 bs) \<and> fst ob = hat x \<and> length (snd ob) \<le> n \<and>
        (\<forall>k < length (snd ob). bytes s (hat (x + k)) = snd ob ! k))"

definition objects_inv :: "objects \<Rightarrow> heap_state \<Rightarrow> block list \<Rightarrow> bool" where
  "objects_inv objs s bs \<longleftrightarrow>
     heap_rep s bs \<and> slab_idle s \<and> distinct (map fst objs) \<and>
     (\<forall>ob \<in> set objs. object_ok s bs ob) \<and> fst ` set objs = hat ` fst ` set (allocs 0 bs) \<and>
     (\<forall>(x, n) \<in> set (allocs 0 bs). 4096 < n)"

lemma kmalloc_large: "4096 < sz \<Longrightarrow> kmalloc env sz s = heap_alloc env sz s"
  by (subst kmalloc.simps) (auto simp: not_le)

lemma alloc_offset_small:
  assumes "heap_rep s bs" "(x, n) \<in> set (allocs 0 bs)"
  shows "x + n \<le> 2 ^ 28"
  using allocs_bounds(2) [OF assms(2)] heap_repD(4) [OF assms(1)] by simp

lemma alloc_address_inj:
  assumes rep: "heap_rep s bs" and a: "(x, n) \<in> set (allocs 0 bs)" and b: "(y, m) \<in> set (allocs 0 bs)"
    and eq: "hat x = hat y"
  shows "x = y" "n = m"
proof -
  show "x = y" using alloc_offset_small [OF rep a] alloc_offset_small [OF rep b] eq by (simp add: hat_eq_iff)
  with a b show "n = m" by (simp add: allocs_unique)
qed

text \<open>Bytes of different allocations have different addresses.\<close>

lemma alloc_bytes_apart:
  assumes rep: "heap_rep s bs" and a: "(x, n) \<in> set (allocs 0 bs)" and b: "(y, m) \<in> set (allocs 0 bs)"
    and ne: "x \<noteq> y" and k: "k < n" and j: "j < m"
  shows "hat (x + k) \<noteq> hat (y + j)"
proof -
  have "x + k \<noteq> y + j" using allocs_apart [OF a b ne] k j by auto
  moreover have "x + k < 2 ^ 30" "y + j < 2 ^ 30"
    using alloc_offset_small [OF rep a] alloc_offset_small [OF rep b] k j by auto
  ultimately show ?thesis by (simp add: hat_eq_iff)
qed

lemma object_ok_mono:
  assumes "object_ok s bs ob" "set (allocs 0 bs) \<subseteq> set (allocs 0 bs')"
    and "\<And>x n k. (x, n) \<in> set (allocs 0 bs) \<Longrightarrow> fst ob = hat x \<Longrightarrow> k < n \<Longrightarrow> bytes t (hat (x + k)) = bytes s (hat (x + k))"
  shows "object_ok t bs' ob"
proof -
  obtain x n where x: "(x, n) \<in> set (allocs 0 bs)" "fst ob = hat x" "length (snd ob) \<le> n"
    "\<forall>k < length (snd ob). bytes s (hat (x + k)) = snd ob ! k"
    using assms(1) by (auto simp: object_ok_def)
  then have "\<forall>k < length (snd ob). bytes t (hat (x + k)) = snd ob ! k"
    using assms(3) [OF x(1,2)] by auto
  with x assms(2) show ?thesis by (auto simp: object_ok_def)
qed

lemma objects_inv_object:
  assumes "objects_inv objs s bs" "i < length objs"
  obtains x n where "(x, n) \<in> set (allocs 0 bs)" "fst (objs ! i) = hat x" "length (snd (objs ! i)) \<le> n"
    "\<forall>k < length (snd (objs ! i)). bytes s (hat (x + k)) = snd (objs ! i) ! k"
  using assms nth_mem [OF assms(2)] unfolding objects_inv_def object_ok_def by blast

section \<open>Allocation\<close>

text \<open>A new allocation, its bytes written by \<open>m\<close>, adds an object.\<close>

lemma objects_add:
  assumes inv: "objects_inv objs s bs" and rep: "heap_rep t bs'" and kept: "kept s t" and n: "length c \<le> n" "4096 < n"
    and allocs: "set (allocs 0 bs') = insert (x, n) (set (allocs 0 bs))" and fresh: "\<And>k. (x, k) \<notin> set (allocs 0 bs)"
    and new: "\<And>k. k < length c \<Longrightarrow> m (hat (x + k)) = c ! k"
    and old: "\<And>a. (\<And>k. k < n \<Longrightarrow> a \<noteq> hat (x + k)) \<Longrightarrow> m a = bytes t a"
  shows "objects_inv (objs @ [(hat x, c)]) (t\<lparr>bytes := m\<rparr>) bs'"
proof -
  let ?t = "t\<lparr>bytes := m\<rparr>"
  have inv': "slab_idle s" "distinct (map fst objs)" "\<forall>ob \<in> set objs. object_ok s bs ob"
    "fst ` set objs = hat ` fst ` set (allocs 0 bs)" "\<forall>(x, n) \<in> set (allocs 0 bs). 4096 < n"
    using inv by (simp_all add: objects_inv_def)
  have xn: "(x, n) \<in> set (allocs 0 bs')" by (simp add: allocs)
  have "object_ok ?t bs' ob" if "ob \<in> set objs" for ob
  proof (rule object_ok_mono)
    show "object_ok s bs ob" using inv'(3) that by blast
    show "set (allocs 0 bs) \<subseteq> set (allocs 0 bs')" by (auto simp: allocs)
    fix y j k assume y: "(y, j) \<in> set (allocs 0 bs)" "k < j"
    then have "y \<noteq> x" "(y, j) \<in> set (allocs 0 bs')" using fresh by (auto simp: allocs)
    then have "hat (y + k) \<noteq> hat (x + i)" if "i < n" for i
      using alloc_bytes_apart [OF rep _ xn] y(2) that by blast
    then have "m (hat (y + k)) = bytes t (hat (y + k))" by (rule old)
    then show "bytes ?t (hat (y + k)) = bytes s (hat (y + k))" using kept by (simp add: kept_def)
  qed
  moreover have "object_ok ?t bs' (hat x, c)"
    unfolding object_ok_def by (rule exI [of _ x], rule exI [of _ n]) (use xn n(1) new in simp)
  moreover have "hat x \<notin> fst ` set objs"
  proof
    assume "hat x \<in> fst ` set objs"
    then obtain y j where "(y, j) \<in> set (allocs 0 bs)" "hat x = hat y" unfolding inv'(4) by auto
    then have "x = y" using alloc_address_inj(1) [OF rep xn, of y j] by (simp add: allocs)
    with \<open>(y, j) \<in> set (allocs 0 bs)\<close> fresh show False by blast
  qed
  moreover have "slab_idle ?t" using inv'(1) kept by (simp add: slab_idle_def kept_def)
  moreover have "heap_rep ?t bs'" using rep by (simp add: heap_rep_def)
  ultimately show ?thesis
    using inv' n(2) unfolding objects_inv_def by (auto simp: allocs)
qed

lemma objects_kept:
  assumes inv: "objects_inv objs s bs" and rep: "heap_rep t bs" and kept: "kept s t"
  shows "objects_inv objs t bs"
proof -
  have "object_ok t bs ob" if "object_ok s bs ob" for ob
    using that kept by (intro object_ok_mono [OF that]) (auto simp: kept_def)
  with assms show ?thesis by (auto simp: objects_inv_def slab_idle_def kept_def)
qed

lemma kmalloc_objects:
  assumes inv: "objects_inv objs s bs" and sz: "4096 < sz" "unat sz \<le> 2 ^ 29"
  obtains t where "kmalloc env sz s = Some (None, t)" "objects_inv objs t bs"
  | x n t bs' where "kmalloc env sz s = Some (Some (hat x), t)" "unat sz \<le> n" "heap_rep t bs'" "kept s t"
      "4096 < n" "set (allocs 0 bs') = insert (x, n) (set (allocs 0 bs))" "\<And>k. (x, k) \<notin> set (allocs 0 bs)"
proof -
  have rep: "heap_rep s bs" using inv by (simp add: objects_inv_def)
  have big: "4096 < unat sz" using sz(1) by (simp add: word_less_nat_alt)
  show ?thesis
  proof (rule heap_alloc_rep [OF rep sz(2), of env])
    fix t assume "heap_alloc env sz s = Some (None, t)" "heap_rep t bs" "kept s t"
    then show ?thesis using objects_kept [OF inv] that(1) by (simp add: kmalloc_large sz(1))
  next
    fix x n t bs' assume "heap_alloc env sz s = Some (Some (hat x), t)" "heap_rep t bs'" "kept s t" "unat sz \<le> n"
      "set (allocs 0 bs') = insert (x, n) (set (allocs 0 bs))" "\<And>k. (x, k) \<notin> set (allocs 0 bs)"
    with big show ?thesis by (intro that(2)) (simp_all add: kmalloc_large sz(1))
  qed
qed

lemma zero_bytes_apply:
  "zero_bytes (hat x) n m a = (if \<exists>k < n. a = hat (x + k) then 0 else m a)"
  unfolding zero_bytes_def
  by (induction n) (auto simp: for_range_Suc hat_add less_Suc_eq)

lemma zero_bytes_old:
  assumes "\<And>k. k < n \<Longrightarrow> a \<noteq> hat (x + k)" "l \<le> n"
  shows "zero_bytes (hat x) l m a = m a"
  unfolding zero_bytes_apply using assms by (metis order_less_le_trans)

lemma copy_bytes_apply:
  assumes "\<And>i j. i < n \<Longrightarrow> j < n \<Longrightarrow> hat (y + i) \<noteq> hat (x + j)"
    and "\<And>i j. i < n \<Longrightarrow> j < n \<Longrightarrow> hat (x + i) = hat (x + j) \<Longrightarrow> i = j"
  shows "(\<forall>k < n. copy_bytes (hat x) (hat y) n m (hat (x + k)) = m (hat (y + k))) \<and>
    (\<forall>a. (\<forall>k < n. a \<noteq> hat (x + k)) \<longrightarrow> copy_bytes (hat x) (hat y) n m a = m a)"
  using assms
proof (induction n)
  case 0
  then show ?case by (simp add: copy_bytes_def)
next
  case (Suc n)
  let ?m = "copy_bytes (hat x) (hat y) n m"
  have IH: "\<forall>k < n. ?m (hat (x + k)) = m (hat (y + k))" "\<forall>a. (\<forall>k < n. a \<noteq> hat (x + k)) \<longrightarrow> ?m a = m a"
    using Suc by simp_all
  have step: "copy_bytes (hat x) (hat y) (Suc n) m = ?m(hat (x + n) := ?m (hat (y + n)))"
    by (simp add: copy_bytes_def for_range_Suc hat_add)
  have src: "?m (hat (y + n)) = m (hat (y + n))"
    using IH(2) Suc.prems(1) [of n] by simp
  show ?case
  proof (intro conjI allI impI)
    fix k assume "k < Suc n"
    then show "copy_bytes (hat x) (hat y) (Suc n) m (hat (x + k)) = m (hat (y + k))"
      using IH(1) Suc.prems(2) [of k n] src by (cases "k = n") (auto simp: step)
  next
    fix a assume "\<forall>k < Suc n. a \<noteq> hat (x + k)"
    then show "copy_bytes (hat x) (hat y) (Suc n) m a = m a" using IH(2) by (auto simp: step)
  qed
qed

section \<open>Release and reallocation\<close>

lemma objects_inv_cong:
  assumes "objects_inv objs s bs" "set objs' = set objs" "distinct (map fst objs')"
  shows "objects_inv objs' s bs"
  using assms by (simp add: objects_inv_def)

lemma objects_remove:
  assumes inv: "objects_inv objs s bs" and i: "i < length objs" and rep: "heap_rep t bs'" and kept: "kept s t"
    and x: "(x, n) \<in> set (allocs 0 bs)" "fst (objs ! i) = hat x"
    and allocs: "set (allocs 0 bs') = set (allocs 0 bs) - {(x, n)}"
  shows "objects_inv (remove_nth i objs) t bs'"
proof -
  have inv': "heap_rep s bs" "slab_idle s" "distinct (map fst objs)" "\<forall>ob \<in> set objs. object_ok s bs ob"
    "fst ` set objs = hat ` fst ` set (allocs 0 bs)" "\<forall>(x, n) \<in> set (allocs 0 bs). 4096 < n"
    using inv by (simp_all add: objects_inv_def)
  have inj: "inj_on fst (set objs)" and d: "distinct objs" using inv'(3) by (simp_all add: distinct_map)
  have set': "set (remove_nth i objs) = set objs - {objs ! i}" by (rule set_remove_nth [OF d i])
  have "object_ok t bs' ob" if "ob \<in> set (remove_nth i objs)" for ob
  proof -
    have ob: "ob \<in> set objs" "ob \<noteq> objs ! i" using that set' by auto
    then have ne: "fst ob \<noteq> hat x" using inj_onD [OF inj, of ob "objs ! i"] i x(2) by auto
    obtain y j where y: "(y, j) \<in> set (allocs 0 bs)" "fst ob = hat y" "length (snd ob) \<le> j"
      "\<forall>k < length (snd ob). bytes s (hat (y + k)) = snd ob ! k"
      using inv'(4) ob(1) by (auto simp: object_ok_def)
    with ne have "(y, j) \<in> set (allocs 0 bs')" by (auto simp: allocs)
    with y kept show ?thesis by (auto simp: object_ok_def kept_def)
  qed
  moreover have "fst ` set (remove_nth i objs) = hat ` fst ` set (allocs 0 bs')"
  proof -
    have "fst ` set (remove_nth i objs) = fst ` set objs - {hat x}"
      using inj i x(2) unfolding set' by (subst inj_on_image_set_diff [OF inj]) auto
    also have "\<dots> = hat ` fst ` set (allocs 0 bs) - {hat x}" by (simp add: inv'(5))
    also have "\<dots> = hat ` fst ` set (allocs 0 bs')"
      using alloc_address_inj [OF inv'(1) x(1)] by (force simp: allocs)
    finally show ?thesis .
  qed
  moreover have "slab_idle t" using inv'(2) kept by (simp add: slab_idle_def kept_def)
  moreover have "distinct (map fst (remove_nth i objs))" using inv'(3) by (rule distinct_remove_nth)
  ultimately show ?thesis using rep inv'(6) unfolding objects_inv_def by (auto simp: allocs)
qed

lemma kfree_objects:
  assumes inv: "objects_inv objs s bs" and i: "i < length objs"
  obtains t bs' where "kfree (Some (fst (objs ! i))) s = Some t" "objects_inv (remove_nth i objs) t bs'"
proof -
  obtain x n where x: "(x, n) \<in> set (allocs 0 bs)" "fst (objs ! i) = hat x"
    using objects_inv_object [OF assms] by blast
  have "heap_rep s bs" using inv by (simp add: objects_inv_def)
  then obtain t bs' where "kfree (Some (hat x)) s = Some t" "heap_rep t bs'" "kept s t"
    "set (allocs 0 bs') = set (allocs 0 bs) - {(x, n)}"
    using x(1) by (rule kfree_rep)
  with objects_remove [OF inv i _ _ x] x(2) show ?thesis by (intro that) simp_all
qed

lemma objects_update:
  assumes inv: "objects_inv objs s bs" and i: "i < length objs"
    and x: "(x, n) \<in> set (allocs 0 bs)" "fst (objs ! i) = hat x" and n: "length c \<le> n"
    and new: "\<And>k. k < length c \<Longrightarrow> m (hat (x + k)) = c ! k"
    and old: "\<And>a. (\<And>k. k < n \<Longrightarrow> a \<noteq> hat (x + k)) \<Longrightarrow> m a = bytes s a"
  shows "objects_inv (objs[i := (hat x, c)]) (s\<lparr>bytes := m\<rparr>) bs"
proof -
  have inv': "heap_rep s bs" "slab_idle s" "distinct (map fst objs)" "\<forall>ob \<in> set objs. object_ok s bs ob"
    "fst ` set objs = hat ` fst ` set (allocs 0 bs)" "\<forall>(x, n) \<in> set (allocs 0 bs). 4096 < n"
    using inv by (simp_all add: objects_inv_def)
  have fsts: "map fst (objs[i := (hat x, c)]) = map fst objs"
    by (rule nth_equalityI) (use x(2) i in \<open>auto simp: nth_list_update\<close>)
  have inj: "inj_on fst (set objs)" and d: "distinct objs" using inv'(3) by (simp_all add: distinct_map)
  have set': "set (objs[i := (hat x, c)]) = insert (hat x, c) (set objs - {objs ! i})"
    by (rule set_update_distinct [OF d i])
  have "object_ok (s\<lparr>bytes := m\<rparr>) bs ob" if "ob \<in> set (objs[i := (hat x, c)])" for ob
  proof (cases "ob = (hat x, c)")
    case True
    then show ?thesis
      unfolding object_ok_def by (intro exI [of _ x] exI [of _ n]) (use x(1) n new in simp)
  next
    case ne: False
    then have ob: "ob \<in> set objs" "ob \<noteq> objs ! i" using that set' by auto
    then have other: "fst ob \<noteq> hat x" using inj_onD [OF inj, of ob "objs ! i"] i x(2) by auto
    from ob(1) have "object_ok s bs ob" using inv'(4) by blast
    then show ?thesis
    proof (rule object_ok_mono)
      fix y j k assume y: "(y, j) \<in> set (allocs 0 bs)" "fst ob = hat y" "k < j"
      then have "y \<noteq> x" using other by auto
      then have "hat (y + k) \<noteq> hat (x + l)" if "l < n" for l
        using alloc_bytes_apart [OF inv'(1) y(1) x(1)] y(3) that by blast
      then show "bytes (s\<lparr>bytes := m\<rparr>) (hat (y + k)) = bytes s (hat (y + k))" by (simp add: old)
    qed simp
  qed
  moreover have "heap_rep (s\<lparr>bytes := m\<rparr>) bs" "slab_idle (s\<lparr>bytes := m\<rparr>)"
    using inv'(1,2) by (simp_all add: heap_rep_def slab_idle_def)
  moreover have "fst ` set (objs[i := (hat x, c)]) = fst ` set objs"
    using arg_cong [OF fsts, of set] by simp
  ultimately show ?thesis using inv' fsts unfolding objects_inv_def by simp
qed

text \<open>The header in front of an allocated payload gives its size.\<close>

lemma alloc_header:
  assumes rep: "heap_rep s bs" and x: "(x, n) \<in> set (allocs 0 bs)"
  shows "blk_size (headers s (hat x - BLOCK_HEADER_SIZE)) = of_nat n"
proof -
  obtain xs ys where bs: "bs = xs @ (n, False) # ys" and x: "x = span xs + 40"
    using x by (auto elim: allocs_split)
  have "headers s (hat (span xs)) = header (n, False) (first_at (span xs + 40 + n) ys None) (last_at 0 None xs)"
    using heap_repD(3) [OF rep] by (simp add: bs seg_append)
  then show ?thesis by (simp add: x hat_header)
qed

lemma read_bytes_nth: "k < n - i \<Longrightarrow> read_bytes s (hat x) i n ! k = bytes s (hat (x + (i + k)))"
  by (simp add: read_bytes_def hat_add)

lemma resized_content:
  assumes "\<And>k. k < length c \<Longrightarrow> bytes s (hat (x + k)) = c ! k" "k < n"
  shows "bytes s (hat (x + k)) = (take n c @ read_bytes s (hat x) (length c) n) ! k"
proof (cases "k < length c")
  case True
  with assms show ?thesis by (simp add: nth_append)
next
  case False
  with assms(2) have "length (take n c) = length c" "k - length c < n - length c" "length c + (k - length c) = k"
    by auto
  with False show ?thesis by (simp add: nth_append read_bytes_nth)
qed

lemma resized_length: "length (take n c @ read_bytes s p (length c) n) = n"
  by (simp add: read_bytes_def)

lemma krealloc_objects:
  assumes inv: "objects_inv objs s bs" and i: "i < length objs" and sz: "unat sz \<le> 2 ^ 29"
  obtains objs' t bs' where "heap_call env (Krealloc i sz) (objs, s) = Some (objs', t)" "objects_inv objs' t bs'"
proof -
  obtain x n where x: "(x, n) \<in> set (allocs 0 bs)" "fst (objs ! i) = hat x"
    and c: "length (snd (objs ! i)) \<le> n" "\<forall>k < length (snd (objs ! i)). bytes s (hat (x + k)) = snd (objs ! i) ! k"
    by (rule objects_inv_object [OF inv i])
  define c where "c = snd (objs ! i)"
  have rep: "heap_rep s bs" and n: "4096 < n" using inv x(1) by (auto simp: objects_inv_def)
  have small: "n \<le> 2 ^ 28" using alloc_offset_small [OF rep x(1)] by simp
  consider "sz = 0" | "sz \<noteq> 0" "unat sz \<le> n" | "n < unat sz" by linarith
  then show ?thesis
  proof cases
    case 1
    obtain t bs' where "kfree (Some (fst (objs ! i))) s = Some t" "objects_inv (remove_nth i objs) t bs'"
      by (rule kfree_objects [OF inv i])
    with 1 i show ?thesis by (intro that) (simp_all add: krealloc_def)
  next
    case 2
    then have "krealloc env (Some (fst (objs ! i))) sz s = Some (Some (hat x), s)"
      using small by (simp add: krealloc_def x(2) alloc_header [OF rep x(1)] of_nat_le_size)
    then have call: "heap_call env (Krealloc i sz) (objs, s) =
        Some (objs[i := (hat x, take (unat sz) c @ read_bytes s (hat x) (length c) (unat sz))], s)"
      using i by (simp add: c_def Let_def)
    have "objects_inv (objs[i := (hat x, take (unat sz) c @ read_bytes s (hat x) (length c) (unat sz))])
        (s\<lparr>bytes := bytes s\<rparr>) bs"
    proof (rule objects_update [OF inv i x])
      show "length (take (unat sz) c @ read_bytes s (hat x) (length c) (unat sz)) \<le> n"
        using 2 by (simp only: resized_length)
      show "bytes s (hat (x + k)) = (take (unat sz) c @ read_bytes s (hat x) (length c) (unat sz)) ! k"
        if "k < length (take (unat sz) c @ read_bytes s (hat x) (length c) (unat sz))" for k
        using that c(2) unfolding resized_length by (intro resized_content) (simp_all add: c_def)
    qed simp
    with call show ?thesis by (intro that) simp_all
  next
    case 3
    then have big: "4096 < sz" using n by (simp add: word_less_nat_alt)
    then have grow: "krealloc env (Some (fst (objs ! i))) sz s =
        (case kmalloc env sz s of
           None \<Rightarrow> None
         | Some (None, s) \<Rightarrow> Some (None, s)
         | Some (Some q, s) \<Rightarrow>
             map_option (\<lambda>s. (Some q, s))
               (kfree (Some (hat x)) (s\<lparr>bytes := copy_bytes q (hat x) (unat (blk_size (headers s (hat x - BLOCK_HEADER_SIZE)))) (bytes s)\<rparr>)))"
      using 3 small by (auto simp: krealloc_def x(2) alloc_header [OF rep x(1)] of_nat_le_size)
    show ?thesis
    proof (rule kmalloc_objects [OF inv big sz, of env])
      fix t assume "kmalloc env sz s = Some (None, t)" "objects_inv objs t bs"
      with i big show ?thesis by (intro that) (auto simp: grow)
    next
      fix z nz t bs'
      assume alloc: "kmalloc env sz s = Some (Some (hat z), t)" "unat sz \<le> nz" "heap_rep t bs'" "kept s t" "4096 < nz"
        and allocs: "set (allocs 0 bs') = insert (z, nz) (set (allocs 0 bs))" and fresh: "\<And>k. (z, k) \<notin> set (allocs 0 bs)"
      have x': "(x, n) \<in> set (allocs 0 bs')" and z': "(z, nz) \<in> set (allocs 0 bs')" by (simp_all add: allocs x(1))
      have ne: "x \<noteq> z" using fresh x(1) by auto
      define m where "m = copy_bytes (hat z) (hat x) n (bytes t)"
      have m: "\<forall>k < n. m (hat (z + k)) = bytes t (hat (x + k))" "\<forall>a. (\<forall>k < n. a \<noteq> hat (z + k)) \<longrightarrow> m a = bytes t a"
      proof -
        have "hat (x + i) \<noteq> hat (z + j)" if "i < n" "j < n" for i j
          using alloc_bytes_apart [OF alloc(3) x' z' ne] that 3 alloc(2) by simp
        moreover have "i = j" if "i < n" "j < n" "hat (z + i) = hat (z + j)" for i j
          using that alloc_offset_small [OF alloc(3) z'] 3 alloc(2) by (simp add: hat_eq_iff)
        ultimately show "\<forall>k < n. m (hat (z + k)) = bytes t (hat (x + k))" "\<forall>a. (\<forall>k < n. a \<noteq> hat (z + k)) \<longrightarrow> m a = bytes t a"
          using copy_bytes_apply [of n x z "bytes t"] unfolding m_def by blast+
      qed
      have rep': "heap_rep (t\<lparr>bytes := m\<rparr>) bs'" using alloc(3) by (simp add: heap_rep_def)
      obtain u bs'' where u: "kfree (Some (hat x)) (t\<lparr>bytes := m\<rparr>) = Some u" "heap_rep u bs''" "kept (t\<lparr>bytes := m\<rparr>) u"
        "set (allocs 0 bs'') = set (allocs 0 bs') - {(x, n)}"
        by (rule kfree_rep [OF rep' x'])
      define c' where "c' = take (unat sz) c @ read_bytes u (hat z) (length c) (unat sz)"
      have "unat (of_nat n :: size_t) = n" using small by (intro unat_of_nat_small) simp
      then have "krealloc env (Some (fst (objs ! i))) sz s = Some (Some (hat z), u)"
        using u(1) by (simp add: grow alloc(1) alloc_header [OF alloc(3) x'] m_def)
      then have call: "heap_call env (Krealloc i sz) (objs, s) = Some (objs[i := (hat z, c')], u)"
        using i by (simp add: c_def c'_def Let_def)
      have bu: "bytes u = m" using u(3) by (simp add: kept_def)
      have content: "m (hat (z + k)) = c' ! k" if "k < length c'" for k
        unfolding c'_def bu [symmetric]
      proof (rule resized_content)
        show "bytes u (hat (z + k)) = c ! k" if "k < length c" for k
          using that m(1) c alloc(4) by (simp add: bu c_def kept_def)
        show "k < unat sz" using that by (simp only: c'_def resized_length)
      qed
      have "objects_inv (objs @ [(hat z, c')]) (t\<lparr>bytes := m\<rparr>) bs'"
      proof (rule objects_add [OF inv alloc(3,4) _ alloc(5) allocs fresh content])
        show "length c' \<le> nz" using alloc(2) by (simp only: c'_def resized_length)
        show "m a = bytes t a" if "\<And>k. k < nz \<Longrightarrow> a \<noteq> hat (z + k)" for a
          using m(2) that 3 alloc(2) by (meson less_trans not_le_imp_less order_less_le_trans)
      qed
      then have "objects_inv (remove_nth i (objs @ [(hat z, c')])) u bs''"
        by (rule objects_remove) (use i u x' x(2) in \<open>simp_all add: nth_append\<close>)
      then have "objects_inv (objs[i := (hat z, c')]) u bs''"
      proof (rule objects_inv_cong)
        have "remove_nth i (objs @ [(hat z, c')]) = take i objs @ drop (Suc i) objs @ [(hat z, c')]"
          using i by (simp add: remove_nth_def)
        then show "set (objs[i := (hat z, c')]) = set (remove_nth i (objs @ [(hat z, c')]))"
          using i by (auto simp: upd_conv_take_nth_drop)
        have "distinct (map fst (remove_nth i (objs @ [(hat z, c')])))"
          using \<open>objects_inv (remove_nth i (objs @ [(hat z, c')])) u bs''\<close> by (simp add: objects_inv_def)
        then show "distinct (map fst (objs[i := (hat z, c')]))"
          using i by (auto simp: remove_nth_def upd_conv_take_nth_drop)
      qed
      with call show ?thesis by (rule that)
    qed
  qed
qed

section \<open>Histories\<close>

lemma heap_call_inv:
  assumes inv: "objects_inv objs s bs" and r: "large_request r"
  obtains objs' t bs' where "heap_call env r (objs, s) = Some (objs', t)" "objects_inv objs' t bs'"
proof (cases r)
  case (Kmalloc sz)
  with r have sz: "4096 < sz" "unat sz \<le> 2 ^ 29" by simp_all
  show ?thesis
  proof (rule kmalloc_objects [OF inv sz, of env])
    fix t assume "kmalloc env sz s = Some (None, t)" "objects_inv objs t bs"
    then show ?thesis by (intro that) (auto simp: Kmalloc)
  next
    fix x n t bs' assume a: "kmalloc env sz s = Some (Some (hat x), t)" "unat sz \<le> n" "heap_rep t bs'" "kept s t" "4096 < n"
      "set (allocs 0 bs') = insert (x, n) (set (allocs 0 bs))" "\<And>k. (x, k) \<notin> set (allocs 0 bs)"
    have "objects_inv (objs @ [(hat x, read_bytes t (hat x) 0 (unat sz))]) (t\<lparr>bytes := bytes t\<rparr>) bs'"
      by (rule objects_add [OF inv a(3,4) _ a(5-7)]) (use a(2) in \<open>auto simp: read_bytes_def hat_add\<close>)
    with a(1) show ?thesis by (intro that) (auto simp: Kmalloc)
  qed
next
  case (Kzalloc sz)
  with r have sz: "4096 < sz" "unat sz \<le> 2 ^ 29" by simp_all
  show ?thesis
  proof (rule kmalloc_objects [OF inv sz, of env])
    fix t assume "kmalloc env sz s = Some (None, t)" "objects_inv objs t bs"
    then show ?thesis by (intro that) (auto simp: Kzalloc kzalloc_def)
  next
    fix x n t bs' assume a: "kmalloc env sz s = Some (Some (hat x), t)" "unat sz \<le> n" "heap_rep t bs'" "kept s t" "4096 < n"
      "set (allocs 0 bs') = insert (x, n) (set (allocs 0 bs))" "\<And>k. (x, k) \<notin> set (allocs 0 bs)"
    have "objects_inv (objs @ [(hat x, replicate (unat sz) 0)]) (t\<lparr>bytes := zero_bytes (hat x) (unat sz) (bytes t)\<rparr>) bs'"
    proof (rule objects_add [OF inv a(3,4) _ a(5-7)])
      show "zero_bytes (hat x) (unat sz) (bytes t) a = bytes t a" if "\<And>k. k < n \<Longrightarrow> a \<noteq> hat (x + k)" for a
        using that a(2) by (rule zero_bytes_old)
    qed (use a(2) in \<open>auto simp: zero_bytes_apply\<close>)
    with a(1) show ?thesis by (intro that) (auto simp: Kzalloc kzalloc_def)
  qed
next
  case (Kfree i)
  show ?thesis
  proof (cases "i < length objs")
    case True
    obtain t bs' where "kfree (Some (fst (objs ! i))) s = Some t" "objects_inv (remove_nth i objs) t bs'"
      by (rule kfree_objects [OF inv True])
    with True show ?thesis by (intro that) (auto simp: Kfree)
  qed (use inv in \<open>auto simp: Kfree intro: that\<close>)
next
  case (Krealloc i sz)
  show ?thesis
  proof (cases "i < length objs")
    case True
    with inv show ?thesis by (rule krealloc_objects [of objs s bs i sz env]) (use r that in \<open>auto simp: Krealloc\<close>)
  qed (use inv in \<open>auto simp: Krealloc intro: that\<close>)
next
  case (Write i k b)
  show ?thesis
  proof (cases "i < length objs \<and> k < length (snd (objs ! i))")
    case True
    then obtain x n where x: "(x, n) \<in> set (allocs 0 bs)" "fst (objs ! i) = hat x"
      and c: "length (snd (objs ! i)) \<le> n" "\<forall>k < length (snd (objs ! i)). bytes s (hat (x + k)) = snd (objs ! i) ! k"
      using objects_inv_object [OF inv] by blast
    define c where "c = snd (objs ! i)"
    have rep: "heap_rep s bs" using inv by (simp add: objects_inv_def)
    have "objects_inv (objs[i := (hat x, c[k := b])]) (s\<lparr>bytes := (bytes s)(hat (x + k) := b)\<rparr>) bs"
    proof (rule objects_update [OF inv _ x])
      fix j assume "j < length (c[k := b])"
      moreover have "hat (x + j) = hat (x + k) \<longleftrightarrow> j = k"
        using alloc_offset_small [OF rep x(1)] c(1) True calculation by (simp add: hat_eq_iff c_def)
      ultimately show "((bytes s)(hat (x + k) := b)) (hat (x + j)) = c[k := b] ! j"
        using c(2) by (auto simp: c_def)
    next
      fix a assume "\<And>l. l < n \<Longrightarrow> a \<noteq> hat (x + l)"
      then show "((bytes s)(hat (x + k) := b)) a = bytes s a" using True c(1) by auto
    qed (use True c in \<open>auto simp: c_def\<close>)
    moreover have "objs ! i = (hat x, c)" using x(2) by (simp add: c_def prod_eq_iff)
    ultimately show ?thesis using True by (intro that) (auto simp: Write hat_add)
  qed (use inv in \<open>auto simp: Write intro: that\<close>)
qed

lemma heap_calls_inv:
  assumes "objects_inv objs s bs" "\<forall>r \<in> set rs. large_request r"
  shows "\<exists>objs' t bs'. heap_calls env rs (objs, s) = Some (objs', t) \<and> objects_inv objs' t bs'"
  using assms
proof (induction rs arbitrary: objs s bs)
  case (Cons r rs)
  obtain objs' t bs' where "heap_call env r (objs, s) = Some (objs', t)" "objects_inv objs' t bs'"
    by (rule heap_call_inv [of objs s bs r env]) (use Cons.prems in auto)
  with Cons show ?case by simp
qed auto

section \<open>Initialisation\<close>

text \<open>The state at boot, from the initialisers of the static variables.\<close>

definition heap_boot :: "heap_state \<Rightarrow> bool" where
  "heap_boot s \<longleftrightarrow>
     heap_start s = None \<and> heap_current s = HEAP_START \<and> heap_max s = HEAP_START \<and> heap_total_size s = 0 \<and>
     heap_used_size s = 0 \<and> \<not> slab_initialized s"

lemma slab_init_idle: "\<not> slab_initialized s \<Longrightarrow> slab_idle (slab_init s)"
proof -
  have "n \<le> NUM_SLAB_SIZES \<Longrightarrow> \<forall>c < n. for_range 0 n (\<lambda>i k. k(i := init_slab_cache (slab_sizes ! i))) k0 c = init_slab_cache (slab_sizes ! c)" for n k0
    by (induction n) (auto simp: for_range_Suc less_Suc_eq)
  then show "\<not> slab_initialized s \<Longrightarrow> slab_idle (slab_init s)" by (simp add: slab_idle_def slab_init_def)
qed

lemma heap_boot_expand:
  assumes "heap_boot s"
  obtains k t where "k \<le> 4096" "expand_pages env 4096 (slab_init s) = (k = 4096, (slab_init s)\<lparr>heap_current := hat (k * 4096), tried := t\<rparr>)"
proof -
  obtain k t where k: "k \<le> 4096" "expand_pages env 4096 (slab_init s) =
      (k = 4096, (slab_init s)\<lparr>heap_current := heap_current (slab_init s) + of_nat (k * 4096), tried := t\<rparr>)"
    by (rule expand_pages_result)
  have "heap_current (slab_init s) = hat 0" using assms by (simp add: heap_boot_def slab_init_def hat_0)
  then have "heap_current (slab_init s) + of_nat (k * 4096) = hat (k * 4096)"
    by (simp only: hat_add add_0)
  with k that show ?thesis by simp
qed

lemma heap_init_expand:
  assumes "heap_boot s"
  shows "expand_heap env HEAP_INITIAL_SIZE (slab_init s) =
    (case expand_pages env 4096 (slab_init s) of
       (False, s) \<Rightarrow> (False, s)
     | (True, s) \<Rightarrow> (True, s\<lparr>heap_max := heap_current s, heap_total_size := heap_total_size s + 0x1000000\<rparr>))"
proof -
  have e: "ALIGN_UP HEAP_INITIAL_SIZE PAGE_SIZE = 0x1000000"
    by (simp add: ALIGN_UP_def HEAP_INITIAL_SIZE_def PAGE_SIZE_def)
  have "unat (0x1000000 div PAGE_SIZE) = 4096" by (simp add: PAGE_SIZE_def)
  moreover have "\<not> heap_current (slab_init s) + 0x1000000 > HEAP_START + HEAP_MAX_SIZE"
    using assms by (simp add: heap_boot_def slab_init_def HEAP_START_def HEAP_MAX_SIZE_def)
  ultimately show ?thesis unfolding expand_heap_def Let_def e by simp
qed

lemma heap_init_inv:
  assumes boot: "heap_boot s0" and init: "heap_init env s0 = Some s"
  shows "objects_inv [] s [(2 ^ 24 - 40, True)]"
proof -
  obtain k t where k: "expand_pages env 4096 (slab_init s0) = (k = 4096, (slab_init s0)\<lparr>heap_current := hat (k * 4096), tried := t\<rparr>)"
    by (rule heap_boot_expand [OF boot])
  with init have "k = 4096"
    by (cases "k = 4096") (simp_all add: heap_init_def heap_init_expand [OF boot])
  have tot: "heap_total_size (slab_init s0) = 0" using boot by (simp add: heap_boot_def slab_init_def)
  have "expand_heap env HEAP_INITIAL_SIZE (slab_init s0) = (True, (slab_init s0)\<lparr>heap_current := hat (2 ^ 24), tried := t,
      heap_max := hat (2 ^ 24), heap_total_size := 0x1000000\<rparr>)"
    using k \<open>k = 4096\<close> tot by (simp add: heap_init_expand [OF boot])
  moreover have "\<lparr>blk_size = HEAP_INITIAL_SIZE - BLOCK_HEADER_SIZE, blk_free = True, blk_next = None, blk_prev = None,
      blk_magic = HEAP_MAGIC\<rparr> = header (2 ^ 24 - 40, True) None None"
    by (simp add: header_def HEAP_INITIAL_SIZE_def BLOCK_HEADER_SIZE_def)
  ultimately have s: "s = (slab_init s0)\<lparr>heap_current := hat (2 ^ 24), tried := t, heap_max := hat (2 ^ 24),
      heap_total_size := 0x1000000, heap_start := Some HEAP_START,
      headers := (headers (slab_init s0))(HEAP_START := header (2 ^ 24 - 40, True) None None)\<rparr>"
    using init by (simp add: heap_init_def)
  have "slab_idle (slab_init s0)" using boot by (intro slab_init_idle) (simp add: heap_boot_def)
  then have "slab_idle s" by (simp add: s slab_idle_def)
  moreover have "heap_rep s [(2 ^ 24 - 40, True)]"
    using boot by (auto simp: s heap_rep_def hat_0 [symmetric] settled_def heap_boot_def slab_init_def intro!: exI [of _ "2 ^ 24"])
  ultimately show ?thesis by (simp add: objects_inv_def)
qed

lemma expand_pages_all: "fst (expand_pages (\<lambda>_. True) n s)"
  by (induction n arbitrary: s) simp_all

lemma heap_init_succeeds:
  assumes "heap_boot s0"
  shows "\<exists>s. heap_init (\<lambda>_. True) s0 = Some s"
  using expand_pages_all [of 4096 "slab_init s0"] heap_init_expand [OF assms, of "\<lambda>_. True"]
  by (auto simp: heap_init_def split: prod.splits bool.splits)

section \<open>Correctness for large objects\<close>

lemma allocs_dvd:
  assumes "(x, n) \<in> set (allocs off bs)" "\<forall>b \<in> set bs. 8 dvd fst b" "8 dvd off"
  shows "8 dvd x"
  using assms by (induction off bs rule: allocs.induct) (auto split: if_splits)

lemma IS_ALIGNED_hat:
  assumes "8 dvd x" "x < 2 ^ 30"
  shows "IS_ALIGNED (hat x) 8"
proof -
  have "hat x AND 7 = take_bit 3 (hat x)" by (simp add: take_bit_eq_mask mask_eq_exp_minus_1)
  also have "\<dots> = hat x mod 8" by (simp add: take_bit_eq_mod)
  also have "\<dots> = 0"
  proof -
    have "unat (hat x mod 8) = (0xFFFFFFFFC0000000 + x) mod 8" using assms(2) by (simp add: unat_mod unat_hat)
    also have "\<dots> = 0" using assms(1) by (auto elim!: dvdE)
    finally show ?thesis by (simp add: unat_eq_zero)
  qed
  finally show ?thesis by (simp add: IS_ALIGNED_def)
qed

lemma objects_inv_placed:
  assumes inv: "objects_inv objs s bs" and ob: "(p, c) \<in> set objs"
  shows "IS_ALIGNED p 8" "read_bytes s p 0 (length c) = c" "unat HEAP_START + 40 \<le> unat p"
    "unat p + length c \<le> unat (heap_current s)"
proof -
  have rep: "heap_rep s bs" using inv by (simp add: objects_inv_def)
  obtain x n where x: "(x, n) \<in> set (allocs 0 bs)" "p = hat x" "length c \<le> n" "\<forall>k < length c. bytes s (hat (x + k)) = c ! k"
    using inv ob by (force simp: objects_inv_def object_ok_def)
  note b = allocs_bounds [OF x(1)] and small = alloc_offset_small [OF rep x(1)]
  show "IS_ALIGNED p 8"
    unfolding x(2) using allocs_dvd [OF x(1)] heap_repD(8) [OF rep] small by (intro IS_ALIGNED_hat) auto
  show "read_bytes s p 0 (length c) = c"
    using x(4) by (auto simp: read_bytes_def x(2) hat_add intro!: nth_equalityI)
  have p: "unat p = 0xFFFFFFFFC0000000 + x" using small by (simp add: x(2) unat_hat)
  then show "unat HEAP_START + 40 \<le> unat p" using b(1) by (simp add: HEAP_START_def)
  obtain d where d: "heap_current s = hat d" "d \<le> 2 ^ 28" "span bs \<le> d"
    using rep by (auto simp: heap_rep_def)
  then have "unat (heap_current s) = 0xFFFFFFFFC0000000 + d" by (simp add: unat_hat)
  with p b(2) x(3) d(3) show "unat p + length c \<le> unat (heap_current s)" by simp
qed

lemma objects_inv_disjoint:
  assumes inv: "objects_inv objs s bs" and i: "i < length objs" and j: "j < length objs" and ne: "i \<noteq> j"
  shows "unat (fst (objs ! i)) + length (snd (objs ! i)) \<le> unat (fst (objs ! j)) \<or>
    unat (fst (objs ! j)) + length (snd (objs ! j)) \<le> unat (fst (objs ! i))"
proof -
  have rep: "heap_rep s bs" and d: "distinct (map fst objs)" using inv by (simp_all add: objects_inv_def)
  obtain x n where x: "(x, n) \<in> set (allocs 0 bs)" "fst (objs ! i) = hat x" "length (snd (objs ! i)) \<le> n"
    by (rule objects_inv_object [OF inv i])
  obtain y m where y: "(y, m) \<in> set (allocs 0 bs)" "fst (objs ! j) = hat y" "length (snd (objs ! j)) \<le> m"
    by (rule objects_inv_object [OF inv j])
  have "map fst objs ! i \<noteq> map fst objs ! j" using d i j ne by (simp add: nth_eq_iff_index_eq del: nth_map)
  then have "x \<noteq> y" using x(2) y(2) i j by auto
  then have "x + n \<le> y \<or> y + m \<le> x" by (rule allocs_apart [OF x(1) y(1)])
  moreover have "unat (hat x) = 0xFFFFFFFFC0000000 + x" "unat (hat y) = 0xFFFFFFFFC0000000 + y"
    using alloc_offset_small [OF rep x(1)] alloc_offset_small [OF rep y(1)] by (simp_all add: unat_hat)
  ultimately show ?thesis using x(2,3) y(2,3) by auto
qed

lemma objects_inv_none:
  assumes inv: "objects_inv [] s bs"
  shows "heap_used_size s = 0" "blk_free (headers s HEAP_START)" "blk_next (headers s HEAP_START) = None"
proof -
  have rep: "heap_rep s bs" and "allocs 0 bs = []" using inv by (simp_all add: objects_inv_def)
  then have free: "\<forall>b \<in> set bs. snd b" by (simp add: allocs_Nil_iff)
  note r = heap_repD [OF rep]
  obtain b where bs: "bs = [b]"
  proof (cases bs)
    case (Cons b cs)
    show ?thesis
    proof (cases cs)
      case (Cons c ds)
      with \<open>bs = b # cs\<close> r(7) free show ?thesis by (simp add: settled_Cons)
    qed (use Cons that in simp)
  qed (use r(2) in simp)
  with free have b: "snd b" by simp
  with r(6) bs show "heap_used_size s = 0" by (simp add: unat_eq_zero)
  show "blk_free (headers s HEAP_START)" "blk_next (headers s HEAP_START) = None"
    using r(3) b by (simp_all add: bs hat_0)
qed

definition blank_heap :: heap_state where
  "blank_heap =
     \<lparr>heap_start = None, heap_current = HEAP_START, heap_max = HEAP_START, heap_total_size = 0, heap_used_size = 0,
      headers = (\<lambda>_. header (0, False) None None), bytes = (\<lambda>_. 0), slab_caches = (\<lambda>_. init_slab_cache 0),
      slab_initialized = False,
      slab_pages = (\<lambda>_. \<lparr>pg_next = None, pg_prev = None, pg_free_count = 0, pg_objects = 0, pg_class = 0, pg_bitmap = (\<lambda>_. 0)\<rparr>),
      tried = 0\<rparr>"

lemma heap_boot_blank: "heap_boot blank_heap"
  by (simp add: heap_boot_def blank_heap_def)



section \<open>Small requests\<close>

lemma kmalloc_locked:
  assumes "0 < sz" "sz \<le> 4096" "cache_lock (slab_caches s (find_size_class sz)) \<noteq> 0"
  shows "kmalloc env sz s = None"
  using assms by (subst kmalloc.simps, subst slab_alloc.simps) auto

lemma kmalloc_no_page:
  assumes sz: "0 < sz" "sz \<le> 4096" and free: "cache_lock (slab_caches s (find_size_class sz)) = 0"
    and empty: "partial_pages (slab_caches s (find_size_class sz)) = None"
    and page: "kmalloc env 4096 (cache_upd (find_size_class sz) (cache_lock_update (\<lambda>_. 1)) s) = None"
  shows "kmalloc env sz s = None"
proof -
  have "alloc_partial (find_size_class sz) (cache_upd (find_size_class sz) (cache_lock_update (\<lambda>_. 1)) s) = None"
    using empty by (simp add: alloc_partial_def)
  moreover have "alloc_slab_page env (find_size_class sz) (cache_upd (find_size_class sz) (cache_lock_update (\<lambda>_. 1)) s) = None"
    by (subst alloc_slab_page.simps) (simp add: PAGE_SIZE_def page)
  ultimately have "slab_alloc env sz s = None"
    using sz free by (subst slab_alloc.simps) auto
  with sz show ?thesis by (subst kmalloc.simps) auto
qed

lemma find_size_class_page: "find_size_class 4096 = 9"
  by (simp add: find_size_class_def first_index_def NUM_SLAB_SIZES_def slab_sizes_def upt_rec)

text \<open>With the caches empty the request for a slab page is itself a small request, of the same size class for ever.\<close>

lemma slab_idle_deadlock:
  assumes idle: "slab_idle s" and sz: "0 < sz" "sz \<le> 4096"
  shows "kmalloc env sz s = None"
proof -
  have c: "slab_caches s (find_size_class z) = init_slab_cache (slab_sizes ! find_size_class z)" for z
    using idle find_size_class_less by (simp add: slab_idle_def)
  let ?s = "cache_upd (find_size_class sz) (cache_lock_update (\<lambda>_. 1)) s"
  have none: "kmalloc env 4096 ?s = None"
  proof (cases "find_size_class sz = 9")
    case True
    then show ?thesis by (intro kmalloc_locked) (simp_all add: find_size_class_page)
  next
    case False
    have nine: "slab_caches s 9 = init_slab_cache (slab_sizes ! 9)" using c [of 4096] by (simp add: find_size_class_page)
    let ?t = "cache_upd 9 (cache_lock_update (\<lambda>_. 1)) ?s"
    have "kmalloc env 4096 ?t = None"
      by (intro kmalloc_locked) (simp_all add: find_size_class_page)
    then have page: "kmalloc env 4096 (cache_upd (find_size_class 4096) (cache_lock_update (\<lambda>_. 1)) ?s) = None"
      by (simp only: find_size_class_page)
    show ?thesis
      by (rule kmalloc_no_page [OF _ _ _ _ page]) (use False nine in \<open>simp_all add: find_size_class_page init_slab_cache_def\<close>)
  qed
  show ?thesis
    by (rule kmalloc_no_page [OF sz _ _ none]) (use c [of sz] in \<open>simp_all add: init_slab_cache_def\<close>)
qed

text \<open>
  C30: After \<^verbatim>\<open>heap_init\<close> and any sequence of calls for large objects, no request for 1 to 4096 bytes returns: \<^verbatim>\<open>slab_alloc\<close>
  holds the lock of its cache while \<^verbatim>\<open>alloc_slab_page\<close> asks \<^verbatim>\<open>kmalloc\<close> for a page, which comes back to \<^verbatim>\<open>slab_alloc\<close>
  for the class of 4096 bytes, and that one asks for its own page and waits for the lock it holds.
\<close>

theorem kmalloc_small_deadlocks:
  assumes "heap_boot s0" "heap_init env s0 = Some s" "\<forall>r \<in> set rs. large_request r" "0 < sz" "sz \<le> 4096"
  shows "\<exists>objs t. heap_calls env rs ([], s) = Some (objs, t) \<and> kmalloc env sz t = None \<and> kzalloc env sz t = None"
proof -
  obtain objs t bs where t: "heap_calls env rs ([], s) = Some (objs, t)" "objects_inv objs t bs"
    using heap_calls_inv [OF heap_init_inv [OF assms(1,2)] assms(3)] by blast
  then have "slab_idle t" by (simp add: objects_inv_def)
  then have "kmalloc env sz t = None" using assms(4,5) by (rule slab_idle_deadlock)
  with t(1) show ?thesis by (auto simp: kzalloc_def)
qed

theorem kmalloc_small_deadlocks_witness:
  "\<exists>s t objs. heap_init (\<lambda>_. True) blank_heap = Some s \<and> heap_calls (\<lambda>_. True) [Kmalloc 5000] ([], s) = Some (objs, t) \<and>
     kmalloc (\<lambda>_. True) 64 t = None"
proof -
  obtain s where s: "heap_init (\<lambda>_. True) blank_heap = Some s"
    using heap_init_succeeds [OF heap_boot_blank] by blast
  have "\<forall>r \<in> set [Kmalloc 5000]. large_request r" "(0 :: size_t) < 64" "(64 :: size_t) \<le> 4096" by simp_all
  from kmalloc_small_deadlocks [OF heap_boot_blank s this] s show ?thesis by blast
qed

section \<open>Sizes that wrap\<close>

text \<open>
  Rounding a size near \<open>2 ^ 64\<close> up to a multiple of 8 gives 0: the largest request of all is answered with a block of 0 bytes.
\<close>

lemma kmalloc_size_wraps:
  assumes "heap_boot s0" "heap_init env s0 = Some s"
  shows "\<exists>p t. kmalloc env (- 1) s = Some (Some p, t) \<and> blk_size (headers t (p - BLOCK_HEADER_SIZE)) = 0"
proof -
  have inv: "objects_inv [] s [(2 ^ 24 - 40, True)]" by (rule heap_init_inv [OF assms])
  then have rep: "heap_rep s [(2 ^ 24 - 40, True)]" by (simp add: objects_inv_def)
  note r = heap_repD [OF rep]
  have zero: "ALIGN_UP (- 1) 8 = 0" by (simp add: ALIGN_UP_def)
  have "find_block (headers s) (first_at 0 [(2 ^ 24 - 40, True)] None) 0 = Some (Some (hat 0))"
    using find_block_seg [OF r(3), of 0] by simp
  then have find: "find_block (headers s) (heap_start s) 0 = Some (Some (hat 0))" using r(1) by simp
  define h where "h = split_block 0 (hat 0) (headers s)"
  have "blk_size (h (hat 0)) = 0"
    using split_block_seg(2) [where h = "headers s" and xs = "[]" and m = "2 ^ 24 - 40" and ys = "[]" and sz = 0] r(3)
    by (simp add: h_def carved_def)
  moreover have "kmalloc env (- 1) s = Some (take_block 0 (hat 0) s)"
    using find by (simp add: kmalloc_large heap_alloc_def zero)
  moreover have "hat 0 + BLOCK_HEADER_SIZE - BLOCK_HEADER_SIZE = hat 0" by simp
  ultimately show ?thesis by (simp add: take_block_def Let_def h_def [symmetric])
qed

text \<open>
  The check against the maximal size adds before it compares: from 1 GiB on the sum wraps, the check passes,
  and with enough memory the end of the heap moves past the top of the address space to low addresses.
\<close>

lemma expand_heap_wraps:
  assumes rep: "heap_rep s bs"
  shows "\<exists>t. expand_heap (\<lambda>_. True) 0x40000000 s = (True, t) \<and> unat (heap_current t) \<le> 2 ^ 28"
proof -
  obtain c where c: "heap_current s = hat c" "c \<le> 2 ^ 28" using rep by (auto simp: heap_rep_def)
  have e: "ALIGN_UP 0x40000000 PAGE_SIZE = 0x40000000" "unat (0x40000000 div PAGE_SIZE) = 0x40000"
    by (simp_all add: ALIGN_UP_def PAGE_SIZE_def)
  have wrap: "hat c + 0x40000000 = of_nat c" by (simp add: hat_def HEAP_START_def)
  have low: "unat (of_nat c :: u64) = c" using c(2) by (intro unat_of_nat_small) simp
  then have check: "\<not> heap_current s + 0x40000000 > HEAP_START + HEAP_MAX_SIZE"
    using c(2) by (simp add: c(1) wrap word_less_nat_alt HEAP_START_def HEAP_MAX_SIZE_def)
  obtain k t where k: "expand_pages (\<lambda>_. True) 0x40000 s =
      (k = 0x40000, s\<lparr>heap_current := heap_current s + of_nat (k * 4096), tried := t\<rparr>)"
    by (rule expand_pages_result)
  then have "k = 0x40000" using expand_pages_all [of "0x40000" s] by simp
  with k have "expand_pages (\<lambda>_. True) 0x40000 s = (True, s\<lparr>heap_current := of_nat c, tried := t\<rparr>)"
    by (simp add: c(1) wrap)
  then show ?thesis
    unfolding expand_heap_def Let_def e using check c(2) low by simp
qed

end
