(* ===== verification/Slab_Props.thy ===== *)
theory Slab_Props
  imports Heap_Props
begin

text \<open>
  The pages of the slab allocator, \<^verbatim>\<open>kernel/mm/slab.c\<close>: the bitmap of a page as the set of its free
  objects, and where the objects of each size class lie.
\<close>

section \<open>The bitmap\<close>

definition free_objects :: "slab_page_t \<Rightarrow> nat set" where
  "free_objects pg = {i. i < unat (pg_objects pg) \<and> bit (pg_bitmap pg (i div 8)) (i mod 8)}"

definition page_wf :: "slab_page_t \<Rightarrow> bool" where
  "page_wf pg \<longleftrightarrow>
     unat (pg_class pg) < 10 \<and> pg_objects pg = SLAB_OBJECTS_PER_PAGE (slab_sizes ! unat (pg_class pg)) \<and>
     unat (pg_free_count pg) = card (free_objects pg)"

lemma finite_free_objects [simp]: "finite (free_objects pg)"
  by (rule finite_subset [of _ "{..<unat (pg_objects pg)}"]) (auto simp: free_objects_def)

lemma slab_class_cases:
  assumes "c < (10 :: nat)"
  shows "c = 0 \<or> c = 1 \<or> c = 2 \<or> c = 3 \<or> c = 4 \<or> c = 5 \<or> c = 6 \<or> c = 7 \<or> c = 8 \<or> c = 9"
  using assms by presburger

text \<open>The number of objects on a page by size class; the class of 4096 bytes has none.\<close>

lemma slab_objects:
  "map (\<lambda>sz. unat (SLAB_OBJECTS_PER_PAGE sz)) (take 10 slab_sizes) = [508, 254, 127, 63, 31, 15, 7, 3, 1, 0]"
  by (simp add: slab_sizes_def SLAB_OBJECTS_PER_PAGE_def PAGE_SIZE_def SLAB_PAGE_HEADER_def)

lemma page_wf_small: "page_wf pg \<Longrightarrow> unat (pg_objects pg) \<le> 508"
  using slab_class_cases [of "unat (pg_class pg)"]
  by (auto simp: page_wf_def slab_sizes_def SLAB_OBJECTS_PER_PAGE_def PAGE_SIZE_def SLAB_PAGE_HEADER_def)

lemma unat_get_bitmap_size:
  assumes "unat n \<le> 508"
  shows "unat (get_bitmap_size n) = (unat n + 7) div 8"
proof -
  have "unat (n + 7) = unat n + 7" using assms by (simp add: unat_word_ariths)
  moreover have "take_bit 64 ((unat n + 7) div 8) = (unat n + 7) div 8"
    using assms by (intro take_bit_nat_eq_self) simp
  ultimately show ?thesis by (simp add: get_bitmap_size_def unsigned_ucast_eq unat_div)
qed

lemma byte_object_bit:
  "byte_object pg i =
     (if pg_bitmap pg i \<noteq> 0 then
        (case first_index (bit (pg_bitmap pg i)) 0 8 of
           None \<Rightarrow> None
         | Some k \<Rightarrow> if i * 8 + k \<ge> unat (pg_objects pg) then None else Some (i * 8 + k))
      else None)"
proof -
  have "(\<lambda>k. pg_bitmap pg i AND push_bit k 1 \<noteq> 0) = bit (pg_bitmap pg i)"
    by (rule ext) (simp only: bit_iff_and_push_bit_not_eq_0)
  then show ?thesis by (simp only: byte_object_def)
qed

lemma byte_object_None: "byte_object pg i = None \<longleftrightarrow> (\<forall>j \<in> free_objects pg. j div 8 \<noteq> i)"
proof -
  have "byte_object pg i = None \<longleftrightarrow> (\<forall>k < 8. bit (pg_bitmap pg i) k \<longrightarrow> unat (pg_objects pg) \<le> i * 8 + k)"
  proof (cases "first_index (bit (pg_bitmap pg i)) 0 8")
    case None
    then show ?thesis
      by (auto simp: byte_object_bit) (auto simp: first_index_None_iff)
  next
    case (Some k)
    then have "k < 8" "bit (pg_bitmap pg i) k" "\<forall>j<k. \<not> bit (pg_bitmap pg i) j"
      by (auto simp: first_index_Some_iff)
    moreover from this have "pg_bitmap pg i \<noteq> 0" by auto
    ultimately show ?thesis
      using Some by (auto simp: byte_object_bit) (meson add_le_mono1 leI nat_add_left_cancel_le order_trans)
  qed
  also have "\<dots> \<longleftrightarrow> (\<forall>j \<in> free_objects pg. j div 8 \<noteq> i)"
  proof safe
    fix j assume "\<forall>k < 8. bit (pg_bitmap pg (j div 8)) k \<longrightarrow> unat (pg_objects pg) \<le> j div 8 * 8 + k" "j \<in> free_objects pg"
    then show False by (auto simp: free_objects_def dest!: spec [of _ "j mod 8"])
  next
    fix k assume a: "\<forall>j \<in> free_objects pg. j div 8 \<noteq> i" "k < 8" "bit (pg_bitmap pg i) k"
    show "unat (pg_objects pg) \<le> i * 8 + k"
    proof (rule ccontr)
      assume "\<not> unat (pg_objects pg) \<le> i * 8 + k"
      with a(2,3) have "i * 8 + k \<in> free_objects pg" by (simp add: free_objects_def)
      with a(1,2) show False by fastforce
    qed
  qed
  finally show ?thesis .
qed

lemma byte_object_Some:
  assumes "byte_object pg i = Some k"
  shows "k \<in> free_objects pg" "k div 8 = i" "\<And>j. j \<in> free_objects pg \<Longrightarrow> j div 8 = i \<Longrightarrow> k \<le> j"
proof -
  obtain b where b: "b < 8" "bit (pg_bitmap pg i) b" "\<forall>j<b. \<not> bit (pg_bitmap pg i) j" "k = i * 8 + b" "k < unat (pg_objects pg)"
    using assms by (auto simp: byte_object_bit first_index_Some_iff not_le split: if_splits option.splits)
  then show "k \<in> free_objects pg" "k div 8 = i" by (auto simp: free_objects_def)
  fix j assume "j \<in> free_objects pg" "j div 8 = i"
  with b(3) have "\<not> j mod 8 < b" by (auto simp: free_objects_def)
  with b(4) \<open>j div 8 = i\<close> show "k \<le> j" by (metis add_le_cancel_left div_mult_mod_eq not_less)
qed

section \<open>Taking and returning objects\<close>

lemma find_free_object_none:
  assumes "free_objects pg = {}"
  shows "find_free_object p pg = (None, pg)"
proof -
  have "byte_object pg i = None" for i using assms by (simp add: byte_object_None)
  then have "first_index (\<lambda>i. byte_object pg i \<noteq> None) 0 n = None" for n by (simp add: first_index_None_iff)
  then show ?thesis by (simp add: find_free_object_def)
qed

lemma find_free_object_min:
  assumes wf: "page_wf pg" and ne: "free_objects pg \<noteq> {}"
  defines "k \<equiv> Min (free_objects pg)"
  shows "find_free_object p pg = (Some (object_address p pg k),
    pg\<lparr>pg_bitmap := (pg_bitmap pg)(k div 8 := pg_bitmap pg (k div 8) AND NOT (push_bit (k mod 8) 1)),
       pg_free_count := pg_free_count pg - 1\<rparr>)"
proof -
  have k: "k \<in> free_objects pg" "\<And>j. j \<in> free_objects pg \<Longrightarrow> k \<le> j" using ne by (simp_all add: k_def)
  let ?n = "unat (get_bitmap_size (pg_objects pg))"
  have n: "?n = (unat (pg_objects pg) + 7) div 8"
    by (rule unat_get_bitmap_size [OF page_wf_small [OF wf]])
  have "k < unat (pg_objects pg)" using k(1) by (simp add: free_objects_def)
  then have "k div 8 < ?n" by (simp add: n div_less_iff_less_mult less_eq_div_iff_mult_less_eq)
  moreover have "byte_object pg (k div 8) \<noteq> None" using k(1) by (auto simp: byte_object_None)
  moreover have "byte_object pg j = None" if "j < k div 8" for j
    using k(2) that by (auto simp: byte_object_None) (meson div_le_mono leD)
  ultimately have "first_index (\<lambda>i. byte_object pg i \<noteq> None) 0 ?n = Some (k div 8)"
    by (simp add: first_index_Some_iff)
  moreover obtain j where j: "byte_object pg (k div 8) = Some j"
    using \<open>byte_object pg (k div 8) \<noteq> None\<close> by blast
  moreover have "j = k"
    using byte_object_Some [OF j] k by (simp add: le_antisym)
  ultimately show ?thesis by (simp add: find_free_object_def Let_def)
qed

lemma free_objects_clear:
  "free_objects (pg\<lparr>pg_bitmap := (pg_bitmap pg)(k div 8 := pg_bitmap pg (k div 8) AND NOT (push_bit (k mod 8) 1)),
       pg_free_count := c\<rparr>) = free_objects pg - {k}"
  by (auto simp: free_objects_def bit_simps split: if_splits) (metis div_mult_mod_eq)+

lemma free_objects_set:
  assumes "k < unat (pg_objects pg)"
  shows "free_objects (pg\<lparr>pg_bitmap := (pg_bitmap pg)(k div 8 := pg_bitmap pg (k div 8) OR push_bit (k mod 8) 1),
       pg_free_count := c\<rparr>) = insert k (free_objects pg)"
  using assms
  by (auto simp: free_objects_def bit_simps split: if_splits) (metis div_mult_mod_eq)+

text \<open>Where the objects of a page lie: the index is recovered from the address.\<close>

lemma object_index:
  assumes wf: "page_wf pg" and i: "i < unat (pg_objects pg)"
  shows "unat (ucast ((object_address p pg i - (p + (SLAB_PAGE_HEADER + get_bitmap_size (pg_objects pg))))
      div slab_sizes ! unat (pg_class pg)) :: u32) = i"
proof -
  let ?sz = "slab_sizes ! unat (pg_class pg)"
  have sz: "0 < unat ?sz" "unat ?sz \<le> 4096"
    using wf slab_class_cases [of "unat (pg_class pg)"] by (auto simp: page_wf_def slab_sizes_def)
  have i508: "i < 508" using page_wf_small [OF wf] i by simp
  have "object_address p pg i - (p + (SLAB_PAGE_HEADER + get_bitmap_size (pg_objects pg))) = of_nat i * ?sz"
    by (simp add: object_address_def)
  moreover have "i * unat ?sz < 508 * 4096 + 1"
    using i508 sz(2) mult_mono [of i 508 "unat ?sz" 4096] by simp
  then have "unat (of_nat i * ?sz) = i * unat ?sz"
    using i508 by (simp add: unat_word_ariths unat_of_nat)
  ultimately show ?thesis
    using sz(1) i508 by (simp add: unsigned_ucast_eq take_bit_nat_eq_self unat_div)
qed

lemma slab_page_steps:
  assumes wf: "page_wf pg"
  shows "free_objects pg = {} \<Longrightarrow> find_free_object p pg = (None, pg)"
    and "free_objects pg \<noteq> {} \<Longrightarrow> \<exists>pg'. find_free_object p pg = (Some (object_address p pg (Min (free_objects pg))), pg') \<and>
      free_objects pg' = free_objects pg - {Min (free_objects pg)} \<and> page_wf pg'"
    and "i < unat (pg_objects pg) \<Longrightarrow> i \<notin> free_objects pg \<Longrightarrow>
      free_objects (free_object_in_page p (object_address p pg i) pg) = insert i (free_objects pg) \<and>
      page_wf (free_object_in_page p (object_address p pg i) pg)"
proof -
  show "find_free_object p pg = (None, pg)" if "free_objects pg = {}"
    using that by (rule find_free_object_none)
  show "\<exists>pg'. find_free_object p pg = (Some (object_address p pg (Min (free_objects pg))), pg') \<and>
      free_objects pg' = free_objects pg - {Min (free_objects pg)} \<and> page_wf pg'" if ne: "free_objects pg \<noteq> {}"
  proof -
    let ?k = "Min (free_objects pg)"
    let ?pg = "pg\<lparr>pg_bitmap := (pg_bitmap pg)(?k div 8 := pg_bitmap pg (?k div 8) AND NOT (push_bit (?k mod 8) 1)),
       pg_free_count := pg_free_count pg - 1\<rparr>"
    have "0 < card (free_objects pg)" using ne by (simp add: card_gt_0_iff)
    then have "page_wf ?pg"
      using wf ne Min_in [OF finite_free_objects ne]
      by (simp add: page_wf_def free_objects_clear unat_pred card_Diff_singleton del: push_bit_of_1)
    with find_free_object_min [OF wf ne, of p] show ?thesis by (simp add: free_objects_clear del: push_bit_of_1)
  qed
  show "free_objects (free_object_in_page p (object_address p pg i) pg) = insert i (free_objects pg) \<and>
      page_wf (free_object_in_page p (object_address p pg i) pg)"
    if i: "i < unat (pg_objects pg)" "i \<notin> free_objects pg"
  proof -
    let ?pg = "pg\<lparr>pg_bitmap := (pg_bitmap pg)(i div 8 := pg_bitmap pg (i div 8) OR push_bit (i mod 8) 1),
       pg_free_count := pg_free_count pg + 1\<rparr>"
    have "free_object_in_page p (object_address p pg i) pg = ?pg"
      using object_index [OF wf i(1), of p] i(1) by (simp add: free_object_in_page_def Let_def word_le_nat_alt)
    moreover have "card (free_objects pg) \<le> 508"
      using page_wf_small [OF wf] card_mono [of "{..<unat (pg_objects pg)}" "free_objects pg"]
      by (force simp: free_objects_def)
    then have "unat (pg_free_count pg + 1) = Suc (unat (pg_free_count pg))"
      using wf by (intro unat_succ) (simp add: page_wf_def)
    then have "page_wf ?pg" using wf i by (simp add: page_wf_def free_objects_set del: push_bit_of_1)
    ultimately show ?thesis using i(1) by (simp add: free_objects_set del: push_bit_of_1)
  qed
qed

lemma init_slab_page_wf:
  assumes "c < 10"
  shows "page_wf (init_slab_page c old)"
    "free_objects (init_slab_page c old) = {..<unat (SLAB_OBJECTS_PER_PAGE (slab_sizes ! c))}"
proof -
  let ?n = "SLAB_OBJECTS_PER_PAGE (slab_sizes ! c)"
  have "unat ?n \<le> 508"
    using slab_class_cases [OF assms]
    by (auto simp: slab_sizes_def SLAB_OBJECTS_PER_PAGE_def PAGE_SIZE_def SLAB_PAGE_HEADER_def)
  then have sz: "unat (get_bitmap_size ?n) = (unat ?n + 7) div 8" by (rule unat_get_bitmap_size)
  have loop: "for_range 0 m (\<lambda>i b. b(i := 0xFF :: u8)) f i = (if i < m then 0xFF else f i)" for m i and f :: "u8 array"
    by (induction m) (auto simp: for_range_Suc less_Suc_eq)
  have ones: "bit (0xFF :: int) k" if "k < 8" for k
  proof -
    have "(0xFF :: int) = mask 8" by (simp add: mask_eq_exp_minus_1)
    then show ?thesis using that by (simp only: bit_mask_iff) simp
  qed
  have "i div 8 < (unat ?n + 7) div 8" if "i < unat ?n" for i using that by linarith
  then show free: "free_objects (init_slab_page c old) = {..<unat ?n}"
    by (auto simp: free_objects_def init_slab_page_def Let_def loop sz intro!: ones)
  have "unat (of_nat c :: u32) = c" using assms by (simp add: unat_of_nat)
  then show "page_wf (init_slab_page c old)"
    using assms free by (simp add: page_wf_def) (simp add: init_slab_page_def Let_def)
qed

text \<open>
  On a well-formed slab page, \<^verbatim>\<open>find_free_object\<close> returns NULL exactly when no object is free and otherwise
  takes the free object with the smallest index; returning an object by its address makes exactly that object free
  again. Both keep the count of free objects equal to the number of bits set, and a new page is well-formed with all objects free.
\<close>

theorem slab_page_objects:
  assumes "page_wf pg" "c < 10"
  shows "page_wf (init_slab_page c old) \<and>
    free_objects (init_slab_page c old) = {..<unat (SLAB_OBJECTS_PER_PAGE (slab_sizes ! c))} \<and>
    (free_objects pg = {} \<longrightarrow> find_free_object p pg = (None, pg)) \<and>
    (free_objects pg \<noteq> {} \<longrightarrow>
      (\<exists>pg'. find_free_object p pg = (Some (object_address p pg (Min (free_objects pg))), pg') \<and>
         free_objects pg' = free_objects pg - {Min (free_objects pg)} \<and> page_wf pg')) \<and>
    (\<forall>i < unat (pg_objects pg). i \<notin> free_objects pg \<longrightarrow>
      free_objects (free_object_in_page p (object_address p pg i) pg) = insert i (free_objects pg) \<and>
      page_wf (free_object_in_page p (object_address p pg i) pg))"
  using slab_page_steps [OF assms(1)] init_slab_page_wf [OF assms(2)] by blast

theorem slab_page_objects_witness:
  "\<exists>pg. find_free_object 0 (init_slab_page 3 (slab_pages blank_heap 0)) =
      (Some (object_address 0 (init_slab_page 3 (slab_pages blank_heap 0)) 0), pg) \<and> free_objects pg = {1..<63}"
proof -
  let ?pg = "init_slab_page 3 (slab_pages blank_heap 0)"
  have three: "unat (SLAB_OBJECTS_PER_PAGE (slab_sizes ! 3)) = 63"
    by (simp add: slab_sizes_def SLAB_OBJECTS_PER_PAGE_def PAGE_SIZE_def SLAB_PAGE_HEADER_def)
  have wf: "page_wf ?pg" and free: "free_objects ?pg = {..<63}"
    using init_slab_page_wf [of 3] by (simp_all add: three)
  have "Min {..<63 :: nat} = 0" by (rule Min_eqI) auto
  moreover have "{..<63 :: nat} - {0} = {1..<63}" by auto
  ultimately show ?thesis
    using slab_page_objects [OF wf, of 3 "slab_pages blank_heap 0" 0] by (simp add: free lessThan_empty_iff) blast
qed

section \<open>Layout\<close>

text \<open>
  The number of objects leaves no room for the bitmap: the last objects of the three smallest classes lie
  behind the page. Those of the other classes lie inside.
\<close>

lemma slab_objects_overrun:
  assumes "c < 9"
  shows "(\<forall>i < unat (SLAB_OBJECTS_PER_PAGE (slab_sizes ! c)).
      unat (SLAB_PAGE_HEADER + get_bitmap_size (SLAB_OBJECTS_PER_PAGE (slab_sizes ! c))) + (i + 1) * unat (slab_sizes ! c) \<le> 4096)
    \<longleftrightarrow> 3 \<le> c"
proof -
  have "c \<in> {0, 1, 2, 3, 4, 5, 6, 7, 8}" using assms by auto
  then show ?thesis
    by (auto simp: slab_sizes_def SLAB_OBJECTS_PER_PAGE_def PAGE_SIZE_def SLAB_PAGE_HEADER_def get_bitmap_size_def
        dest: spec [of _ 507] spec [of _ 253] spec [of _ 126])
qed

end
