(* ===== verification/Vmm.thy ===== *)
theory Vmm
  imports Pmm_Props
begin

text \<open>
  The virtual memory manager, \<^verbatim>\<open>kernel/mm/vmm.c\<close>: four-level page tables in physical pages taken from the physical
  memory manager. A page that holds a table is an array of entries, \<open>tables s a\<close> for the page at physical
  address \<open>a\<close>; the bytes of a data page are \<open>contents s a\<close>. Code reaches a page through a pointer, which is its
  physical address or that address plus \<^verbatim>\<open>PHYS_MAP_BASE\<close>; the pointer to an entry is the pointer to its
  table with the index. The translation caches of the processor are not part of the state.
\<close>

section \<open>State\<close>

definition VMM_PRESENT :: u64 where "VMM_PRESENT = 1"
definition VMM_WRITE :: u64 where "VMM_WRITE = 2"
definition VMM_COW :: u64 where "VMM_COW = 0x200"
definition VMM_PS :: u64 where "VMM_PS = 0x80"
definition PHYS_MAP_BASE :: u64 where "PHYS_MAP_BASE = 0xFFFF800000000000"
definition PAGE_MASK :: u64 where "PAGE_MASK = 0xFFFFFFFFF000"
definition HUGE_PAGE_SIZE :: u64 where "HUGE_PAGE_SIZE = 2 * 1024 * 1024"

record address_space_t =
  pml4 :: vaddr_t
  asid :: u64

record vmm_state =
  pmm :: pmm_state
  tables :: "paddr_t \<Rightarrow> u64 array"
  contents :: "paddr_t \<Rightarrow> u8 array"
  kernel_address_space :: address_space_t
  next_asid :: u64
  phys_map_ready :: bool
  phys_map_max_addr :: paddr_t
  cr3 :: paddr_t

text \<open>The physical page behind a pointer.\<close>

definition page_of :: "vaddr_t \<Rightarrow> paddr_t" where
  "page_of v = (if v \<ge> PHYS_MAP_BASE then v - PHYS_MAP_BASE else v)"

definition phys_to_virt_pt :: "paddr_t \<Rightarrow> vmm_state \<Rightarrow> vaddr_t" where
  "phys_to_virt_pt paddr s = (if phys_map_ready s then paddr + PHYS_MAP_BASE else paddr)"

abbreviation set_entry :: "paddr_t \<Rightarrow> nat \<Rightarrow> u64 \<Rightarrow> vmm_state \<Rightarrow> vmm_state" where
  "set_entry a i e s \<equiv> s\<lparr>tables := (tables s)(a := (tables s a)(i := e))\<rparr>"

definition clear_table :: "paddr_t \<Rightarrow> vmm_state \<Rightarrow> vmm_state" where
  "clear_table a s = for_range 0 512 (\<lambda>j. set_entry a j 0) s"

section \<open>Walking the tables\<close>

text \<open>
  The index of an address at each level. The array of the code has four elements; \<open>stray\<close> is what lies behind it in
  memory and is read for a level beyond.
\<close>

definition pt_index :: "u64 \<Rightarrow> vaddr_t \<Rightarrow> nat \<Rightarrow> nat" where
  "pt_index stray vaddr i =
     (if i < 4 then unat (drop_bit (39 - 9 * i) vaddr AND 0x1FF) else unat stray)"

text \<open>A new, empty table: before the direct map is ready it has to lie below 128 MiB.\<close>

definition new_table :: "vmm_state \<Rightarrow> paddr_t option \<times> vmm_state" where
  "new_table s =
     (let (p, pm) = (if phys_map_ready s then pmm_alloc_page (pmm s) else pmm_alloc_page_low (pmm s));
          s = s\<lparr>pmm := pm\<rparr>
      in if p = 0 then (None, s)
         else if \<not> phys_map_ready s \<and> p \<ge> 128 * 1024 * 1024 then (None, s\<lparr>pmm := pmm_free_page p pm\<rparr>)
         else if phys_to_virt_pt p s = 0 then (None, s\<lparr>pmm := pmm_free_page p pm\<rparr>)
         else (Some p, clear_table (page_of (phys_to_virt_pt p s)) s))"

text \<open>The loop of \<^verbatim>\<open>get_page_table_entry\<close> over the levels still to go.\<close>

primrec pt_walk :: "bool \<Rightarrow> vaddr_t \<Rightarrow> nat list \<Rightarrow> vaddr_t \<Rightarrow> vmm_state \<Rightarrow> vaddr_t option \<times> vmm_state" where
  "pt_walk create vaddr [] table s = (Some table, s)"
| "pt_walk create vaddr (i # is) table s =
     (let a = page_of table; k = pt_index 0 vaddr i; entry = tables s a k in
      if entry AND VMM_PRESENT = 0 then
        if \<not> create then (None, s)
        else
          (case new_table s of
             (None, s) \<Rightarrow> (None, s)
           | (Some p, s) \<Rightarrow>
               let s = set_entry a k (p OR VMM_PRESENT OR VMM_WRITE) s;
                   entry = tables s a k
               in pt_walk create vaddr is (phys_to_virt_pt (entry AND PAGE_MASK) s) s)
      else pt_walk create vaddr is (phys_to_virt_pt (entry AND PAGE_MASK) s) s)"

definition get_page_table_entry ::
  "u64 \<Rightarrow> vaddr_t \<Rightarrow> vaddr_t \<Rightarrow> nat \<Rightarrow> bool \<Rightarrow> vmm_state \<Rightarrow> (paddr_t \<times> nat) option \<times> vmm_state" where
  "get_page_table_entry stray root vaddr level create s =
     (let pml4_phys = (if phys_map_ready s \<and> root \<ge> PHYS_MAP_BASE then root - PHYS_MAP_BASE else root) in
      case pt_walk create vaddr [0..<level] (phys_to_virt_pt pml4_phys s) s of
        (None, s) \<Rightarrow> (None, s)
      | (Some table, s) \<Rightarrow> (Some (page_of table, pt_index stray vaddr level), s))"

section \<open>Mappings\<close>

abbreviation space_of :: "address_space_t option \<Rightarrow> vmm_state \<Rightarrow> address_space_t" where
  "space_of as s \<equiv> (case as of None \<Rightarrow> kernel_address_space s | Some sp \<Rightarrow> sp)"

definition vmm_map_page ::
  "u64 \<Rightarrow> address_space_t option \<Rightarrow> vaddr_t \<Rightarrow> paddr_t \<Rightarrow> u64 \<Rightarrow> vmm_state \<Rightarrow> int \<times> vmm_state" where
  "vmm_map_page stray as vaddr paddr flags s =
     (case get_page_table_entry stray (pml4 (space_of as s)) vaddr 4 True s of
        (None, s) \<Rightarrow> (- 1, s)
      | (Some (a, k), s) \<Rightarrow> (0, set_entry a k ((paddr AND PAGE_MASK) OR flags) s))"

definition vmm_unmap_page :: "u64 \<Rightarrow> address_space_t option \<Rightarrow> vaddr_t \<Rightarrow> vmm_state \<Rightarrow> int \<times> vmm_state" where
  "vmm_unmap_page stray as vaddr s =
     (case get_page_table_entry stray (pml4 (space_of as s)) vaddr 4 False s of
        (None, s) \<Rightarrow> (- 1, s)
      | (Some (a, k), s) \<Rightarrow>
          if tables s a k AND VMM_PRESENT = 0 then (- 1, s)
          else (0, set_entry a k 0 (s\<lparr>pmm := pmm_free_page (tables s a k AND PAGE_MASK) (pmm s)\<rparr>)))"

definition vmm_get_physical :: "u64 \<Rightarrow> address_space_t option \<Rightarrow> vaddr_t \<Rightarrow> vmm_state \<Rightarrow> paddr_t" where
  "vmm_get_physical stray as vaddr s =
     (case get_page_table_entry stray (pml4 (space_of as s)) vaddr 4 False s of
        (None, s) \<Rightarrow> 0
      | (Some (a, k), s) \<Rightarrow>
          if tables s a k AND VMM_PRESENT = 0 then 0
          else (tables s a k AND PAGE_MASK) + (vaddr AND 0xFFF))"

primrec vmm_map_loop ::
  "u64 \<Rightarrow> address_space_t option \<Rightarrow> vaddr_t \<Rightarrow> paddr_t \<Rightarrow> u64 \<Rightarrow> nat list \<Rightarrow> vmm_state \<Rightarrow> int \<times> vmm_state" where
  "vmm_map_loop stray as vaddr paddr flags [] s = (0, s)"
| "vmm_map_loop stray as vaddr paddr flags (i # is) s =
     (case vmm_map_page stray as (vaddr + of_nat i * PAGE_SIZE) (paddr + of_nat i * PAGE_SIZE) flags s of
        (r, s) \<Rightarrow>
          if r \<noteq> 0
          then (- 1, for_range 0 i (\<lambda>j s. snd (vmm_unmap_page stray as (vaddr + of_nat j * PAGE_SIZE) s)) s)
          else vmm_map_loop stray as vaddr paddr flags is s)"

definition vmm_map_pages ::
  "u64 \<Rightarrow> address_space_t option \<Rightarrow> vaddr_t \<Rightarrow> paddr_t \<Rightarrow> size_t \<Rightarrow> u64 \<Rightarrow> vmm_state \<Rightarrow> int \<times> vmm_state" where
  "vmm_map_pages stray as vaddr paddr cnt flags s = vmm_map_loop stray as vaddr paddr flags [0..<unat cnt] s"

definition vmm_unmap_pages :: "u64 \<Rightarrow> address_space_t option \<Rightarrow> vaddr_t \<Rightarrow> size_t \<Rightarrow> vmm_state \<Rightarrow> int \<times> vmm_state" where
  "vmm_unmap_pages stray as vaddr cnt s =
     (0, for_range 0 (unat cnt) (\<lambda>i s. snd (vmm_unmap_page stray as (vaddr + of_nat i * PAGE_SIZE) s)) s)"

definition vmm_mark_cow :: "u64 \<Rightarrow> address_space_t option \<Rightarrow> vaddr_t \<Rightarrow> vmm_state \<Rightarrow> int \<times> vmm_state" where
  "vmm_mark_cow stray as vaddr s =
     (case get_page_table_entry stray (pml4 (space_of as s)) vaddr 4 False s of
        (None, s) \<Rightarrow> (- 1, s)
      | (Some (a, k), s) \<Rightarrow>
          if tables s a k AND VMM_PRESENT = 0 then (- 1, s)
          else
            let s = s\<lparr>pmm := pmm_ref_page (tables s a k AND PAGE_MASK) (pmm s)\<rparr>
            in (0, set_entry a k ((tables s a k AND NOT VMM_WRITE) OR VMM_COW) s))"

text \<open>\<open>as\<close> is the address space of the current process.\<close>

definition vmm_handle_cow_fault :: "u64 \<Rightarrow> address_space_t \<Rightarrow> vaddr_t \<Rightarrow> vmm_state \<Rightarrow> int \<times> vmm_state" where
  "vmm_handle_cow_fault stray as vaddr s =
     (case get_page_table_entry stray (pml4 as) vaddr 4 False s of
        (None, s) \<Rightarrow> (- 1, s)
      | (Some (a, k), s) \<Rightarrow>
          if tables s a k AND VMM_PRESENT = 0 then (- 1, s)
          else if tables s a k AND VMM_COW = 0 then (- 1, s)
          else
            let old = tables s a k AND PAGE_MASK;
                (new, pm) = pmm_alloc_page (pmm s);
                s = s\<lparr>pmm := pm\<rparr>
            in if new = 0 then (- 1, s)
               else
                 let s = s\<lparr>contents := (contents s)(new := for_range 0 4096 (\<lambda>i c. c(i := contents s old i)) (contents s new))\<rparr>;
                     flags = (tables s a k AND NOT VMM_COW) OR VMM_WRITE;
                     s = set_entry a k ((new AND PAGE_MASK) OR flags) s
                 in (0, s\<lparr>pmm := pmm_free_page old (pmm s)\<rparr>))"

section \<open>Address spaces\<close>

text \<open>\<open>mem\<close> is whether \<^verbatim>\<open>kmalloc\<close> succeeds.\<close>

definition vmm_create_address_space :: "bool \<Rightarrow> vmm_state \<Rightarrow> address_space_t option \<times> vmm_state" where
  "vmm_create_address_space mem s =
     (if \<not> mem then (None, s)
      else
        let (p, pm) = pmm_alloc_page (pmm s); s = s\<lparr>pmm := pm\<rparr>
        in if p = 0 then (None, s)
           else
             let as = \<lparr>pml4 = p + PHYS_MAP_BASE, asid = next_asid s\<rparr>;
                 s = s\<lparr>next_asid := next_asid s + 1\<rparr>;
                 a = page_of (pml4 as);
                 s = for_range 0 512 (\<lambda>i. set_entry a i 0) s;
                 s = for_range 256 512
                       (\<lambda>i s. set_entry a i (tables s (page_of (pml4 (kernel_address_space s))) i) s) s
             in (Some as, s))"

text \<open>The loops of \<^verbatim>\<open>vmm_destroy_address_space\<close>: the tables below one entry, from the inside out.\<close>

definition free_pd :: "paddr_t \<Rightarrow> vmm_state \<Rightarrow> vmm_state" where
  "free_pd pd s =
     for_range 0 512
       (\<lambda>k s. let e = tables s (page_of (pd + PHYS_MAP_BASE)) k in
              if e AND VMM_PRESENT \<noteq> 0 then s\<lparr>pmm := pmm_free_page (e AND PAGE_MASK) (pmm s)\<rparr> else s) s"

definition free_pdp :: "paddr_t \<Rightarrow> vmm_state \<Rightarrow> vmm_state" where
  "free_pdp pdp s =
     for_range 0 512
       (\<lambda>j s. let e = tables s (page_of (pdp + PHYS_MAP_BASE)) j in
              if e AND VMM_PRESENT \<noteq> 0 then
                let s = free_pd (e AND PAGE_MASK) s in s\<lparr>pmm := pmm_free_page (e AND PAGE_MASK) (pmm s)\<rparr>
              else s) s"

text \<open>\<open>own\<close> is whether the argument is the kernel's own address space.\<close>

definition vmm_destroy_address_space :: "bool \<Rightarrow> address_space_t option \<Rightarrow> vmm_state \<Rightarrow> vmm_state" where
  "vmm_destroy_address_space own as s =
     (case as of
        None \<Rightarrow> s
      | Some sp \<Rightarrow>
          if own then s
          else
            let s = for_range 0 256
                      (\<lambda>i s. let e = tables s (page_of (pml4 sp)) i in
                             if e AND VMM_PRESENT \<noteq> 0 then
                               let s = free_pdp (e AND PAGE_MASK) s
                               in s\<lparr>pmm := pmm_free_page (e AND PAGE_MASK) (pmm s)\<rparr>
                             else s) s
            in s\<lparr>pmm := pmm_free_page (pml4 sp - PHYS_MAP_BASE) (pmm s)\<rparr>)"

definition vmm_switch_address_space :: "address_space_t \<Rightarrow> vmm_state \<Rightarrow> vmm_state" where
  "vmm_switch_address_space as s = s\<lparr>cr3 := pml4 as - PHYS_MAP_BASE\<rparr>"

section \<open>Initialisation\<close>

text \<open>A table of the direct map, created when the entry is not present; \<open>None\<close> when low memory is used up.\<close>

definition ensure_table :: "paddr_t \<Rightarrow> nat \<Rightarrow> vmm_state \<Rightarrow> paddr_t option \<times> vmm_state" where
  "ensure_table a k s =
     (if tables s a k AND VMM_PRESENT = 0 then
        let (p, pm) = pmm_alloc_page_low (pmm s); s = s\<lparr>pmm := pm\<rparr>
        in if p = 0 then (None, s)
           else
             let s = set_entry a k (p OR VMM_PRESENT OR VMM_WRITE) (clear_table p s)
             in (Some (tables s a k AND PAGE_MASK), s)
      else (Some (tables s a k AND PAGE_MASK), s))"

text \<open>One round of the loop of \<^verbatim>\<open>vmm_init\<close>, for the huge page \<open>i\<close>.\<close>

definition map_huge :: "nat \<Rightarrow> vmm_state \<Rightarrow> bool \<times> vmm_state" where
  "map_huge i s =
     (let paddr = of_nat i * HUGE_PAGE_SIZE; vaddr = PHYS_MAP_BASE + paddr in
      case ensure_table (cr3 s) (pt_index 0 vaddr 0) s of
        (None, s) \<Rightarrow> (False, s)
      | (Some pdp, s) \<Rightarrow>
          (case ensure_table pdp (pt_index 0 vaddr 1) s of
             (None, s) \<Rightarrow> (False, s)
           | (Some pd, s) \<Rightarrow>
               (True, set_entry pd (pt_index 0 vaddr 2) (paddr OR VMM_PRESENT OR VMM_WRITE OR VMM_PS) s)))"

text \<open>The loop, with the number of pages mapped; it stops when a table cannot be allocated.\<close>

primrec map_huge_pages :: "nat list \<Rightarrow> nat \<Rightarrow> vmm_state \<Rightarrow> nat \<times> vmm_state" where
  "map_huge_pages [] n s = (n, s)"
| "map_huge_pages (i # is) n s =
     (case map_huge i s of
        (False, s) \<Rightarrow> (n, s)
      | (True, s) \<Rightarrow> map_huge_pages is (Suc n) s)"

definition huge_pages :: "paddr_t \<Rightarrow> nat" where
  "huge_pages memory_to_map = (unat memory_to_map + unat HUGE_PAGE_SIZE - 1) div unat HUGE_PAGE_SIZE"

definition vmm_init :: "vmm_state \<Rightarrow> nat \<times> vmm_state" where
  "vmm_init s =
     (let s = s\<lparr>kernel_address_space := \<lparr>pml4 = cr3 s, asid = 0\<rparr>\<rparr>;
          memory_to_map = pmm_get_total_pages (pmm s) * PAGE_SIZE;
          (n, s) = map_huge_pages [0..<huge_pages memory_to_map] 0 s
      in (n, s\<lparr>phys_map_ready := True, phys_map_max_addr := memory_to_map,
              kernel_address_space := (kernel_address_space s)\<lparr>pml4 := cr3 s + PHYS_MAP_BASE\<rparr>\<rparr>))"

end
