(* ===== verification/Vmm_Walk.thy ===== *)
theory Vmm_Walk
  imports Vmm
begin

text \<open>
  What the processor reads from the tables, and what \<^verbatim>\<open>get_page_table_entry\<close> does to them.
\<close>

section \<open>Entries\<close>

lemma pt_index_less: "i < 4 \<Longrightarrow> pt_index stray v i < 512"
proof -
  assume "i < 4"
  have "unat (x AND 0x1FF :: u64) < 512" for x
  proof -
    have "(0x1FF :: u64) = mask 9" by (simp add: mask_eq_exp_minus_1)
    then have "x AND 0x1FF = take_bit 9 x" by (simp only: take_bit_eq_mask)
    then show ?thesis by (simp add: take_bit_eq_mod unat_mod)
  qed
  with \<open>i < 4\<close> show ?thesis by (simp add: pt_index_def)
qed

lemma frame_mask:
  assumes "f < MAX_PAGES"
  shows "PFN_TO_PADDR (of_nat f) AND PAGE_MASK = PFN_TO_PADDR (of_nat f)"
    "(PFN_TO_PADDR (of_nat f) OR VMM_PRESENT OR VMM_WRITE) AND PAGE_MASK = PFN_TO_PADDR (of_nat f)"
    "(PFN_TO_PADDR (of_nat f) OR VMM_PRESENT OR VMM_WRITE) AND VMM_PRESENT \<noteq> 0"
proof -
  let ?p = "PFN_TO_PADDR (of_nat f)"
  have mask: "PAGE_MASK = push_bit 12 (mask 36)"
    by (simp add: PAGE_MASK_def mask_eq_exp_minus_1 push_bit_eq_mult)
  have "f < 2 ^ 22" using assms by (simp add: MAX_PAGES_def)
  then have "take_bit 22 (of_nat f :: u64) = of_nat f"
    by (simp add: take_bit_of_nat take_bit_nat_eq_self)
  then have "bit (of_nat f :: u64) n \<Longrightarrow> n < 22" for n
    by (metis bit_take_bit_iff)
  then show 1: "?p AND PAGE_MASK = ?p"
    unfolding mask PFN_TO_PADDR_def by (intro bit_word_eqI) (force simp: bit_simps)
  have "(?p OR 1 OR 2) AND PAGE_MASK = (?p AND PAGE_MASK) OR ((1 OR 2) AND PAGE_MASK)"
    by (simp add: bit.conj_disj_distrib2 or.assoc)
  also have "(1 OR 2 :: u64) AND PAGE_MASK = 0" by (simp add: PAGE_MASK_def)
  finally show "(?p OR VMM_PRESENT OR VMM_WRITE) AND PAGE_MASK = ?p"
    using 1 by (simp add: VMM_PRESENT_def VMM_WRITE_def)
  have "(?p OR 1 OR 2) AND 1 = 1" by (rule bit_word_eqI) (auto simp: bit_simps)
  then show "(?p OR VMM_PRESENT OR VMM_WRITE) AND VMM_PRESENT \<noteq> 0"
    by (simp add: VMM_PRESENT_def VMM_WRITE_def)
qed

lemma clear_table_eq:
  "clear_table a s = s\<lparr>tables := (tables s)(a := \<lambda>j. if j < 512 then 0 else tables s a j)\<rparr>"
proof -
  have "for_range 0 n (\<lambda>j. set_entry a j 0) s = s\<lparr>tables := (tables s)(a := \<lambda>j. if j < n then 0 else tables s a j)\<rparr>" for n
    by (induction n) (auto simp: for_range_Suc fun_eq_iff)
  then show ?thesis by (simp add: clear_table_def)
qed

section \<open>Pages in use\<close>

text \<open>A page is held when its frame is marked in the bitmap; all frames lie below 16 GiB.\<close>

definition held :: "vmm_state \<Rightarrow> paddr_t \<Rightarrow> bool" where
  "held s a \<longleftrightarrow> unat a div 4096 < MAX_PAGES \<and> bitmap_test (page_bitmap (pmm s)) (unat a div 4096)"

lemma page_of_pointer:
  assumes "unat a div 4096 < MAX_PAGES"
  shows "page_of (phys_to_virt_pt a s) = a" "page_of a = a" "page_of (a + PHYS_MAP_BASE) = a"
proof -
  have a: "unat a < 2 ^ 34" using assms by (simp add: MAX_PAGES_def div_less_iff_less_mult)
  then have "unat (a + PHYS_MAP_BASE) = unat a + 0xFFFF800000000000"
    by (simp add: PHYS_MAP_BASE_def unat_word_ariths)
  then have "a + PHYS_MAP_BASE \<ge> PHYS_MAP_BASE" by (simp add: word_le_nat_alt PHYS_MAP_BASE_def)
  then show 1: "page_of (a + PHYS_MAP_BASE) = a" by (simp add: page_of_def)
  show 2: "page_of a = a" using a by (simp add: page_of_def word_le_nat_alt PHYS_MAP_BASE_def)
  show "page_of (phys_to_virt_pt a s) = a" using 1 2 by (simp add: phys_to_virt_pt_def)
qed

lemma frame_number:
  assumes "f < MAX_PAGES"
  shows "unat (PFN_TO_PADDR (of_nat f)) div 4096 = f"
  using assms unat_PFN_TO_PADDR [OF assms] by simp

text \<open>What allocating one page does: it was not held and is now, and nothing else changes.\<close>

definition takes :: "paddr_t \<Rightarrow> pmm_state \<Rightarrow> pmm_state \<Rightarrow> bool" where
  "takes p pm pm' \<longleftrightarrow>
     pmm_inv pm' \<and> total_pages pm' = total_pages pm \<and>
     (\<exists>f < MAX_PAGES. p = PFN_TO_PADDR (of_nat f) \<and> \<not> bitmap_test (page_bitmap pm) f \<and>
        page_bitmap pm' = bitmap_set (page_bitmap pm) f)"

lemma alloc_takes:
  assumes "pmm_inv pm" "pmm_alloc_page pm = (p, pm')" "p \<noteq> 0"
  shows "takes p pm pm'"
  using assms(1)
proof (cases rule: pmm_alloc_page_cases)
  case (found f)
  note b = best_frame_range [OF assms(1) found(1)]
  have "pm' = take_frame_ref f pm" "p = PFN_TO_PADDR (of_nat f)" using assms(2) found(2) by simp_all
  then show ?thesis
    using b take_frame_effect(2) [OF assms(1) b(1)]
    by (auto simp: takes_def free_frames_def take_frame_ref_def take_frame_def intro!: exI [of _ f])
qed (use assms in simp)

lemma alloc_low_takes:
  assumes "pmm_inv pm" "pmm_alloc_page_low pm = (p, pm')" "p \<noteq> 0"
  shows "takes p pm pm'"
  using assms(1)
proof (cases rule: pmm_alloc_page_low_cases)
  case (found f)
  note b = best_frame_range [OF assms(1) found(1)]
  have "pm' = take_frame f pm" "p = PFN_TO_PADDR (of_nat f)" using assms(2) found(2) by simp_all
  then show ?thesis
    using b take_frame_effect(1) [OF assms(1) b(1)]
    by (auto simp: takes_def free_frames_def take_frame_def intro!: exI [of _ f])
qed (use assms in simp)

lemma takes_held:
  assumes "takes p (pmm s) (pmm s')"
  shows "\<not> held s p" "held s' p" "\<And>a. held s a \<Longrightarrow> held s' a"
    "unat p div 4096 < MAX_PAGES" "p AND PAGE_MASK = p" "(p OR VMM_PRESENT OR VMM_WRITE) AND PAGE_MASK = p"
    "(p OR VMM_PRESENT OR VMM_WRITE) AND VMM_PRESENT \<noteq> 0" "pmm_inv (pmm s')"
  using assms by (auto simp: takes_def held_def frame_number frame_mask)

lemma new_table_Some:
  assumes "new_table s = (Some p, s')" "pmm_inv (pmm s)"
  obtains pm where "takes p (pmm s) pm" "s' = clear_table p (s\<lparr>pmm := pm\<rparr>)"
proof -
  obtain q pm where a: "(if phys_map_ready s then pmm_alloc_page (pmm s) else pmm_alloc_page_low (pmm s)) = (q, pm)"
    by (metis surj_pair)
  then have q: "q = p" "p \<noteq> 0" "s' = clear_table (page_of (phys_to_virt_pt p s)) (s\<lparr>pmm := pm\<rparr>)"
    using assms(1) by (auto simp: new_table_def phys_to_virt_pt_def Let_def split: if_splits)
  have t: "takes p (pmm s) pm"
    using a q alloc_takes [OF assms(2)] alloc_low_takes [OF assms(2)] by (auto split: if_splits)
  then have "unat p div 4096 < MAX_PAGES" by (auto simp: takes_def frame_number)
  with q(3) t show ?thesis by (intro that) (simp_all add: page_of_pointer)
qed

section \<open>Walks\<close>

text \<open>The processor's walk over the levels \<open>is\<close> from table \<open>a\<close>: the page reached, and the tables read on the way.\<close>

primrec hw_walk :: "(paddr_t \<Rightarrow> u64 array) \<Rightarrow> vaddr_t \<Rightarrow> nat list \<Rightarrow> paddr_t \<Rightarrow> paddr_t option" where
  "hw_walk T v [] a = Some a"
| "hw_walk T v (i # is) a =
     (let e = T a (pt_index 0 v i) in if e AND VMM_PRESENT = 0 then None else hw_walk T v is (e AND PAGE_MASK))"

primrec walk_pages :: "(paddr_t \<Rightarrow> u64 array) \<Rightarrow> vaddr_t \<Rightarrow> nat list \<Rightarrow> paddr_t \<Rightarrow> paddr_t set" where
  "walk_pages T v [] a = {}"
| "walk_pages T v (i # is) a =
     insert a (let e = T a (pt_index 0 v i) in if e AND VMM_PRESENT = 0 then {} else walk_pages T v is (e AND PAGE_MASK))"

lemma hw_walk_cong:
  assumes "\<And>b k. b \<in> walk_pages T v is a \<Longrightarrow> k < 512 \<Longrightarrow> T' b k = T b k" "set is \<subseteq> {..<4}"
  shows "hw_walk T' v is a = hw_walk T v is a \<and> walk_pages T' v is a = walk_pages T v is a"
  using assms
proof (induction "is" arbitrary: a)
  case (Cons i "is")
  let ?e = "T a (pt_index 0 v i)"
  have e: "T' a (pt_index 0 v i) = ?e"
    using Cons.prems(2) by (intro Cons.prems(1) pt_index_less) auto
  show ?case
  proof (cases "?e AND VMM_PRESENT = 0")
    case False
    have "hw_walk T' v is (?e AND PAGE_MASK) = hw_walk T v is (?e AND PAGE_MASK) \<and>
        walk_pages T' v is (?e AND PAGE_MASK) = walk_pages T v is (?e AND PAGE_MASK)"
    proof (rule Cons.IH)
      show "set is \<subseteq> {..<4}" using Cons.prems(2) by simp
      show "T' b k = T b k" if "b \<in> walk_pages T v is (?e AND PAGE_MASK)" "k < 512" for b k
        using that False by (intro Cons.prems(1)) (simp_all add: Let_def)
    qed
    with e False show ?thesis by (simp add: Let_def)
  qed (use e in \<open>simp add: Let_def\<close>)
qed simp

text \<open>The pages of a walk, the one it reaches included, are in use.\<close>

definition walk_held :: "vmm_state \<Rightarrow> vaddr_t \<Rightarrow> nat list \<Rightarrow> paddr_t \<Rightarrow> bool" where
  "walk_held s v is a \<longleftrightarrow>
     (\<forall>b \<in> walk_pages (tables s) v is a. held s b) \<and> (\<forall>b. hw_walk (tables s) v is a = Some b \<longrightarrow> held s b)"

lemma walk_held_start: "walk_held s v is a \<Longrightarrow> held s a"
  by (cases "is") (auto simp: walk_held_def)

lemma walk_held_step:
  assumes "walk_held s v (i # is) a" "tables s a (pt_index 0 v i) AND VMM_PRESENT \<noteq> 0"
  shows "walk_held s v is (tables s a (pt_index 0 v i) AND PAGE_MASK)"
  using assms by (simp add: walk_held_def Let_def)

section \<open>Creating missing tables\<close>

text \<open>
  What a call that creates tables leaves alone: pages in use stay in use, and an entry of such a page changes only when it
  was not present.
\<close>

definition pt_frame :: "vmm_state \<Rightarrow> vmm_state \<Rightarrow> bool" where
  "pt_frame s t \<longleftrightarrow>
     pmm_inv (pmm t) \<and> phys_map_ready t = phys_map_ready s \<and> cr3 t = cr3 s \<and>
     kernel_address_space t = kernel_address_space s \<and> (\<forall>a. held s a \<longrightarrow> held t a) \<and>
     (\<forall>a k. tables t a k \<noteq> tables s a k \<longrightarrow> \<not> held s a \<or> tables s a k AND VMM_PRESENT = 0)"

lemma pt_frame_refl: "pmm_inv (pmm s) \<Longrightarrow> pt_frame s s"
  by (simp add: pt_frame_def)

lemma pt_frame_present:
  assumes "pt_frame s t" "held s a" "tables s a k AND VMM_PRESENT \<noteq> 0"
  shows "tables t a k = tables s a k"
  using assms by (auto simp: pt_frame_def)

lemma pt_frame_trans:
  assumes "pt_frame s t" "pt_frame t u"
  shows "pt_frame s u"
proof -
  have "\<not> held s a \<or> tables s a k AND VMM_PRESENT = 0" if "tables u a k \<noteq> tables s a k" for a k
  proof (rule ccontr)
    assume "\<not> ?thesis"
    then have "held t a" "tables t a k = tables s a k" "tables s a k AND VMM_PRESENT \<noteq> 0"
      using assms(1) pt_frame_present [OF assms(1)] by (auto simp: pt_frame_def)
    with pt_frame_present [OF assms(2), of a k] that show False by simp
  qed
  with assms show ?thesis by (simp add: pt_frame_def)
qed

text \<open>One missing table: the new page \<open>p\<close> is entered at \<open>(a, k)\<close>.\<close>

lemma pt_frame_new:
  assumes "takes p (pmm s) pm" "tables s a k AND VMM_PRESENT = 0" "held s a"
  defines "t \<equiv> set_entry a k (p OR VMM_PRESENT OR VMM_WRITE) (clear_table p (s\<lparr>pmm := pm\<rparr>))"
  shows "pt_frame s t" "held t p" "\<not> held s p" "tables t a k = (p OR VMM_PRESENT OR VMM_WRITE)"
    "j < 512 \<Longrightarrow> tables t p j = 0"
proof -
  have pm: "pmm t = pm" by (simp add: t_def clear_table_eq)
  note h = takes_held [of p s t, unfolded pm, OF assms(1)]
  show "held t p" "\<not> held s p" using h(1,2) by simp_all
  show "tables t a k = (p OR VMM_PRESENT OR VMM_WRITE)" by (simp add: t_def)
  have "p \<noteq> a" using h(1) assms(3) by auto
  then show "tables t p j = 0" if "j < 512" using that by (simp add: t_def clear_table_eq)
  have "\<not> held s b \<or> tables s b l AND VMM_PRESENT = 0" if "tables t b l \<noteq> tables s b l" for b l
    using that h(1) assms(2) by (cases "b = p"; cases "b = a \<and> l = k") (auto simp: t_def clear_table_eq split: if_splits)
  moreover have "phys_map_ready t = phys_map_ready s" "cr3 t = cr3 s" "kernel_address_space t = kernel_address_space s"
    by (simp_all add: t_def clear_table_eq)
  ultimately show "pt_frame s t" unfolding pt_frame_def using h(3,8) by (simp add: pm)
qed

text \<open>
  \<^verbatim>\<open>get_page_table_entry\<close> with \<^verbatim>\<open>create\<close>: the walk afterwards reaches the page returned, entries that were present are unchanged,
  and a page that was not reachable before was not in use.
\<close>

lemma pt_walk_create:
  assumes "pt_walk True v is t s = (Some t', s')" "pmm_inv (pmm s)" "walk_held s v is (page_of t)" "set is \<subseteq> {..<4}"
  shows "pt_frame s s' \<and> hw_walk (tables s') v is (page_of t) = Some (page_of t') \<and> held s' (page_of t') \<and>
    (hw_walk (tables s) v is (page_of t) = None \<longrightarrow>
       \<not> held s (page_of t') \<and> page_of t' \<notin> walk_pages (tables s') v is (page_of t))"
  using assms
proof (induction "is" arbitrary: t s)
  case Nil
  then show ?case by (simp add: pt_frame_refl walk_held_def)
next
  case (Cons i "is")
  let ?a = "page_of t" and ?k = "pt_index 0 v i"
  let ?e = "tables s ?a ?k"
  have a: "held s ?a" using Cons.prems(3) by (rule walk_held_start)
  have is4: "set is \<subseteq> {..<4}" "i < 4" using Cons.prems(4) by auto
  show ?case
  proof (cases "?e AND VMM_PRESENT = 0")
    case False
    let ?n = "?e AND PAGE_MASK"
    have wh: "walk_held s v is ?n" using Cons.prems(3) False by (rule walk_held_step)
    then have "held s ?n" by (rule walk_held_start)
    then have ptr: "page_of (phys_to_virt_pt ?n s) = ?n" by (simp add: held_def page_of_pointer)
    have "pt_walk True v is (phys_to_virt_pt ?n s) s = (Some t', s')"
      using Cons.prems(1) False by (simp add: Let_def)
    note IH = Cons.IH [OF this Cons.prems(2) _ is4(1), unfolded ptr, OF wh]
    have "tables s' ?a ?k = ?e" using IH a False by (intro pt_frame_present) auto
    moreover have "page_of t' \<noteq> ?a" if "hw_walk (tables s) v is ?n = None" using IH that a by auto
    ultimately show ?thesis using IH False by (simp add: Let_def)
  next
    case True
    obtain p s1 where n: "new_table s = (Some p, s1)"
      using Cons.prems(1) True by (auto simp: Let_def split: prod.splits option.splits)
    obtain pm where pm: "takes p (pmm s) pm" "s1 = clear_table p (s\<lparr>pmm := pm\<rparr>)"
      by (rule new_table_Some [OF n Cons.prems(2)])
    define s2 where "s2 = set_entry ?a ?k (p OR VMM_PRESENT OR VMM_WRITE) s1"
    note f = pt_frame_new [OF pm(1) True a, folded pm(2), folded s2_def]
    have mp: "(p OR VMM_PRESENT OR VMM_WRITE) AND PAGE_MASK = p" "(p OR VMM_PRESENT OR VMM_WRITE) AND VMM_PRESENT \<noteq> 0"
      using takes_held(6,7) [of p s s1] pm by (simp_all add: clear_table_eq)
    have ptr: "page_of (phys_to_virt_pt p s2) = p" using f(2) by (simp add: held_def page_of_pointer)
    have walk: "pt_walk True v is (phys_to_virt_pt p s2) s2 = (Some t', s')"
      using Cons.prems(1) True n mp by (simp add: Let_def s2_def)
    have empty: "tables s2 p (pt_index 0 v j) = 0" if "j < 4" for j
      using f(5) [OF pt_index_less] that by simp
    have none: "is \<noteq> [] \<Longrightarrow> hw_walk (tables s2) v is p = None"
      using is4(1) empty by (cases "is") auto
    have wh: "walk_held s2 v is p"
      using f(2) is4(1) empty by (cases "is") (auto simp: walk_held_def)
    have inv: "pmm_inv (pmm s2)" using f(1) by (simp add: pt_frame_def)
    note IH = Cons.IH [OF walk inv _ is4(1), unfolded ptr, OF wh]
    have "held s2 ?a" using f(1) a by (simp add: pt_frame_def)
    then have e': "tables s' ?a ?k = (p OR VMM_PRESENT OR VMM_WRITE)"
      using pt_frame_present [of s2 s' ?a ?k] IH f(4) mp(2) by simp
    have frame: "pt_frame s s'" using pt_frame_trans [OF f(1)] IH by blast
    have fresh: "\<not> held s (page_of t')"
    proof (cases "is")
      case Nil
      then have "page_of t' = p" using walk ptr by auto
      then show ?thesis using f(3) by simp
    next
      case Cons
      then have "\<not> held s2 (page_of t')" using IH none by simp
      then show ?thesis using f(1) by (auto simp: pt_frame_def)
    qed
    moreover have "page_of t' \<notin> walk_pages (tables s') v is p"
      using IH none by (cases "is") simp_all
    moreover have "page_of t' \<noteq> ?a" using fresh a by auto
    ultimately show ?thesis using IH e' mp frame by (simp add: Let_def)
  qed
qed

end
