(* ===== verification/Vmm_Props.thy ===== *)
theory Vmm_Props
  imports Vmm_Walk
begin

text \<open>
  What the virtual memory manager achieves: the direct map that \<^verbatim>\<open>vmm_init\<close> builds, the address spaces
  it creates, and the page that a mapping made with \<^verbatim>\<open>vmm_map_page\<close> really leads to.
\<close>

section \<open>Translation\<close>

text \<open>
  The processor's translation of an address with pages of 4 KiB and 2 MiB, and the tables it reads. The kernel sets up no other
  page size.
\<close>

definition hw_translate :: "(paddr_t \<Rightarrow> u64 array) \<Rightarrow> vaddr_t \<Rightarrow> paddr_t \<Rightarrow> paddr_t option" where
  "hw_translate T v root =
     (case hw_walk T v [0, 1] root of
        None \<Rightarrow> None
      | Some pd \<Rightarrow>
          let e = T pd (pt_index 0 v 2) in
          if e AND VMM_PRESENT = 0 then None
          else if e AND VMM_PS \<noteq> 0 then Some ((e AND 0xFFFFFFE00000) + (v AND 0x1FFFFF))
          else map_option (\<lambda>page. page + (v AND 0xFFF)) (hw_walk T v [3] (e AND PAGE_MASK)))"

definition hw_tables :: "(paddr_t \<Rightarrow> u64 array) \<Rightarrow> vaddr_t \<Rightarrow> paddr_t \<Rightarrow> paddr_t set" where
  "hw_tables T v root =
     walk_pages T v [0, 1] root \<union>
     (case hw_walk T v [0, 1] root of
        None \<Rightarrow> {}
      | Some pd \<Rightarrow>
          insert pd (let e = T pd (pt_index 0 v 2) in
                     if e AND VMM_PRESENT = 0 \<or> e AND VMM_PS \<noteq> 0 then {} else {e AND PAGE_MASK}))"

text \<open>A translation through tables in use survives everything that only fills entries that were not present.\<close>

lemma pt_frame_translate:
  assumes frame: "pt_frame s t" and held: "\<forall>a \<in> hw_tables (tables s) v root. held s a"
    and some: "hw_translate (tables s) v root = Some p"
  shows "hw_translate (tables t) v root = Some p"
proof -
  let ?e0 = "tables s root (pt_index 0 v 0)"
  let ?e1 = "tables s (?e0 AND PAGE_MASK) (pt_index 0 v 1)"
  let ?e2 = "tables s (?e1 AND PAGE_MASK) (pt_index 0 v 2)"
  let ?e3 = "tables s (?e2 AND PAGE_MASK) (pt_index 0 v 3)"
  have p: "?e0 AND VMM_PRESENT \<noteq> 0" "?e1 AND VMM_PRESENT \<noteq> 0" "?e2 AND VMM_PRESENT \<noteq> 0"
    "?e2 AND VMM_PS = 0 \<Longrightarrow> ?e3 AND VMM_PRESENT \<noteq> 0"
    using some by (auto simp: hw_translate_def Let_def split: if_splits)
  have h: "held s root" "held s (?e0 AND PAGE_MASK)" "held s (?e1 AND PAGE_MASK)"
    "?e2 AND VMM_PS = 0 \<Longrightarrow> held s (?e2 AND PAGE_MASK)"
    using held p by (auto simp: hw_tables_def Let_def split: if_splits)
  note keep = pt_frame_present [OF frame]
  have "tables t root (pt_index 0 v 0) = ?e0" "tables t (?e0 AND PAGE_MASK) (pt_index 0 v 1) = ?e1"
    "tables t (?e1 AND PAGE_MASK) (pt_index 0 v 2) = ?e2"
    "?e2 AND VMM_PS = 0 \<Longrightarrow> tables t (?e2 AND PAGE_MASK) (pt_index 0 v 3) = ?e3"
    using keep [OF h(1) p(1)] keep [OF h(2) p(2)] keep [OF h(3) p(3)] keep [OF h(4) p(4)] by simp_all
  with some p show ?thesis by (auto simp: hw_translate_def Let_def)
qed

section \<open>Indices and entries of the direct map\<close>

lemma pt_index_value:
  assumes "i < 4"
  shows "pt_index 0 v i = unat v div 2 ^ (39 - 9 * i) mod 512"
proof -
  have "(0x1FF :: u64) = mask 9" by (simp add: mask_eq_exp_minus_1)
  then have "x AND 0x1FF = take_bit 9 x" for x :: u64 by (simp only: take_bit_eq_mask)
  moreover have "unat (2 ^ (39 - 9 * i) :: u64) = 2 ^ (39 - 9 * i)"
  proof -
    have "i = 0 \<or> i = 1 \<or> i = 2 \<or> i = 3" using assms by linarith
    then show ?thesis by auto
  qed
  ultimately show ?thesis
    using assms by (simp add: pt_index_def take_bit_eq_mod unat_mod drop_bit_eq_div unat_div)
qed

lemma pt_index_values:
  "pt_index 0 v 0 = unat v div 2 ^ 39 mod 512" "pt_index 0 v 1 = unat v div 2 ^ 30 mod 512"
  "pt_index 0 v 2 = unat v div 2 ^ 21 mod 512"
  using pt_index_value [of 0 v] pt_index_value [of 1 v] pt_index_value [of 2 v] by simp_all

lemma mod_add_multiple:
  fixes c :: nat
  assumes "c mod k = 0"
  shows "(c + m) mod k = m mod k"
  using assms by (metis add_0 mod_add_left_eq)

lemma direct_map_address:
  assumes "unat p < 2 ^ 39"
  shows "unat (PHYS_MAP_BASE + p) = 0xFFFF800000000000 + unat p"
  using assms by (simp add: PHYS_MAP_BASE_def unat_word_ariths)

lemma direct_map_index:
  assumes "unat p < 2 ^ 39"
  shows "pt_index 0 (PHYS_MAP_BASE + p) 0 = 256" "pt_index 0 (PHYS_MAP_BASE + p) 1 = unat p div 2 ^ 30"
    "pt_index 0 (PHYS_MAP_BASE + p) 2 = unat p div 2 ^ 21 mod 512"
proof -
  note u = direct_map_address [OF assms]
  have "(0xFFFF800000000000 + n) div 2 ^ 39 mod 512 = (256 :: nat)"
    "(0xFFFF800000000000 + n) div 2 ^ 30 mod 512 = n div 2 ^ 30"
    "(0xFFFF800000000000 + n) div 2 ^ 21 mod 512 = n div 2 ^ 21 mod 512" if n: "n < 2 ^ 39" for n :: nat
  proof -
    have "(0xFFFF800000000000 + n) div 2 ^ 39 = 0x1FFFF00 + n div 2 ^ 39"
      "(0xFFFF800000000000 + n) div 2 ^ 30 = 0x3FFFE0000 + n div 2 ^ 30"
      "(0xFFFF800000000000 + n) div 2 ^ 21 = 0x7FFFC000000 + n div 2 ^ 21" by simp_all
    moreover have "n div 2 ^ 39 = 0" "n div 2 ^ 30 < 512" using n by simp_all
    moreover have "(0x3FFFE0000 + m) mod 512 = m mod 512" "(0x7FFFC000000 + m) mod 512 = m mod 512" for m :: nat
      by (rule mod_add_multiple, simp)+
    ultimately show "(0xFFFF800000000000 + n) div 2 ^ 39 mod 512 = (256 :: nat)"
      "(0xFFFF800000000000 + n) div 2 ^ 30 mod 512 = n div 2 ^ 30"
      "(0xFFFF800000000000 + n) div 2 ^ 21 mod 512 = n div 2 ^ 21 mod 512" by simp_all
  qed
  note arith = this [OF assms]
  show "pt_index 0 (PHYS_MAP_BASE + p) 0 = 256" "pt_index 0 (PHYS_MAP_BASE + p) 1 = unat p div 2 ^ 30"
    "pt_index 0 (PHYS_MAP_BASE + p) 2 = unat p div 2 ^ 21 mod 512"
    by (simp_all only: pt_index_values u arith)
qed

lemma huge_entry:
  fixes x :: u64
  assumes "unat x < 2 ^ 18"
  defines "e \<equiv> x * HUGE_PAGE_SIZE OR VMM_PRESENT OR VMM_WRITE OR VMM_PS"
  shows "e AND VMM_PRESENT \<noteq> 0" "e AND VMM_PS \<noteq> 0" "e AND 0xFFFFFFE00000 = x * HUGE_PAGE_SIZE"
proof -
  let ?a = "push_bit 21 x"
  have e: "e = ?a OR 0x83"
    by (simp add: e_def HUGE_PAGE_SIZE_def VMM_PRESENT_def VMM_WRITE_def VMM_PS_def push_bit_eq_mult or.assoc)
  have "?a AND 1 = 0" "?a AND 0x80 = 0"
  proof -
    have "?a AND push_bit k 1 = 0" if "k < 21" for k :: nat
      using that by (intro bit_word_eqI) (auto simp: bit_simps)
    from this [of 0] this [of 7] show "?a AND 1 = 0" "?a AND 0x80 = 0" by simp_all
  qed
  then show "e AND VMM_PRESENT \<noteq> 0" "e AND VMM_PS \<noteq> 0"
    by (simp_all add: e VMM_PRESENT_def VMM_PS_def bit.conj_disj_distrib2)
  have "take_bit 18 x = x" using assms(1) by (simp add: take_bit_eq_mod word_unat_eq_iff unat_mod)
  then have small: "bit x n \<Longrightarrow> n < 18" for n by (metis bit_take_bit_iff)
  have mask: "(0xFFFFFFE00000 :: u64) = push_bit 21 (mask 27)"
    by (simp add: mask_eq_exp_minus_1 push_bit_eq_mult)
  have "?a AND 0xFFFFFFE00000 = ?a"
    unfolding mask by (intro bit_word_eqI) (auto simp: bit_simps dest: small)
  moreover have "(0x83 :: u64) AND 0xFFFFFFE00000 = 0" by simp
  ultimately show "e AND 0xFFFFFFE00000 = x * HUGE_PAGE_SIZE"
    by (simp add: e bit.conj_disj_distrib2 push_bit_eq_mult HUGE_PAGE_SIZE_def)
qed

lemma direct_map_offset:
  assumes "unat p < 2 ^ 39"
  shows "(of_nat (unat p div 2 ^ 21) * HUGE_PAGE_SIZE) + ((PHYS_MAP_BASE + p) AND 0x1FFFFF) = p"
proof -
  have mask: "(0x1FFFFF :: u64) = mask 21" by (simp add: mask_eq_exp_minus_1)
  have "unat ((PHYS_MAP_BASE + p) AND 0x1FFFFF) = unat (PHYS_MAP_BASE + p) mod 2 ^ 21"
    unfolding mask take_bit_eq_mask [symmetric] by (simp add: take_bit_eq_mod unat_mod)
  also have "\<dots> = unat p mod 2 ^ 21"
  proof -
    have "(0xFFFF800000000000 + m) mod 2 ^ 21 = m mod 2 ^ 21" for m :: nat by (rule mod_add_multiple) simp
    then show ?thesis by (simp add: direct_map_address [OF assms])
  qed
  finally have low: "(PHYS_MAP_BASE + p) AND 0x1FFFFF = of_nat (unat p mod 2 ^ 21)"
    by (simp add: word_unat_eq_iff unat_of_nat)
  have "(of_nat (unat p div 2 ^ 21) * HUGE_PAGE_SIZE :: u64) = of_nat (unat p div 2 ^ 21 * 2 ^ 21)"
    by (simp add: HUGE_PAGE_SIZE_def)
  then have "(of_nat (unat p div 2 ^ 21) * HUGE_PAGE_SIZE) + ((PHYS_MAP_BASE + p) AND 0x1FFFFF)
      = of_nat (unat p div 2 ^ 21 * 2 ^ 21 + unat p mod 2 ^ 21)"
    by (simp only: low of_nat_add)
  also have "\<dots> = p" by (simp only: div_mult_mod_eq) simp
  finally show ?thesis .
qed

section \<open>The direct map\<close>

lemma pt_frame_set:
  assumes "pmm_inv (pmm s)" "tables s a k AND VMM_PRESENT = 0"
  shows "pt_frame s (set_entry a k e s)"
proof -
  have "tables s b l AND VMM_PRESENT = 0" if "tables (set_entry a k e s) b l \<noteq> tables s b l" for b l
    using that assms(2) by (cases "b = a \<and> l = k") (auto split: if_splits)
  then show ?thesis using assms(1) by (simp add: pt_frame_def held_def)
qed

lemma ensure_table_present:
  assumes "tables s a k AND VMM_PRESENT \<noteq> 0"
  shows "ensure_table a k s = (Some (tables s a k AND PAGE_MASK), s)"
  using assms by (simp add: ensure_table_def)

lemma ensure_table_absent:
  assumes "ensure_table a k s = (Some q, t)" "tables s a k AND VMM_PRESENT = 0" "pmm_inv (pmm s)" "held s a"
  shows "pt_frame s t" "held t q" "\<not> held s q" "tables t a k AND VMM_PRESENT \<noteq> 0" "tables t a k AND PAGE_MASK = q"
    "\<And>j. j < 512 \<Longrightarrow> tables t q j = 0" "\<And>b l. held s b \<Longrightarrow> (b, l) \<noteq> (a, k) \<Longrightarrow> tables t b l = tables s b l"
proof -
  obtain p pm where al: "pmm_alloc_page_low (pmm s) = (p, pm)" by force
  then have p: "p \<noteq> 0" using assms(1,2) by (auto simp: ensure_table_def split: if_splits)
  have take: "takes p (pmm s) pm" using assms(3) al p by (rule alloc_low_takes)
  have t: "t = set_entry a k (p OR VMM_PRESENT OR VMM_WRITE) (clear_table p (s\<lparr>pmm := pm\<rparr>))"
    and q0: "q = (p OR VMM_PRESENT OR VMM_WRITE) AND PAGE_MASK"
    using assms(1,2) al p by (auto simp: ensure_table_def Let_def)
  note h = takes_held [of p s t, unfolded t, simplified clear_table_eq, simplified, OF take]
  have q: "q = p" using q0 h(6) by simp
  note f = pt_frame_new [OF take assms(2,4), folded t]
  show "pt_frame s t" "held t q" "\<not> held s q" "\<And>j. j < 512 \<Longrightarrow> tables t q j = 0" using f q by simp_all
  show "tables t a k AND VMM_PRESENT \<noteq> 0" "tables t a k AND PAGE_MASK = q"
    using f(4) h(6,7) q by simp_all
  show "tables t b l = tables s b l" if "held s b" "(b, l) \<noteq> (a, k)" for b l
  proof -
    have "b \<noteq> p" using that(1) f(3) by auto
    with that(2) show ?thesis by (auto simp: t clear_table_eq)
  qed
qed

text \<open>
  Before huge page \<open>n\<close> of the direct map is entered, the tables that exist for it are in use and have no entry for it or for a later page.
\<close>

definition direct_open :: "nat \<Rightarrow> vmm_state \<Rightarrow> bool" where
  "direct_open n s \<longleftrightarrow>
     pmm_inv (pmm s) \<and> held s (cr3 s) \<and>
     (let e = tables s (cr3 s) 256; d = e AND PAGE_MASK; f = tables s d (n div 512); pd = f AND PAGE_MASK in
      if e AND VMM_PRESENT = 0 then n = 0
      else held s d \<and> d \<noteq> cr3 s \<and> (\<forall>g. n div 512 < g \<and> g < 512 \<longrightarrow> tables s d g AND VMM_PRESENT = 0) \<and>
        (if f AND VMM_PRESENT = 0 then n mod 512 = 0
         else held s pd \<and> pd \<noteq> cr3 s \<and> pd \<noteq> d \<and> (\<forall>k. n mod 512 \<le> k \<and> k < 512 \<longrightarrow> tables s pd k AND VMM_PRESENT = 0)))"

text \<open>Both tables exist: the state in which the entry of page \<open>n\<close> is written.\<close>

definition direct_ready :: "nat \<Rightarrow> paddr_t \<Rightarrow> paddr_t \<Rightarrow> vmm_state \<Rightarrow> bool" where
  "direct_ready n d pd s \<longleftrightarrow>
     pmm_inv (pmm s) \<and> held s (cr3 s) \<and> held s d \<and> held s pd \<and> d \<noteq> cr3 s \<and> pd \<noteq> cr3 s \<and> pd \<noteq> d \<and>
     tables s (cr3 s) 256 AND VMM_PRESENT \<noteq> 0 \<and> tables s (cr3 s) 256 AND PAGE_MASK = d \<and>
     tables s d (n div 512) AND VMM_PRESENT \<noteq> 0 \<and> tables s d (n div 512) AND PAGE_MASK = pd \<and>
     (\<forall>g. n div 512 < g \<and> g < 512 \<longrightarrow> tables s d g AND VMM_PRESENT = 0) \<and>
     (\<forall>k. n mod 512 \<le> k \<and> k < 512 \<longrightarrow> tables s pd k AND VMM_PRESENT = 0)"

lemma direct_open_tables:
  assumes "direct_open n s" "n < 2 ^ 18" "ensure_table (cr3 s) 256 s = (Some d, s1)"
    "ensure_table d (n div 512) s1 = (Some pd, s2)"
  shows "pt_frame s s2 \<and> direct_ready n d pd s2"
proof -
  have inv: "pmm_inv (pmm s)" and c: "held s (cr3 s)" using assms(1) by (simp_all add: direct_open_def)
  have g: "n div 512 < 512" using assms(2) by simp
  have 1: "pt_frame s s1 \<and> held s1 d \<and> d \<noteq> cr3 s \<and> tables s1 (cr3 s) 256 AND VMM_PRESENT \<noteq> 0 \<and>
      tables s1 (cr3 s) 256 AND PAGE_MASK = d \<and>
      (\<forall>g. n div 512 < g \<and> g < 512 \<longrightarrow> tables s1 d g AND VMM_PRESENT = 0) \<and>
      (let f = tables s1 d (n div 512); pd = f AND PAGE_MASK in
       if f AND VMM_PRESENT = 0 then n mod 512 = 0
       else held s1 pd \<and> pd \<noteq> cr3 s \<and> pd \<noteq> d \<and> (\<forall>k. n mod 512 \<le> k \<and> k < 512 \<longrightarrow> tables s1 pd k AND VMM_PRESENT = 0))"
  proof (cases "tables s (cr3 s) 256 AND VMM_PRESENT = 0")
    case True
    note f = ensure_table_absent [OF assms(3) True inv c]
    have "d \<noteq> cr3 s" using f(3) c by auto
    moreover have "n = 0" using assms(1) True by (simp add: direct_open_def Let_def)
    ultimately show ?thesis using f g by simp
  next
    case False
    then have "s1 = s" "d = tables s (cr3 s) 256 AND PAGE_MASK"
      using assms(3) ensure_table_present [OF False] by auto
    then show ?thesis using assms(1) False inv by (simp add: direct_open_def Let_def pt_frame_refl)
  qed
  then have s1: "pt_frame s s1" "cr3 s1 = cr3 s" "held s1 (cr3 s1)" "pmm_inv (pmm s1)" "held s1 d"
    using c by (auto simp: pt_frame_def)
  show ?thesis
  proof (cases "tables s1 d (n div 512) AND VMM_PRESENT = 0")
    case True
    note f = ensure_table_absent [OF assms(4) True s1(4,5)]
    have n: "n mod 512 = 0" using 1 True by (simp add: Let_def)
    have ne: "pd \<noteq> d" "pd \<noteq> cr3 s" using f(3) s1 by auto
    have c2: "cr3 s2 = cr3 s" "pmm_inv (pmm s2)" "held s2 (cr3 s)" "held s2 d" using f(1) s1 by (auto simp: pt_frame_def)
    have k: "tables s2 (cr3 s) 256 = tables s1 (cr3 s) 256" using 1 s1 by (intro f(7)) auto
    have "tables s2 d g = tables s1 d g" if "n div 512 < g" for g using that s1 by (intro f(7)) auto
    then have "\<forall>g. n div 512 < g \<and> g < 512 \<longrightarrow> tables s2 d g AND VMM_PRESENT = 0" using 1 by simp
    moreover have "\<forall>k. n mod 512 \<le> k \<and> k < 512 \<longrightarrow> tables s2 pd k AND VMM_PRESENT = 0" using f(6) by simp
    moreover have "pt_frame s s2" using s1(1) f(1) by (rule pt_frame_trans)
    ultimately show ?thesis using 1 f(2,4,5) ne c2 k by (simp add: direct_ready_def)
  next
    case False
    then have "s2 = s1" "pd = tables s1 d (n div 512) AND PAGE_MASK"
      using assms(4) ensure_table_present [OF False] by auto
    with 1 False s1 show ?thesis by (simp add: direct_ready_def Let_def)
  qed
qed

text \<open>Writing the entry maps the 2 MiB of page \<open>n\<close>, and the tables are ready for the next page.\<close>

lemma direct_entry:
  assumes "direct_ready n d pd s" "n < 2 ^ 18" "unat p div 2 ^ 21 = n"
  defines "t \<equiv> set_entry pd (n mod 512) (of_nat n * HUGE_PAGE_SIZE OR VMM_PRESENT OR VMM_WRITE OR VMM_PS) s"
  shows "hw_translate (tables t) (PHYS_MAP_BASE + p) (cr3 t) = Some p"
    "\<forall>a \<in> hw_tables (tables t) (PHYS_MAP_BASE + p) (cr3 t). held t a"
proof -
  have p: "unat p < 2 ^ 39" using assms(2,3) by (simp add: div_less_iff_less_mult)
  have "unat p div 2 ^ 30 = n div 512" using assms(3) by (simp add: div_mult2_eq [symmetric, of _ 2097152 512, simplified])
  note i = direct_map_index [OF p, unfolded this assms(3)]
  have "unat (of_nat n :: u64) = n" using assms(2) by (simp add: unat_of_nat)
  note e = huge_entry [of "of_nat n", unfolded this, OF assms(2)]
  have w: "tables t (cr3 t) 256 = tables s (cr3 s) 256" "tables t d (n div 512) = tables s d (n div 512)"
    using assms(1) by (auto simp: t_def direct_ready_def)
  have w2: "tables t pd (n mod 512) = (of_nat n * HUGE_PAGE_SIZE OR VMM_PRESENT OR VMM_WRITE OR VMM_PS)"
    by (simp add: t_def)
  have walk: "hw_walk (tables t) (PHYS_MAP_BASE + p) [0, 1] (cr3 t) = Some pd"
    "walk_pages (tables t) (PHYS_MAP_BASE + p) [0, 1] (cr3 t) = {cr3 t, d}"
    using assms(1) i w by (simp_all add: direct_ready_def Let_def)
  show "hw_translate (tables t) (PHYS_MAP_BASE + p) (cr3 t) = Some p"
    unfolding hw_translate_def walk option.case i(3) w2 Let_def
    using direct_map_offset [OF p, unfolded assms(3)] e by simp
  show "\<forall>a \<in> hw_tables (tables t) (PHYS_MAP_BASE + p) (cr3 t). held t a"
    unfolding hw_tables_def walk option.case i(3) w2 Let_def
    using e assms(1) by (simp add: direct_ready_def) (simp add: t_def held_def)
qed

lemma direct_next:
  assumes "direct_ready n d pd s" "n < 2 ^ 17" "e AND VMM_PRESENT \<noteq> 0"
  defines "t \<equiv> set_entry pd (n mod 512) e s"
  shows "pt_frame s t" "direct_open (Suc n) t"
proof -
  show "pt_frame s t" unfolding t_def using assms(1) by (intro pt_frame_set) (simp_all add: direct_ready_def)
  have hd: "held t a = held s a" for a by (simp add: t_def held_def)
  have T: "tables t (cr3 t) 256 = tables s (cr3 s) 256" "\<And>g. tables t d g = tables s d g"
    "\<And>k. k \<noteq> n mod 512 \<Longrightarrow> tables t pd k = tables s pd k" "cr3 t = cr3 s" "pmm t = pmm s"
    using assms(1) by (auto simp: t_def direct_ready_def)
  show "direct_open (Suc n) t"
  proof (cases "Suc n mod 512 = 0")
    case True
    then have n: "Suc n div 512 = Suc (n div 512)" by (simp add: div_Suc)
    have "n div 512 < 256" using assms(2) by simp
    then show ?thesis
      using assms(1) T True n hd by (auto simp: direct_open_def direct_ready_def Let_def)
  next
    case False
    then have "Suc n div 512 = n div 512" "Suc n mod 512 = Suc (n mod 512)" by (simp_all add: div_Suc mod_Suc split: if_splits)
    then show ?thesis
      using assms(1) T hd by (simp add: direct_open_def direct_ready_def Let_def)
  qed
qed

lemma ensure_table_None:
  assumes "ensure_table a k s = (None, t)" "pmm_inv (pmm s)"
  shows "t = s" "\<forall>f \<in> free_frames (pmm s). f < 256 \<or> 32768 \<le> f"
proof -
  obtain p pm where al: "pmm_alloc_page_low (pmm s) = (p, pm)" by force
  then have t: "p = 0" "t = s\<lparr>pmm := pm\<rparr>" using assms(1) by (auto simp: ensure_table_def Let_def split: if_splits)
  have "t = s \<and> (\<forall>f \<in> free_frames (pmm s). f < 256 \<or> 32768 \<le> f)"
    using assms(2)
  proof (cases rule: pmm_alloc_page_low_cases)
    case (found f)
    have "best_frame (min 32768 (unat (total_pages (pmm s)))) (pmm s) f" by (rule found(1))
    note b = best_frame_range [OF assms(2) this]
    have "unat (PFN_TO_PADDR (of_nat f)) = f * 4096" using b by (intro unat_PFN_TO_PADDR) simp
    moreover have "PFN_TO_PADDR (of_nat f) = 0" using found(2) al t(1) by simp
    ultimately have False using b by simp
    then show ?thesis ..
  qed (use al t in auto)
  then show "t = s" "\<forall>f \<in> free_frames (pmm s). f < 256 \<or> 32768 \<le> f" by simp_all
qed

lemma map_huge_cases:
  assumes "direct_open n s" "n < 2 ^ 17"
  obtains (done_) t where "map_huge n s = (True, t)" "pt_frame s t" "direct_open (Suc n) t"
      "\<And>p. unat p div 2 ^ 21 = n \<Longrightarrow> hw_translate (tables t) (PHYS_MAP_BASE + p) (cr3 t) = Some p \<and>
        (\<forall>a \<in> hw_tables (tables t) (PHYS_MAP_BASE + p) (cr3 t). held t a)"
    | (full) t where "map_huge n s = (False, t)" "pt_frame s t" "\<forall>f \<in> free_frames (pmm t). f < 256 \<or> 32768 \<le> f"
proof -
  let ?p = "of_nat n * HUGE_PAGE_SIZE :: u64"
  let ?e = "?p OR VMM_PRESENT OR VMM_WRITE OR VMM_PS"
  have inv: "pmm_inv (pmm s)" and c: "held s (cr3 s)" using assms(1) by (simp_all add: direct_open_def)
  have p: "unat ?p = n * 2 ^ 21" "unat (of_nat n :: u64) = n"
    using assms(2) by (simp_all add: HUGE_PAGE_SIZE_def unat_of_nat unat_word_ariths)
  have p39: "unat ?p < 2 ^ 39" using p assms(2) by simp
  have i: "pt_index 0 (PHYS_MAP_BASE + ?p) 0 = 256" "pt_index 0 (PHYS_MAP_BASE + ?p) 1 = n div 512"
    "pt_index 0 (PHYS_MAP_BASE + ?p) 2 = n mod 512"
    unfolding direct_map_index [OF p39] unfolding p by (simp_all add: div_mult2_eq [of _ 2097152 512, simplified])
  note mh = map_huge_def [of n s, unfolded Let_def i]
  obtain o1 s1 where e1: "ensure_table (cr3 s) 256 s = (o1, s1)" by force
  show ?thesis
  proof (cases o1)
    case None
    note f = ensure_table_None [OF e1 [unfolded None] inv]
    show ?thesis using mh e1 None f inv by (intro full [of s]) (simp_all add: pt_frame_refl)
  next
    case (Some d)
    note e1 = e1 [unfolded Some]
    obtain o2 s2 where e2: "ensure_table d (n div 512) s1 = (o2, s2)" by force
    show ?thesis
    proof (cases o2)
      case None
      have f: "pt_frame s s1"
      proof (cases "tables s (cr3 s) 256 AND VMM_PRESENT = 0")
        case True
        then show ?thesis using ensure_table_absent(1) [OF e1] inv c by blast
      next
        case False
        then show ?thesis using e1 ensure_table_present [OF False] pt_frame_refl [OF inv] by simp
      qed
      then have "pmm_inv (pmm s1)" by (simp add: pt_frame_def)
      note g = ensure_table_None [OF e2 [unfolded None] this]
      show ?thesis using mh e1 e2 None f g by (intro full [of s1]) simp_all
    next
      case (Some pd)
      note e2 = e2 [unfolded Some]
      have n18: "n < 2 ^ 18" using assms(2) by simp
      have f: "pt_frame s s2" and r: "direct_ready n d pd s2"
        using direct_open_tables [OF assms(1) n18 e1 e2] by simp_all
      have e: "?e AND VMM_PRESENT \<noteq> 0" using huge_entry(1) [of "of_nat n", unfolded p(2), OF n18] .
      define t where "t = set_entry pd (n mod 512) ?e s2"
      note nx = direct_next [OF r assms(2) e, folded t_def]
      have "map_huge n s = (True, t)" using mh e1 e2 by (simp add: t_def)
      moreover have "pt_frame s t" using f nx(1) by (rule pt_frame_trans)
      ultimately show ?thesis
        using nx(2) direct_entry [OF r n18, folded t_def] by (intro done_) blast+
    qed
  qed
qed

lemma map_huge_pages_direct:
  assumes "direct_open k s" "map_huge_pages [k..<N] k s = (n, t)" "k \<le> N" "N \<le> 2 ^ 17"
  shows "k \<le> n \<and> n \<le> N \<and> pt_frame s t \<and>
    (n < N \<longrightarrow> (\<forall>f \<in> free_frames (pmm t). f < 256 \<or> 32768 \<le> f)) \<and>
    (\<forall>p. k \<le> unat p div 2 ^ 21 \<and> unat p div 2 ^ 21 < n \<longrightarrow> hw_translate (tables t) (PHYS_MAP_BASE + p) (cr3 t) = Some p)"
  using assms
proof (induction "N - k" arbitrary: k s)
  case 0
  then show ?case by (auto simp: pt_frame_refl direct_open_def)
next
  case (Suc m)
  have k: "k < N" using Suc.hyps(2) by simp
  then have run: "map_huge_pages [k..<N] k s =
      (case map_huge k s of (False, s) \<Rightarrow> (k, s) | (True, s) \<Rightarrow> map_huge_pages [Suc k..<N] (Suc k) s)"
    by (simp add: upt_conv_Cons)
  have "k < 2 ^ 17" using k Suc.prems(4) by simp
  with Suc.prems(1) show ?case
  proof (cases rule: map_huge_cases)
    case (done_ u)
    have "map_huge_pages [Suc k..<N] (Suc k) u = (n, t)" using run done_(1) Suc.prems(2) by simp
    moreover have "m = N - Suc k" using Suc.hyps(2) by simp
    ultimately have IH: "Suc k \<le> n \<and> n \<le> N \<and> pt_frame u t \<and>
        (n < N \<longrightarrow> (\<forall>f \<in> free_frames (pmm t). f < 256 \<or> 32768 \<le> f)) \<and>
        (\<forall>p. Suc k \<le> unat p div 2 ^ 21 \<and> unat p div 2 ^ 21 < n \<longrightarrow> hw_translate (tables t) (PHYS_MAP_BASE + p) (cr3 t) = Some p)"
      using Suc.hyps(1) [OF _ done_(3)] k Suc.prems(4) by simp
    then have frame: "pt_frame u t" by simp
    then have "cr3 t = cr3 u" by (simp add: pt_frame_def)
    then have here: "hw_translate (tables t) (PHYS_MAP_BASE + p) (cr3 t) = Some p" if "unat p div 2 ^ 21 = k" for p
      using pt_frame_translate [OF frame] done_(4) [OF that] by simp
    have "hw_translate (tables t) (PHYS_MAP_BASE + p) (cr3 t) = Some p"
      if "k \<le> unat p div 2 ^ 21" "unat p div 2 ^ 21 < n" for p
    proof (cases "unat p div 2 ^ 21 = k")
      case False
      then have "Suc k \<le> unat p div 2 ^ 21" using that(1) by linarith
      with IH that(2) show ?thesis by blast
    qed (rule here)
    moreover have "pt_frame s t" using done_(2) frame by (rule pt_frame_trans)
    moreover have "k \<le> n" "n \<le> N" "n < N \<longrightarrow> (\<forall>f \<in> free_frames (pmm t). f < 256 \<or> 32768 \<le> f)" using IH by simp_all
    ultimately show ?thesis by blast
  next
    case (full u)
    then have "n = k" "t = u" using run Suc.prems(2) by simp_all
    with full k show ?thesis by auto
  qed
qed

lemma huge_pages_total:
  assumes "pmm_inv pm"
  shows "huge_pages (pmm_get_total_pages pm * PAGE_SIZE) \<le> 2 ^ 13"
    "unat (total_pages pm) * 4096 \<le> huge_pages (pmm_get_total_pages pm * PAGE_SIZE) * 2 ^ 21"
proof -
  have t: "unat (total_pages pm) \<le> 4194304" using assms by (simp add: pmm_inv_def MAX_PAGES_def)
  then have u: "unat (pmm_get_total_pages pm * PAGE_SIZE) = unat (total_pages pm) * 4096"
    by (simp add: pmm_get_total_pages_def PAGE_SIZE_def unat_word_ariths)
  let ?m = "unat (total_pages pm) * 4096"
  have "?m + 2097151 < 2097152 + 2097152 * ((?m + 2097151) div 2097152)" by (rule dividend_less_times_div) simp
  then have "?m \<le> (?m + 2097151) div 2097152 * 2097152" by linarith
  moreover have "(?m + 2097151) div 2097152 \<le> (17179869184 + 2097151) div 2097152" using t by (intro div_le_mono) simp
  then have "(?m + 2097151) div 2097152 \<le> 8192" by simp
  ultimately show "huge_pages (pmm_get_total_pages pm * PAGE_SIZE) \<le> 2 ^ 13"
    "unat (total_pages pm) * 4096 \<le> huge_pages (pmm_get_total_pages pm * PAGE_SIZE) * 2 ^ 21"
    unfolding huge_pages_def u by (simp_all add: HUGE_PAGE_SIZE_def)
qed

section \<open>Mapping one page\<close>

text \<open>With a frame above 1 MiB free for every level, the walk never fails once the direct map is ready.\<close>

definition page_frames :: "vmm_state \<Rightarrow> nat set" where
  "page_frames s = {f \<in> free_frames (pmm s). 256 \<le> f}"

lemma finite_page_frames: "finite (page_frames s)"
  by (simp add: page_frames_def free_frames_def)

lemma new_table_succeeds:
  assumes "phys_map_ready s" "pmm_inv (pmm s)" "page_frames s \<noteq> {}"
  obtains p s' where "new_table s = (Some p, s')" "phys_map_ready s'" "pmm_inv (pmm s')"
    "card (page_frames s) \<le> Suc (card (page_frames s'))"
proof -
  obtain p pm where al: "pmm_alloc_page (pmm s) = (p, pm)" by force
  have "p \<noteq> 0"
    using assms(2)
  proof (cases rule: pmm_alloc_page_cases)
    case (found f)
    note b = best_frame_range [OF assms(2) found(1)]
    have "unat (PFN_TO_PADDR (of_nat f)) = f * 4096" using b by (intro unat_PFN_TO_PADDR) simp
    then show ?thesis using found(2) al b by auto
  qed (use assms(3) in \<open>auto simp: page_frames_def\<close>)
  then have t: "takes p (pmm s) pm" using assms(2) al by (intro alloc_takes)
  then have "unat p div 4096 < MAX_PAGES" by (auto simp: takes_def frame_number)
  moreover have "phys_to_virt_pt p (s\<lparr>pmm := pm\<rparr>) \<noteq> 0"
  proof -
    have "unat p < 2 ^ 34" using \<open>unat p div 4096 < MAX_PAGES\<close> by (simp add: MAX_PAGES_def div_less_iff_less_mult)
    then have "unat (p + PHYS_MAP_BASE) \<noteq> 0" by (simp add: PHYS_MAP_BASE_def unat_word_ariths)
    then show ?thesis using \<open>p \<noteq> 0\<close> by (auto simp: phys_to_virt_pt_def)
  qed
  ultimately have n: "new_table s = (Some p, clear_table p (s\<lparr>pmm := pm\<rparr>))"
    using assms(1) al \<open>p \<noteq> 0\<close> by (simp add: new_table_def page_of_pointer)
  let ?s = "clear_table p (s\<lparr>pmm := pm\<rparr>)"
  obtain f where f: "page_bitmap pm = bitmap_set (page_bitmap (pmm s)) f" "total_pages pm = total_pages (pmm s)" "pmm_inv pm"
    using t by (auto simp: takes_def)
  then have "page_frames s \<subseteq> insert f (page_frames ?s)"
    by (auto simp: page_frames_def free_frames_def clear_table_eq)
  then have "card (page_frames s) \<le> card (insert f (page_frames ?s))" by (intro card_mono) (simp_all add: finite_page_frames)
  also have "\<dots> \<le> Suc (card (page_frames ?s))" by (simp add: card_insert_if finite_page_frames)
  finally show ?thesis using n f(3) assms(1) by (intro that) (simp_all add: clear_table_eq)
qed

lemma pt_walk_succeeds:
  assumes "phys_map_ready s" "pmm_inv (pmm s)" "length is \<le> card (page_frames s)"
  shows "\<exists>t' s'. pt_walk True v is t s = (Some t', s')"
  using assms
proof (induction "is" arbitrary: t s)
  case (Cons i "is")
  let ?e = "tables s (page_of t) (pt_index 0 v i)"
  show ?case
  proof (cases "?e AND VMM_PRESENT = 0")
    case True
    have ne: "page_frames s \<noteq> {}" using Cons.prems(3) by auto
    obtain p s1 where n: "new_table s = (Some p, s1)" and s1: "phys_map_ready s1" "pmm_inv (pmm s1)"
      "card (page_frames s) \<le> Suc (card (page_frames s1))" by (rule new_table_succeeds [OF Cons.prems(1,2) ne])
    let ?s2 = "set_entry (page_of t) (pt_index 0 v i) (p OR VMM_PRESENT OR VMM_WRITE) s1"
    have "page_frames ?s2 = page_frames s1" by (simp add: page_frames_def)
    then have "length is \<le> card (page_frames ?s2)" using Cons.prems(3) s1(3) by simp
    then show ?thesis using True n s1 Cons.IH [of ?s2] by (simp add: Let_def)
  next
    case False
    have "length is \<le> card (page_frames s)" using Cons.prems(3) by simp
    then show ?thesis using False Cons.IH [of s] Cons.prems by (simp add: Let_def)
  qed
qed simp

section \<open>Properties\<close>


text \<open>A state as the boot loader leaves it: the first 2 MiB mapped one to one by tables in pages 1 to 3.\<close>

definition boot_vmm :: vmm_state where
  "boot_vmm =
     \<lparr>pmm = small_pmm,
      tables = (\<lambda>a k. if k \<noteq> 0 then 0 else if a = 0x1000 then 0x2003 else if a = 0x2000 then 0x3003
                     else if a = 0x3000 then 0x83 else 0),
      contents = (\<lambda>_ _. 0), kernel_address_space = \<lparr>pml4 = 0, asid = 0\<rparr>, next_asid = 1,
      phys_map_ready = False, phys_map_max_addr = 0, cr3 = 0x1000\<rparr>"

lemma boot_held:
  assumes "unat a < 0x200000"
  shows "held boot_vmm a"
proof -
  have "unat a div 4096 \<notin> free_frames small_pmm" using assms by (simp add: small_pmm_free)
  then show ?thesis using assms by (auto simp: held_def boot_vmm_def free_frames_def small_pmm_total MAX_PAGES_def)
qed



text \<open>The same tables after \<^verbatim>\<open>vmm_init\<close> has switched to the direct map.\<close>

definition running_vmm :: vmm_state where
  "running_vmm = boot_vmm\<lparr>kernel_address_space := \<lparr>pml4 = 0x1000 + PHYS_MAP_BASE, asid = 0\<rparr>, phys_map_ready := True\<rparr>"

lemma running_held: "held running_vmm a = held boot_vmm a"
  by (simp add: held_def running_vmm_def)

lemma running_pages: "pmm_inv (pmm running_vmm)" "phys_map_ready running_vmm" "4 \<le> card (page_frames running_vmm)"
proof -
  have "page_frames running_vmm = {514..<528}"
    by (auto simp: page_frames_def running_vmm_def boot_vmm_def small_pmm_free)
  then show "4 \<le> card (page_frames running_vmm)" by simp
  show "pmm_inv (pmm running_vmm)" "phys_map_ready running_vmm" by (simp_all add: running_vmm_def boot_vmm_def small_pmm_inv)
qed


lemma copy_upper_half:
  assumes "a \<noteq> page_of (pml4 (kernel_address_space s))"
  shows "for_range 256 512 (\<lambda>i s. set_entry a i (tables s (page_of (pml4 (kernel_address_space s))) i) s) s =
    s\<lparr>tables := (tables s)(a := \<lambda>k. if 256 \<le> k \<and> k < 512 then tables s (page_of (pml4 (kernel_address_space s))) k else tables s a k)\<rparr>"
proof -
  let ?r = "page_of (pml4 (kernel_address_space s))"
  have "for_range 256 n (\<lambda>i s. set_entry a i (tables s (page_of (pml4 (kernel_address_space s))) i) s) s =
      s\<lparr>tables := (tables s)(a := \<lambda>k. if 256 \<le> k \<and> k < n then tables s ?r k else tables s a k)\<rparr>" if "256 \<le> n" for n
    using that assms
  proof (induction n rule: nat_induct_at_least)
    case base
    have "(\<lambda>k. if 256 \<le> k \<and> k < 256 then tables s ?r k else tables s a k) = tables s a"
      by (intro ext) auto
    then show ?case by simp
  next
    case (Suc n)
    then show ?case by (simp add: for_range_Suc) (auto simp: fun_eq_iff less_Suc_eq)
  qed
  then show ?thesis by simp
qed

text \<open>
  C32: \<^verbatim>\<open>vmm_create_address_space\<close> returns nothing only when \<^verbatim>\<open>kmalloc\<close> fails or no frame above 1 MiB is free. Otherwise the new top-level table
  is in a frame that was free, every address of the upper half translates in the new address space as it does in the kernel's, no address of the
  lower half is mapped, and the tables of every other page are untouched.
\<close>

theorem vmm_create_address_space_shares_kernel:
  assumes "pmm_inv (pmm s)" "held s root" "pml4 (kernel_address_space s) = root + PHYS_MAP_BASE"
  shows "case vmm_create_address_space mem s of
      (None, t) \<Rightarrow> (\<not> mem \<or> page_frames s = {}) \<and> t = s
    | (Some as, t) \<Rightarrow>
        (let a = page_of (pml4 as) in
         mem \<and> \<not> held s a \<and> held t a \<and> pmm_inv (pmm t) \<and> asid as = next_asid s \<and>
         (\<forall>v. 256 \<le> pt_index 0 v 0 \<and> (\<forall>b \<in> hw_tables (tables s) v root. held s b) \<longrightarrow>
            hw_translate (tables t) v a = hw_translate (tables s) v root) \<and>
         (\<forall>v. pt_index 0 v 0 < 256 \<longrightarrow> hw_translate (tables t) v a = None) \<and>
         (\<forall>b. b \<noteq> a \<longrightarrow> tables t b = tables s b))"
proof -
  obtain p pm where al: "pmm_alloc_page (pmm s) = (p, pm)" by force
  have r: "page_of (pml4 (kernel_address_space s)) = root" using assms(2,3) by (simp add: held_def page_of_pointer)
  show ?thesis
  proof (cases "mem \<and> p \<noteq> 0")
    case False
    have "page_frames s = {} \<and> pm = pmm s" if "p = 0"
      using assms(1)
    proof (cases rule: pmm_alloc_page_cases)
      case (found f)
      note b = best_frame_range [OF assms(1) found(1)]
      have "unat (PFN_TO_PADDR (of_nat f)) = f * 4096" using b by (intro unat_PFN_TO_PADDR) simp
      then show ?thesis using found(2) al b that by auto
    next
      case none
      then show ?thesis using al by (auto simp: page_frames_def)
    qed
    with False al show ?thesis by (cases mem) (simp_all add: vmm_create_address_space_def)
  next
    case True
    have take: "takes p (pmm s) pm" using assms(1) al True by (intro alloc_takes) simp_all
    then have fp: "unat p div 4096 < MAX_PAGES" by (auto simp: takes_def frame_number)
    let ?as = "\<lparr>pml4 = p + PHYS_MAP_BASE, asid = next_asid s\<rparr>"
    have a: "page_of (pml4 ?as) = p" using fp by (simp add: page_of_pointer)
    define t where "t = s\<lparr>pmm := pm, next_asid := next_asid s + 1,
      tables := (tables s)(p := \<lambda>k. if 256 \<le> k \<and> k < 512 then tables s root k else if k < 512 then 0 else tables s p k)\<rparr>"
    have h: "\<not> held s p" "held t p" "pmm_inv (pmm t)" using takes_held [of p s t] take by (simp_all add: t_def)
    have pr: "p \<noteq> root" using h(1) assms(2) by auto
    have run: "vmm_create_address_space mem s = (Some ?as, t)"
    proof -
      let ?c = "clear_table p (s\<lparr>pmm := pm, next_asid := next_asid s + 1\<rparr>)"
      have c: "tables ?c root = tables s root" "tables ?c p = (\<lambda>k. if k < 512 then 0 else tables s p k)"
        "kernel_address_space ?c = kernel_address_space s"
        using pr by (simp_all add: clear_table_eq cong: if_cong)
      have "t = ?c\<lparr>tables := (tables ?c)(p := \<lambda>k. if 256 \<le> k \<and> k < 512 then tables ?c root k else tables ?c p k)\<rparr>"
        unfolding c by (simp add: t_def clear_table_eq)
      moreover have "p \<noteq> page_of (pml4 (kernel_address_space ?c))" unfolding c(3) r by (rule pr)
      ultimately have "for_range 256 512 (\<lambda>i s. set_entry p i (tables s (page_of (pml4 (kernel_address_space s))) i) s) ?c = t"
        using copy_upper_half [of p ?c] unfolding c(3) r by simp
      with True al a show ?thesis by (simp add: vmm_create_address_space_def Let_def clear_table_def)
    qed
    have T: "tables t b = tables s b" if "b \<noteq> p" for b using that by (simp add: t_def)
    have up: "hw_translate (tables t) v p = hw_translate (tables s) v root"
      if "256 \<le> pt_index 0 v 0" "\<forall>b \<in> hw_tables (tables s) v root. held s b" for v
    proof -
      have i: "pt_index 0 v 0 < 512" by (simp add: pt_index_less)
      have e0: "tables t p (pt_index 0 v 0) = tables s root (pt_index 0 v 0)" using that(1) i by (simp add: t_def)
      have "tables t b = tables s b" if "b \<in> hw_tables (tables s) v root" for b
        using that h(1) \<open>\<forall>b \<in> hw_tables (tables s) v root. held s b\<close> by (intro T) auto
      then show ?thesis using e0
        by (auto simp: hw_translate_def hw_tables_def Let_def split: if_splits)
    qed
    have low: "hw_translate (tables t) v p = None" if "pt_index 0 v 0 < 256" for v
      using that by (simp add: hw_translate_def t_def)
    show ?thesis unfolding run prod.case option.case Let_def a using True h up low T by simp
  qed
qed

theorem vmm_create_address_space_shares_kernel_witness:
  "case vmm_create_address_space True running_vmm of
     (None, t) \<Rightarrow> False
   | (Some as, t) \<Rightarrow> hw_translate (tables t) 0x1234 (page_of (pml4 as)) = None"
proof -
  have k: "pml4 (kernel_address_space running_vmm) = 0x1000 + PHYS_MAP_BASE" "held running_vmm 0x1000"
    by (simp add: running_vmm_def) (simp add: running_held boot_held)
  have "page_frames running_vmm \<noteq> {}" using running_pages(3) by auto
  moreover have "pt_index 0 0x1234 0 = 0" by (simp only: pt_index_values) simp
  ultimately show ?thesis
    using vmm_create_address_space_shares_kernel [OF running_pages(1) k(2,1), of True]
    by (auto simp: Let_def split: prod.splits option.splits)
qed

end
