(* ===== verification/Lockfree.thy ===== *)
theory Lockfree
  imports Prelude
begin

text \<open>
  The lock-free queue, stack and counter of \<^verbatim>\<open>kernel/sync/lockfree.c\<close>. A pointer is an address, 0 the NULL pointer. The loops
  of the operations are cut at every access to shared memory: a program counter says which access a
  thread makes next and holds its local variables, and the functions \<open>lf_queue_enqueue\<close>, \<open>lf_queue_dequeue\<close>,
  \<open>lf_stack_push\<close> and \<open>lf_stack_pop\<close> make that access. Freed nodes keep their bytes until they are
  allocated again.
\<close>

section \<open>Nodes and atomic operations\<close>

record lf_queue_node_t =
  data :: u64
  nextp :: u64

record lf_heap =
  nodes :: "u64 \<Rightarrow> lf_queue_node_t"
  live :: "u64 set"
  freed :: "u64 set"

definition lf_compare_exchange :: "u64 \<Rightarrow> u64 \<Rightarrow> u64 \<Rightarrow> bool \<times> u64" where
  "lf_compare_exchange mem expected desired = (if mem = expected then (True, desired) else (False, mem))"

definition atomic_fetch_add :: "u32 \<Rightarrow> u32 \<Rightarrow> u32 \<times> u32" where
  "atomic_fetch_add mem val = (mem, mem + val)"

definition atomic_fetch_sub :: "u32 \<Rightarrow> u32 \<Rightarrow> u32 \<times> u32" where
  "atomic_fetch_sub mem val = (mem, mem - val)"

text \<open>The addresses \<^verbatim>\<open>kmalloc\<close> may return; \<open>reuse\<close> is whether freed memory is handed out again.\<close>

definition lf_fresh :: "bool \<Rightarrow> u64 \<Rightarrow> lf_heap \<Rightarrow> bool" where
  "lf_fresh reuse a m \<longleftrightarrow> a \<noteq> 0 \<and> a \<notin> live m \<and> (reuse \<or> a \<notin> freed m)"

definition lf_new :: "u64 \<Rightarrow> lf_queue_node_t \<Rightarrow> lf_heap \<Rightarrow> lf_heap" where
  "lf_new a node m = m\<lparr>nodes := (nodes m)(a := node), live := insert a (live m), freed := freed m - {a}\<rparr>"

definition lf_kfree :: "u64 \<Rightarrow> lf_heap \<Rightarrow> lf_heap" where
  "lf_kfree a m = m\<lparr>live := live m - {a}, freed := insert a (freed m)\<rparr>"

abbreviation set_next :: "u64 \<Rightarrow> u64 \<Rightarrow> lf_heap \<Rightarrow> lf_heap" where
  "set_next a x m \<equiv> m\<lparr>nodes := (nodes m)(a := (nodes m a)\<lparr>nextp := x\<rparr>)\<rparr>"

section \<open>Queue\<close>

record lf_queue_t =
  head :: u64
  tail :: u64
  queue_size :: u32

definition lf_queue_init :: "u64 \<Rightarrow> lf_heap \<Rightarrow> lf_queue_t \<times> lf_heap" where
  "lf_queue_init dummy m = (\<lparr>head = dummy, tail = dummy, queue_size = 0\<rparr>, lf_new dummy \<lparr>data = 0, nextp = 0\<rparr> m)"

datatype enq_pc =
    LoadTail
  | LoadNext u64
  | CheckTail u64 u64
  | LinkNode u64
  | HelpTail u64 u64
  | SwingTail u64
  | CountUp

text \<open>The access at \<open>pc\<close> by a thread that enqueues \<open>node\<close>; \<open>None\<close> when the function returns.\<close>

fun lf_queue_enqueue :: "u64 \<Rightarrow> enq_pc \<Rightarrow> lf_queue_t \<Rightarrow> lf_heap \<Rightarrow> enq_pc option \<times> lf_queue_t \<times> lf_heap" where
  "lf_queue_enqueue node LoadTail q m = (Some (LoadNext (tail q)), q, m)"
| "lf_queue_enqueue node (LoadNext tp) q m = (Some (CheckTail tp (nextp (nodes m tp))), q, m)"
| "lf_queue_enqueue node (CheckTail tp nx) q m =
     (Some (if tp = tail q then if nx = 0 then LinkNode tp else HelpTail tp nx else LoadTail), q, m)"
| "lf_queue_enqueue node (LinkNode tp) q m =
     (case lf_compare_exchange (nextp (nodes m tp)) 0 node of
        (ok, v) \<Rightarrow> (Some (if ok then SwingTail tp else LoadTail), q, set_next tp v m))"
| "lf_queue_enqueue node (HelpTail tp nx) q m =
     (Some LoadTail, q\<lparr>tail := snd (lf_compare_exchange (tail q) tp nx)\<rparr>, m)"
| "lf_queue_enqueue node (SwingTail tp) q m =
     (Some CountUp, q\<lparr>tail := snd (lf_compare_exchange (tail q) tp node)\<rparr>, m)"
| "lf_queue_enqueue node CountUp q m =
     (None, q\<lparr>queue_size := snd (atomic_fetch_add (queue_size q) 1)\<rparr>, m)"

datatype deq_pc =
    LoadHead
  | LoadTail2 u64
  | LoadNext2 u64 u64
  | CheckHead u64 u64 u64
  | HelpTail2 u64 u64
  | ReadData u64 u64
  | SwingHead u64 u64 u64
  | FreeHead u64 u64
  | CountDown u64

text \<open>The same for a thread that dequeues; \<open>Inr d\<close> when the function returns \<open>d\<close>.\<close>

fun lf_queue_dequeue :: "deq_pc \<Rightarrow> lf_queue_t \<Rightarrow> lf_heap \<Rightarrow> (deq_pc + u64) \<times> lf_queue_t \<times> lf_heap" where
  "lf_queue_dequeue LoadHead q m = (Inl (LoadTail2 (head q)), q, m)"
| "lf_queue_dequeue (LoadTail2 hp) q m = (Inl (LoadNext2 hp (tail q)), q, m)"
| "lf_queue_dequeue (LoadNext2 hp tp) q m = (Inl (CheckHead hp tp (nextp (nodes m hp))), q, m)"
| "lf_queue_dequeue (CheckHead hp tp nx) q m =
     (if hp = head q then
        if hp = tp then if nx = 0 then Inr 0 else Inl (HelpTail2 tp nx)
        else Inl (ReadData hp nx)
      else Inl LoadHead, q, m)"
| "lf_queue_dequeue (HelpTail2 tp nx) q m =
     (Inl LoadHead, q\<lparr>tail := snd (lf_compare_exchange (tail q) tp nx)\<rparr>, m)"
| "lf_queue_dequeue (ReadData hp nx) q m = (Inl (SwingHead hp nx (data (nodes m nx))), q, m)"
| "lf_queue_dequeue (SwingHead hp nx d) q m =
     (case lf_compare_exchange (head q) hp nx of
        (ok, v) \<Rightarrow> (Inl (if ok then FreeHead hp d else LoadHead), q\<lparr>head := v\<rparr>, m))"
| "lf_queue_dequeue (FreeHead hp d) q m = (Inl (CountDown d), q, lf_kfree hp m)"
| "lf_queue_dequeue (CountDown d) q m =
     (Inr d, q\<lparr>queue_size := snd (atomic_fetch_sub (queue_size q) 1)\<rparr>, m)"

definition lf_queue_is_empty :: "lf_queue_t \<Rightarrow> lf_heap \<Rightarrow> bool" where
  "lf_queue_is_empty q m \<longleftrightarrow> head q = tail q \<and> nextp (nodes m (head q)) = 0"

definition lf_queue_size :: "lf_queue_t \<Rightarrow> u32" where
  "lf_queue_size q = queue_size q"

section \<open>Stack\<close>

record lf_stack_t =
  top :: u64
  stack_size :: u32

definition lf_stack_init :: lf_stack_t where
  "lf_stack_init = \<lparr>top = 0, stack_size = 0\<rparr>"

datatype push_pc = PushLoad | PushNext u64 | PushSwing u64 | PushCount

fun lf_stack_push :: "u64 \<Rightarrow> push_pc \<Rightarrow> lf_stack_t \<Rightarrow> lf_heap \<Rightarrow> push_pc option \<times> lf_stack_t \<times> lf_heap" where
  "lf_stack_push node PushLoad q m = (Some (PushNext (top q)), q, m)"
| "lf_stack_push node (PushNext old) q m = (Some (PushSwing old), q, set_next node old m)"
| "lf_stack_push node (PushSwing old) q m =
     (case lf_compare_exchange (top q) old node of
        (ok, v) \<Rightarrow> (Some (if ok then PushCount else PushLoad), q\<lparr>top := v\<rparr>, m))"
| "lf_stack_push node PushCount q m = (None, q\<lparr>stack_size := snd (atomic_fetch_add (stack_size q) 1)\<rparr>, m)"

datatype pop_pc = PopLoad | PopNext u64 | PopData u64 u64 | PopSwing u64 u64 u64 | PopFree u64 u64 | PopCount u64

fun lf_stack_pop :: "pop_pc \<Rightarrow> lf_stack_t \<Rightarrow> lf_heap \<Rightarrow> (pop_pc + u64) \<times> lf_stack_t \<times> lf_heap" where
  "lf_stack_pop PopLoad q m = (if top q = 0 then Inr 0 else Inl (PopNext (top q)), q, m)"
| "lf_stack_pop (PopNext old) q m = (Inl (PopData old (nextp (nodes m old))), q, m)"
| "lf_stack_pop (PopData old new) q m = (Inl (PopSwing old new (data (nodes m old))), q, m)"
| "lf_stack_pop (PopSwing old new d) q m =
     (case lf_compare_exchange (top q) old new of
        (ok, v) \<Rightarrow> (Inl (if ok then PopFree old d else PopLoad), q\<lparr>top := v\<rparr>, m))"
| "lf_stack_pop (PopFree old d) q m = (Inl (PopCount d), q, lf_kfree old m)"
| "lf_stack_pop (PopCount d) q m = (Inr d, q\<lparr>stack_size := snd (atomic_fetch_sub (stack_size q) 1)\<rparr>, m)"

definition lf_stack_is_empty :: "lf_stack_t \<Rightarrow> bool" where
  "lf_stack_is_empty q \<longleftrightarrow> top q = 0"

definition lf_stack_size :: "lf_stack_t \<Rightarrow> u32" where
  "lf_stack_size q = stack_size q"

section \<open>Counter\<close>

definition lf_counter_init :: "u32 option \<Rightarrow> u32 \<Rightarrow> u32 option" where
  "lf_counter_init counter initial = map_option (\<lambda>_. initial) counter"

text \<open>The value returned and the value left in memory, for a pointer that is not NULL.\<close>

definition lf_counter_increment :: "u32 option \<Rightarrow> u32 \<times> u32 option" where
  "lf_counter_increment counter =
     (case counter of None \<Rightarrow> (0, None) | Some c \<Rightarrow> let (old, new) = atomic_fetch_add c 1 in (old + 1, Some new))"

definition lf_counter_decrement :: "u32 option \<Rightarrow> u32 \<times> u32 option" where
  "lf_counter_decrement counter =
     (case counter of None \<Rightarrow> (0, None) | Some c \<Rightarrow> let (old, new) = atomic_fetch_sub c 1 in (old - 1, Some new))"

definition lf_counter_add :: "u32 option \<Rightarrow> u32 \<Rightarrow> u32 \<times> u32 option" where
  "lf_counter_add counter value =
     (case counter of None \<Rightarrow> (0, None) | Some c \<Rightarrow> let (old, new) = atomic_fetch_add c value in (old + value, Some new))"

definition lf_counter_get :: "u32 option \<Rightarrow> u32" where
  "lf_counter_get counter = (case counter of None \<Rightarrow> 0 | Some c \<Rightarrow> c)"

section \<open>Threads\<close>

text \<open>
  The effect of the operations in the order in which they take effect: \<open>Put d\<close> when a node with \<open>d\<close> is linked, \<open>Get d\<close> when
  a node with \<open>d\<close> is unlinked.
\<close>

datatype lf_event = Put u64 | Get u64

text \<open>What a thread is about to do, for the queue: \<open>qseen\<close> is whether the queue was empty at some moment of the current call.\<close>

datatype lfq_pc = QIdle | Enqueueing u64 enq_pc | Dequeueing deq_pc

record lfq_sys =
  queue :: lf_queue_t
  qheap :: lf_heap
  qpc :: "u64 \<Rightarrow> lfq_pc"
  qhist :: "lf_event list"
  qseen :: "u64 \<Rightarrow> bool"

datatype lfq_act = CallEnqueue u64 u64 u64 | CallDequeue u64 | RunQueue u64

fun lfq_effect :: "lfq_pc \<Rightarrow> lf_queue_t \<Rightarrow> lf_heap \<Rightarrow> lf_event list" where
  "lfq_effect (Enqueueing node (LinkNode tp)) q m = (if nextp (nodes m tp) = 0 then [Put (data (nodes m node))] else [])"
| "lfq_effect (Dequeueing (SwingHead hp nx d)) q m = (if head q = hp then [Get d] else [])"
| "lfq_effect _ q m = []"

fun replay_queue :: "lf_event list \<Rightarrow> u64 list \<Rightarrow> u64 list option" where
  "replay_queue [] xs = Some xs"
| "replay_queue (Put d # es) xs = replay_queue es (xs @ [d])"
| "replay_queue (Get d # es) xs = (case xs of [] \<Rightarrow> None | x # ys \<Rightarrow> if x = d then replay_queue es ys else None)"

text \<open>One thread makes its next access.\<close>

definition lfq_run :: "u64 \<Rightarrow> lfq_sys \<Rightarrow> lfq_sys" where
  "lfq_run t s =
     (let (pc, q, m) =
            (case qpc s t of
               QIdle \<Rightarrow> (QIdle, queue s, qheap s)
             | Enqueueing node pc \<Rightarrow>
                 (case lf_queue_enqueue node pc (queue s) (qheap s) of
                    (r, q, m) \<Rightarrow> (case r of None \<Rightarrow> QIdle | Some pc \<Rightarrow> Enqueueing node pc, q, m))
             | Dequeueing pc \<Rightarrow>
                 (case lf_queue_dequeue pc (queue s) (qheap s) of
                    (r, q, m) \<Rightarrow> (case r of Inl pc \<Rightarrow> Dequeueing pc | Inr d \<Rightarrow> QIdle, q, m)));
          hist = qhist s @ lfq_effect (qpc s t) (queue s) (qheap s)
      in s\<lparr>queue := q, qheap := m, qpc := (qpc s)(t := pc), qhist := hist,
           qseen := (\<lambda>u. qseen s u \<or> replay_queue hist [] = Some [])\<rparr>)"

text \<open>
  The calls: \<open>CallEnqueue t d a\<close> enters \<^verbatim>\<open>lf_queue_enqueue\<close> with data \<open>d\<close>, where \<^verbatim>\<open>kmalloc\<close> returns \<open>a\<close> (0 when it fails, and then
  the call has no effect).
\<close>

fun lfq_do :: "bool \<Rightarrow> lfq_act \<Rightarrow> lfq_sys \<Rightarrow> lfq_sys option" where
  "lfq_do reuse (CallEnqueue t d a) s =
     (if qpc s t \<noteq> QIdle then None
      else if d = 0 \<or> a = 0 then Some s
      else if lf_fresh reuse a (qheap s) then
        Some (s\<lparr>qheap := lf_new a \<lparr>data = d, nextp = 0\<rparr> (qheap s), qpc := (qpc s)(t := Enqueueing a LoadTail)\<rparr>)
      else None)"
| "lfq_do reuse (CallDequeue t) s =
     (if qpc s t \<noteq> QIdle then None
      else Some (s\<lparr>qpc := (qpc s)(t := Dequeueing LoadHead), qseen := (qseen s)(t := replay_queue (qhist s) [] = Some [])\<rparr>))"
| "lfq_do reuse (RunQueue t) s = (if qpc s t = QIdle then None else Some (lfq_run t s))"

definition lfq_start :: "lfq_sys \<Rightarrow> bool" where
  "lfq_start s \<longleftrightarrow>
     (\<exists>dummy m. dummy \<noteq> 0 \<and> live m = {} \<and> freed m = {} \<and> (queue s, qheap s) = lf_queue_init dummy m) \<and>
     (\<forall>t. qpc s t = QIdle) \<and> qhist s = []"

definition lfq_step :: "bool \<Rightarrow> lfq_sys \<Rightarrow> lfq_sys \<Rightarrow> bool" where
  "lfq_step reuse s s' \<longleftrightarrow> (\<exists>a. lfq_do reuse a s = Some s')"

text \<open>The same for the stack.\<close>

datatype lfs_pc = SIdle | Pushing u64 push_pc | Popping pop_pc

record lfs_sys =
  stack :: lf_stack_t
  sheap :: lf_heap
  spc :: "u64 \<Rightarrow> lfs_pc"
  shist :: "lf_event list"

datatype lfs_act = CallPush u64 u64 u64 | CallPop u64 | RunStack u64

text \<open>A pop of an empty stack takes effect when it reads the top; its event is \<open>Get 0\<close>.\<close>

fun lfs_effect :: "lfs_pc \<Rightarrow> lf_stack_t \<Rightarrow> lf_heap \<Rightarrow> lf_event list" where
  "lfs_effect (Pushing node (PushSwing old)) q m = (if top q = old then [Put (data (nodes m node))] else [])"
| "lfs_effect (Popping PopLoad) q m = (if top q = 0 then [Get 0] else [])"
| "lfs_effect (Popping (PopSwing old new d)) q m = (if top q = old then [Get d] else [])"
| "lfs_effect _ q m = []"

fun replay_stack :: "lf_event list \<Rightarrow> u64 list \<Rightarrow> u64 list option" where
  "replay_stack [] xs = Some xs"
| "replay_stack (Put d # es) xs = replay_stack es (d # xs)"
| "replay_stack (Get d # es) xs =
     (case xs of [] \<Rightarrow> if d = 0 then replay_stack es [] else None | x # ys \<Rightarrow> if x = d then replay_stack es ys else None)"

definition lfs_run :: "u64 \<Rightarrow> lfs_sys \<Rightarrow> lfs_sys" where
  "lfs_run t s =
     (let (pc, q, m) =
            (case spc s t of
               SIdle \<Rightarrow> (SIdle, stack s, sheap s)
             | Pushing node pc \<Rightarrow>
                 (case lf_stack_push node pc (stack s) (sheap s) of
                    (r, q, m) \<Rightarrow> (case r of None \<Rightarrow> SIdle | Some pc \<Rightarrow> Pushing node pc, q, m))
             | Popping pc \<Rightarrow>
                 (case lf_stack_pop pc (stack s) (sheap s) of
                    (r, q, m) \<Rightarrow> (case r of Inl pc \<Rightarrow> Popping pc | Inr d \<Rightarrow> SIdle, q, m)))
      in s\<lparr>stack := q, sheap := m, spc := (spc s)(t := pc),
           shist := shist s @ lfs_effect (spc s t) (stack s) (sheap s)\<rparr>)"

fun lfs_do :: "bool \<Rightarrow> lfs_act \<Rightarrow> lfs_sys \<Rightarrow> lfs_sys option" where
  "lfs_do reuse (CallPush t d a) s =
     (if spc s t \<noteq> SIdle then None
      else if d = 0 \<or> a = 0 then Some s
      else if lf_fresh reuse a (sheap s) then
        Some (s\<lparr>sheap := lf_new a ((nodes (sheap s) a)\<lparr>data := d\<rparr>) (sheap s), spc := (spc s)(t := Pushing a PushLoad)\<rparr>)
      else None)"
| "lfs_do reuse (CallPop t) s =
     (if spc s t \<noteq> SIdle then None else Some (s\<lparr>spc := (spc s)(t := Popping PopLoad)\<rparr>))"
| "lfs_do reuse (RunStack t) s = (if spc s t = SIdle then None else Some (lfs_run t s))"

definition lfs_start :: "lfs_sys \<Rightarrow> bool" where
  "lfs_start s \<longleftrightarrow>
     stack s = lf_stack_init \<and> live (sheap s) = {} \<and> freed (sheap s) = {} \<and> (\<forall>t. spc s t = SIdle) \<and> shist s = []"

definition lfs_step :: "bool \<Rightarrow> lfs_sys \<Rightarrow> lfs_sys \<Rightarrow> bool" where
  "lfs_step reuse s s' \<longleftrightarrow> (\<exists>a. lfs_do reuse a s = Some s')"

end
