(* ===== verification/Chains.thy ===== *)
theory Chains
  imports Prelude
begin

text \<open>Linked lists in memory: \<open>path f a xs\<close> says that following the pointers \<open>f\<close> from \<open>a\<close> visits \<open>xs\<close> and ends with NULL.\<close>

primrec path :: "(u64 \<Rightarrow> u64) \<Rightarrow> u64 \<Rightarrow> u64 list \<Rightarrow> bool" where
  "path f a [] \<longleftrightarrow> a = 0"
| "path f a (x # xs) \<longleftrightarrow> a = x \<and> x \<noteq> 0 \<and> path f (f x) xs"

lemma path_cong: "(\<And>x. x \<in> set xs \<Longrightarrow> f' x = f x) \<Longrightarrow> path f' a xs = path f a xs"
  by (induction xs arbitrary: a) auto

lemma path_nonzero: "path f a xs \<Longrightarrow> 0 \<notin> set xs"
  by (induction xs arbitrary: a) auto

lemma path_null: "path f a xs \<Longrightarrow> a = 0 \<longleftrightarrow> xs = []"
  by (cases xs) auto

lemma path_unique: "path f a xs \<Longrightarrow> path f a ys \<Longrightarrow> xs = ys"
  by (induction xs arbitrary: a ys) (metis path_null, metis path.simps list.exhaust)

text \<open>A path up to a node.\<close>

primrec segment :: "(u64 \<Rightarrow> u64) \<Rightarrow> u64 \<Rightarrow> u64 list \<Rightarrow> u64 \<Rightarrow> bool" where
  "segment f a [] b \<longleftrightarrow> a = b"
| "segment f a (x # xs) b \<longleftrightarrow> a = x \<and> x \<noteq> 0 \<and> segment f (f x) xs b"

lemma path_append: "path f a (xs @ ys) \<longleftrightarrow> (\<exists>b. segment f a xs b \<and> path f b ys)"
  by (induction xs arbitrary: a) auto

lemma segment_append: "segment f a (xs @ ys) c \<longleftrightarrow> (\<exists>b. segment f a xs b \<and> segment f b ys c)"
  by (induction xs arbitrary: a) auto

lemma segment_cong: "(\<And>x. x \<in> set xs \<Longrightarrow> f' x = f x) \<Longrightarrow> segment f' a xs b = segment f a xs b"
  by (induction xs arbitrary: a) auto

lemma path_upd [simp]: "x \<notin> set xs \<Longrightarrow> path (f(x := v)) a xs = path f a xs"
  by (induction xs arbitrary: a) auto

lemma segment_upd [simp]: "x \<notin> set xs \<Longrightarrow> segment (f(x := v)) a xs b = segment f a xs b"
  by (induction xs arbitrary: a) auto

lemma path_distinct: "path f a xs \<Longrightarrow> distinct xs"
proof (induction xs arbitrary: a)
  case (Cons x xs)
  have "x \<notin> set xs"
  proof
    assume "x \<in> set xs"
    then obtain ys zs where xs: "xs = ys @ x # zs" by (meson split_list)
    then have "path f x (x # zs)" using Cons.prems by (auto simp: path_append)
    moreover have "path f x (x # xs)" using Cons.prems by auto
    ultimately have "x # zs = x # xs" by (rule path_unique)
    then show False using xs by simp
  qed
  then show ?case using Cons by auto
qed simp

lemma path_split:
  "path f a (xs @ x # ys) \<longleftrightarrow> segment f a xs x \<and> x \<noteq> 0 \<and> path f (f x) ys"
  by (auto simp: path_append)

text \<open>Appending a node, which is not in the list, behind the last one.\<close>

lemma path_snoc:
  assumes "path f a (xs @ [l])" "t \<noteq> 0" "t \<notin> set (xs @ [l])"
  shows "path (f(l := t, t := 0)) a (xs @ [l, t])"
proof -
  have "l \<notin> set xs" using path_distinct [OF assms(1)] by simp
  then show ?thesis using assms by (auto simp: path_split)
qed

text \<open>Appending a node that is in the list already cuts off what follows it.\<close>

lemma path_cut:
  assumes "path f a (ys @ t # zs @ [l])"
  shows "path (f(l := t, t := 0)) a (ys @ [t])"
proof -
  have "distinct (ys @ t # zs @ [l])" using assms by (rule path_distinct)
  then show ?thesis using assms by (auto simp: path_split)
qed

lemma path_self:
  assumes "path f a (ys @ [t])"
  shows "path (f(t := 0)) a (ys @ [t])"
proof -
  have "t \<notin> set ys" using path_distinct [OF assms] by simp
  then show ?thesis using assms by (auto simp: path_split)
qed

text \<open>Taking a node out behind its predecessor.\<close>

lemma path_unlink:
  assumes "path f a (xs @ p # t # ys)"
  shows "path (f(p := f t)) a (xs @ p # ys)"
proof -
  have "distinct (xs @ p # t # ys)" using assms by (rule path_distinct)
  then show ?thesis using assms by (auto simp: path_split)
qed

end
