(* ===== verification/Lockfree_Stack.thy ===== *)
theory Lockfree_Stack
  imports Lockfree Chains
begin

text \<open>
  The invariant of the lock-free stack as long as freed nodes are not allocated again: the nodes from the top on hold what the
  history of effects leaves on a stack.
\<close>

section \<open>Counting threads\<close>

definition thread_count :: "('a \<Rightarrow> bool) \<Rightarrow> (u64 \<Rightarrow> 'a) \<Rightarrow> nat" where
  "thread_count P f = card {t. P (f t)}"

lemma thread_count_upd:
  assumes "finite {t. f t \<noteq> idle}" "\<not> P idle"
  shows "thread_count P (f(t := x)) + (if P (f t) then 1 else 0) = thread_count P f + (if P x then 1 else 0)"
proof -
  have fin: "finite {t. P (f t)}" using assms by (rule_tac finite_subset [OF _ assms(1)]) auto
  have "{u. P ((f(t := x)) u)} = (if P x then insert t ({u. P (f u)} - {t}) else {u. P (f u)} - {t})"
    by auto
  moreover have "P (f t) \<Longrightarrow> 0 < card {t. P (f t)}" using fin by (auto simp: card_gt_0_iff)
  ultimately show ?thesis
    using fin by (auto simp: thread_count_def card_insert_if)
qed

lemma finite_upd: "finite {t. f t \<noteq> idle} \<Longrightarrow> finite {u. (f(t := x)) u \<noteq> idle}"
  by (rule finite_subset [of _ "insert t {t. f t \<noteq> idle}"]) auto

text \<open>A counter that is adjusted after the fact: \<open>p\<close> threads still have to add one and \<open>q\<close> threads to subtract one.\<close>

lemma pending_balance:
  fixes z z' l p p' q q' a b c d :: u32
  assumes "z' + a + b = z + c + d" "p' + c = p + a" "q' + b = q + d" "z + p = l + q"
  shows "z' + p' = l + q'"
proof -
  have "z' = z + c + d - a - b" "p' = p + a - c" "q' = q + d - b" "z = l + q - p"
    using assms by (simp_all add: eq_diff_eq add_ac)
  then show ?thesis by simp
qed

section \<open>The stack\<close>

abbreviation lf_path :: "(u64 \<Rightarrow> lf_queue_node_t) \<Rightarrow> u64 \<Rightarrow> u64 list \<Rightarrow> bool" where
  "lf_path N \<equiv> path (\<lambda>a. nextp (N a))"

lemma lf_path_cong: "(\<And>x. x \<in> set xs \<Longrightarrow> N' x = N x) \<Longrightarrow> lf_path N' a xs = lf_path N a xs"
  by (rule path_cong) simp

lemma replay_stack_append:
  "replay_stack (es @ fs) xs = (case replay_stack es xs of None \<Rightarrow> None | Some ys \<Rightarrow> replay_stack fs ys)"
  by (induction es xs rule: replay_stack.induct) (auto split: list.splits)

definition known :: "lf_heap \<Rightarrow> u64 set" where
  "known m = live m \<union> freed m"

lemma known_simps [simp]:
  "known (lf_kfree a m) = insert a (known m)" "known (lf_new a n m) = insert a (known m)"
  "known (m\<lparr>nodes := N\<rparr>) = known m"
  by (auto simp: known_def lf_kfree_def lf_new_def)

lemma nodes_simps [simp]: "nodes (lf_kfree a m) = nodes m" "nodes (lf_new a n m) = (nodes m)(a := n)"
  by (simp_all add: lf_kfree_def lf_new_def)

text \<open>The node that a pushing thread has not linked yet.\<close>

fun push_node :: "lfs_pc \<Rightarrow> u64 option" where
  "push_node (Pushing n pc) = (if pc = PushCount then None else Some n)"
| "push_node _ = None"

text \<open>What a thread knows about the nodes it has read; \<open>own\<close> are the nodes not linked yet.\<close>

fun lfs_local :: "u64 set \<Rightarrow> lf_heap \<Rightarrow> lfs_pc \<Rightarrow> bool" where
  "lfs_local own m (Pushing n (PushSwing old)) \<longleftrightarrow> nextp (nodes m n) = old"
| "lfs_local own m (Popping (PopNext old)) \<longleftrightarrow> old \<in> known m - own"
| "lfs_local own m (Popping (PopData old new)) \<longleftrightarrow> old \<in> known m - own \<and> new = nextp (nodes m old)"
| "lfs_local own m (Popping (PopSwing old new d)) \<longleftrightarrow>
     old \<in> known m - own \<and> new = nextp (nodes m old) \<and> d = data (nodes m old)"
| "lfs_local own m (Popping (PopFree old d)) \<longleftrightarrow> old \<in> known m"
| "lfs_local own m _ \<longleftrightarrow> True"

definition own_nodes :: "lfs_sys \<Rightarrow> u64 set" where
  "own_nodes s = {n. \<exists>t. push_node (spc s t) = Some n}"

definition push_pending :: "lfs_pc \<Rightarrow> bool" where
  "push_pending pc \<longleftrightarrow> (\<exists>n. pc = Pushing n PushCount)"

definition pop_pending :: "lfs_pc \<Rightarrow> bool" where
  "pop_pending pc \<longleftrightarrow> (\<exists>old d. pc = Popping (PopFree old d)) \<or> (\<exists>d. pc = Popping (PopCount d))"

definition lfs_inv :: "u64 list \<Rightarrow> lfs_sys \<Rightarrow> bool" where
  "lfs_inv xs s \<longleftrightarrow>
     lf_path (nodes (sheap s)) (top (stack s)) xs \<and> set xs \<subseteq> known (sheap s) - own_nodes s \<and> 0 \<notin> known (sheap s) \<and>
     own_nodes s \<subseteq> known (sheap s) \<and>
     replay_stack (shist s) [] = Some (map (\<lambda>a. data (nodes (sheap s) a)) xs) \<and>
     (\<forall>t u n. push_node (spc s t) = Some n \<and> push_node (spc s u) = Some n \<longrightarrow> t = u) \<and>
     (\<forall>t. lfs_local (own_nodes s) (sheap s) (spc s t)) \<and>
     finite {t. spc s t \<noteq> SIdle} \<and>
     stack_size (stack s) + of_nat (thread_count push_pending (spc s)) =
       of_nat (length xs) + of_nat (thread_count pop_pending (spc s))"

lemma own_nodes_upd:
  assumes "lfs_inv xs s" "spc s' = (spc s)(t := pc)"
  shows "own_nodes s' = (own_nodes s - set_option (push_node (spc s t))) \<union> set_option (push_node pc)"
proof -
  have uni: "\<And>u n. push_node (spc s t) = Some n \<Longrightarrow> push_node (spc s u) = Some n \<Longrightarrow> u = t"
    using assms(1) by (auto simp: lfs_inv_def)
  show ?thesis
  proof (intro set_eqI iffI)
    fix n
    assume "n \<in> own_nodes s'"
    then obtain u where u: "push_node (((spc s)(t := pc)) u) = Some n" using assms(2) by (auto simp: own_nodes_def)
    show "n \<in> (own_nodes s - set_option (push_node (spc s t))) \<union> set_option (push_node pc)"
    proof (cases "u = t")
      case False
      then have "push_node (spc s u) = Some n" using u by simp
      then show ?thesis using uni [of n u] False by (auto simp: own_nodes_def)
    qed (use u in simp)
  next
    fix n
    assume "n \<in> (own_nodes s - set_option (push_node (spc s t))) \<union> set_option (push_node pc)"
    then consider "push_node pc = Some n" | u where "push_node (spc s u) = Some n" "push_node (spc s t) \<noteq> Some n"
      by (auto simp: own_nodes_def)
    then show "n \<in> own_nodes s'"
    proof cases
      case 1
      then show ?thesis using assms(2) by (auto simp: own_nodes_def intro!: exI [of _ t])
    next
      case (2 u)
      then have "u \<noteq> t" by auto
      then show ?thesis using assms(2) 2 by (auto simp: own_nodes_def intro!: exI [of _ u])
    qed
  qed
qed

text \<open>A step of thread \<open>t\<close> changes at most the thread's own node and the linked list.\<close>

lemma lfs_inv_step:
  assumes inv: "lfs_inv xs s"
    and s': "spc s' = (spc s)(t := pc)" "known (sheap s') = known (sheap s) \<union> set_option (push_node pc)"
    and keep: "\<And>a. a \<in> known (sheap s) \<Longrightarrow> push_node (spc s t) \<noteq> Some a \<Longrightarrow> nodes (sheap s') a = nodes (sheap s) a"
    and node: "\<And>n. push_node pc = Some n \<Longrightarrow> n \<noteq> 0 \<and> (push_node (spc s t) = Some n \<or> n \<notin> known (sheap s))"
    and local: "lfs_local (own_nodes s') (sheap s') pc"
    and path: "lf_path (nodes (sheap s')) (top (stack s')) ys" "set ys \<subseteq> known (sheap s') - own_nodes s'"
    and replay: "replay_stack (shist s') [] = Some (map (\<lambda>a. data (nodes (sheap s') a)) ys)"
    and size: "stack_size (stack s') + of_nat (thread_count push_pending (spc s')) =
       of_nat (length ys) + of_nat (thread_count pop_pending (spc s'))"
  shows "lfs_inv ys s'"
proof -
  note own = own_nodes_upd [OF inv s'(1)]
  have uni: "\<And>u v n. push_node (spc s u) = Some n \<Longrightarrow> push_node (spc s v) = Some n \<Longrightarrow> u = v"
    and loc: "\<And>u. lfs_local (own_nodes s) (sheap s) (spc s u)" and sub: "own_nodes s \<subseteq> known (sheap s)"
    using inv by (auto simp: lfs_inv_def)
  have knw: "\<And>u n. push_node (spc s u) = Some n \<Longrightarrow> n \<in> known (sheap s)" using sub by (auto simp: own_nodes_def)
  have uniq: "u = v" if "push_node (spc s' u) = Some n" "push_node (spc s' v) = Some n" for u v n
    using that uni [of u n v] uni [of t n u] uni [of t n v] node [of n] knw [of u n] knw [of v n]
    by (auto simp: s'(1) split: if_splits)
  have "lfs_local (own_nodes s') (sheap s') (spc s u)" if "u \<noteq> t" for u
  proof -
    have mine: "push_node (spc s u) = Some n \<Longrightarrow> push_node (spc s t) \<noteq> Some n" for n using uni [of u n t] that by blast
    have out: "a \<in> known (sheap s') - own_nodes s' \<and> nodes (sheap s') a = nodes (sheap s) a"
      if a: "a \<in> known (sheap s) - own_nodes s" for a
    proof -
      have "push_node (spc s t) \<noteq> Some a" using a by (auto simp: own_nodes_def)
      moreover from this have "push_node pc \<noteq> Some a" using a node by auto
      ultimately show ?thesis using a keep own s'(2) by auto
    qed
    have own_keep: "nodes (sheap s') n = nodes (sheap s) n" if "push_node (spc s u) = Some n" for n
      using keep knw mine that by blast
    show ?thesis
      using loc [of u] out own_keep s'(2)
      by (cases "(own_nodes s, sheap s, spc s u)" rule: lfs_local.cases) auto
  qed
  then have "lfs_local (own_nodes s') (sheap s') (spc s' u)" for u using local s'(1) by simp
  moreover have "0 \<notin> known (sheap s')" using inv s'(2) node by (auto simp: lfs_inv_def)
  moreover have "own_nodes s' \<subseteq> known (sheap s')" using own sub s'(2) by auto
  moreover have "finite {t. spc s' t \<noteq> SIdle}" using inv by (simp add: lfs_inv_def s'(1) finite_upd del: fun_upd_apply)
  ultimately show ?thesis using path replay size uniq by (simp add: lfs_inv_def)
qed

text \<open>In most steps the list stays as it is.\<close>

lemma lfs_inv_quiet:
  assumes inv: "lfs_inv xs s"
    and s': "spc s' = (spc s)(t := pc)" "known (sheap s') = known (sheap s) \<union> set_option (push_node pc)"
      "top (stack s') = top (stack s)" "shist s' = shist s"
    and keep: "\<And>a. a \<in> known (sheap s) \<Longrightarrow> push_node (spc s t) \<noteq> Some a \<Longrightarrow> nodes (sheap s') a = nodes (sheap s) a"
    and node: "\<And>n. push_node pc = Some n \<Longrightarrow> n \<noteq> 0 \<and> (push_node (spc s t) = Some n \<or> n \<notin> known (sheap s))"
    and local: "own_nodes s' = (own_nodes s - set_option (push_node (spc s t))) \<union> set_option (push_node pc) \<Longrightarrow>
      lfs_local (own_nodes s') (sheap s') pc"
    and size: "stack_size (stack s') + of_nat (if push_pending pc then 1 else 0) + of_nat (if pop_pending (spc s t) then 1 else 0) =
       stack_size (stack s) + of_nat (if push_pending (spc s t) then 1 else 0) + of_nat (if pop_pending pc then 1 else 0)"
  shows "lfs_inv xs s'"
proof -
  have i: "lf_path (nodes (sheap s)) (top (stack s)) xs" "set xs \<subseteq> known (sheap s) - own_nodes s"
    "replay_stack (shist s) [] = Some (map (\<lambda>a. data (nodes (sheap s) a)) xs)"
    "stack_size (stack s) + of_nat (thread_count push_pending (spc s)) =
       of_nat (length xs) + of_nat (thread_count pop_pending (spc s))" "finite {t. spc s t \<noteq> SIdle}"
    using inv by (simp_all add: lfs_inv_def)
  note own = own_nodes_upd [OF inv s'(1)]
  have N: "nodes (sheap s') x = nodes (sheap s) x \<and> push_node (spc s t) \<noteq> Some x" if "x \<in> set xs" for x
    using that i(2) keep [of x] by (auto simp: own_nodes_def)
  have path: "lf_path (nodes (sheap s')) (top (stack s')) xs" using i(1) lf_path_cong [of xs "nodes (sheap s')" "nodes (sheap s)"] N s'(3) by simp
  have replay: "replay_stack (shist s') [] = Some (map (\<lambda>a. data (nodes (sheap s') a)) xs)" using i(3) N s'(4) by (simp cong: map_cong)
  have sub: "set xs \<subseteq> known (sheap s') - own_nodes s'"
  proof
    fix x
    assume x: "x \<in> set xs"
    then have "push_node pc \<noteq> Some x" using node [of x] N i(2) by auto
    with x i(2) show "x \<in> known (sheap s') - own_nodes s'" unfolding own s'(2) by auto
  qed
  note count = thread_count_upd [OF i(5), of push_pending t pc, folded s'(1)] thread_count_upd [OF i(5), of pop_pending t pc, folded s'(1)]
  have count': "thread_count push_pending (spc s') + (if push_pending (spc s t) then 1 else 0) =
      thread_count push_pending (spc s) + (if push_pending pc then 1 else 0)"
    "thread_count pop_pending (spc s') + (if pop_pending (spc s t) then 1 else 0) =
      thread_count pop_pending (spc s) + (if pop_pending pc then 1 else 0)"
    using count by (simp_all add: push_pending_def pop_pending_def)
  note cw = arg_cong [OF count'(1), of "of_nat :: nat \<Rightarrow> u32"] arg_cong [OF count'(2), of "of_nat :: nat \<Rightarrow> u32"]
  have "stack_size (stack s') + of_nat (thread_count push_pending (spc s')) =
       of_nat (length xs) + of_nat (thread_count pop_pending (spc s'))"
    using size cw [unfolded of_nat_add] i(4) by (rule pending_balance)
  then show ?thesis
    by (intro lfs_inv_step [OF inv s'(1,2) keep node local path sub replay]) (simp_all add: own)
qed

lemma lf_fresh_known: "lf_fresh False a m \<longleftrightarrow> a \<noteq> 0 \<and> a \<notin> known m"
  by (auto simp: lf_fresh_def known_def)

lemmas pending_defs = push_pending_def pop_pending_def

lemma lfs_call_push:
  assumes "lfs_inv xs s" "spc s t = SIdle" "lf_fresh False a (sheap s)"
  shows "lfs_inv xs (s\<lparr>sheap := lf_new a n (sheap s), spc := (spc s)(t := Pushing a PushLoad)\<rparr>)"
  using assms(2,3) by (intro lfs_inv_quiet [OF assms(1), of _ t "Pushing a PushLoad"]) (auto simp: lf_fresh_known pending_defs)

lemma lfs_call_pop:
  assumes "lfs_inv xs s" "spc s t = SIdle"
  shows "lfs_inv xs (s\<lparr>spc := (spc s)(t := Popping PopLoad)\<rparr>)"
  using assms(2) by (intro lfs_inv_quiet [OF assms(1), of _ t "Popping PopLoad"]) (auto simp: pending_defs)

lemma lfs_link:
  assumes inv: "lfs_inv xs s" and pc: "spc s t = Pushing n (PushSwing old)" and top: "top (stack s) = old"
  shows "lfs_inv (n # xs) (lfs_run t s)"
proof -
  let ?s = "lfs_run t s"
  have s': "?s = s\<lparr>stack := (stack s)\<lparr>top := n\<rparr>, spc := (spc s)(t := Pushing n PushCount),
      shist := shist s @ [Put (data (nodes (sheap s) n))]\<rparr>"
    using pc top by (simp add: lfs_run_def lf_compare_exchange_def)
  have i: "lf_path (nodes (sheap s)) (top (stack s)) xs" "set xs \<subseteq> known (sheap s) - own_nodes s"
    "replay_stack (shist s) [] = Some (map (\<lambda>a. data (nodes (sheap s) a)) xs)"
    "stack_size (stack s) + of_nat (thread_count push_pending (spc s)) =
       of_nat (length xs) + of_nat (thread_count pop_pending (spc s))" "finite {t. spc s t \<noteq> SIdle}"
    "lfs_local (own_nodes s) (sheap s) (spc s t)" "own_nodes s \<subseteq> known (sheap s)" "0 \<notin> known (sheap s)"
    using inv by (simp_all add: lfs_inv_def)
  have n: "n \<in> own_nodes s" using pc by (auto simp: own_nodes_def intro!: exI [of _ t])
  have own: "own_nodes ?s = own_nodes s - {n}" using own_nodes_upd [OF inv, of ?s t "Pushing n PushCount"] pc by (simp add: s')
  show ?thesis
  proof (rule lfs_inv_step [OF inv, of _ t "Pushing n PushCount"])
    show "lf_path (nodes (sheap ?s)) (top (stack ?s)) (n # xs)" using i n pc top by (auto simp: s')
    show "set (n # xs) \<subseteq> known (sheap ?s) - own_nodes ?s" using i(2,7) n own by (auto simp: s')
    show "replay_stack (shist ?s) [] = Some (map (\<lambda>a. data (nodes (sheap ?s) a)) (n # xs))"
      using i(3) by (simp add: s' replay_stack_append)
    show "stack_size (stack ?s) + of_nat (thread_count push_pending (spc ?s)) =
       of_nat (length (n # xs)) + of_nat (thread_count pop_pending (spc ?s))"
      using i(4) thread_count_upd [OF i(5), of push_pending t "Pushing n PushCount"]
        thread_count_upd [OF i(5), of pop_pending t "Pushing n PushCount"] pc by (simp add: s' pending_defs)
  qed (use pc in \<open>simp_all add: s'\<close>)
qed

lemma lfs_unlink:
  assumes inv: "lfs_inv xs s" and pc: "spc s t = Popping (PopSwing old new d)" and top: "top (stack s) = old"
  shows "\<exists>ys. lfs_inv ys (lfs_run t s)"
proof -
  let ?s = "lfs_run t s" and ?pc = "Popping (PopFree old d)"
  have s': "?s = s\<lparr>stack := (stack s)\<lparr>top := new\<rparr>, spc := (spc s)(t := ?pc), shist := shist s @ [Get d]\<rparr>"
    using pc top by (simp add: lfs_run_def lf_compare_exchange_def)
  have i: "lf_path (nodes (sheap s)) (top (stack s)) xs" "set xs \<subseteq> known (sheap s) - own_nodes s"
    "replay_stack (shist s) [] = Some (map (\<lambda>a. data (nodes (sheap s) a)) xs)"
    "stack_size (stack s) + of_nat (thread_count push_pending (spc s)) =
       of_nat (length xs) + of_nat (thread_count pop_pending (spc s))" "finite {t. spc s t \<noteq> SIdle}"
    "lfs_local (own_nodes s) (sheap s) (spc s t)" "0 \<notin> known (sheap s)"
    using inv by (simp_all add: lfs_inv_def)
  have old: "old \<in> known (sheap s)" "new = nextp (nodes (sheap s) old)" "d = data (nodes (sheap s) old)" using i(6) pc by simp_all
  then obtain ys where xs: "xs = old # ys" "lf_path (nodes (sheap s)) new ys" using i(1,7) top by (cases xs) auto
  have own: "own_nodes ?s = own_nodes s" using own_nodes_upd [OF inv, of ?s t ?pc] pc by (simp add: s')
  have "lfs_inv ys ?s"
  proof (rule lfs_inv_step [OF inv, of _ t ?pc])
    show "lf_path (nodes (sheap ?s)) (top (stack ?s)) ys" using xs(2) by (simp add: s')
    show "set ys \<subseteq> known (sheap ?s) - own_nodes ?s" unfolding own using i(2) xs(1) by (simp add: s')
    show "replay_stack (shist ?s) [] = Some (map (\<lambda>a. data (nodes (sheap ?s) a)) ys)"
      using i(3) xs(1) old(3) by (simp add: s' replay_stack_append)
    show "stack_size (stack ?s) + of_nat (thread_count push_pending (spc ?s)) =
       of_nat (length ys) + of_nat (thread_count pop_pending (spc ?s))"
      using i(4) xs(1) thread_count_upd [OF i(5), of push_pending t ?pc] thread_count_upd [OF i(5), of pop_pending t ?pc] pc
      by (simp add: s' pending_defs)
  qed (use pc old(1) in \<open>simp_all add: s'\<close>)
  then show ?thesis ..
qed

lemmas lfs_run_simps = lfs_run_def lf_compare_exchange_def atomic_fetch_add_def atomic_fetch_sub_def pending_defs

lemma lfs_run_push:
  assumes inv: "lfs_inv xs s" and pc: "spc s t = Pushing n pc"
  shows "\<exists>ys. lfs_inv ys (lfs_run t s)"
proof -
  have k: "n \<in> known (sheap s)" "n \<noteq> 0" if "pc \<noteq> PushCount"
  proof -
    have "n \<in> own_nodes s" using pc that by (auto simp: own_nodes_def intro!: exI [of _ t])
    then show "n \<in> known (sheap s)" "n \<noteq> 0" using inv by (auto simp: lfs_inv_def)
  qed
  show ?thesis
  proof (cases pc)
    case PushLoad
    then show ?thesis using pc k by (intro exI [of _ xs] lfs_inv_quiet [OF inv, of _ t "Pushing n (PushNext (top (stack s)))"]) (auto simp: lfs_run_simps)
  next
    case (PushNext old)
    then show ?thesis using pc k by (intro exI [of _ xs] lfs_inv_quiet [OF inv, of _ t "Pushing n (PushSwing old)"]) (auto simp: lfs_run_simps)
  next
    case (PushSwing old)
    show ?thesis
    proof (cases "top (stack s) = old")
      case True
      with pc PushSwing show ?thesis using lfs_link [OF inv] by blast
    next
      case False
      with pc PushSwing k show ?thesis
        by (intro exI [of _ xs] lfs_inv_quiet [OF inv, of _ t "Pushing n PushLoad"]) (auto simp: lfs_run_simps)
    qed
  next
    case PushCount
    then show ?thesis using pc by (intro exI [of _ xs] lfs_inv_quiet [OF inv, of _ t SIdle]) (auto simp: lfs_run_simps)
  qed
qed

lemma lfs_inv_miss:
  assumes "lfs_inv [] (s\<lparr>spc := f\<rparr>)"
  shows "lfs_inv [] (s\<lparr>spc := f, shist := shist s @ [Get 0]\<rparr>)"
proof -
  have own: "own_nodes (s\<lparr>spc := f, shist := shist s @ [Get 0]\<rparr>) = own_nodes (s\<lparr>spc := f\<rparr>)"
    by (simp add: own_nodes_def)
  show ?thesis using assms unfolding lfs_inv_def own by (simp add: replay_stack_append)
qed

lemma lfs_run_pop:
  assumes inv: "lfs_inv xs s" and pc: "spc s t = Popping pc"
  shows "\<exists>ys. lfs_inv ys (lfs_run t s)"
proof -
  have i: "lf_path (nodes (sheap s)) (top (stack s)) xs" "set xs \<subseteq> known (sheap s) - own_nodes s"
    "lfs_local (own_nodes s) (sheap s) (spc s t)"
    using inv by (simp_all add: lfs_inv_def)
  show ?thesis
  proof (cases pc)
    case PopLoad
    show ?thesis
    proof (cases xs)
      case Nil
      then have top: "top (stack s) = 0" using i(1) by simp
      have "lfs_inv [] (s\<lparr>spc := (spc s)(t := SIdle)\<rparr>)"
        using pc PopLoad by (intro lfs_inv_quiet [OF inv [unfolded Nil], of _ t SIdle]) (auto simp: pending_defs)
      then have "lfs_inv [] (s\<lparr>spc := (spc s)(t := SIdle), shist := shist s @ [Get 0]\<rparr>)" by (rule lfs_inv_miss)
      then show ?thesis using pc PopLoad top by (intro exI [of _ "[]"]) (simp add: lfs_run_def)
    next
      case (Cons x ys)
      then have "top (stack s) = x" "x \<noteq> 0" "x \<in> known (sheap s) - own_nodes s" using i by auto
      then show ?thesis using pc PopLoad by (intro exI [of _ xs] lfs_inv_quiet [OF inv, of _ t "Popping (PopNext x)"]) (auto simp: lfs_run_simps)
    qed
  next
    case (PopNext old)
    then show ?thesis using pc i(3)
      by (intro exI [of _ xs] lfs_inv_quiet [OF inv, of _ t "Popping (PopData old (nextp (nodes (sheap s) old)))"]) (auto simp: lfs_run_simps)
  next
    case (PopData old new)
    then show ?thesis using pc i(3)
      by (intro exI [of _ xs] lfs_inv_quiet [OF inv, of _ t "Popping (PopSwing old new (data (nodes (sheap s) old)))"]) (auto simp: lfs_run_simps)
  next
    case (PopSwing old new d)
    show ?thesis
    proof (cases "top (stack s) = old")
      case True
      with pc PopSwing show ?thesis using lfs_unlink [OF inv] by blast
    next
      case False
      with pc PopSwing show ?thesis
        by (intro exI [of _ xs] lfs_inv_quiet [OF inv, of _ t "Popping PopLoad"]) (auto simp: lfs_run_simps)
    qed
  next
    case (PopFree old d)
    then show ?thesis using pc i(3) by (intro exI [of _ xs] lfs_inv_quiet [OF inv, of _ t "Popping (PopCount d)"]) (auto simp: lfs_run_simps)
  next
    case (PopCount d)
    then show ?thesis using pc by (intro exI [of _ xs] lfs_inv_quiet [OF inv, of _ t SIdle]) (auto simp: lfs_run_simps)
  qed
qed

lemma lfs_do_inv:
  assumes "lfs_inv xs s" "lfs_do False a s = Some s'"
  shows "\<exists>ys. lfs_inv ys s'"
proof (cases a)
  case (CallPush t d a)
  then show ?thesis using assms lfs_call_push [OF assms(1), of t a] by (auto split: if_splits)
next
  case (CallPop t)
  then show ?thesis using assms lfs_call_pop [OF assms(1), of t] by (auto split: if_splits)
next
  case (RunStack t)
  then show ?thesis
    using assms lfs_run_push [OF assms(1), of t] lfs_run_pop [OF assms(1), of t] by (cases "spc s t") auto
qed

lemma lfs_start_inv: "lfs_start s \<Longrightarrow> lfs_inv [] s"
  by (simp add: lfs_start_def lfs_inv_def lf_stack_init_def known_def own_nodes_def thread_count_def pending_defs)

interpretation lfs: transition_system lfs_start "lfs_step False" "\<lambda>s. \<exists>xs. lfs_inv xs s"
  by unfold_locales (auto intro: lfs_start_inv simp: lfs_step_def dest: lfs_do_inv)

end
