(* ===== verification/Lockfree_Queue.thy ===== *)
theory Lockfree_Queue
  imports Lockfree_Stack
begin

text \<open>
  The invariant of the lock-free queue as long as freed nodes are not allocated again. \<open>ns\<close> are all nodes ever linked, in
  order; the head is at position \<open>h\<close>, the tail at position \<open>t\<close>, and both only move forward.
\<close>

lemma replay_queue_append:
  "replay_queue (es @ fs) xs = (case replay_queue es xs of None \<Rightarrow> None | Some ys \<Rightarrow> replay_queue fs ys)"
  by (induction es xs rule: replay_queue.induct) (auto split: list.splits)

text \<open>The node that an enqueueing thread has not linked yet.\<close>

fun enq_node :: "lfq_pc \<Rightarrow> u64 option" where
  "enq_node (Enqueueing n pc) = (case pc of SwingTail tp \<Rightarrow> None | CountUp \<Rightarrow> None | _ \<Rightarrow> Some n)"
| "enq_node _ = None"

text \<open>What a thread knows about the pointers it has read: \<open>nth_of ns i a\<close> says that \<open>a\<close> is node number \<open>i\<close>.\<close>

definition nth_of :: "u64 list \<Rightarrow> nat \<Rightarrow> u64 \<Rightarrow> bool" where
  "nth_of ns i a \<longleftrightarrow> i < length ns \<and> ns ! i = a"

lemma nth_of_append: "nth_of ns i a \<Longrightarrow> nth_of (ns @ zs) i a"
  by (simp add: nth_of_def nth_append)

lemma nth_of_mem: "nth_of ns i a \<Longrightarrow> a \<in> set ns"
  by (auto simp: nth_of_def)

fun lfq_local :: "u64 list \<Rightarrow> nat \<Rightarrow> nat \<Rightarrow> bool \<Rightarrow> (u64 \<Rightarrow> u64) \<Rightarrow> lfq_pc \<Rightarrow> bool" where
  "lfq_local ns h t seen D (Enqueueing n (LoadNext tp)) \<longleftrightarrow> (\<exists>i \<le> t. nth_of ns i tp)"
| "lfq_local ns h t seen D (Enqueueing n (CheckTail tp nx)) \<longleftrightarrow> (\<exists>i \<le> t. nth_of ns i tp \<and> (nx = 0 \<or> nth_of ns (Suc i) nx))"
| "lfq_local ns h t seen D (Enqueueing n (LinkNode tp)) \<longleftrightarrow> (\<exists>i \<le> t. nth_of ns i tp)"
| "lfq_local ns h t seen D (Enqueueing n (HelpTail tp nx)) \<longleftrightarrow> (\<exists>i \<le> t. nth_of ns i tp \<and> nth_of ns (Suc i) nx)"
| "lfq_local ns h t seen D (Enqueueing n (SwingTail tp)) \<longleftrightarrow> (\<exists>i \<le> t. nth_of ns i tp \<and> nth_of ns (Suc i) n)"
| "lfq_local ns h t seen D (Dequeueing (LoadTail2 hp)) \<longleftrightarrow> (\<exists>j \<le> h. nth_of ns j hp)"
| "lfq_local ns h t seen D (Dequeueing (LoadNext2 hp tp)) \<longleftrightarrow> (\<exists>j \<le> h. \<exists>i \<le> t. nth_of ns j hp \<and> nth_of ns i tp \<and> j \<le> i)"
| "lfq_local ns h t seen D (Dequeueing (CheckHead hp tp nx)) \<longleftrightarrow>
     (\<exists>j \<le> h. \<exists>i \<le> t. nth_of ns j hp \<and> nth_of ns i tp \<and> j \<le> i \<and>
        (nx = 0 \<and> j = i \<and> (j < h \<or> seen) \<or> nth_of ns (Suc j) nx))"
| "lfq_local ns h t seen D (Dequeueing (HelpTail2 tp nx)) \<longleftrightarrow> (\<exists>i \<le> t. nth_of ns i tp \<and> nth_of ns (Suc i) nx)"
| "lfq_local ns h t seen D (Dequeueing (ReadData hp nx)) \<longleftrightarrow> (\<exists>j \<le> h. nth_of ns j hp \<and> j < t \<and> nth_of ns (Suc j) nx)"
| "lfq_local ns h t seen D (Dequeueing (SwingHead hp nx d)) \<longleftrightarrow>
     (\<exists>j \<le> h. nth_of ns j hp \<and> j < t \<and> nth_of ns (Suc j) nx \<and> d = D nx)"
| "lfq_local ns h t seen D (Dequeueing (FreeHead hp d)) \<longleftrightarrow> (\<exists>j < h. nth_of ns j hp)"
| "lfq_local ns h t seen D _ \<longleftrightarrow> True"

lemma lfq_local_mono:
  assumes "lfq_local ns h t seen D pc" "h \<le> h'" "t \<le> t'" "seen \<Longrightarrow> seen'"
    and "\<And>a. a \<in> set ns \<Longrightarrow> D' a = D a"
  shows "lfq_local (ns @ zs) h' t' seen' D' pc"
  using assms
proof (cases "(ns, h, t, seen, D, pc)" rule: lfq_local.cases)
  case (8 ns0 h0 t0 seen0 D0 hp tp nx)
  then obtain j i where ji: "j \<le> h" "i \<le> t" "nth_of ns j hp" "nth_of ns i tp" "j \<le> i"
    "nx = 0 \<and> j = i \<and> (j < h \<or> seen) \<or> nth_of ns (Suc j) nx"
    using assms(1) by auto
  then have "nx = 0 \<and> j = i \<and> (j < h' \<or> seen') \<or> nth_of (ns @ zs) (Suc j) nx"
    using assms(2,4) by (auto intro: nth_of_append)
  moreover have pc: "pc = Dequeueing (CheckHead hp tp nx)" using 8 by simp
  ultimately show ?thesis
    unfolding pc lfq_local.simps using ji assms(2,3) by (intro exI [of _ j] exI [of _ i] conjI) (auto intro: nth_of_append)
next
  case (11 ns0 h0 t0 seen0 D0 hp nx d)
  then obtain j where "j \<le> h" "nth_of ns j hp" "j < t" "nth_of ns (Suc j) nx" "d = D nx" using assms(1) by auto
  then show ?thesis using 11 assms(2,3,5) by (auto intro!: exI [of _ j] intro: nth_of_append dest: nth_of_mem)
qed (use assms(2,3) in \<open>auto intro: nth_of_append, (meson nth_of_append le_trans less_le_trans)+\<close>)

definition enq_pending :: "lfq_pc \<Rightarrow> bool" where
  "enq_pending pc \<longleftrightarrow> (\<exists>n tp. pc = Enqueueing n (SwingTail tp)) \<or> (\<exists>n. pc = Enqueueing n CountUp)"

definition deq_pending :: "lfq_pc \<Rightarrow> bool" where
  "deq_pending pc \<longleftrightarrow> (\<exists>hp d. pc = Dequeueing (FreeHead hp d)) \<or> (\<exists>d. pc = Dequeueing (CountDown d))"

lemmas enq_deq_pending = enq_pending_def deq_pending_def

text \<open>The list itself.\<close>

definition lfq_shape :: "u64 list \<Rightarrow> nat \<Rightarrow> nat \<Rightarrow> lf_queue_t \<Rightarrow> lf_heap \<Rightarrow> bool" where
  "lfq_shape ns h t q m \<longleftrightarrow>
     distinct ns \<and> set ns \<subseteq> known m \<and> h \<le> t \<and> t < length ns \<and> length ns \<le> t + 2 \<and>
     head q = ns ! h \<and> tail q = ns ! t \<and>
     (\<forall>i < length ns. nextp (nodes m (ns ! i)) = (if Suc i < length ns then ns ! Suc i else 0))"

abbreviation datas :: "lf_heap \<Rightarrow> u64 \<Rightarrow> u64" where
  "datas m \<equiv> \<lambda>a. data (nodes m a)"

definition lfq_inv :: "u64 list \<Rightarrow> nat \<Rightarrow> nat \<Rightarrow> lfq_sys \<Rightarrow> bool" where
  "lfq_inv ns h t s \<longleftrightarrow>
     lfq_shape ns h t (queue s) (qheap s) \<and> 0 \<notin> known (qheap s) \<and>
     replay_queue (qhist s) [] = Some (map (datas (qheap s)) (drop (Suc h) ns)) \<and>
     (\<forall>u n. enq_node (qpc s u) = Some n \<longrightarrow> n \<in> known (qheap s) - set ns \<and> nextp (nodes (qheap s) n) = 0) \<and>
     (\<forall>u v n. enq_node (qpc s u) = Some n \<and> enq_node (qpc s v) = Some n \<longrightarrow> u = v) \<and>
     (\<forall>u. lfq_local ns h t (qseen s u) (datas (qheap s)) (qpc s u)) \<and>
     finite {u. qpc s u \<noteq> QIdle} \<and>
     queue_size (queue s) + of_nat (thread_count enq_pending (qpc s)) =
       of_nat (length ns - Suc h) + of_nat (thread_count deq_pending (qpc s))"

lemma lfq_inv_step:
  assumes inv: "lfq_inv ns h t s" and pc: "qpc s' = (qpc s)(u := pc)"
    and known: "known (qheap s') = known (qheap s) \<union> set_option (enq_node pc)"
    and shape: "lfq_shape (ns @ zs) h' t' (queue s') (qheap s')" and le: "h \<le> h'" "t \<le> t'"
    and zs: "set zs \<subseteq> set_option (enq_node (qpc s u))" "set zs \<inter> set_option (enq_node pc) = {}"
    and keep: "\<And>a. a \<in> known (qheap s) \<Longrightarrow> datas (qheap s') a = datas (qheap s) a"
    and next0: "\<And>a. a \<in> known (qheap s) - set ns \<Longrightarrow> enq_node (qpc s u) \<noteq> Some a \<Longrightarrow> nextp (nodes (qheap s') a) = nextp (nodes (qheap s) a)"
    and node: "\<And>n. enq_node pc = Some n \<Longrightarrow> n \<noteq> 0 \<and> (enq_node (qpc s u) = Some n \<or> n \<notin> known (qheap s)) \<and> nextp (nodes (qheap s') n) = 0"
    and seen: "\<And>v. v \<noteq> u \<Longrightarrow> qseen s v \<Longrightarrow> qseen s' v"
    and local: "lfq_local (ns @ zs) h' t' (qseen s' u) (datas (qheap s')) pc"
    and replay: "replay_queue (qhist s') [] = Some (map (datas (qheap s')) (drop (Suc h') (ns @ zs)))"
    and size: "queue_size (queue s') + of_nat (thread_count enq_pending (qpc s')) =
       of_nat (length (ns @ zs) - Suc h') + of_nat (thread_count deq_pending (qpc s'))"
  shows "lfq_inv (ns @ zs) h' t' s'"
proof -
  have i: "lfq_shape ns h t (queue s) (qheap s)" "0 \<notin> known (qheap s)"
    "\<And>v n. enq_node (qpc s v) = Some n \<Longrightarrow> n \<in> known (qheap s) - set ns \<and> nextp (nodes (qheap s) n) = 0"
    "\<And>v w n. enq_node (qpc s v) = Some n \<Longrightarrow> enq_node (qpc s w) = Some n \<Longrightarrow> v = w"
    "\<And>v. lfq_local ns h t (qseen s v) (datas (qheap s)) (qpc s v)" "finite {u. qpc s u \<noteq> QIdle}"
    using inv by (auto simp: lfq_inv_def)
  have own: "n \<in> known (qheap s') - set (ns @ zs) \<and> nextp (nodes (qheap s') n) = 0" if "enq_node (qpc s' v) = Some n" for v n
  proof (cases "v = u")
    case True
    then have n: "enq_node pc = Some n" using that pc by simp
    then have "n \<notin> set zs" using zs(2) by auto
    moreover have "n \<notin> set ns" using node [OF n] i(3) [of u n] i(1) by (auto simp: lfq_shape_def)
    ultimately show ?thesis using node [OF n] known n by auto
  next
    case False
    then have n: "enq_node (qpc s v) = Some n" "enq_node (qpc s u) \<noteq> Some n" using that pc i(4) [of v n u] by auto
    then have "n \<notin> set zs" using zs(1) by auto
    then show ?thesis using i(3) [OF n(1)] n(2) next0 [of n] known by auto
  qed
  have uniq: "v = w" if "enq_node (qpc s' v) = Some n" "enq_node (qpc s' w) = Some n" for v w n
    using that i(4) [of v n w] i(4) [of u n v] i(4) [of u n w] node [of n] i(3) [of v n] i(3) [of w n]
    by (auto simp: pc split: if_splits)
  have "lfq_local (ns @ zs) h' t' (qseen s' v) (datas (qheap s')) (qpc s' v)" for v
  proof (cases "v = u")
    case False
    have "datas (qheap s') a = datas (qheap s) a" if "a \<in> set ns" for a
      using that keep i(1) by (auto simp: lfq_shape_def)
    then show ?thesis using lfq_local_mono [OF i(5) le, of v "qseen s' v"] seen [OF False] False pc by auto
  qed (use local pc in simp)
  moreover have "0 \<notin> known (qheap s')" using i(2) known node by auto
  moreover have "finite {v. qpc s' v \<noteq> QIdle}" using i(6) by (simp add: pc finite_upd del: fun_upd_apply)
  ultimately show ?thesis unfolding lfq_inv_def using shape replay size own uniq by blast
qed

text \<open>In most steps the list and the head stay as they are.\<close>

lemma lfq_inv_quiet:
  assumes inv: "lfq_inv ns h t s" and pc: "qpc s' = (qpc s)(u := pc)"
    and known: "known (qheap s') = known (qheap s) \<union> set_option (enq_node pc)"
    and q: "head (queue s') = head (queue s)" "tail (queue s') = ns ! t'" "t \<le> t'" "t' < length ns" "qhist s' = qhist s"
    and keep: "\<And>a. a \<in> known (qheap s) \<Longrightarrow> nodes (qheap s') a = nodes (qheap s) a"
    and node: "\<And>n. enq_node pc = Some n \<Longrightarrow> n \<noteq> 0 \<and> (enq_node (qpc s u) = Some n \<or> n \<notin> known (qheap s) \<and> nextp (nodes (qheap s') n) = 0)"
    and seen: "\<And>v. v \<noteq> u \<Longrightarrow> qseen s v \<Longrightarrow> qseen s' v"
    and local: "lfq_local ns h t' (qseen s' u) (datas (qheap s')) pc"
    and size: "queue_size (queue s') + of_nat (if enq_pending pc then 1 else 0) + of_nat (if deq_pending (qpc s u) then 1 else 0) =
       queue_size (queue s) + of_nat (if enq_pending (qpc s u) then 1 else 0) + of_nat (if deq_pending pc then 1 else 0)"
  shows "lfq_inv ns h t' s'"
proof -
  have i: "lfq_shape ns h t (queue s) (qheap s)" "finite {u. qpc s u \<noteq> QIdle}"
    "replay_queue (qhist s) [] = Some (map (datas (qheap s)) (drop (Suc h) ns))"
    "\<And>v n. enq_node (qpc s v) = Some n \<Longrightarrow> n \<in> known (qheap s) - set ns \<and> nextp (nodes (qheap s) n) = 0"
    "queue_size (queue s) + of_nat (thread_count enq_pending (qpc s)) =
       of_nat (length ns - Suc h) + of_nat (thread_count deq_pending (qpc s))"
    using inv by (simp_all add: lfq_inv_def)
  have ns: "nodes (qheap s') a = nodes (qheap s) a" if "a \<in> set ns" for a using that keep i(1) by (auto simp: lfq_shape_def)
  have shape: "lfq_shape (ns @ []) h t' (queue s') (qheap s')"
    using i(1) q known ns by (auto simp: lfq_shape_def)
  have "a \<in> set ns" if "a \<in> set (drop (Suc h) ns)" for a using that by (rule in_set_dropD)
  then have replay: "replay_queue (qhist s') [] = Some (map (datas (qheap s')) (drop (Suc h) (ns @ [])))"
    using i(3) ns q(5) by (simp cong: map_cong)
  have count: "thread_count enq_pending (qpc s') + (if enq_pending (qpc s u) then 1 else 0) =
      thread_count enq_pending (qpc s) + (if enq_pending pc then 1 else 0)"
    "thread_count deq_pending (qpc s') + (if deq_pending (qpc s u) then 1 else 0) =
      thread_count deq_pending (qpc s) + (if deq_pending pc then 1 else 0)"
    using thread_count_upd [OF i(2), of enq_pending u pc] thread_count_upd [OF i(2), of deq_pending u pc]
    by (simp_all add: enq_deq_pending pc)
  note cw = arg_cong [OF count(1), of "of_nat :: nat \<Rightarrow> u32"] arg_cong [OF count(2), of "of_nat :: nat \<Rightarrow> u32"]
  have size': "queue_size (queue s') + of_nat (thread_count enq_pending (qpc s')) =
       of_nat (length (ns @ []) - Suc h) + of_nat (thread_count deq_pending (qpc s'))"
    using pending_balance [OF size cw [unfolded of_nat_add] i(5)] by simp
  have node': "n \<noteq> 0 \<and> (enq_node (qpc s u) = Some n \<or> n \<notin> known (qheap s)) \<and> nextp (nodes (qheap s') n) = 0"
    if "enq_node pc = Some n" for n
    using node [OF that] i(4) [of u n] keep [of n] by auto
  have "lfq_local (ns @ []) h t' (qseen s' u) (datas (qheap s')) pc" using local by simp
  from lfq_inv_step [OF inv pc known shape order_refl q(3) _ _ _ _ node' seen this replay size'] keep
  show ?thesis by auto
qed

lemma lfq_call_enqueue:
  assumes inv: "lfq_inv ns h t s" and "qpc s u = QIdle" "lf_fresh False a (qheap s)"
  shows "lfq_inv ns h t (s\<lparr>qheap := lf_new a \<lparr>data = d, nextp = 0\<rparr> (qheap s), qpc := (qpc s)(u := Enqueueing a LoadTail)\<rparr>)"
  using assms(2,3) inv
  by (intro lfq_inv_quiet [OF inv, of _ u "Enqueueing a LoadTail"])
     (auto simp: lf_fresh_known enq_deq_pending lfq_inv_def lfq_shape_def)

lemma lfq_call_dequeue:
  assumes inv: "lfq_inv ns h t s" and "qpc s u = QIdle"
  shows "lfq_inv ns h t (s\<lparr>qpc := (qpc s)(u := Dequeueing LoadHead), qseen := (qseen s)(u := b)\<rparr>)"
  using assms(2) inv
  by (intro lfq_inv_quiet [OF inv, of _ u "Dequeueing LoadHead"]) (auto simp: enq_deq_pending lfq_inv_def lfq_shape_def)

lemma nth_of_eq:
  assumes "lfq_shape ns h t q m" "nth_of ns i a" "nth_of ns j b"
  shows "a = b \<longleftrightarrow> i = j"
  using assms by (auto simp: lfq_shape_def nth_of_def nth_eq_iff_index_eq)

lemma shape_head_tail:
  assumes "lfq_shape ns h t q m"
  shows "nth_of ns h (head q)" "nth_of ns t (tail q)"
  using assms by (auto simp: lfq_shape_def nth_of_def)

lemma shape_next:
  assumes "lfq_shape ns h t q m" "nth_of ns i a" "0 \<notin> known m"
  shows "nextp (nodes m a) = 0 \<longleftrightarrow> Suc i = length ns" "Suc i < length ns \<Longrightarrow> nth_of ns (Suc i) (nextp (nodes m a))"
proof -
  have i: "i < length ns" "ns ! i = a" "nextp (nodes m a) = (if Suc i < length ns then ns ! Suc i else 0)"
    using assms(1,2) by (auto simp: lfq_shape_def nth_of_def)
  then show "Suc i < length ns \<Longrightarrow> nth_of ns (Suc i) (nextp (nodes m a))" by (simp add: nth_of_def)
  have "set ns \<subseteq> known m" using assms(1) by (simp add: lfq_shape_def)
  then have "Suc i < length ns \<Longrightarrow> ns ! Suc i \<noteq> 0" using assms(3) nth_mem [of "Suc i" ns] by (metis subsetD)
  then show "nextp (nodes m a) = 0 \<longleftrightarrow> Suc i = length ns" using i by auto
qed

text \<open>Moving the tail pointer from \<open>a\<close> to its successor.\<close>

lemma advance_tail:
  assumes "lfq_shape ns h t q m" "nth_of ns i a" "nth_of ns (Suc i) b"
  defines "v \<equiv> snd (lf_compare_exchange (tail q) a b)"
  obtains t' where "v = ns ! t'" "t \<le> t'" "t' < length ns"
proof (cases "tail q = a")
  case True
  then have "t = i" using nth_of_eq [OF assms(1) shape_head_tail(2) [OF assms(1)] assms(2)] by simp
  then show ?thesis using that [of "Suc t"] assms(3) True by (simp add: v_def lf_compare_exchange_def nth_of_def)
next
  case False
  then show ?thesis using that [of t] assms(1) by (simp add: v_def lf_compare_exchange_def lfq_shape_def)
qed

lemmas lfq_run_simps = lfq_run_def atomic_fetch_add_def atomic_fetch_sub_def enq_deq_pending

lemma lfq_link:
  assumes inv: "lfq_inv ns h t s" and pc: "qpc s u = Enqueueing n (LinkNode tp)" and ok: "nextp (nodes (qheap s) tp) = 0"
  shows "lfq_inv (ns @ [n]) h t (lfq_run u s)"
proof -
  let ?pc = "Enqueueing n (SwingTail tp)"
  define b where "b v = (qseen s v \<or> replay_queue (qhist s @ [Put (datas (qheap s) n)]) [] = Some [])" for v
  let ?s = "s\<lparr>qheap := set_next tp n (qheap s), qpc := (qpc s)(u := ?pc), qhist := qhist s @ [Put (datas (qheap s) n)], qseen := b\<rparr>"
  have run: "lfq_run u s = ?s" using pc ok by (simp add: lfq_run_def lf_compare_exchange_def Let_def b_def [abs_def])
  have i: "lfq_shape ns h t (queue s) (qheap s)" "0 \<notin> known (qheap s)" "finite {u. qpc s u \<noteq> QIdle}"
    "replay_queue (qhist s) [] = Some (map (datas (qheap s)) (drop (Suc h) ns))"
    "\<And>v n. enq_node (qpc s v) = Some n \<Longrightarrow> n \<in> known (qheap s) - set ns \<and> nextp (nodes (qheap s) n) = 0"
    "queue_size (queue s) + of_nat (thread_count enq_pending (qpc s)) =
       of_nat (length ns - Suc h) + of_nat (thread_count deq_pending (qpc s))"
    "lfq_local ns h t (qseen s u) (datas (qheap s)) (qpc s u)"
    using inv by (simp_all add: lfq_inv_def)
  obtain k where k: "k \<le> t" "nth_of ns k tp" using i(7) pc by auto
  have last: "Suc k = length ns" using shape_next(1) [OF i(1) k(2) i(2)] ok by simp
  have t: "t = k" using last k(1) i(1) by (simp add: lfq_shape_def)
  have n: "n \<in> known (qheap s)" "n \<notin> set ns" "nextp (nodes (qheap s) n) = 0" "n \<noteq> 0"
    using i(5) [of u n] pc i(2) by auto
  have tp: "tp \<in> set ns" "ns ! k = tp" using k(2) by (auto simp: nth_of_def)
  have "n \<noteq> tp" using n(2) tp(1) by auto
  have "nextp (nodes (qheap ?s) ((ns @ [n]) ! j)) = (if Suc j < length (ns @ [n]) then (ns @ [n]) ! Suc j else 0)"
    if j: "j < length (ns @ [n])" for j
  proof -
    consider "j = length ns" | "j = k" | "j < k" using j last by fastforce
    then show ?thesis
    proof cases
      case 1
      then show ?thesis using n \<open>n \<noteq> tp\<close> by simp
    next
      case 2
      then show ?thesis using last tp by (simp add: nth_append)
    next
      case 3
      then have "ns ! j \<noteq> tp" using i(1) last tp(2) by (auto simp: lfq_shape_def nth_eq_iff_index_eq)
      then show ?thesis using 3 last i(1) by (simp add: nth_append lfq_shape_def)
    qed
  qed
  moreover have "h < length ns" "t < length ns" using i(1) by (simp_all add: lfq_shape_def)
  ultimately have shape: "lfq_shape (ns @ [n]) h t (queue ?s) (qheap ?s)"
    using i(1) n last t unfolding lfq_shape_def by (simp add: nth_append)
  have D: "datas (qheap ?s) a = datas (qheap s) a" for a by simp
  have replay: "replay_queue (qhist ?s) [] = Some (map (datas (qheap ?s)) (drop (Suc h) (ns @ [n])))"
    using i(4) \<open>h < length ns\<close> unfolding D by (simp add: replay_queue_append)
  have grow: "length (ns @ [n]) - Suc h = Suc (length ns - Suc h)" using \<open>h < length ns\<close> by simp
  have size: "queue_size (queue ?s) + of_nat (thread_count enq_pending (qpc ?s)) =
       of_nat (length (ns @ [n]) - Suc h) + of_nat (thread_count deq_pending (qpc ?s))"
    using i(6) thread_count_upd [OF i(3), of enq_pending u ?pc] thread_count_upd [OF i(3), of deq_pending u ?pc] pc grow
    by (simp add: enq_deq_pending del: of_nat_diff)
  have local: "lfq_local (ns @ [n]) h t (qseen ?s u) (datas (qheap ?s)) ?pc"
    using k last t tp by (auto simp: nth_of_def nth_append intro!: exI [of _ t])
  show ?thesis
    unfolding run using pc n tp k by (intro lfq_inv_step [OF inv, of _ u ?pc] shape replay size local) (auto simp: b_def)
qed

lemma lfq_some: "lfq_inv ns h t s \<Longrightarrow> \<exists>ns h t. lfq_inv ns h t s"
  by blast

lemma lfq_run_enqueue:
  assumes inv: "lfq_inv ns h t s" and pc: "qpc s u = Enqueueing n pc"
  shows "\<exists>ns h t. lfq_inv ns h t (lfq_run u s)"
proof -
  have i: "lfq_shape ns h t (queue s) (qheap s)" "0 \<notin> known (qheap s)"
    "\<And>n. enq_node (qpc s u) = Some n \<Longrightarrow> n \<in> known (qheap s) - set ns"
    "lfq_local ns h t (qseen s u) (datas (qheap s)) (qpc s u)"
    using inv by (simp_all add: lfq_inv_def)
  have own: "enq_node (qpc s u) = Some n \<Longrightarrow> n \<in> known (qheap s) \<and> n \<noteq> 0" using i(2,3) by auto
  have tl: "tail (queue s) = ns ! t" "t < length ns" using i(1) by (simp_all add: lfq_shape_def)
  show ?thesis
  proof (cases pc)
    case LoadTail
    then show ?thesis using pc own tl
      by (intro lfq_some [OF lfq_inv_quiet [OF inv, of _ u "Enqueueing n (LoadNext (tail (queue s)))"]])
         (auto simp: lfq_run_simps nth_of_def)
  next
    case (LoadNext tp)
    then obtain k where k: "k \<le> t" "nth_of ns k tp" using i(4) pc by auto
    let ?nx = "nextp (nodes (qheap s) tp)"
    have "?nx = 0 \<or> nth_of ns (Suc k) ?nx" using shape_next [OF i(1) k(2) i(2)] k(2) by (auto simp: nth_of_def)
    then show ?thesis using pc LoadNext own tl k
      by (intro lfq_some [OF lfq_inv_quiet [OF inv, of _ u "Enqueueing n (CheckTail tp ?nx)"]]) (auto simp: lfq_run_simps)
  next
    case (CheckTail tp nx)
    let ?pc = "if tp = tail (queue s) then if nx = 0 then LinkNode tp else HelpTail tp nx else LoadTail"
    show ?thesis using pc CheckTail own tl i(4)
      by (intro lfq_some [OF lfq_inv_quiet [OF inv, of _ u "Enqueueing n ?pc"]]) (auto simp: lfq_run_simps split: if_splits)
  next
    case (LinkNode tp)
    show ?thesis
    proof (cases "nextp (nodes (qheap s) tp) = 0")
      case True
      then show ?thesis using lfq_link [OF inv] pc LinkNode by blast
    next
      case False
      then show ?thesis using pc LinkNode own tl
        by (intro lfq_some [OF lfq_inv_quiet [OF inv, of _ u "Enqueueing n LoadTail"]])
           (auto simp: lfq_run_simps lf_compare_exchange_def)
    qed
  next
    case (HelpTail tp nx)
    then obtain k where k: "nth_of ns k tp" "nth_of ns (Suc k) nx" using i(4) pc by auto
    obtain t' where "snd (lf_compare_exchange (tail (queue s)) tp nx) = ns ! t'" "t \<le> t'" "t' < length ns"
      by (rule advance_tail [OF i(1) k])
    then show ?thesis using pc HelpTail own
      by (intro lfq_some [OF lfq_inv_quiet [OF inv, of _ u "Enqueueing n LoadTail"]]) (auto simp: lfq_run_simps)
  next
    case (SwingTail tp)
    then obtain k where k: "nth_of ns k tp" "nth_of ns (Suc k) n" using i(4) pc by auto
    obtain t' where "snd (lf_compare_exchange (tail (queue s)) tp n) = ns ! t'" "t \<le> t'" "t' < length ns"
      by (rule advance_tail [OF i(1) k])
    then show ?thesis using pc SwingTail
      by (intro lfq_some [OF lfq_inv_quiet [OF inv, of _ u "Enqueueing n CountUp"]]) (auto simp: lfq_run_simps)
  next
    case CountUp
    then show ?thesis using pc tl
      by (intro lfq_some [OF lfq_inv_quiet [OF inv, of _ u QIdle]]) (auto simp: lfq_run_simps)
  qed
qed

lemma lfq_unlink:
  assumes inv: "lfq_inv ns h t s" and pc: "qpc s u = Dequeueing (SwingHead hp nx d)" and ok: "head (queue s) = hp"
  shows "lfq_inv ns (Suc h) t (lfq_run u s)"
proof -
  let ?pc = "Dequeueing (FreeHead hp d)"
  define b where "b v = (qseen s v \<or> replay_queue (qhist s @ [Get d]) [] = Some [])" for v
  let ?s = "s\<lparr>queue := (queue s)\<lparr>head := nx\<rparr>, qpc := (qpc s)(u := ?pc), qhist := qhist s @ [Get d], qseen := b\<rparr>"
  have run: "lfq_run u s = ?s" using pc ok by (simp add: lfq_run_def lf_compare_exchange_def Let_def b_def [abs_def])
  have i: "lfq_shape ns h t (queue s) (qheap s)" "finite {u. qpc s u \<noteq> QIdle}"
    "replay_queue (qhist s) [] = Some (map (datas (qheap s)) (drop (Suc h) ns))"
    "queue_size (queue s) + of_nat (thread_count enq_pending (qpc s)) =
       of_nat (length ns - Suc h) + of_nat (thread_count deq_pending (qpc s))"
    "lfq_local ns h t (qseen s u) (datas (qheap s)) (qpc s u)"
    using inv by (simp_all add: lfq_inv_def)
  obtain j where j: "nth_of ns j hp" "j < t" "nth_of ns (Suc j) nx" "d = datas (qheap s) nx" using i(5) pc by auto
  have "j = h" using nth_of_eq [OF i(1) shape_head_tail(1) [OF i(1)] j(1)] ok by simp
  then have h: "h < t" "ns ! Suc h = nx" "Suc h < length ns" "ns ! h = hp" using j by (simp_all add: nth_of_def)
  then have "drop (Suc h) ns = nx # drop (Suc (Suc h)) ns" by (metis Cons_nth_drop_Suc)
  then have replay: "replay_queue (qhist ?s) [] = Some (map (datas (qheap ?s)) (drop (Suc (Suc h)) (ns @ [])))"
    using i(3) j(4) by (simp add: replay_queue_append)
  have shrink: "length ns - Suc h = Suc (length (ns @ []) - Suc (Suc h))" using h(3) by simp
  have size: "queue_size (queue ?s) + of_nat (thread_count enq_pending (qpc ?s)) =
       of_nat (length (ns @ []) - Suc (Suc h)) + of_nat (thread_count deq_pending (qpc ?s))"
    using i(4) thread_count_upd [OF i(2), of enq_pending u ?pc] thread_count_upd [OF i(2), of deq_pending u ?pc] pc
    unfolding shrink by (simp add: enq_deq_pending del: of_nat_diff)
  have shape: "lfq_shape (ns @ []) (Suc h) t (queue ?s) (qheap ?s)" using i(1) h by (simp add: lfq_shape_def)
  have local: "lfq_local (ns @ []) (Suc h) t (qseen ?s u) (datas (qheap ?s)) ?pc"
    using h by (auto simp: nth_of_def intro!: exI [of _ h])
  have "lfq_inv (ns @ []) (Suc h) t ?s"
    using pc by (intro lfq_inv_step [OF inv, of _ u ?pc] shape replay size local) (auto simp: b_def)
  then show ?thesis by (simp add: run)
qed

lemma lfq_run_dequeue:
  assumes inv: "lfq_inv ns h t s" and pc: "qpc s u = Dequeueing pc"
  shows "\<exists>ns h t. lfq_inv ns h t (lfq_run u s)"
proof -
  have i: "lfq_shape ns h t (queue s) (qheap s)" "0 \<notin> known (qheap s)"
    "replay_queue (qhist s) [] = Some (map (datas (qheap s)) (drop (Suc h) ns))"
    "lfq_local ns h t (qseen s u) (datas (qheap s)) (qpc s u)"
    using inv by (simp_all add: lfq_inv_def)
  have ht: "nth_of ns h (head (queue s))" "nth_of ns t (tail (queue s))" "h \<le> t" "t < length ns" "tail (queue s) = ns ! t"
    using i(1) shape_head_tail by (simp_all add: lfq_shape_def nth_of_def)
  have nz: "a \<noteq> 0" if "nth_of ns k a" for k a
  proof -
    have "a \<in> known (qheap s)" using nth_of_mem [OF that] i(1) by (auto simp: lfq_shape_def)
    then show ?thesis using i(2) by auto
  qed
  show ?thesis
  proof (cases pc)
    case LoadHead
    then show ?thesis using pc ht
      by (intro lfq_some [OF lfq_inv_quiet [OF inv, of _ u "Dequeueing (LoadTail2 (head (queue s)))"]]) (auto simp: lfq_run_simps)
  next
    case (LoadTail2 hp)
    then obtain j where "j \<le> h" "nth_of ns j hp" using i(4) pc by auto
    then have "\<exists>j \<le> h. \<exists>i \<le> t. nth_of ns j hp \<and> nth_of ns i (tail (queue s)) \<and> j \<le> i"
      using ht by (meson le_refl le_trans)
    then show ?thesis using pc LoadTail2 ht
      by (intro lfq_some [OF lfq_inv_quiet [OF inv, of _ u "Dequeueing (LoadNext2 hp (tail (queue s)))"]]) (auto simp: lfq_run_simps)
  next
    case (LoadNext2 hp tp)
    let ?nx = "nextp (nodes (qheap s) hp)"
    obtain j k where j: "j \<le> h" "nth_of ns j hp" "k \<le> t" "nth_of ns k tp" "j \<le> k" using i(4) pc LoadNext2 by auto
    have "?nx = 0 \<and> j = k \<and> (j < h \<or> replay_queue (qhist s) [] = Some []) \<or> nth_of ns (Suc j) ?nx"
    proof (cases "Suc j < length ns")
      case True
      then show ?thesis using shape_next(2) [OF i(1) j(2) i(2)] by simp
    next
      case False
      then have "Suc j = length ns" using j(2) by (simp add: nth_of_def)
      moreover from this have "j = k" "j = h" using j ht by simp_all
      ultimately show ?thesis using shape_next(1) [OF i(1) j(2) i(2)] i(3) by simp
    qed
    then have "lfq_local ns h t (qseen s u \<or> replay_queue (qhist s) [] = Some []) (datas (qheap s)) (Dequeueing (CheckHead hp tp ?nx))"
      unfolding lfq_local.simps using j by blast
    then show ?thesis using pc LoadNext2 ht
      by (intro lfq_some [OF lfq_inv_quiet [OF inv, of _ u "Dequeueing (CheckHead hp tp ?nx)"]]) (auto simp: lfq_run_simps Let_def)
  next
    case (CheckHead hp tp nx)
    obtain j k where j: "j \<le> h" "nth_of ns j hp" "k \<le> t" "nth_of ns k tp" "j \<le> k"
      "nx = 0 \<and> j = k \<or> nth_of ns (Suc j) nx" using i(4) pc CheckHead by auto
    have eq: "hp = tp \<longleftrightarrow> j = k" by (rule nth_of_eq [OF i(1) j(2,4)])
    let ?pc = "if hp = head (queue s) then
        if hp = tp then if nx = 0 then QIdle else Dequeueing (HelpTail2 tp nx) else Dequeueing (ReadData hp nx)
      else Dequeueing LoadHead"
    have "hp \<noteq> tp \<Longrightarrow> j < t" using j eq by simp
    then have "lfq_local ns h t b (datas (qheap s)) ?pc" for b using j eq by auto
    then show ?thesis using pc CheckHead ht
      by (intro lfq_some [OF lfq_inv_quiet [OF inv, of _ u ?pc]]) (auto simp: lfq_run_simps split: if_splits)
  next
    case (HelpTail2 tp nx)
    then obtain k where k: "nth_of ns k tp" "nth_of ns (Suc k) nx" using i(4) pc by auto
    obtain t' where "snd (lf_compare_exchange (tail (queue s)) tp nx) = ns ! t'" "t \<le> t'" "t' < length ns"
      by (rule advance_tail [OF i(1) k])
    then show ?thesis using pc HelpTail2
      by (intro lfq_some [OF lfq_inv_quiet [OF inv, of _ u "Dequeueing LoadHead"]]) (auto simp: lfq_run_simps)
  next
    case (ReadData hp nx)
    then show ?thesis using pc ht i(4)
      by (intro lfq_some [OF lfq_inv_quiet [OF inv, of _ u "Dequeueing (SwingHead hp nx (datas (qheap s) nx))"]]) (auto simp: lfq_run_simps)
  next
    case (SwingHead hp nx d)
    show ?thesis
    proof (cases "head (queue s) = hp")
      case True
      then show ?thesis using lfq_unlink [OF inv] pc SwingHead by blast
    next
      case False
      then show ?thesis using pc SwingHead ht
        by (intro lfq_some [OF lfq_inv_quiet [OF inv, of _ u "Dequeueing LoadHead"]]) (auto simp: lfq_run_simps lf_compare_exchange_def)
    qed
  next
    case (FreeHead hp d)
    then have "hp \<in> known (qheap s)" using i(1,4) pc nth_of_mem by (fastforce simp: lfq_shape_def)
    then show ?thesis using pc FreeHead ht
      by (intro lfq_some [OF lfq_inv_quiet [OF inv, of _ u "Dequeueing (CountDown d)"]]) (auto simp: lfq_run_simps)
  next
    case (CountDown d)
    then show ?thesis using pc ht
      by (intro lfq_some [OF lfq_inv_quiet [OF inv, of _ u QIdle]]) (auto simp: lfq_run_simps)
  qed
qed

lemma lfq_do_inv:
  assumes "lfq_inv ns h t s" "lfq_do False a s = Some s'"
  shows "\<exists>ns h t. lfq_inv ns h t s'"
proof (cases a)
  case (CallEnqueue u d a)
  then show ?thesis using assms lfq_call_enqueue [OF assms(1), of u a d] by (auto split: if_splits)
next
  case (CallDequeue u)
  then show ?thesis using assms lfq_call_dequeue [OF assms(1), of u] by (auto split: if_splits)
next
  case (RunQueue u)
  then show ?thesis
    using assms lfq_run_enqueue [OF assms(1), of u] lfq_run_dequeue [OF assms(1), of u] by (cases "qpc s u") auto
qed

lemma lfq_start_inv: "lfq_start s \<Longrightarrow> \<exists>ns h t. lfq_inv ns h t s"
  by (auto simp: lfq_start_def lf_queue_init_def lfq_inv_def lfq_shape_def known_def thread_count_def enq_deq_pending lf_new_def
      intro!: exI [of _ "[head (queue s)]"] exI [of _ 0])

interpretation lfq: transition_system lfq_start "lfq_step False" "\<lambda>s. \<exists>ns h t. lfq_inv ns h t s"
  by unfold_locales (auto intro: lfq_start_inv simp: lfq_step_def dest: lfq_do_inv)

end
