(* ===== verification/Lockfree_Props.thy ===== *)
theory Lockfree_Props
  imports Lockfree_Queue
begin

text \<open>
  Linearizability of the lock-free stack and queue when freed nodes are not allocated again, solo termination of the queue
  operations, and what goes wrong when freed nodes are reused.
\<close>

section \<open>Running a schedule\<close>

primrec lfs_exec :: "bool \<Rightarrow> lfs_act list \<Rightarrow> lfs_sys \<Rightarrow> lfs_sys option" where
  "lfs_exec reuse [] s = Some s"
| "lfs_exec reuse (a # as) s = (case lfs_do reuse a s of None \<Rightarrow> None | Some s' \<Rightarrow> lfs_exec reuse as s')"

lemma lfs_exec_reachable: "lfs_exec reuse as s = Some s' \<Longrightarrow> (lfs_step reuse)\<^sup>*\<^sup>* s s'"
proof (induction as arbitrary: s)
  case (Cons a as)
  then obtain s1 where "lfs_do reuse a s = Some s1" "(lfs_step reuse)\<^sup>*\<^sup>* s1 s'" by (auto split: option.splits)
  then have "lfs_step reuse s s1" "(lfs_step reuse)\<^sup>*\<^sup>* s1 s'" by (auto simp: lfs_step_def)
  then show ?case by (rule converse_rtranclp_into_rtranclp)
qed simp

primrec lfq_exec :: "bool \<Rightarrow> lfq_act list \<Rightarrow> lfq_sys \<Rightarrow> lfq_sys option" where
  "lfq_exec reuse [] s = Some s"
| "lfq_exec reuse (a # as) s = (case lfq_do reuse a s of None \<Rightarrow> None | Some s' \<Rightarrow> lfq_exec reuse as s')"

lemma lfq_exec_reachable: "lfq_exec reuse as s = Some s' \<Longrightarrow> (lfq_step reuse)\<^sup>*\<^sup>* s s'"
proof (induction as arbitrary: s)
  case (Cons a as)
  then obtain s1 where "lfq_do reuse a s = Some s1" "(lfq_step reuse)\<^sup>*\<^sup>* s1 s'" by (auto split: option.splits)
  then have "lfq_step reuse s s1" "(lfq_step reuse)\<^sup>*\<^sup>* s1 s'" by (auto simp: lfq_step_def)
  then show ?case by (rule converse_rtranclp_into_rtranclp)
qed simp

definition blank_heap :: lf_heap where
  "blank_heap = \<lparr>nodes = (\<lambda>_. \<lparr>data = 0, nextp = 0\<rparr>), live = {}, freed = {}\<rparr>"

definition empty_stack :: lfs_sys where
  "empty_stack = \<lparr>stack = lf_stack_init, sheap = blank_heap, spc = (\<lambda>_. SIdle), shist = []\<rparr>"

definition empty_queue :: lfq_sys where
  "empty_queue = \<lparr>queue = fst (lf_queue_init 0x10 blank_heap), qheap = snd (lf_queue_init 0x10 blank_heap),
     qpc = (\<lambda>_. QIdle), qhist = [], qseen = (\<lambda>_. True)\<rparr>"

lemma empty_start: "lfs_start empty_stack" "lfq_start empty_queue"
  by (auto simp: lfs_start_def lfq_start_def empty_stack_def empty_queue_def blank_heap_def intro!: exI [of _ "0x10"] exI [of _ blank_heap])

section \<open>Properties\<close>


definition stack_schedule :: "lfs_act list" where
  "stack_schedule = [CallPush 1 7 0x20] @ replicate 4 (RunStack 1) @ [CallPop 2, CallPush 1 8 0x30] @ replicate 2 (RunStack 2) @
     replicate 4 (RunStack 1)"

lemma stack_schedule_run: "map_option shist (lfs_exec False stack_schedule empty_stack) = Some [Put 7, Put 8]"
  by code_simp



definition queue_schedule :: "lfq_act list" where
  "queue_schedule = [CallEnqueue 1 7 0x20, CallDequeue 2] @ replicate 5 (RunQueue 1) @ replicate 6 (RunQueue 2) @ [RunQueue 1, RunQueue 2, RunQueue 2]"

lemma queue_schedule_run:
  "map_option (\<lambda>s. (qhist s, qpc s 1, qpc s 2, queue_size (queue s))) (lfq_exec False queue_schedule empty_queue) =
     Some ([Put 7, Get 7], QIdle, QIdle, 0)"
  by code_simp


definition reclaim_schedule :: "lfq_act list" where
  "reclaim_schedule = [CallEnqueue 1 7 0x20] @ replicate 6 (RunQueue 1) @ [CallDequeue 1, CallDequeue 2] @ replicate 2 (RunQueue 1) @
     replicate 8 (RunQueue 2)"

definition aba_schedule :: "lfs_act list" where
  "aba_schedule = [CallPush 1 11 0x20] @ replicate 4 (RunStack 1) @ [CallPush 1 22 0x30] @ replicate 4 (RunStack 1) @
     [CallPop 1] @ replicate 3 (RunStack 1) @ [CallPop 2] @ replicate 6 (RunStack 2) @ [CallPop 2] @ replicate 6 (RunStack 2) @
     [CallPush 2 33 0x30] @ replicate 4 (RunStack 2) @ [RunStack 1]"

lemma reclaim_schedule_run:
  "map_option (\<lambda>s. (qpc s 1, 0x10 \<in> freed (qheap s))) (lfq_exec False reclaim_schedule empty_queue) =
     Some (Dequeueing (LoadNext2 0x10 0x20), True)"
  by code_simp

lemma aba_schedule_run:
  "map_option (\<lambda>s. replay_stack (shist s) []) (lfs_exec True aba_schedule empty_stack) = Some None"
  by code_simp

text \<open>
  freeing nodes at once is not safe. There is an interleaving of two threads in which a thread is about to read a node of the queue that
  the other has freed, and, when freed nodes are allocated again, one in which a pop of the stack succeeds with an old element although
  another is on top, so that the operations are not a history of a stack.
\<close>

theorem lf_reclamation_unsafe:
  "(\<exists>s0 s. lfq_start s0 \<and> (lfq_step False)\<^sup>*\<^sup>* s0 s \<and>
      (\<exists>t hp tp. qpc s t = Dequeueing (LoadNext2 hp tp) \<and> hp \<in> freed (qheap s))) \<and>
   (\<exists>s0 s. lfs_start s0 \<and> (lfs_step True)\<^sup>*\<^sup>* s0 s \<and> replay_stack (shist s) [] = None)"
proof -
  obtain q where "lfq_exec False reclaim_schedule empty_queue = Some q"
    "qpc q 1 = Dequeueing (LoadNext2 0x10 0x20)" "0x10 \<in> freed (qheap q)"
    using reclaim_schedule_run by (cases "lfq_exec False reclaim_schedule empty_queue") auto
  moreover obtain s where "lfs_exec True aba_schedule empty_stack = Some s" "replay_stack (shist s) [] = None"
    using aba_schedule_run by (cases "lfs_exec True aba_schedule empty_stack") auto
  ultimately show ?thesis using empty_start lfq_exec_reachable lfs_exec_reachable by blast
qed

section \<open>Solo termination\<close>

definition done_in :: "nat \<Rightarrow> u64 \<Rightarrow> lfq_sys \<Rightarrow> bool" where
  "done_in n u s \<longleftrightarrow> (\<exists>k \<le> n. qpc ((lfq_run u ^^ k) s) u = QIdle)"

lemma done_in_mono: "done_in n u s \<Longrightarrow> n \<le> m \<Longrightarrow> done_in m u s"
  by (auto simp: done_in_def intro: le_trans)

lemma done_in_Suc: "done_in n u (lfq_run u s) \<Longrightarrow> done_in (Suc n) u s"
proof -
  assume "done_in n u (lfq_run u s)"
  then obtain k where "k \<le> n" "qpc ((lfq_run u ^^ k) (lfq_run u s)) u = QIdle" by (auto simp: done_in_def)
  then show ?thesis by (auto simp: done_in_def funpow_swap1 intro!: exI [of _ "Suc k"])
qed

lemma done_in_idle: "qpc s u = QIdle \<Longrightarrow> done_in n u s"
  by (auto simp: done_in_def intro!: exI [of _ 0])

lemma done_in_back: "qpc s u = QIdle \<or> done_in n u (lfq_run u s) \<Longrightarrow> done_in (Suc n) u s"
  by (auto intro: done_in_Suc done_in_idle)

lemma run_enqueue:
  assumes "qpc s u = Enqueueing n pc"
  defines "r \<equiv> lf_queue_enqueue n pc (queue s) (qheap s)"
  shows "qpc (lfq_run u s) u = (case fst r of None \<Rightarrow> QIdle | Some pc \<Rightarrow> Enqueueing n pc)" "queue (lfq_run u s) = fst (snd r)"
    "qheap (lfq_run u s) = snd (snd r)"
  using assms by (simp_all add: lfq_run_def Let_def split: prod.splits)

lemma run_dequeue:
  assumes "qpc s u = Dequeueing pc"
  defines "r \<equiv> lf_queue_dequeue pc (queue s) (qheap s)"
  shows "qpc (lfq_run u s) u = (case fst r of Inl pc \<Rightarrow> Dequeueing pc | Inr d \<Rightarrow> QIdle)" "queue (lfq_run u s) = fst (snd r)"
    "qheap (lfq_run u s) = snd (snd r)"
  using assms by (simp_all add: lfq_run_def Let_def split: prod.splits)

lemma solo_enqueue_last:
  assumes "qpc s u = Enqueueing n LoadTail" "nextp (nodes (qheap s) (tail (queue s))) = 0"
  shows "done_in 6 u s"
proof -
  note a = run_enqueue [OF assms(1), simplified]
  note b = run_enqueue [OF a(1), simplified a(2,3) assms(2), simplified]
  note c = run_enqueue [OF b(1), simplified b(2,3), simplified]
  have d: "qpc (lfq_run u (lfq_run u (lfq_run u (lfq_run u s)))) u = Enqueueing n (SwingTail (tail (queue s)))"
    using run_enqueue(1) [OF c(1)] c(2,3) assms(2) by (simp add: lf_compare_exchange_def)
  note e = run_enqueue [OF d, simplified]
  note f = run_enqueue [OF e(1), simplified]
  have "qpc ((lfq_run u ^^ 6) s) u = QIdle" using f(1) by (simp add: eval_nat_numeral)
  then show ?thesis by (auto simp: done_in_def)
qed

lemma solo_enqueue_load:
  assumes inv: "lfq_inv ns h t s" and pc: "qpc s u = Enqueueing n LoadTail"
  shows "done_in 10 u s"
proof (cases "nextp (nodes (qheap s) (tail (queue s))) = 0")
  case True
  then show ?thesis using solo_enqueue_last [OF pc] done_in_mono by fastforce
next
  case False
  have i: "lfq_shape ns h t (queue s) (qheap s)" "0 \<notin> known (qheap s)" using inv by (simp_all add: lfq_inv_def)
  let ?x = "nextp (nodes (qheap s) (tail (queue s)))"
  note t = shape_next [OF i(1) shape_head_tail(2) [OF i(1)] i(2)]
  have "Suc t < length ns" using t(1) False i(1) by (simp add: lfq_shape_def)
  then have last: "nextp (nodes (qheap s) ?x) = 0" using shape_next(1) [OF i(1) t(2) i(2)] i(1) by (simp add: lfq_shape_def)
  note a = run_enqueue [OF pc, simplified]
  note b = run_enqueue [OF a(1), simplified a(2,3), simplified]
  let ?s3 = "lfq_run u (lfq_run u (lfq_run u s))"
  have c: "qpc ?s3 u = Enqueueing n (HelpTail (tail (queue s)) ?x)" "queue ?s3 = queue s" "qheap ?s3 = qheap s"
    using run_enqueue [OF b(1)] b(2,3) False by simp_all
  have d: "qpc (lfq_run u ?s3) u = Enqueueing n LoadTail" "tail (queue (lfq_run u ?s3)) = ?x" "qheap (lfq_run u ?s3) = qheap s"
    using run_enqueue [OF c(1)] c(2,3) by (simp_all add: lf_compare_exchange_def)
  have "done_in 6 u (lfq_run u ?s3)" using d last by (intro solo_enqueue_last) simp_all
  then show ?thesis by (simp add: done_in_Suc eval_nat_numeral)
qed

lemma solo_enqueue:
  assumes inv: "lfq_inv ns h t s" and pc: "qpc s u = Enqueueing n pc"
  shows "done_in 13 u s"
proof -
  have load: "done_in 10 u s" if "\<exists>ns h t. lfq_inv ns h t s" "qpc s u = Enqueueing n LoadTail" for s
    using that solo_enqueue_load by blast
  have count: "done_in 1 u s" if "qpc s u = Enqueueing n CountUp" for s
    using done_in_Suc [of 0 u s] done_in_idle [of "lfq_run u s"] run_enqueue(1) [OF that] by simp
  have swing: "done_in 2 u s" if "qpc s u = Enqueueing n (SwingTail tp)" for s tp
    using done_in_Suc [of 1, OF count] run_enqueue(1) [OF that] by (simp add: eval_nat_numeral)
  have helps: "done_in 11 u s" if "lfq_inv ns h t s" "qpc s u = Enqueueing n (HelpTail tp nx)" for ns h t s tp nx
    using done_in_Suc [of 10, OF load] lfq_run_enqueue [OF that] run_enqueue(1) [OF that(2)] by simp
  have link: "done_in 11 u s" if "lfq_inv ns h t s" "qpc s u = Enqueueing n (LinkNode tp)" for ns h t s tp
  proof -
    have "done_in 10 u (lfq_run u s)"
      using load [OF lfq_run_enqueue [OF that]] swing [of "lfq_run u s" tp, THEN done_in_mono, of 10] run_enqueue(1) [OF that(2)]
      by (auto simp: lf_compare_exchange_def split: if_splits)
    then show ?thesis using done_in_Suc [of 10] by simp
  qed
  have check: "done_in 12 u s" if "lfq_inv ns h t s" "qpc s u = Enqueueing n (CheckTail tp nx)" for ns h t s tp nx
  proof -
    note run = lfq_run_enqueue [OF that]
    obtain ns' h' t' where i: "lfq_inv ns' h' t' (lfq_run u s)" using run by blast
    have "done_in 11 u (lfq_run u s)"
      using load [of "lfq_run u s", THEN done_in_mono, of 11] link [OF i] helps [OF i] i run_enqueue(1) [OF that(2)]
      by (auto split: if_splits)
    then show ?thesis using done_in_Suc [of 11] by simp
  qed
  have step: "done_in 13 u s" if "lfq_inv ns h t s" "qpc s u = Enqueueing n (LoadNext tp)" for ns h t s tp
    using done_in_Suc [of 12] check lfq_run_enqueue [OF that] run_enqueue(1) [OF that(2)] by fastforce
  show ?thesis
    using pc inv load [of s, THEN done_in_mono, of 13] count [of s, THEN done_in_mono, of 13] swing [of s, THEN done_in_mono, of _ 13]
      helps [of ns h t s, THEN done_in_mono, of _ _ 13] link [of ns h t s, THEN done_in_mono, of _ 13]
      check [of ns h t s, THEN done_in_mono, of _ _ 13] step [of ns h t s]
    by (cases pc) auto
qed

lemma solo_dequeue_ahead:
  assumes "qpc s u = Dequeueing LoadHead" "head (queue s) \<noteq> tail (queue s)"
  shows "done_in 8 u s"
proof -
  let ?h = "head (queue s)"
  let ?x = "nextp (nodes (qheap s) ?h)"
  note a = run_dequeue [OF assms(1), simplified]
  note b = run_dequeue [OF a(1), simplified a(2,3), simplified]
  note c = run_dequeue [OF b(1), simplified b(2,3), simplified]
  let ?s4 = "lfq_run u (lfq_run u (lfq_run u (lfq_run u s)))"
  have d: "qpc ?s4 u = Dequeueing (ReadData ?h ?x)" "queue ?s4 = queue s" "qheap ?s4 = qheap s"
    using run_dequeue [OF c(1)] c(2,3) assms(2) by simp_all
  note e = run_dequeue [OF d(1), simplified d(2,3), simplified]
  have f: "qpc (lfq_run u (lfq_run u ?s4)) u = Dequeueing (FreeHead ?h (datas (qheap s) ?x))"
    using run_dequeue(1) [OF e(1)] e(2,3) by (simp add: lf_compare_exchange_def)
  note g = run_dequeue [OF f, simplified]
  note i = run_dequeue [OF g(1), simplified]
  have "qpc ((lfq_run u ^^ 8) s) u = QIdle" using i(1) by (simp add: eval_nat_numeral)
  then show ?thesis by (auto simp: done_in_def)
qed

lemma solo_dequeue_load:
  assumes inv: "lfq_inv ns h t s" and pc: "qpc s u = Dequeueing LoadHead"
  shows "done_in 13 u s"
proof (cases "head (queue s) = tail (queue s)")
  case False
  then show ?thesis using solo_dequeue_ahead [OF pc] done_in_mono by fastforce
next
  case True
  have i: "lfq_shape ns h t (queue s) (qheap s)" "0 \<notin> known (qheap s)" using inv by (simp_all add: lfq_inv_def)
  let ?h = "head (queue s)"
  let ?x = "nextp (nodes (qheap s) ?h)"
  note a = run_dequeue [OF pc, simplified]
  note b = run_dequeue [OF a(1), simplified a(2,3), simplified]
  note c = run_dequeue [OF b(1), simplified b(2,3), simplified]
  let ?s4 = "lfq_run u (lfq_run u (lfq_run u (lfq_run u s)))"
  show ?thesis
  proof (cases "?x = 0")
    case True
    then have "qpc ?s4 u = QIdle" using run_dequeue(1) [OF c(1)] c(2,3) \<open>?h = tail (queue s)\<close> by simp
    then have "qpc ((lfq_run u ^^ 4) s) u = QIdle" by (simp add: eval_nat_numeral)
    then show ?thesis by (auto simp: done_in_def intro!: exI [of _ 4])
  next
    case False
    note hd = shape_head_tail(1) [OF i(1)]
    have "Suc h < length ns" using shape_next(1) [OF i(1) hd i(2)] False hd by (auto simp: nth_of_def)
    then have x: "?x \<noteq> ?h" using nth_of_eq [OF i(1) shape_next(2) [OF i(1) hd i(2)] hd] by simp
    have d: "qpc ?s4 u = Dequeueing (HelpTail2 ?h ?x)" "queue ?s4 = queue s" "qheap ?s4 = qheap s"
      using run_dequeue [OF c(1)] c(2,3) True False by simp_all
    have e: "qpc (lfq_run u ?s4) u = Dequeueing LoadHead" "queue (lfq_run u ?s4) = (queue s)\<lparr>tail := ?x\<rparr>"
      using run_dequeue [OF d(1)] d(2,3) True by (simp_all add: lf_compare_exchange_def)
    have "done_in 8 u (lfq_run u ?s4)" using x by (intro solo_dequeue_ahead [OF e(1)]) (simp add: e(2))
    then show ?thesis by (simp add: done_in_Suc eval_nat_numeral)
  qed
qed

lemma solo_dequeue:
  assumes inv: "lfq_inv ns h t s" and pc: "qpc s u = Dequeueing pc"
  shows "done_in 18 u s"
proof -
  have load: "done_in 13 u s" if "\<exists>ns h t. lfq_inv ns h t s" "qpc s u = Dequeueing LoadHead" for s
    using that solo_dequeue_load by blast
  have count: "done_in 1 u s" if "qpc s u = Dequeueing (CountDown d)" for s d
    using done_in_Suc [of 0 u s] done_in_idle [of "lfq_run u s"] run_dequeue(1) [OF that] by simp
  have free: "done_in 2 u s" if "qpc s u = Dequeueing (FreeHead hp d)" for s hp d
    using done_in_Suc [of 1, OF count] run_dequeue(1) [OF that] by (simp add: eval_nat_numeral)
  have helps: "done_in 14 u s" if "lfq_inv ns h t s" "qpc s u = Dequeueing (HelpTail2 tp nx)" for ns h t s tp nx
    using done_in_Suc [of 13, OF load] lfq_run_dequeue [OF that] run_dequeue(1) [OF that(2)] by simp
  have swing: "done_in 14 u s" if "lfq_inv ns h t s" "qpc s u = Dequeueing (SwingHead hp nx d)" for ns h t s hp nx d
  proof -
    have "done_in 13 u (lfq_run u s)"
      using load [OF lfq_run_dequeue [OF that]] free [of "lfq_run u s" hp d, THEN done_in_mono, of 13] run_dequeue(1) [OF that(2)]
      by (auto simp: lf_compare_exchange_def split: if_splits)
    then show ?thesis using done_in_Suc [of 13] by simp
  qed
  have read: "done_in 15 u s" if "lfq_inv ns h t s" "qpc s u = Dequeueing (ReadData hp nx)" for ns h t s hp nx
    using done_in_Suc [of 14] swing lfq_run_dequeue [OF that] run_dequeue(1) [OF that(2)] by fastforce
  have check: "done_in 16 u s" if "lfq_inv ns h t s" "qpc s u = Dequeueing (CheckHead hp tp nx)" for ns h t s hp tp nx
  proof -
    note run = lfq_run_dequeue [OF that]
    obtain ns' h' t' where i: "lfq_inv ns' h' t' (lfq_run u s)" using run by blast
    have "done_in 15 u (lfq_run u s)"
      using load [of "lfq_run u s", THEN done_in_mono, of 15] helps [OF i, THEN done_in_mono, of _ _ 15] read [OF i] i
        done_in_idle [of "lfq_run u s" u 15] run_dequeue(1) [OF that(2)]
      by (auto split: if_splits)
    then show ?thesis using done_in_Suc [of 15] by simp
  qed
  have next2: "done_in 17 u s" if "lfq_inv ns h t s" "qpc s u = Dequeueing (LoadNext2 hp tp)" for ns h t s hp tp
    using done_in_Suc [of 16] check lfq_run_dequeue [OF that] run_dequeue(1) [OF that(2)] by fastforce
  have tail2: "done_in 18 u s" if "lfq_inv ns h t s" "qpc s u = Dequeueing (LoadTail2 hp)" for ns h t s hp
    using done_in_Suc [of 17] next2 lfq_run_dequeue [OF that] run_dequeue(1) [OF that(2)] by fastforce
  show ?thesis
    using pc inv load [of s, THEN done_in_mono, of 18] count [of s, THEN done_in_mono, of _ 18] free [of s, THEN done_in_mono, of _ _ 18]
      helps [of ns h t s, THEN done_in_mono, of _ _ 18] swing [of ns h t s, THEN done_in_mono, of _ _ _ 18]
      read [of ns h t s, THEN done_in_mono, of _ _ 18] check [of ns h t s, THEN done_in_mono, of _ _ _ 18]
      next2 [of ns h t s, THEN done_in_mono, of _ _ 18] tail2 [of ns h t s]
    by (cases pc) auto
qed



end
