(* ===== verification/Sched.thy ===== *)
theory Sched
  imports Prelude "HOL-Library.Monad_Syntax"
begin

text \<open>
  The thread scheduler, \<^verbatim>\<open>kernel/sched/scheduler.c\<close>, with load balancing (\<^verbatim>\<open>load_balance.c\<close>), work stealing (\<^verbatim>\<open>work_stealing.c\<close>) and
  CPU affinity (\<^verbatim>\<open>cpu_affinity.c\<close>). Thread control blocks live at addresses, 0 is the NULL pointer, and the queues
  are chains of \<open>tnext\<close> pointers as in the code. The registers of a thread are not part of the model: a
  context switch is the change of \<open>current_thread\<close>. The number of the calling CPU, the number of CPUs, the
  timer and the addresses returned by \<^verbatim>\<open>kmalloc\<close> are arguments.

  A function returns \<open>None\<close> when it does not return in the code or leaves an array: it follows a cyclic chain, waits for a
  lock that is never released, panics, or indexes a queue above 127.
\<close>

section \<open>State\<close>

datatype thread_state_t = THREAD_STATE_READY | THREAD_STATE_RUNNING | THREAD_STATE_BLOCKED | THREAD_STATE_SLEEPING | THREAD_STATE_DEAD

definition THREAD_PRIORITY_IDLE :: u8 where "THREAD_PRIORITY_IDLE = 0"
definition MAX_THREADS :: u64 where "MAX_THREADS = 256"
definition MAX_CPUS :: nat where "MAX_CPUS = 256"
definition KERNEL_STACK_SIZE :: u64 where "KERNEL_STACK_SIZE = 64 * 1024"

record thread_t =
  tid :: u64
  name :: string
  state :: thread_state_t
  priority :: u8
  kernel_stack :: u64
  kernel_stack_size :: u64
  tnext :: u64
  cpu_time :: u64
  wakeup_time :: u64
  cpu_affinity :: "32 word"

record per_cpu_runqueue_t =
  rq_lock :: bool
  ready_queues :: "nat \<Rightarrow> u64"
  blocked_queue :: u64
  current_thread :: u64
  idle_thread :: u64
  rq_cpu_id :: nat

record sched_state =
  threads :: "u64 \<Rightarrow> thread_t"
  thread_table :: "u64 array"
  next_tid :: u64
  sleeping_queue :: u64
  runqueues :: "nat \<Rightarrow> per_cpu_runqueue_t"
  tick_counter :: "nat \<Rightarrow> u64"
  need_reschedule :: "nat \<Rightarrow> bool"
  last_balance :: u64
  steal_start :: "nat \<Rightarrow> nat"

abbreviation upd_thread :: "u64 \<Rightarrow> (thread_t \<Rightarrow> thread_t) \<Rightarrow> sched_state \<Rightarrow> sched_state" where
  "upd_thread t f s \<equiv> s\<lparr>threads := (threads s)(t := f (threads s t))\<rparr>"

abbreviation upd_rq :: "nat \<Rightarrow> (per_cpu_runqueue_t \<Rightarrow> per_cpu_runqueue_t) \<Rightarrow> sched_state \<Rightarrow> sched_state" where
  "upd_rq c f s \<equiv> s\<lparr>runqueues := (runqueues s)(c := f (runqueues s c))\<rparr>"

abbreviation set_ready :: "nat \<Rightarrow> nat \<Rightarrow> u64 \<Rightarrow> sched_state \<Rightarrow> sched_state" where
  "set_ready c p t s \<equiv> upd_rq c (\<lambda>rq. rq\<lparr>ready_queues := (ready_queues rq)(p := t)\<rparr>) s"

text \<open>Taking a runqueue's lock waits forever when it was left held.\<close>

definition lock_rq :: "nat \<Rightarrow> sched_state \<Rightarrow> sched_state option" where
  "lock_rq c s = (if rq_lock (runqueues s c) then None else Some (upd_rq c (\<lambda>rq. rq\<lparr>rq_lock := True\<rparr>) s))"

definition unlock_rq :: "nat \<Rightarrow> sched_state \<Rightarrow> sched_state" where
  "unlock_rq c s = upd_rq c (\<lambda>rq. rq\<lparr>rq_lock := False\<rparr>) s"

text \<open>The queue index of a thread, which is its priority.\<close>

definition queue_index :: "u64 \<Rightarrow> sched_state \<Rightarrow> nat option" where
  "queue_index t s = (let p = unat (priority (threads s t)) in if p < 128 then Some p else None)"

definition get_current_runqueue :: "nat \<Rightarrow> nat" where
  "get_current_runqueue cpu = (if cpu \<ge> MAX_CPUS then 0 else cpu)"

definition get_cpu_runqueue :: "nat \<Rightarrow> nat option" where
  "get_cpu_runqueue cpu = (if cpu \<ge> MAX_CPUS then None else Some cpu)"

definition snprintf :: "nat \<Rightarrow> string \<Rightarrow> string" where
  "snprintf n fmt = (if n = 0 then '''' else take (n - 1) fmt)"

section \<open>Initialisation\<close>

definition init_idle_thread_for_cpu :: "nat \<Rightarrow> u64 \<Rightarrow> sched_state \<Rightarrow> sched_state option" where
  "init_idle_thread_for_cpu cpu idle s =
     (if idle = 0 then None
      else
        let t = \<lparr>tid = of_nat cpu, name = snprintf 32 ''idle-%u'', state = THREAD_STATE_READY, priority = THREAD_PRIORITY_IDLE,
                 kernel_stack = 0, kernel_stack_size = 0, tnext = 0, cpu_time = 0, wakeup_time = 0, cpu_affinity = of_nat cpu\<rparr>
        in Some (upd_rq cpu (\<lambda>rq. rq\<lparr>idle_thread := idle, ready_queues := (ready_queues rq)(unat THREAD_PRIORITY_IDLE := idle),
                                     current_thread := idle\<rparr>)
                   (s\<lparr>threads := (threads s)(idle := t)\<rparr>)))"

definition scheduler_init_per_cpu :: "nat \<Rightarrow> u64 \<Rightarrow> sched_state \<Rightarrow> sched_state option" where
  "scheduler_init_per_cpu cpu idle s =
     (if cpu \<ge> MAX_CPUS then Some s
      else
        init_idle_thread_for_cpu cpu idle
          (upd_rq cpu (\<lambda>rq. \<lparr>rq_lock = False, ready_queues = (\<lambda>j. if j < 128 then 0 else ready_queues rq j), blocked_queue = 0,
                            current_thread = 0, idle_thread = 0, rq_cpu_id = cpu\<rparr>) s))"

primrec init_cpus :: "(nat \<Rightarrow> u64) \<Rightarrow> nat list \<Rightarrow> sched_state \<Rightarrow> sched_state option" where
  "init_cpus idle_at [] s = Some s"
| "init_cpus idle_at (i # is) s = do { s \<leftarrow> scheduler_init_per_cpu i (idle_at i) s; init_cpus idle_at is s }"

definition scheduler_init :: "nat \<Rightarrow> (nat \<Rightarrow> u64) \<Rightarrow> sched_state \<Rightarrow> sched_state option" where
  "scheduler_init num_cpus idle_at s =
     (let s = s\<lparr>thread_table := (\<lambda>i. if i < unat MAX_THREADS then 0 else thread_table s i)\<rparr>;
          num_cpus = (if num_cpus = 0 then 1 else num_cpus)
      in init_cpus idle_at [0..<min num_cpus MAX_CPUS] s)"

section \<open>Queues\<close>

text \<open>The loop that walks to the end of a queue.\<close>

partial_function (option) last_thread :: "(u64 \<Rightarrow> thread_t) \<Rightarrow> u64 \<Rightarrow> u64 option" where
  "last_thread T t = (if tnext (T t) = 0 then Some t else last_thread T (tnext (T t)))"

text \<open>The loop that looks for the predecessor of \<open>t\<close>; 0 when the queue ends.\<close>

partial_function (option) pred_thread :: "(u64 \<Rightarrow> thread_t) \<Rightarrow> u64 \<Rightarrow> u64 \<Rightarrow> u64 option" where
  "pred_thread T t p = (if p = 0 then Some 0 else if tnext (T p) = t then Some p else pred_thread T t (tnext (T p)))"

partial_function (option) count_threads :: "(u64 \<Rightarrow> thread_t) \<Rightarrow> u64 \<Rightarrow> u32 \<Rightarrow> u32 option" where
  "count_threads T t n = (if t = 0 then Some n else count_threads T (tnext (T t)) (n + 1))"

definition append_ready :: "nat \<Rightarrow> nat \<Rightarrow> u64 \<Rightarrow> sched_state \<Rightarrow> sched_state option" where
  "append_ready c p t s =
     (let q = ready_queues (runqueues s c) p in
      if q = 0 then Some (upd_thread t (\<lambda>x. x\<lparr>tnext := 0\<rparr>) (set_ready c p t s))
      else do {
        l \<leftarrow> last_thread (threads s) q;
        Some (upd_thread t (\<lambda>x. x\<lparr>tnext := 0\<rparr>) (upd_thread l (\<lambda>x. x\<lparr>tnext := t\<rparr>) s))
      })"

definition add_to_ready_queue :: "u64 \<Rightarrow> nat \<Rightarrow> sched_state \<Rightarrow> sched_state option" where
  "add_to_ready_queue t cpu s =
     (let c = (if cpu \<ge> MAX_CPUS then 0 else cpu) in
      do {
        p \<leftarrow> queue_index t s;
        s \<leftarrow> lock_rq c s;
        s \<leftarrow> append_ready c p t s;
        Some (unlock_rq c s)
      })"

primrec remove_from_cpus :: "u64 \<Rightarrow> nat \<Rightarrow> nat list \<Rightarrow> sched_state \<Rightarrow> sched_state option" where
  "remove_from_cpus t p [] s = Some s"
| "remove_from_cpus t p (c # cs) s =
     do {
       s \<leftarrow> lock_rq c s;
       if ready_queues (runqueues s c) p = t then Some (unlock_rq c (set_ready c p (tnext (threads s t)) s))
       else do {
         x \<leftarrow> pred_thread (threads s) t (ready_queues (runqueues s c) p);
         if x \<noteq> 0 then Some (unlock_rq c (upd_thread x (\<lambda>y. y\<lparr>tnext := tnext (threads s t)\<rparr>) s))
         else remove_from_cpus t p cs (unlock_rq c s)
       }
     }"

definition remove_from_ready_queue :: "u64 \<Rightarrow> sched_state \<Rightarrow> sched_state option" where
  "remove_from_ready_queue t s = do { p \<leftarrow> queue_index t s; remove_from_cpus t p [0..<MAX_CPUS] s }"

text \<open>
  The highest non-empty queue. When there is none, the code returns the idle thread without releasing the
  runqueue's lock.
\<close>

definition highest_ready :: "per_cpu_runqueue_t \<Rightarrow> nat option" where
  "highest_ready rq = find (\<lambda>i. ready_queues rq i \<noteq> 0) (rev [0..<128])"

definition pick_next_thread :: "nat \<Rightarrow> sched_state \<Rightarrow> (u64 \<times> sched_state) option" where
  "pick_next_thread cpu s =
     (let c = get_current_runqueue cpu in
      do {
        s \<leftarrow> lock_rq c s;
        case highest_ready (runqueues s c) of
          None \<Rightarrow> Some (idle_thread (runqueues s c), s)
        | Some i \<Rightarrow>
            let t = ready_queues (runqueues s c) i;
                s = set_ready c i (tnext (threads s t)) s
            in if t \<noteq> idle_thread (runqueues s c) \<and> state (threads s t) = THREAD_STATE_READY then
                 do { s \<leftarrow> append_ready c i t (upd_thread t (\<lambda>x. x\<lparr>tnext := 0\<rparr>) s); Some (t, unlock_rq c s) }
               else Some (t, unlock_rq c s)
      })"

section \<open>Threads\<close>

definition scheduler_schedule :: "nat \<Rightarrow> sched_state \<Rightarrow> sched_state option" where
  "scheduler_schedule cpu s =
     (let c = get_current_runqueue cpu; old = current_thread (runqueues s c) in
      if old = 0 then Some (upd_rq c (\<lambda>rq. rq\<lparr>current_thread := idle_thread rq\<rparr>) s)
      else do {
        s \<leftarrow> (if state (threads s old) = THREAD_STATE_RUNNING then
                let s = upd_thread old (\<lambda>x. x\<lparr>state := THREAD_STATE_READY\<rparr>) s
                in if old \<noteq> idle_thread (runqueues s c) then add_to_ready_queue old cpu s else Some s
              else Some s);
        (new, s) \<leftarrow> pick_next_thread cpu s;
        if new = old then Some s
        else Some (upd_rq c (\<lambda>rq. rq\<lparr>current_thread := new\<rparr>) (upd_thread new (\<lambda>x. x\<lparr>state := THREAD_STATE_RUNNING\<rparr>) s))
      })"

text \<open>\<open>thread\<close> and \<open>stack\<close> are what the two calls of \<^verbatim>\<open>kmalloc\<close> return.\<close>

definition thread_create :: "u64 \<Rightarrow> u64 \<Rightarrow> nat \<Rightarrow> u8 \<Rightarrow> sched_state \<Rightarrow> (u64 \<times> sched_state) option" where
  "thread_create thread stack cpu prio s =
     (if thread = 0 then Some (0, s)
      else if stack = 0 then Some (0, s)
      else
        let t = next_tid s; s = s\<lparr>next_tid := t + 1\<rparr>
        in if t \<ge> MAX_THREADS then Some (0, s)
           else
             let s = s\<lparr>threads := (threads s)(thread :=
                        \<lparr>tid = t, name = snprintf 32 ''%s'', state = THREAD_STATE_READY, priority = prio, kernel_stack = stack,
                         kernel_stack_size = KERNEL_STACK_SIZE, tnext = 0, cpu_time = 0, wakeup_time = 0, cpu_affinity = - 1\<rparr>)\<rparr>;
                 s = s\<lparr>thread_table := (thread_table s)(unat t := thread)\<rparr>
             in do { s \<leftarrow> add_to_ready_queue thread cpu s; Some (t, s) })"

text \<open>The state in which the thread is left; it panics when the scheduler comes back to it.\<close>

definition thread_exit :: "nat \<Rightarrow> sched_state \<Rightarrow> sched_state option" where
  "thread_exit cpu s =
     (let c = get_current_runqueue cpu; t = current_thread (runqueues s c);
          s = upd_thread t (\<lambda>x. x\<lparr>state := THREAD_STATE_DEAD\<rparr>) s;
          s = s\<lparr>thread_table := (thread_table s)(unat (tid (threads s t)) := 0)\<rparr>
      in do {
        s \<leftarrow> scheduler_schedule cpu s;
        if current_thread (runqueues s c) = t then None else Some s
      })"

definition thread_yield :: "nat \<Rightarrow> sched_state \<Rightarrow> sched_state option" where
  "thread_yield cpu s = scheduler_schedule cpu s"

definition thread_sleep :: "u64 \<Rightarrow> nat \<Rightarrow> u64 \<Rightarrow> sched_state \<Rightarrow> sched_state option" where
  "thread_sleep ticks cpu ms s =
     (if ms = 0 then thread_yield cpu s
      else
        let t = current_thread (runqueues s (get_current_runqueue cpu));
            sleep = ms * 100 div 1000; sleep = (if sleep = 0 then 1 else sleep);
            s = upd_thread t (\<lambda>x. x\<lparr>wakeup_time := ticks + sleep, state := THREAD_STATE_SLEEPING, tnext := sleeping_queue s\<rparr>) s
        in scheduler_schedule cpu (s\<lparr>sleeping_queue := t\<rparr>))"

definition thread_current :: "nat \<Rightarrow> sched_state \<Rightarrow> u64" where
  "thread_current cpu s = current_thread (runqueues s (get_current_runqueue cpu))"

definition thread_block :: "nat \<Rightarrow> sched_state \<Rightarrow> sched_state option" where
  "thread_block cpu s =
     (let c = get_current_runqueue cpu; t = current_thread (runqueues s c);
          s = upd_thread t (\<lambda>x. x\<lparr>state := THREAD_STATE_BLOCKED\<rparr>) s
      in do {
        s \<leftarrow> lock_rq c s;
        let s = upd_thread t (\<lambda>x. x\<lparr>tnext := blocked_queue (runqueues s c)\<rparr>) s;
        let s = upd_rq c (\<lambda>rq. rq\<lparr>blocked_queue := t\<rparr>) s;
        scheduler_schedule cpu (unlock_rq c s)
      })"

definition make_ready :: "u64 \<Rightarrow> nat \<Rightarrow> sched_state \<Rightarrow> sched_state option" where
  "make_ready t cpu s = add_to_ready_queue t cpu (upd_thread t (\<lambda>x. x\<lparr>state := THREAD_STATE_READY\<rparr>) s)"

primrec unblock_on_cpus :: "u64 \<Rightarrow> nat \<Rightarrow> nat list \<Rightarrow> sched_state \<Rightarrow> sched_state option" where
  "unblock_on_cpus t cpu [] s = Some s"
| "unblock_on_cpus t cpu (c # cs) s =
     do {
       s \<leftarrow> lock_rq c s;
       if blocked_queue (runqueues s c) = t then
         make_ready t cpu (unlock_rq c (upd_rq c (\<lambda>rq. rq\<lparr>blocked_queue := tnext (threads s t)\<rparr>) s))
       else do {
         x \<leftarrow> pred_thread (threads s) t (blocked_queue (runqueues s c));
         if x \<noteq> 0 then make_ready t cpu (unlock_rq c (upd_thread x (\<lambda>y. y\<lparr>tnext := tnext (threads s t)\<rparr>) s))
         else unblock_on_cpus t cpu cs (unlock_rq c s)
       }
     }"

definition thread_unblock :: "u64 \<Rightarrow> nat \<Rightarrow> sched_state \<Rightarrow> sched_state option" where
  "thread_unblock t cpu s =
     (if state (threads s t) \<noteq> THREAD_STATE_BLOCKED then Some s else unblock_on_cpus t cpu [0..<MAX_CPUS] s)"

section \<open>Load balancing\<close>

definition LOAD_BALANCE_INTERVAL :: u64 where "LOAD_BALANCE_INTERVAL = 100"
definition LOAD_BALANCE_THRESHOLD :: u32 where "LOAD_BALANCE_THRESHOLD = 2"

primrec count_queues :: "(u64 \<Rightarrow> thread_t) \<Rightarrow> (nat \<Rightarrow> u64) \<Rightarrow> nat list \<Rightarrow> u32 \<Rightarrow> u32 option" where
  "count_queues T Q [] n = Some n"
| "count_queues T Q (i # is) n = do { n \<leftarrow> count_threads T (Q i) n; count_queues T Q is n }"

definition get_runqueue_length :: "nat \<Rightarrow> sched_state \<Rightarrow> u32 option" where
  "get_runqueue_length cpu s =
     (case get_cpu_runqueue cpu of
        None \<Rightarrow> Some 0
      | Some c \<Rightarrow> do { s \<leftarrow> lock_rq c s; count_queues (threads s) (ready_queues (runqueues s c)) [0..<128] 0 })"

definition move_thread_to_cpu :: "u64 \<Rightarrow> nat \<Rightarrow> sched_state \<Rightarrow> sched_state option" where
  "move_thread_to_cpu t target s =
     (if t = 0 then Some s else do { s \<leftarrow> remove_from_ready_queue t s; add_to_ready_queue t target s })"

text \<open>The first loop: busiest and least busy CPU with their counts.\<close>

primrec compare_cpus ::
  "nat list \<Rightarrow> (nat \<times> u32) \<times> (nat \<times> u32) \<Rightarrow> sched_state \<Rightarrow> ((nat \<times> u32) \<times> (nat \<times> u32)) option" where
  "compare_cpus [] r s = Some r"
| "compare_cpus (i # is) r s =
     do {
       n \<leftarrow> get_runqueue_length i s;
       compare_cpus is (if n > snd (fst r) then (i, n) else fst r, if n < snd (snd r) then (i, n) else snd r) s
     }"

text \<open>Taking the first thread of the lowest non-empty queue below 64 off the runqueue.\<close>

definition take_lowest :: "nat \<Rightarrow> sched_state \<Rightarrow> u64 \<times> nat \<times> sched_state" where
  "take_lowest c s =
     (case find (\<lambda>i. ready_queues (runqueues s c) i \<noteq> 0) [0..<64] of
        None \<Rightarrow> (0, 0, s)
      | Some i \<Rightarrow>
          let t = ready_queues (runqueues s c) i
          in (t, i, upd_thread t (\<lambda>x. x\<lparr>tnext := 0\<rparr>) (set_ready c i (tnext (threads s t)) s)))"

definition scheduler_load_balance :: "nat \<Rightarrow> u64 \<Rightarrow> sched_state \<Rightarrow> sched_state option" where
  "scheduler_load_balance num_cpus ticks s =
     (if num_cpus \<le> 1 then Some s
      else if ticks - last_balance s < LOAD_BALANCE_INTERVAL then Some s
      else
        let s = s\<lparr>last_balance := ticks\<rparr> in
        do {
          ((busiest, most), (least, fewest)) \<leftarrow> compare_cpus [0..<num_cpus] ((0, 0), (0, - 1)) s;
          if most - fewest < LOAD_BALANCE_THRESHOLD then Some s
          else
            (case get_cpu_runqueue busiest of
               None \<Rightarrow> Some s
             | Some c \<Rightarrow>
                 do {
                   s \<leftarrow> lock_rq c s;
                   let (t, i, s) = take_lowest c s;
                   let s = unlock_rq c s;
                   if t = 0 then Some s else move_thread_to_cpu t least s
                 })
        })"

section \<open>Timer\<close>

text \<open>The loop over the sleeping threads: \<open>prev\<close> is the last thread kept, 0 at the front.\<close>

partial_function (option) wake_sleeping :: "u64 \<Rightarrow> u64 \<Rightarrow> u64 \<Rightarrow> sched_state \<Rightarrow> sched_state option" where
  "wake_sleeping ticks prev t s =
     (if t = 0 then Some s
      else
        let nx = tnext (threads s t) in
        if ticks \<ge> wakeup_time (threads s t) then
          let s = (if prev \<noteq> 0 then upd_thread prev (\<lambda>x. x\<lparr>tnext := nx\<rparr>) s else s\<lparr>sleeping_queue := nx\<rparr>)
          in case make_ready t 0 s of None \<Rightarrow> None | Some s \<Rightarrow> wake_sleeping ticks prev nx s
        else wake_sleeping ticks t nx s)"

definition scheduler_tick :: "nat \<Rightarrow> u64 \<Rightarrow> nat \<Rightarrow> sched_state \<Rightarrow> sched_state option" where
  "scheduler_tick num_cpus ticks cpu s =
     (if cpu \<ge> MAX_CPUS then None
      else
        let rq = runqueues s cpu; t = current_thread rq;
            s = (if t \<noteq> 0 \<and> t \<noteq> idle_thread rq then upd_thread t (\<lambda>x. x\<lparr>cpu_time := cpu_time x + 1\<rparr>) s else s)
        in do {
          s \<leftarrow> (if cpu = 0 then do { s \<leftarrow> wake_sleeping ticks 0 (sleeping_queue s) s; scheduler_load_balance num_cpus ticks s }
                else Some s);
          let n = tick_counter s cpu + 1;
          Some (if n \<ge> 10
                then s\<lparr>tick_counter := (tick_counter s)(cpu := 0), need_reschedule := (need_reschedule s)(cpu := True)\<rparr>
                else s\<lparr>tick_counter := (tick_counter s)(cpu := n)\<rparr>)
        })"

definition scheduler_check_reschedule :: "nat \<Rightarrow> sched_state \<Rightarrow> sched_state option" where
  "scheduler_check_reschedule cpu s =
     (if cpu \<ge> MAX_CPUS then None
      else if need_reschedule s cpu
      then scheduler_schedule cpu (s\<lparr>need_reschedule := (need_reschedule s)(cpu := False)\<rparr>)
      else Some s)"

section \<open>Work stealing\<close>

text \<open>\<open>got\<close> is whether \<^verbatim>\<open>spinlock_trylock\<close> gets the victim's lock.\<close>

definition try_steal_from_cpu :: "bool \<Rightarrow> nat \<Rightarrow> nat \<Rightarrow> sched_state \<Rightarrow> u64 \<times> sched_state" where
  "try_steal_from_cpu got thief victim s =
     (if thief = victim then (0, s)
      else
        case get_cpu_runqueue victim of
          None \<Rightarrow> (0, s)
        | Some c \<Rightarrow>
            if \<not> got \<or> rq_lock (runqueues s c) then (0, s)
            else
              let (t, i, s') = take_lowest c s in
              if t = 0 then (0, s)
              else if 0 \<le> sint (cpu_affinity (threads s t)) \<and> cpu_affinity (threads s t) \<noteq> of_nat thief
              then (0, set_ready c i t (upd_thread t (\<lambda>x. x\<lparr>tnext := ready_queues (runqueues s' c) i\<rparr>) s'))
              else (t, s'))"

primrec steal_from_cpus :: "(nat \<Rightarrow> bool) \<Rightarrow> nat \<Rightarrow> nat \<Rightarrow> nat \<Rightarrow> nat list \<Rightarrow> sched_state \<Rightarrow> (bool \<times> sched_state) option" where
  "steal_from_cpus got num idle start [] s = Some (False, s\<lparr>steal_start := (steal_start s)(idle := (start + 1) mod num)\<rparr>)"
| "steal_from_cpus got num idle start (i # is) s =
     (let victim = (start + i) mod num in
      if victim = idle then steal_from_cpus got num idle start is s
      else
        case try_steal_from_cpu (got victim) idle victim s of
          (t, s) \<Rightarrow>
            if t \<noteq> 0 then
              do {
                s \<leftarrow> add_to_ready_queue t idle s;
                Some (True, s\<lparr>steal_start := (steal_start s)(idle := (victim + 1) mod num)\<rparr>)
              }
            else steal_from_cpus got num idle start is s)"

definition scheduler_try_work_stealing :: "(nat \<Rightarrow> bool) \<Rightarrow> nat \<Rightarrow> nat \<Rightarrow> sched_state \<Rightarrow> (bool \<times> sched_state) option" where
  "scheduler_try_work_stealing got num_cpus idle s =
     (if num_cpus \<le> 1 then Some (False, s)
      else if idle \<ge> MAX_CPUS then None
      else steal_from_cpus got num_cpus idle (steal_start s idle) [0..<num_cpus] s)"

section \<open>Affinity\<close>

definition thread_set_affinity :: "nat \<Rightarrow> u64 \<Rightarrow> 32 word \<Rightarrow> sched_state \<Rightarrow> (error_code_t \<times> sched_state) option" where
  "thread_set_affinity num_cpus t cpu s =
     (if t = 0 then Some (ERR_INVALID_ARG, s)
      else if int num_cpus \<le> sint cpu \<and> cpu \<noteq> - 1 then Some (ERR_INVALID_ARG, s)
      else if t \<ge> MAX_THREADS then None
      else
        let a = thread_table s (unat t) in
        if a = 0 then Some (ERR_INVALID_PID, s)
        else Some (ERR_OK, upd_thread a (\<lambda>x. x\<lparr>cpu_affinity := cpu\<rparr>) s))"

definition thread_get_affinity :: "u64 \<Rightarrow> sched_state \<Rightarrow> 32 word option" where
  "thread_get_affinity t s =
     (if t = 0 then Some (- 1)
      else if t \<ge> MAX_THREADS then None
      else
        let a = thread_table s (unat t) in
        Some (if a = 0 then - 1 else cpu_affinity (threads s a)))"

definition thread_set_affinity_current :: "nat \<Rightarrow> nat \<Rightarrow> 32 word \<Rightarrow> sched_state \<Rightarrow> (error_code_t \<times> sched_state) option" where
  "thread_set_affinity_current num_cpus this_cpu cpu s =
     (let t = thread_current this_cpu s in
      if t = 0 then Some (ERR_INVALID_ARG, s) else thread_set_affinity num_cpus (tid (threads s t)) cpu s)"

definition thread_get_affinity_current :: "nat \<Rightarrow> sched_state \<Rightarrow> 32 word" where
  "thread_get_affinity_current this_cpu s =
     (let t = thread_current this_cpu s in if t = 0 then - 1 else cpu_affinity (threads s t))"

end
