(* ===== verification/Sched_Props.thy ===== *)
theory Sched_Props
  imports Sched Chains
begin

text \<open>
  The ready queues as lists of threads: what the queue operations do to them, round-robin scheduling, and the ways
  in which threads get lost.
\<close>

section \<open>Loops\<close>

abbreviation links :: "sched_state \<Rightarrow> u64 \<Rightarrow> u64" where
  "links s \<equiv> \<lambda>a. tnext (threads s a)"

lemma last_thread_path: "path (\<lambda>a. tnext (T a)) a (xs @ [l]) \<Longrightarrow> last_thread T a = Some l"
proof (induction xs arbitrary: a)
  case (Cons x xs)
  then have "tnext (T x) \<noteq> 0" by (cases xs) auto
  then show ?case using Cons by (simp add: last_thread.simps [of T x])
qed (auto simp: last_thread.simps)

lemma pred_thread_none: "path (\<lambda>a. tnext (T a)) a xs \<Longrightarrow> t \<notin> set xs \<Longrightarrow> t \<noteq> 0 \<Longrightarrow> pred_thread T t a = Some 0"
proof (induction xs arbitrary: a)
  case (Cons x xs)
  then have "tnext (T x) \<noteq> t" by (cases xs) auto
  then show ?case using Cons by (simp add: pred_thread.simps [of T t x])
qed (simp add: pred_thread.simps)

lemma pred_thread_some: "path (\<lambda>a. tnext (T a)) a (xs @ p # t # ys) \<Longrightarrow> pred_thread T t a = Some p"
proof (induction xs arbitrary: a)
  case (Cons x xs)
  have "distinct (x # xs @ p # t # ys)"
    using Cons.prems by (intro path_distinct [where f = "\<lambda>a. tnext (T a)" and a = a]) simp
  then have "tnext (T x) \<noteq> t" using Cons.prems by (cases xs) auto
  then show ?case using Cons by (simp add: pred_thread.simps [of T t x])
qed (auto simp: pred_thread.simps)

lemma count_threads_path: "path (\<lambda>a. tnext (T a)) a xs \<Longrightarrow> count_threads T a n = Some (n + of_nat (length xs))"
  by (induction xs arbitrary: a n) (auto simp: count_threads.simps algebra_simps)

section \<open>Queues\<close>

text \<open>Every ready queue is a list of threads of its priority, and no thread is in two of them.\<close>

definition ready_lists :: "sched_state \<Rightarrow> (nat \<Rightarrow> nat \<Rightarrow> u64 list) \<Rightarrow> bool" where
  "ready_lists s Q \<longleftrightarrow>
     (\<forall>c < MAX_CPUS. \<forall>p < 128. path (links s) (ready_queues (runqueues s c) p) (Q c p) \<and>
        (\<forall>t \<in> set (Q c p). unat (priority (threads s t)) = p)) \<and>
     (\<forall>c < MAX_CPUS. \<forall>d < MAX_CPUS. \<forall>p < 128. c \<noteq> d \<longrightarrow> set (Q c p) \<inter> set (Q d p) = {})"

definition unlocked :: "sched_state \<Rightarrow> bool" where
  "unlocked s \<longleftrightarrow> (\<forall>c < MAX_CPUS. \<not> rq_lock (runqueues s c))"

definition queued :: "(nat \<Rightarrow> nat \<Rightarrow> u64 list) \<Rightarrow> u64 \<Rightarrow> bool" where
  "queued Q t \<longleftrightarrow> (\<exists>c < MAX_CPUS. \<exists>p < 128. t \<in> set (Q c p))"

abbreviation set_queue :: "nat \<Rightarrow> nat \<Rightarrow> u64 list \<Rightarrow> (nat \<Rightarrow> nat \<Rightarrow> u64 list) \<Rightarrow> nat \<Rightarrow> nat \<Rightarrow> u64 list" where
  "set_queue c p xs Q \<equiv> Q(c := (Q c)(p := xs))"

lemma chains_path:
  assumes "ready_lists s Q" "c < MAX_CPUS" "p < 128"
  shows "path (links s) (ready_queues (runqueues s c) p) (Q c p)" "t \<in> set (Q c p) \<Longrightarrow> unat (priority (threads s t)) = p"
  using assms by (auto simp: ready_lists_def)

lemma chains_disjoint:
  assumes "ready_lists s Q" "c < MAX_CPUS" "d < MAX_CPUS" "p < 128" "c \<noteq> d" "a \<in> set (Q c p)"
  shows "a \<notin> set (Q d p)"
proof -
  have "set (Q c p) \<inter> set (Q d p) = {}" using assms(1-5) unfolding ready_lists_def by blast
  with assms(6) show ?thesis by blast
qed

text \<open>Two states that differ in links and ready queues only.\<close>

definition same :: "sched_state \<Rightarrow> sched_state \<Rightarrow> bool" where
  "same s s' \<longleftrightarrow>
     (\<forall>a. (threads s' a)\<lparr>tnext := 0\<rparr> = (threads s a)\<lparr>tnext := 0\<rparr>) \<and>
     (\<forall>c. (runqueues s' c)\<lparr>ready_queues := (\<lambda>_. 0)\<rparr> = (runqueues s c)\<lparr>ready_queues := (\<lambda>_. 0)\<rparr>) \<and>
     s'\<lparr>threads := threads s, runqueues := runqueues s\<rparr> = s"

lemma same_thread:
  assumes "same s s'"
  shows "priority (threads s' a) = priority (threads s a)" "state (threads s' a) = state (threads s a)"
    "tid (threads s' a) = tid (threads s a)" "cpu_affinity (threads s' a) = cpu_affinity (threads s a)"
proof -
  have "(threads s' a)\<lparr>tnext := 0\<rparr> = (threads s a)\<lparr>tnext := 0\<rparr>" using assms by (simp add: same_def)
  from arg_cong [OF this, of priority] arg_cong [OF this, of state] arg_cong [OF this, of tid] arg_cong [OF this, of cpu_affinity]
  show "priority (threads s' a) = priority (threads s a)" "state (threads s' a) = state (threads s a)"
    "tid (threads s' a) = tid (threads s a)" "cpu_affinity (threads s' a) = cpu_affinity (threads s a)" by simp_all
qed

lemma same_rq:
  assumes "same s s'"
  shows "rq_lock (runqueues s' c) = rq_lock (runqueues s c)" "current_thread (runqueues s' c) = current_thread (runqueues s c)"
    "idle_thread (runqueues s' c) = idle_thread (runqueues s c)" "blocked_queue (runqueues s' c) = blocked_queue (runqueues s c)"
proof -
  have "(runqueues s' c)\<lparr>ready_queues := (\<lambda>_. 0)\<rparr> = (runqueues s c)\<lparr>ready_queues := (\<lambda>_. 0)\<rparr>" using assms by (simp add: same_def)
  from arg_cong [OF this, of rq_lock] arg_cong [OF this, of current_thread] arg_cong [OF this, of idle_thread]
    arg_cong [OF this, of blocked_queue]
  show "rq_lock (runqueues s' c) = rq_lock (runqueues s c)" "current_thread (runqueues s' c) = current_thread (runqueues s c)"
    "idle_thread (runqueues s' c) = idle_thread (runqueues s c)" "blocked_queue (runqueues s' c) = blocked_queue (runqueues s c)"
    by simp_all
qed

lemma same_trans: "same s t \<Longrightarrow> same t u \<Longrightarrow> same s u"
proof -
  assume a: "same s t" "same t u"
  have "u\<lparr>threads := threads s, runqueues := runqueues s\<rparr> = (u\<lparr>threads := threads t, runqueues := runqueues t\<rparr>)\<lparr>threads := threads s, runqueues := runqueues s\<rparr>"
    by simp
  also have "\<dots> = s" using a by (simp add: same_def)
  finally show ?thesis using a by (simp add: same_def)
qed

lemma same_refl [simp]: "same s s"
  by (simp add: same_def)

text \<open>The lists after a change of one queue.\<close>

lemma chains_change:
  assumes ch: "ready_lists s Q" and cp: "c < MAX_CPUS" "p < 128"
    and path: "path (links s') (ready_queues (runqueues s' c) p) xs"
    and set: "\<And>t. t \<in> set xs \<Longrightarrow> unat (priority (threads s t)) = p \<and> (t \<in> set (Q c p) \<or> \<not> queued Q t)"
    and others: "\<And>d r. d < MAX_CPUS \<Longrightarrow> r < 128 \<Longrightarrow> (d, r) \<noteq> (c, p) \<Longrightarrow> ready_queues (runqueues s' d) r = ready_queues (runqueues s d) r"
    and keep: "\<And>a. a \<notin> set (Q c p) \<Longrightarrow> queued Q a \<Longrightarrow> tnext (threads s' a) = tnext (threads s a)"
    and prio: "\<And>a. priority (threads s' a) = priority (threads s a)"
  shows "ready_lists s' (set_queue c p xs Q)"
proof -
  have dis: "a \<notin> set (Q c p)" if "d < MAX_CPUS" "r < 128" "(d, r) \<noteq> (c, p)" "a \<in> set (Q d r)" for a d r
  proof
    assume "a \<in> set (Q c p)"
    then have "p = r" using chains_path(2) [OF ch] cp that by metis
    with that have "c \<noteq> d" by auto
    then show False using chains_disjoint [OF ch cp(1) that(1) cp(2)] \<open>a \<in> set (Q c p)\<close> that(4) \<open>p = r\<close> by simp
  qed
  have old: "path (links s') (ready_queues (runqueues s' d) r) (Q d r)" if "d < MAX_CPUS" "r < 128" "(d, r) \<noteq> (c, p)" for d r
  proof -
    have "tnext (threads s' a) = tnext (threads s a)" if "a \<in> set (Q d r)" for a
      using that dis \<open>d < MAX_CPUS\<close> \<open>r < 128\<close> \<open>(d, r) \<noteq> (c, p)\<close> by (intro keep) (auto simp: queued_def)
    then show ?thesis using chains_path(1) [OF ch that(1,2)] others [OF that] path_cong [of "Q d r" "links s'" "links s"] by simp
  qed
  have "set xs \<inter> set (Q d p) = {}" if "d < MAX_CPUS" "d \<noteq> c" for d
    using set dis [OF that(1) cp(2)] that cp(2) by (auto simp: queued_def)
  then have "\<forall>d < MAX_CPUS. \<forall>e < MAX_CPUS. \<forall>r < 128. d \<noteq> e \<longrightarrow> set (set_queue c p xs Q d r) \<inter> set (set_queue c p xs Q e r) = {}"
    using ch by (auto simp: ready_lists_def)
  moreover have "path (links s') (ready_queues (runqueues s' d) r) (set_queue c p xs Q d r) \<and>
      (\<forall>t \<in> set (set_queue c p xs Q d r). unat (priority (threads s' t)) = r)" if "d < MAX_CPUS" "r < 128" for d r
    using that path set old [OF that] chains_path(2) [OF ch that] prio by (cases "(d, r) = (c, p)") auto
  ultimately show ?thesis by (simp add: ready_lists_def)
qed

section \<open>Queue operations\<close>

lemma chains_lock [simp]:
  "ready_lists (upd_rq c (\<lambda>rq. rq\<lparr>rq_lock := b\<rparr>) s) Q = ready_lists s Q" "ready_lists (unlock_rq c s) Q = ready_lists s Q"
  by (auto simp: ready_lists_def unlock_rq_def)

lemma lock_free: "\<not> rq_lock (runqueues s c) \<Longrightarrow> lock_rq c s = Some (upd_rq c (\<lambda>rq. rq\<lparr>rq_lock := True\<rparr>) s)"
  by (simp add: lock_rq_def)

lemma same_unlock:
  assumes "\<not> rq_lock (runqueues s c)" "same (upd_rq c (\<lambda>rq. rq\<lparr>rq_lock := True\<rparr>) s) s'"
  shows "same s (unlock_rq c s')"
proof -
  have "s'\<lparr>threads := threads s, runqueues := (runqueues s)(c := runqueues s c\<lparr>rq_lock := True\<rparr>)\<rparr> = upd_rq c (\<lambda>rq. rq\<lparr>rq_lock := True\<rparr>) s"
    using assms(2) by (simp add: same_def)
  from arg_cong [OF this, of "\<lambda>x. x\<lparr>runqueues := runqueues s\<rparr>"] have e: "s'\<lparr>threads := threads s, runqueues := runqueues s\<rparr> = s" by simp
  have "(runqueues (unlock_rq c s') d)\<lparr>ready_queues := (\<lambda>_. 0)\<rparr> = (runqueues s d)\<lparr>ready_queues := (\<lambda>_. 0)\<rparr>" for d
  proof (cases "d = c")
    case True
    have "(runqueues s' c)\<lparr>ready_queues := (\<lambda>_. 0)\<rparr> = (runqueues s c)\<lparr>rq_lock := True, ready_queues := (\<lambda>_. 0)\<rparr>"
      using assms(2) by (auto simp: same_def dest: spec [of _ c])
    from arg_cong [OF this, of "\<lambda>x. x\<lparr>rq_lock := False\<rparr>"]
    have "(runqueues s' c)\<lparr>rq_lock := False, ready_queues := (\<lambda>_. 0)\<rparr> = (runqueues s c)\<lparr>rq_lock := False, ready_queues := (\<lambda>_. 0)\<rparr>"
      by (cases "runqueues s' c"; cases "runqueues s c") simp
    also have "\<dots> = (runqueues s c)\<lparr>ready_queues := (\<lambda>_. 0)\<rparr>" using assms(1) by (cases "runqueues s c") simp
    finally show ?thesis using True by (simp add: unlock_rq_def)
  next
    case False
    then show ?thesis using assms(2) by (auto simp: same_def unlock_rq_def dest: spec [of _ d])
  qed
  then show ?thesis using assms(2) e by (simp add: same_def unlock_rq_def)
qed

lemma links_upd: "links (upd_thread a (\<lambda>x. x\<lparr>tnext := v\<rparr>) s) = (links s)(a := v)"
  by (simp add: fun_eq_iff)

lemma same_link: "same s (upd_thread a (\<lambda>x. x\<lparr>tnext := v\<rparr>) s)"
  by (simp add: same_def)

lemma same_ready: "same s (set_ready c p v s)"
  by (simp add: same_def)

text \<open>Appending a thread that is in no queue.\<close>

lemma append_ready_chains:
  assumes ch: "ready_lists s Q" and cp: "c < MAX_CPUS" "p < 128" and t: "t \<noteq> 0" "\<not> queued Q t" "unat (priority (threads s t)) = p"
  obtains s' where "append_ready c p t s = Some s'" "same s s'" "ready_lists s' (set_queue c p (Q c p @ [t]) Q)"
proof (cases "Q c p" rule: rev_cases)
  case Nil
  then have q: "ready_queues (runqueues s c) p = 0" using chains_path(1) [OF ch cp] by simp
  let ?s = "upd_thread t (\<lambda>x. x\<lparr>tnext := 0\<rparr>) (set_ready c p t s)"
  have "ready_lists ?s (set_queue c p (Q c p @ [t]) Q)"
    using Nil t by (intro chains_change [OF ch cp]) (auto simp: queued_def)
  moreover have "same s ?s" by (rule same_trans [OF same_ready same_link])
  moreover have "append_ready c p t s = Some ?s" using q by (simp add: append_ready_def)
  ultimately show ?thesis using that by blast
next
  case (snoc xs l)
  note path = chains_path(1) [OF ch cp, unfolded snoc]
  have q: "ready_queues (runqueues s c) p \<noteq> 0" using path_null [OF path] by simp
  let ?s = "upd_thread t (\<lambda>x. x\<lparr>tnext := 0\<rparr>) (upd_thread l (\<lambda>x. x\<lparr>tnext := t\<rparr>) s)"
  have tq: "t \<notin> set (xs @ [l])" using t(2) cp unfolding snoc [symmetric] queued_def by blast
  have "links ?s = (links s)(l := t, t := 0)" by (auto simp: fun_eq_iff)
  then have p: "path (links ?s) (ready_queues (runqueues ?s c) p) (Q c p @ [t])"
    using path_snoc [OF path t(1) tq] by (simp add: snoc)
  have "ready_lists ?s (set_queue c p (Q c p @ [t]) Q)"
    using t snoc tq chains_path(2) [OF ch cp] by (intro chains_change [OF ch cp p]) (auto simp: queued_def)
  moreover have "same s ?s" by (rule same_trans [OF same_link same_link])
  moreover have "append_ready c p t s = Some ?s"
    using q last_thread_path [of "threads s", OF path] by (simp add: append_ready_def)
  ultimately show ?thesis using that by blast
qed

text \<open>Appending a thread that is in the queue already cuts off what follows it.\<close>

lemma append_ready_again:
  assumes ch: "ready_lists s Q" and cp: "c < MAX_CPUS" "p < 128" and t: "Q c p = ys @ t # zs"
  obtains s' where "append_ready c p t s = Some s'" "same s s'" "ready_lists s' (set_queue c p (ys @ [t]) Q)"
proof -
  note path = chains_path(1) [OF ch cp, unfolded t]
  have q: "ready_queues (runqueues s c) p \<noteq> 0" using path_null [OF path] by simp
  obtain us l where e: "ys @ t # zs = us @ [l]" by (metis append_is_Nil_conv list.distinct(1) rev_exhaust)
  let ?s = "upd_thread t (\<lambda>x. x\<lparr>tnext := 0\<rparr>) (upd_thread l (\<lambda>x. x\<lparr>tnext := t\<rparr>) s)"
  have "links ?s = (links s)(l := t, t := 0)" by (auto simp: fun_eq_iff)
  moreover have "path ((links s)(l := t, t := 0)) (ready_queues (runqueues s c) p) (ys @ [t])"
  proof (cases zs rule: rev_cases)
    case Nil
    then have "l = t" using e by simp
    then show ?thesis using path_self [of "links s" _ ys t] path Nil by simp
  next
    case (snoc vs m)
    then have "l = m" using e by simp
    then show ?thesis using path_cut [of "links s" _ ys t vs m] path snoc by simp
  qed
  ultimately have p: "path (links ?s) (ready_queues (runqueues ?s c) p) (ys @ [t])" by simp
  have "l \<in> set (Q c p)" using t e by (metis in_set_conv_decomp)
  then have "ready_lists ?s (set_queue c p (ys @ [t]) Q)"
    using t chains_path(2) [OF ch cp] by (intro chains_change [OF ch cp p]) auto
  moreover have "same s ?s" by (rule same_trans [OF same_link same_link])
  moreover have "append_ready c p t s = Some ?s"
    using q last_thread_path [of "threads s" _ us l] path e by (simp add: append_ready_def)
  ultimately show ?thesis using that by blast
qed

lemma current_runqueue_less [simp]: "get_current_runqueue cpu < MAX_CPUS"
  by (simp add: get_current_runqueue_def MAX_CPUS_def)

lemma same_unlocked: "same s s' \<Longrightarrow> unlocked s \<Longrightarrow> unlocked s'"
  by (simp add: unlocked_def same_rq)

lemma add_to_ready_queue_unfold:
  fixes cpu :: nat
  assumes "unlocked s" "unat (priority (threads s t)) = p" "p < 128"
  defines "c \<equiv> get_current_runqueue cpu"
  shows "add_to_ready_queue t cpu s = map_option (unlock_rq c) (append_ready c p t (upd_rq c (\<lambda>rq. rq\<lparr>rq_lock := True\<rparr>) s))"
proof -
  have "\<not> rq_lock (runqueues s c)" using assms(1) by (simp add: unlocked_def c_def)
  then show ?thesis
    using assms(2,3) unfolding add_to_ready_queue_def c_def get_current_runqueue_def
    by (simp add: queue_index_def lock_free Let_def map_conv_bind_option comp_def)
qed

lemma add_to_ready_queue_new:
  fixes cpu :: nat
  assumes "ready_lists s Q" "unlocked s" "t \<noteq> 0" "\<not> queued Q t" "unat (priority (threads s t)) = p" "p < 128"
  defines "c \<equiv> get_current_runqueue cpu"
  obtains s' where "add_to_ready_queue t cpu s = Some s'" "same s s'" "ready_lists s' (set_queue c p (Q c p @ [t]) Q)"
proof -
  have c: "c < MAX_CPUS" "\<not> rq_lock (runqueues s c)" using assms(2) by (simp_all add: c_def unlocked_def)
  let ?s = "upd_rq c (\<lambda>rq. rq\<lparr>rq_lock := True\<rparr>) s"
  obtain s1 where s1: "append_ready c p t ?s = Some s1" "same ?s s1" "ready_lists s1 (set_queue c p (Q c p @ [t]) Q)"
    by (rule append_ready_chains [of ?s Q c p t]) (use assms c in simp_all)
  show ?thesis
    using add_to_ready_queue_unfold [OF assms(2,5,6), of cpu] s1 same_unlock [OF c(2) s1(2)]
    by (intro that [of "unlock_rq c s1"]) (simp_all add: c_def)
qed

lemma add_to_ready_queue_again:
  fixes cpu :: nat
  assumes "ready_lists s Q" "unlocked s" "p < 128"
  defines "c \<equiv> get_current_runqueue cpu"
  assumes t: "Q c p = ys @ t # zs"
  obtains s' where "add_to_ready_queue t cpu s = Some s'" "same s s'" "ready_lists s' (set_queue c p (ys @ [t]) Q)"
proof -
  have c: "c < MAX_CPUS" "\<not> rq_lock (runqueues s c)" using assms(2) by (simp_all add: c_def unlocked_def)
  have p: "unat (priority (threads s t)) = p" using chains_path(2) [OF assms(1) c(1) assms(3)] t by simp
  let ?s = "upd_rq c (\<lambda>rq. rq\<lparr>rq_lock := True\<rparr>) s"
  obtain s1 where s1: "append_ready c p t ?s = Some s1" "same ?s s1" "ready_lists s1 (set_queue c p (ys @ [t]) Q)"
    by (rule append_ready_again [of ?s Q c p]) (use assms c in simp_all)
  show ?thesis
    using add_to_ready_queue_unfold [OF assms(2) p assms(3), of cpu] s1 same_unlock [OF c(2) s1(2)]
    by (intro that [of "unlock_rq c s1"]) (simp_all add: c_def)
qed

lemma remove_from_cpus_chains:
  assumes "ready_lists s Q" "unlocked s" "set cs \<subseteq> {..<MAX_CPUS}" "c \<in> set cs" "p < 128" "Q c p = xs @ t # ys"
  obtains s' where "remove_from_cpus t p cs s = Some s'" "same s s'" "ready_lists s' (set_queue c p (xs @ ys) Q)"
proof -
  have c: "c < MAX_CPUS" using assms(3,4) by auto
  have "\<exists>s'. remove_from_cpus t p cs s = Some s' \<and> same s s' \<and> ready_lists s' (set_queue c p (xs @ ys) Q)"
    using assms(3,4)
  proof (induction cs)
    case (Cons d cs)
    have d: "d < MAX_CPUS" "\<not> rq_lock (runqueues s d)" using Cons.prems assms(2) by (auto simp: unlocked_def)
    let ?s = "upd_rq d (\<lambda>rq. rq\<lparr>rq_lock := True\<rparr>) s"
    have ch: "ready_lists ?s Q" using assms(1) by simp
    note path = chains_path(1) [OF assms(1)]
    have t0: "t \<noteq> 0" using path_nonzero [OF path [OF c assms(5)]] assms(6) by auto
    have unl: "unlock_rq d ?s = s" using d(2) by (cases s) (auto simp: unlock_rq_def fun_eq_iff)
    show ?case
    proof (cases "d = c")
      case False
      have "t \<in> set (Q c p)" using assms(6) by simp
      then have n: "t \<notin> set (Q d p)" using chains_disjoint [OF ch c d(1) assms(5)] False by simp
      then have "ready_queues (runqueues s d) p \<noteq> t" using path [OF d(1) assms(5)] t0 by (cases "Q d p") auto
      moreover have "pred_thread (threads s) t (ready_queues (runqueues s d) p) = Some 0"
        using pred_thread_none [of "threads s", OF _ n t0] path [OF d(1) assms(5)] by simp
      ultimately have "remove_from_cpus t p (d # cs) s = remove_from_cpus t p cs s"
        using d(2) unl by (simp add: lock_free)
      then show ?thesis using Cons False by simp
    next
      case True
      note pc = path [OF c assms(5), unfolded assms(6)]
      show ?thesis
      proof (cases xs rule: rev_cases)
        case Nil
        then have q: "ready_queues (runqueues s c) p = t" "path (links s) (tnext (threads s t)) ys" using pc by auto
        let ?u = "set_ready d p (tnext (threads s t)) ?s"
        have "ready_lists ?u (set_queue c p (xs @ ys) Q)"
          using q Nil True assms(5,6) chains_path(2) [OF ch c assms(5)] by (intro chains_change [OF ch c assms(5)]) auto
        moreover have "same s (unlock_rq d ?u)" by (rule same_unlock [OF d(2) same_ready])
        moreover have "remove_from_cpus t p (d # cs) s = Some (unlock_rq d ?u)"
          using d(2) q True by (simp add: lock_free)
        ultimately show ?thesis by (intro exI [of _ "unlock_rq d ?u"] conjI) (simp_all only: chains_lock)
      next
        case (snoc vs x)
        have pa: "path (links s) (ready_queues (runqueues s c) p) (vs @ x # t # ys)" using pc snoc by simp
        then have ne: "ready_queues (runqueues s c) p \<noteq> t" using path_distinct [OF pa] by (cases vs) auto
        have pr: "pred_thread (threads s) t (ready_queues (runqueues s c) p) = Some x" by (rule pred_thread_some [OF pa])
        have x: "x \<noteq> 0" using path_nonzero [OF pa] by auto
        let ?u = "upd_thread x (\<lambda>y. y\<lparr>tnext := tnext (threads s t)\<rparr>) ?s"
        have "links ?u = (links s)(x := links s t)" by (auto simp: fun_eq_iff)
        then have p': "path (links ?u) (ready_queues (runqueues ?u c) p) (vs @ x # ys)"
          using path_unlink [OF pa] True by simp
        have "ready_lists ?u (set_queue c p (vs @ x # ys) Q)"
          using assms(5,6) snoc chains_path(2) [OF ch c assms(5)] by (intro chains_change [OF ch c assms(5) p']) auto
        moreover have "same s (unlock_rq d ?u)" by (rule same_unlock [OF d(2) same_link])
        moreover have "remove_from_cpus t p (d # cs) s = Some (unlock_rq d ?u)"
          using d(2) ne pr x True by (simp add: lock_free)
        moreover have "vs @ x # ys = xs @ ys" using snoc by simp
        ultimately show ?thesis by (intro exI [of _ "unlock_rq d ?u"] conjI) (simp_all only: chains_lock)
      qed
    qed
  qed simp
  then show ?thesis using that by blast
qed

lemma find_rev_upt:
  "find P (rev [0..<n]) = Some i \<longleftrightarrow> i < n \<and> P i \<and> (\<forall>j. i < j \<and> j < n \<longrightarrow> \<not> P j)"
proof (induction n)
  case (Suc n)
  show ?case
  proof (cases "P n")
    case True
    then show ?thesis by (auto simp: less_Suc_eq)
  next
    case False
    then show ?thesis using Suc by (auto simp: less_Suc_eq)
  qed
qed simp

lemma pick_next_thread_lists:
  assumes ch: "ready_lists s Q" and u: "unlocked s" and c: "c = get_current_runqueue cpu" and p: "p < 128" and q: "Q c p = t # ts"
    and top: "\<And>r. p < r \<Longrightarrow> r < 128 \<Longrightarrow> Q c r = []"
  obtains s' where "pick_next_thread cpu s = Some (t, s')" "same s s'"
    "ready_lists s' (set_queue c p (if t \<noteq> idle_thread (runqueues s c) \<and> state (threads s t) = THREAD_STATE_READY then ts @ [t] else ts) Q)"
proof -
  let ?l = "upd_rq c (\<lambda>rq. rq\<lparr>rq_lock := True\<rparr>) s"
  have c': "c < MAX_CPUS" "\<not> rq_lock (runqueues s c)" using u c by (simp_all add: unlocked_def)
  note path = chains_path(1) [OF ch c'(1)]
  have head: "ready_queues (runqueues s c) p = t" "t \<noteq> 0" "path (links s) (tnext (threads s t)) ts" using path [OF p] q by auto
  have "ready_queues (runqueues s c) r = 0" if "p < r" "r < 128" for r using path [OF that(2)] top [OF that] by simp
  then have hi: "highest_ready (runqueues s c) = Some p"
    unfolding highest_ready_def find_rev_upt using p head by auto
  let ?s = "set_ready c p (tnext (threads s t)) ?l"
  have s2: "ready_lists ?s (set_queue c p ts Q)"
    using q head chains_path(2) [OF ch c'(1) p] by (intro chains_change [OF _ c'(1) p, of ?l Q]) (use ch in auto)
  show ?thesis
  proof (cases "t \<noteq> idle_thread (runqueues s c) \<and> state (threads s t) = THREAD_STATE_READY")
    case False
    have "same s (unlock_rq c ?s)" by (rule same_unlock [OF c'(2) same_ready])
    moreover have "pick_next_thread cpu s = Some (t, unlock_rq c ?s)"
      using hi head False c'(2) c by (auto simp: pick_next_thread_def lock_free highest_ready_def Let_def)
    ultimately show ?thesis using s2 False by (intro that [of "unlock_rq c ?s"]) auto
  next
    case True
    let ?Q = "set_queue c p ts Q" and ?t = "upd_thread t (\<lambda>x. x\<lparr>tnext := 0\<rparr>) ?s"
    have d: "distinct (t # ts)" using path_distinct [OF path [OF p]] q by simp
    have nq: "\<not> queued ?Q t"
    proof
      assume "queued ?Q t"
      then obtain e r where er: "e < MAX_CPUS" "r < 128" "t \<in> set (?Q e r)" by (auto simp: queued_def)
      have "unat (priority (threads ?s t)) = p" using chains_path(2) [OF ch c'(1) p] q by simp
      then have "r = p" using chains_path(2) [OF s2 er(1,2,3)] by simp
      moreover from this have "e \<noteq> c" using er(3) d by auto
      ultimately show False using er chains_disjoint [OF ch c'(1) er(1) p] q by auto
    qed
    have "links ?t = (links s)(t := 0)" by (auto simp: fun_eq_iff)
    then have pt: "path (links ?t) (ready_queues (runqueues ?t c) p) (?Q c p)" using head(3) d by simp
    have "ready_lists ?t (set_queue c p (?Q c p) ?Q)"
      using nq chains_path(2) [OF s2 c'(1) p] by (intro chains_change [OF s2 c'(1) p pt]) (auto simp: queued_def)
    then have s3: "ready_lists ?t ?Q" by simp
    obtain s' where s': "append_ready c p t ?t = Some s'" "same ?t s'" "ready_lists s' (set_queue c p (?Q c p @ [t]) ?Q)"
      by (rule append_ready_chains [OF s3 c'(1) p head(2) nq]) (use chains_path(2) [OF ch c'(1) p] q in simp)
    have "same ?l ?t" by (rule same_trans [OF same_ready same_link])
    then have "same s (unlock_rq c s')" using same_unlock [OF c'(2)] same_trans s'(2) by blast
    moreover have "pick_next_thread cpu s = Some (t, unlock_rq c s')"
      using hi head True c'(2) c s'(1) by (auto simp: pick_next_thread_def lock_free highest_ready_def Let_def)
    ultimately show ?thesis using s'(3) True by (intro that [of "unlock_rq c s'"]) auto
  qed
qed

section \<open>Scheduling\<close>

lemma lists_state [simp]: "ready_lists (upd_thread t (\<lambda>x. x\<lparr>state := v\<rparr>) s) Q = ready_lists s Q"
proof -
  have "links (upd_thread t (\<lambda>x. x\<lparr>state := v\<rparr>) s) = links s" by (simp add: fun_eq_iff)
  moreover have "priority (threads (upd_thread t (\<lambda>x. x\<lparr>state := v\<rparr>) s) a) = priority (threads s a)" for a by simp
  ultimately show ?thesis unfolding ready_lists_def by simp
qed

lemma lists_current [simp]: "ready_lists (upd_rq c (\<lambda>rq. rq\<lparr>current_thread := v\<rparr>) s) Q = ready_lists s Q"
  by (auto simp: ready_lists_def)

lemma unlocked_upd [simp]:
  "unlocked (upd_rq c (\<lambda>rq. rq\<lparr>current_thread := v\<rparr>) s) = unlocked s" "unlocked (s\<lparr>threads := T\<rparr>) = unlocked s"
  by (auto simp: unlocked_def)

lemma switch_to:
  "ready_lists (upd_rq c (\<lambda>rq. rq\<lparr>current_thread := v\<rparr>) (upd_thread t (\<lambda>x. x\<lparr>state := w\<rparr>) s)) Q = ready_lists s Q"
  "unlocked (upd_rq c (\<lambda>rq. rq\<lparr>current_thread := v\<rparr>) (upd_thread t (\<lambda>x. x\<lparr>state := w\<rparr>) s)) = unlocked s"
  unfolding lists_current lists_state unlocked_upd by (rule refl)+

text \<open>
  The queue \<open>ts\<close> of priority \<open>p\<close> on CPU \<open>c\<close> is the highest one that is not empty, its last thread is running and the others
  are ready.
\<close>

definition round_robin :: "nat \<Rightarrow> nat \<Rightarrow> u64 list \<Rightarrow> sched_state \<Rightarrow> bool" where
  "round_robin c p ts s \<longleftrightarrow>
     p < 128 \<and> ts \<noteq> [] \<and> unlocked s \<and> current_thread (runqueues s c) = last ts \<and> idle_thread (runqueues s c) \<notin> set ts \<and>
     (\<forall>t \<in> set ts. state (threads s t) = THREAD_STATE_READY \<or> t = last ts \<and> state (threads s t) = THREAD_STATE_RUNNING) \<and>
     (\<exists>Q. ready_lists s Q \<and> Q c p = ts \<and> (\<forall>r. p < r \<and> r < 128 \<longrightarrow> Q c r = []))"

lemma scheduler_schedule_lists:
  assumes ch: "ready_lists s Q" and u: "unlocked s" and c: "c = get_current_runqueue cpu" and p: "p < 128"
    and old: "current_thread (runqueues s c) = old" "old \<noteq> idle_thread (runqueues s c)" "Q c p = ys @ old # zs"
      "state (threads s old) = THREAD_STATE_RUNNING"
    and top: "\<And>r. p < r \<Longrightarrow> r < 128 \<Longrightarrow> Q c r = []"
    and new: "ys @ [old] = new # ts" "new \<noteq> idle_thread (runqueues s c)" "new = old \<or> state (threads s new) = THREAD_STATE_READY"
  obtains s' where "scheduler_schedule cpu s = Some s'" "ready_lists s' (set_queue c p (ts @ [new]) Q)" "unlocked s'"
    "current_thread (runqueues s' c) = new" "idle_thread (runqueues s' c) = idle_thread (runqueues s c)"
    "\<And>t. state (threads s' t) = (if t = new \<and> new \<noteq> old then THREAD_STATE_RUNNING else if t = old then THREAD_STATE_READY else state (threads s t))"
proof -
  let ?r = "upd_thread old (\<lambda>x. x\<lparr>state := THREAD_STATE_READY\<rparr>) s"
  have c': "c < MAX_CPUS" using c by simp
  have old0: "old \<noteq> 0" using path_nonzero [OF chains_path(1) [OF ch c' p]] old(3) by auto
  have chr: "ready_lists ?r Q" "unlocked ?r" using ch u by simp_all
  obtain s1 where s1: "add_to_ready_queue old cpu ?r = Some s1" "same ?r s1" "ready_lists s1 (set_queue c p (ys @ [old]) Q)"
    using add_to_ready_queue_again [OF chr p, of cpu ys old zs] old(3) c by auto
  let ?Q = "set_queue c p (ys @ [old]) Q"
  have u1: "unlocked s1" using same_unlocked [OF s1(2)] u by simp
  have st: "state (threads s1 new) = THREAD_STATE_READY" "idle_thread (runqueues s1 c) = idle_thread (runqueues s c)"
    using same_thread(2) [OF s1(2)] same_rq(3) [OF s1(2)] new(3) by auto
  obtain s2 where s2: "pick_next_thread cpu s1 = Some (new, s2)" "same s1 s2" "ready_lists s2 (set_queue c p (ts @ [new]) ?Q)"
  proof (rule pick_next_thread_lists [OF s1(3) u1 c p])
    show "?Q c p = new # ts" using new(1) by simp
    show "?Q c r = []" if "p < r" "r < 128" for r using that top by auto
  qed (use st new(2) in auto)
  have same2: "same ?r s2" using s1(2) s2(2) by (rule same_trans)
  have Q2: "ready_lists s2 (set_queue c p (ts @ [new]) Q)" using s2(3) by simp
  have u2: "unlocked s2" using same_unlocked [OF s2(2) u1] .
  have t2: "state (threads s2 t) = (if t = old then THREAD_STATE_READY else state (threads s t))" for t
    using same_thread(2) [OF same2] by simp
  have i2: "idle_thread (runqueues s2 c) = idle_thread (runqueues s c)" "current_thread (runqueues s2 c) = old"
    using same_rq(2,3) [OF same2] old(1) by simp_all
  let ?s = "if new = old then s2 else upd_rq c (\<lambda>rq. rq\<lparr>current_thread := new\<rparr>) (upd_thread new (\<lambda>x. x\<lparr>state := THREAD_STATE_RUNNING\<rparr>) s2)"
  have run: "scheduler_schedule cpu s = Some ?s"
    using old old0 s1(1) s2(1) c by (simp add: scheduler_schedule_def Let_def)
  show ?thesis
  proof (rule that [OF run])
    show "ready_lists ?s (set_queue c p (ts @ [new]) Q)"
      using Q2 by (simp only: switch_to if_distrib [of "\<lambda>s. ready_lists s _"] if_cancel)
    show "unlocked ?s" using u2 by (simp only: switch_to if_distrib [of unlocked] if_cancel)
    show "current_thread (runqueues ?s c) = new" using i2 by simp
    show "idle_thread (runqueues ?s c) = idle_thread (runqueues s c)" using i2 by simp
    show "state (threads ?s t) = (if t = new \<and> new \<noteq> old then THREAD_STATE_RUNNING else if t = old then THREAD_STATE_READY else state (threads s t))" for t
      using t2 by simp
  qed
qed

text \<open>Yielding \<open>n\<close> times in a row on one CPU.\<close>

primrec yields :: "nat \<Rightarrow> nat \<Rightarrow> sched_state \<Rightarrow> sched_state option" where
  "yields cpu 0 s = Some s"
| "yields cpu (Suc n) s = do { s \<leftarrow> yields cpu n s; thread_yield cpu s }"

lemma round_robin_pick:
  assumes "round_robin c p ts s" "c = get_current_runqueue cpu" "state (threads s (last ts)) = THREAD_STATE_READY"
  obtains s' where "scheduler_schedule cpu s = Some s'" "round_robin c p (rotate1 ts) s'"
proof -
  obtain Q where Q: "ready_lists s Q" "Q c p = ts" "\<And>r. p < r \<Longrightarrow> r < 128 \<Longrightarrow> Q c r = []" and r: "p < 128" "unlocked s"
    "current_thread (runqueues s c) = last ts" "idle_thread (runqueues s c) \<notin> set ts" "ts \<noteq> []"
    "\<And>t. t \<in> set ts \<Longrightarrow> state (threads s t) = THREAD_STATE_READY"
    using assms(1,3) by (auto simp: round_robin_def)
  obtain new us where ts: "ts = new # us" using r(5) by (cases ts) auto
  have c: "c < MAX_CPUS" using assms(2) by simp
  have l0: "last ts \<noteq> 0" using path_nonzero [OF chains_path(1) [OF Q(1) c r(1)]] Q(2) r(5) by (metis last_in_set)
  have hd: "new \<noteq> idle_thread (runqueues s c)" "state (threads s new) = THREAD_STATE_READY" using r(4,6) ts by auto
  obtain s1 where s1: "pick_next_thread cpu s = Some (new, s1)" "same s s1" "ready_lists s1 (set_queue c p (us @ [new]) Q)"
    by (rule pick_next_thread_lists [OF Q(1) r(2) assms(2) r(1), of new us]) (use Q ts hd in auto)
  let ?s = "if new = last ts then s1 else upd_rq c (\<lambda>rq. rq\<lparr>current_thread := new\<rparr>) (upd_thread new (\<lambda>x. x\<lparr>state := THREAD_STATE_RUNNING\<rparr>) s1)"
  have run: "scheduler_schedule cpu s = Some ?s" using r(3) l0 s1(1) assms(2,3) by (simp add: scheduler_schedule_def Let_def)
  have "unlocked s1" using same_unlocked [OF s1(2) r(2)] .
  then have u: "unlocked ?s" by (simp only: switch_to if_distrib [of unlocked] if_cancel)
  have lists: "ready_lists ?s (set_queue c p (us @ [new]) Q)"
    using s1(3) by (simp only: switch_to if_distrib [of "\<lambda>s. ready_lists s _"] if_cancel)
  have "round_robin c p (us @ [new]) ?s"
    unfolding round_robin_def
  proof (intro conjI)
    show "current_thread (runqueues ?s c) = last (us @ [new])" using same_rq(2) [OF s1(2)] r(3) by simp
    show "idle_thread (runqueues ?s c) \<notin> set (us @ [new])" using same_rq(3) [OF s1(2)] r(4) ts by simp
    show "\<forall>t \<in> set (us @ [new]). state (threads ?s t) = THREAD_STATE_READY \<or>
        t = last (us @ [new]) \<and> state (threads ?s t) = THREAD_STATE_RUNNING"
      using same_thread(2) [OF s1(2)] r(6) ts by auto
    show "\<exists>Q. ready_lists ?s Q \<and> Q c p = us @ [new] \<and> (\<forall>r. p < r \<and> r < 128 \<longrightarrow> Q c r = [])"
      using lists Q(3) by (intro exI [of _ "set_queue c p (us @ [new]) Q"]) auto
  qed (use r u in auto)
  then show ?thesis using that [OF run] ts by simp
qed

lemma round_robin_step:
  assumes rr: "round_robin c p ts s" and c: "c = get_current_runqueue cpu"
  obtains s' where "thread_yield cpu s = Some s'" "round_robin c p (rotate1 ts) s'"
proof (cases "state (threads s (last ts)) = THREAD_STATE_READY")
  case True
  then show ?thesis using round_robin_pick [OF rr c] that by (metis thread_yield_def)
next
  case False
  obtain Q where Q: "ready_lists s Q" "Q c p = ts" "\<And>r. p < r \<Longrightarrow> r < 128 \<Longrightarrow> Q c r = []" and r: "p < 128" "unlocked s"
    "current_thread (runqueues s c) = last ts" "idle_thread (runqueues s c) \<notin> set ts" "ts \<noteq> []"
    "\<And>t. t \<in> set ts \<Longrightarrow> state (threads s t) = THREAD_STATE_READY \<or> t = last ts"
    using rr by (auto simp: round_robin_def)
  have run: "state (threads s (last ts)) = THREAD_STATE_RUNNING" using rr False r(5) by (auto simp: round_robin_def)
  obtain new us where ts: "ts = new # us" using r(5) by (cases ts) auto
  have split: "ts = butlast ts @ last ts # []" using r(5) by simp
  have d: "distinct ts" using path_distinct [OF chains_path(1) [OF Q(1) _ r(1), of c]] Q(2) c by simp
  obtain s' where s': "scheduler_schedule cpu s = Some s'" "ready_lists s' (set_queue c p (us @ [new]) Q)" "unlocked s'"
    "current_thread (runqueues s' c) = new" "idle_thread (runqueues s' c) = idle_thread (runqueues s c)"
    "\<And>t. state (threads s' t) = (if t = new \<and> new \<noteq> last ts then THREAD_STATE_RUNNING else if t = last ts then THREAD_STATE_READY else state (threads s t))"
  proof (rule scheduler_schedule_lists [OF Q(1) r(2) c r(1) r(3), of "butlast ts" "[]" new us])
    show "last ts \<noteq> idle_thread (runqueues s c)" using r(4,5) by (metis last_in_set)
    show "new = last ts \<or> state (threads s new) = THREAD_STATE_READY" using r(6) [of new] ts by auto
    show "Q c p = butlast ts @ last ts # []" using Q(2) split by simp
    show "butlast ts @ [last ts] = new # us" using split ts by metis
    show "new \<noteq> idle_thread (runqueues s c)" using r(4) ts by auto
  qed (use Q(3) run in \<open>blast+\<close>)
  have "round_robin c p (us @ [new]) s'"
    unfolding round_robin_def
  proof (intro conjI)
    show "\<forall>t \<in> set (us @ [new]). state (threads s' t) = THREAD_STATE_READY \<or>
        t = last (us @ [new]) \<and> state (threads s' t) = THREAD_STATE_RUNNING"
    proof
      fix t
      assume "t \<in> set (us @ [new])"
      then have "t \<in> set ts" using ts by auto
      then show "state (threads s' t) = THREAD_STATE_READY \<or> t = last (us @ [new]) \<and> state (threads s' t) = THREAD_STATE_RUNNING"
        using s'(6) [of t] r(6) [of t] by auto
    qed
    show "\<exists>Q. ready_lists s' Q \<and> Q c p = us @ [new] \<and> (\<forall>r. p < r \<and> r < 128 \<longrightarrow> Q c r = [])"
      using s'(2) Q(3) by (intro exI [of _ "set_queue c p (us @ [new]) Q"]) auto
  qed (use r s' ts in auto)
  then show ?thesis using that s'(1) ts by (simp add: thread_yield_def)
qed

lemma yields_round_robin:
  assumes "round_robin c p ts s" "c = get_current_runqueue cpu"
  shows "\<exists>s'. yields cpu n s = Some s' \<and> round_robin c p (rotate n ts) s'"
proof (induction n)
  case 0
  then show ?case using assms by simp
next
  case (Suc n)
  then obtain s1 where s1: "yields cpu n s = Some s1" "round_robin c p (rotate n ts) s1" by blast
  obtain s2 where "thread_yield cpu s1 = Some s2" "round_robin c p (rotate1 (rotate n ts)) s2"
    by (rule round_robin_step [OF s1(2) assms(2)])
  then show ?case using s1 by simp
qed

section \<open>Properties\<close>

text \<open>
  C37: when the threads \<open>ts\<close> of the highest non-empty priority of a CPU are ready and the last of them runs, yielding runs them in turn: after \<open>n\<close>
  calls of \<^verbatim>\<open>thread_yield\<close> the queue has been rotated \<open>n\<close> times and its last thread runs, so that every thread runs within \<open>length ts\<close> calls.
\<close>

theorem scheduler_round_robin:
  assumes "round_robin (get_current_runqueue cpu) p ts s"
  shows "(\<exists>s'. yields cpu n s = Some s' \<and> round_robin (get_current_runqueue cpu) p (rotate n ts) s' \<and>
      thread_current cpu s' = last (rotate n ts)) \<and>
    (\<forall>t \<in> set ts. \<exists>k s'. 1 \<le> k \<and> k \<le> length ts \<and> yields cpu k s = Some s' \<and> thread_current cpu s' = t)"
proof -
  have run: "\<exists>s'. yields cpu n s = Some s' \<and> round_robin (get_current_runqueue cpu) p (rotate n ts) s' \<and>
      thread_current cpu s' = last (rotate n ts)" for n
    using yields_round_robin [OF assms refl, of n] by (auto simp: round_robin_def thread_current_def)
  moreover have "\<exists>k s'. 1 \<le> k \<and> k \<le> length ts \<and> yields cpu k s = Some s' \<and> thread_current cpu s' = t" if t: "t \<in> set ts" for t
  proof -
    obtain i where i: "i < length ts" "ts ! i = t" using t by (auto simp: in_set_conv_nth)
    have "rotate (Suc i) ts = drop (Suc i mod length ts) ts @ take (Suc i mod length ts) ts" by (rule rotate_drop_take)
    then have "last (rotate (Suc i) ts) = t"
    proof (cases "Suc i = length ts")
      case True
      then have "rotate (Suc i) ts = ts" by simp
      then show ?thesis using i True by (metis diff_Suc_1 last_conv_nth length_0_conv less_nat_zero_code)
    next
      case False
      then show ?thesis using i by (simp add: rotate_drop_take last_append take_Suc_conv_app_nth)
    qed
    then show ?thesis using run [of "Suc i"] i(1) by (intro exI [of _ "Suc i"]) auto
  qed
  ultimately show ?thesis by blast
qed


text \<open>Two threads of normal priority on CPU 0, the second running.\<close>

definition demo_thread :: "u64 \<Rightarrow> thread_state_t \<Rightarrow> u8 \<Rightarrow> u64 \<Rightarrow> thread_t" where
  "demo_thread n st p nx = \<lparr>tid = n, name = '''', state = st, priority = p, kernel_stack = 0, kernel_stack_size = 0, tnext = nx,
     cpu_time = 0, wakeup_time = 0, cpu_affinity = - 1\<rparr>"

definition demo_sched :: sched_state where
  "demo_sched = \<lparr>
     threads = (\<lambda>a. if a = 0x100 then demo_thread 1 THREAD_STATE_READY 64 0x200
                    else if a = 0x200 then demo_thread 2 THREAD_STATE_RUNNING 64 0 else demo_thread 0 THREAD_STATE_READY 0 0),
     thread_table = (\<lambda>_. 0), next_tid = 3, sleeping_queue = 0,
     runqueues = (\<lambda>c. \<lparr>rq_lock = False, ready_queues = (\<lambda>p. if c = 0 \<and> p = 64 then 0x100 else 0), blocked_queue = 0,
                       current_thread = (if c = 0 then 0x200 else 0x10), idle_thread = 0x10, rq_cpu_id = c\<rparr>),
     tick_counter = (\<lambda>_. 0), need_reschedule = (\<lambda>_. False), last_balance = 0, steal_start = (\<lambda>_. 0)\<rparr>"

definition demo_lists :: "nat \<Rightarrow> nat \<Rightarrow> u64 list" where
  "demo_lists c p = (if c = 0 \<and> p = 64 then [0x100, 0x200] else [])"

lemma demo_ready: "ready_lists demo_sched demo_lists"
  by (auto simp: ready_lists_def demo_sched_def demo_lists_def demo_thread_def)

lemma demo_round_robin: "round_robin (get_current_runqueue 0) 64 [0x100, 0x200] demo_sched"
  unfolding round_robin_def using demo_ready
  by (auto simp: demo_sched_def demo_thread_def unlocked_def get_current_runqueue_def MAX_CPUS_def demo_lists_def intro!: exI [of _ demo_lists])

theorem scheduler_round_robin_witness:
  "\<exists>s'. yields 0 3 demo_sched = Some s' \<and> thread_current 0 s' = 0x100"
  using scheduler_round_robin [OF demo_round_robin, of 3] by (auto simp: eval_nat_numeral)


section \<open>Idle CPUs\<close>

definition fresh_rq :: "nat \<Rightarrow> u64 \<Rightarrow> sched_state \<Rightarrow> bool" where
  "fresh_rq c idle s \<longleftrightarrow>
     idle \<noteq> 0 \<and> \<not> rq_lock (runqueues s c) \<and> current_thread (runqueues s c) = idle \<and> idle_thread (runqueues s c) = idle \<and>
     ready_queues (runqueues s c) 0 = idle \<and> (\<forall>p. 0 < p \<and> p < 128 \<longrightarrow> ready_queues (runqueues s c) p = 0) \<and>
     state (threads s idle) = THREAD_STATE_READY \<and> tnext (threads s idle) = 0"

lemma init_per_cpu_fresh:
  assumes "scheduler_init_per_cpu c idle s = Some s'" "c < MAX_CPUS"
  shows "fresh_rq c idle s'" "\<And>d i. d \<noteq> c \<Longrightarrow> fresh_rq d i s \<Longrightarrow> fresh_rq d i s'"
  using assms
  by (auto simp: scheduler_init_per_cpu_def init_idle_thread_for_cpu_def fresh_rq_def THREAD_PRIORITY_IDLE_def Let_def split: if_splits)

lemma init_cpus_fresh:
  assumes "init_cpus idle_at is s = Some s'" "set is \<subseteq> {..<MAX_CPUS}" "distinct is"
  shows "(\<forall>c \<in> set is. fresh_rq c (idle_at c) s') \<and> (\<forall>d i. d \<notin> set is \<and> fresh_rq d i s \<longrightarrow> fresh_rq d i s')"
  using assms
proof (induction "is" arbitrary: s)
  case (Cons c "is")
  then obtain s1 where s1: "scheduler_init_per_cpu c (idle_at c) s = Some s1" "init_cpus idle_at is s1 = Some s'"
    by (auto simp: bind_eq_Some_conv)
  have "c < MAX_CPUS" using Cons.prems by simp
  note f = init_per_cpu_fresh [OF s1(1) this]
  have IH: "(\<forall>c \<in> set is. fresh_rq c (idle_at c) s') \<and> (\<forall>d i. d \<notin> set is \<and> fresh_rq d i s1 \<longrightarrow> fresh_rq d i s')"
    using Cons.IH [OF s1(2)] Cons.prems by simp
  then show ?case using f Cons.prems(3) by auto
qed simp

lemma highest_ready_none: "(\<And>p. p < 128 \<Longrightarrow> ready_queues rq p = 0) \<Longrightarrow> highest_ready rq = None"
  by (auto simp: highest_ready_def find_None_iff)

text \<open>
  C40: a CPU without threads hangs. After \<^verbatim>\<open>scheduler_init\<close> the first call of \<^verbatim>\<open>scheduler_schedule\<close> on a CPU that has only its idle thread takes the
  idle thread off its queue, the second finds nothing and returns with the runqueue's lock held, and the third waits for that lock forever.
\<close>

theorem scheduler_idle_deadlock:
  assumes init: "scheduler_init num_cpus idle_at s = Some s0" and cpu: "cpu < max 1 num_cpus" "cpu < MAX_CPUS"
  shows "\<exists>s1 s2. scheduler_schedule cpu s0 = Some s1 \<and> scheduler_schedule cpu s1 = Some s2 \<and> scheduler_schedule cpu s2 = None"
proof -
  let ?idle = "idle_at cpu"
  have c: "get_current_runqueue cpu = cpu" using cpu(2) by (simp add: get_current_runqueue_def)
  have "fresh_rq cpu ?idle s0"
  proof -
    have "set [0..<min (if num_cpus = 0 then 1 else num_cpus) MAX_CPUS] \<subseteq> {..<MAX_CPUS}" by auto
    moreover have "cpu \<in> set [0..<min (if num_cpus = 0 then 1 else num_cpus) MAX_CPUS]" using cpu by (auto split: if_splits)
    ultimately show ?thesis using init_cpus_fresh [OF init [unfolded scheduler_init_def Let_def]] distinct_upt by blast
  qed
  then have f: "?idle \<noteq> 0" "\<not> rq_lock (runqueues s0 cpu)" "current_thread (runqueues s0 cpu) = ?idle" "idle_thread (runqueues s0 cpu) = ?idle"
    "\<And>p. p < 128 \<Longrightarrow> ready_queues (runqueues s0 cpu) p = (if p = 0 then ?idle else 0)"
    "state (threads s0 ?idle) = THREAD_STATE_READY" "tnext (threads s0 ?idle) = 0" by (auto simp: fresh_rq_def)
  have h: "highest_ready (runqueues s0 cpu) = Some 0"
    unfolding highest_ready_def find_rev_upt using f(1,5) by auto
  let ?s1 = "unlock_rq cpu (set_ready cpu 0 0 (upd_rq cpu (\<lambda>rq. rq\<lparr>rq_lock := True\<rparr>) s0))"
  have 1: "scheduler_schedule cpu s0 = Some ?s1"
    using f h by (simp add: scheduler_schedule_def pick_next_thread_def lock_free c Let_def highest_ready_def)
  have h1: "highest_ready (runqueues ?s1 cpu) = None"
    using f(5) by (intro highest_ready_none) (simp add: unlock_rq_def)
  let ?s2 = "upd_rq cpu (\<lambda>rq. rq\<lparr>rq_lock := True\<rparr>) ?s1"
  have 2: "scheduler_schedule cpu ?s1 = Some ?s2"
    using f h1 by (simp add: scheduler_schedule_def pick_next_thread_def lock_free c Let_def highest_ready_def unlock_rq_def)
  have 3: "scheduler_schedule cpu ?s2 = None"
    using f by (simp add: scheduler_schedule_def pick_next_thread_def lock_rq_def c Let_def unlock_rq_def)
  show ?thesis using 1 2 3 by blast
qed

lemma demo_init: "\<exists>s0. scheduler_init 1 (\<lambda>_. 0x10) demo_sched = Some s0"
  by (simp add: scheduler_init_def scheduler_init_per_cpu_def init_idle_thread_for_cpu_def MAX_CPUS_def Let_def)

theorem scheduler_idle_deadlock_witness:
  "\<exists>s0 s1 s2. scheduler_init 1 (\<lambda>_. 0x10) demo_sched = Some s0 \<and> scheduler_schedule 0 s0 = Some s1 \<and>
     scheduler_schedule 0 s1 = Some s2 \<and> scheduler_schedule 0 s2 = None"
proof -
  obtain s0 where "scheduler_init 1 (\<lambda>_. 0x10) demo_sched = Some s0" using demo_init by blast
  then show ?thesis using scheduler_idle_deadlock [of 1 "\<lambda>_. 0x10" demo_sched s0 0] by (auto simp: MAX_CPUS_def)
qed

text \<open>
  Blocking the only thread of the highest priority has no effect on the CPU: \<^verbatim>\<open>thread_block\<close> returns with the thread still running, its state
  being blocked, because it is still in its ready queue.
\<close>

lemma blocked_thread_runs:
  assumes "round_robin (get_current_runqueue cpu) p [t] s"
  shows "\<exists>s'. thread_block cpu s = Some s' \<and> thread_current cpu s' = t \<and> state (threads s' t) = THREAD_STATE_BLOCKED"
proof -
  let ?c = "get_current_runqueue cpu"
  obtain Q where Q: "ready_lists s Q" "Q ?c p = [t]" "\<And>r. p < r \<Longrightarrow> r < 128 \<Longrightarrow> Q ?c r = []" and r: "p < 128" "unlocked s"
    "current_thread (runqueues s ?c) = t" "idle_thread (runqueues s ?c) \<noteq> t"
    using assms by (auto simp: round_robin_def)
  note path = chains_path(1) [OF Q(1)]
  have q: "ready_queues (runqueues s ?c) p = t" "t \<noteq> 0" using path [of ?c p] Q(2) r(1) by auto
  have "ready_queues (runqueues s ?c) r = 0" if "p < r" "r < 128" for r using path [of ?c r] Q(3) [OF that] that by simp
  then have h: "find (\<lambda>i. ready_queues (runqueues s ?c) i \<noteq> 0) (rev [0..<128]) = Some p"
    unfolding find_rev_upt using q r(1) by auto
  have "\<not> rq_lock (runqueues s ?c)" using r(2) by (simp add: unlocked_def)
  then show ?thesis
    using q r(3,4) h
    by (simp add: thread_block_def scheduler_schedule_def pick_next_thread_def lock_rq_def unlock_rq_def thread_current_def highest_ready_def Let_def)
qed

end
