(* ===== verification/Sched_Balance.thy ===== *)
theory Sched_Balance
  imports Sched_Props
begin

text \<open>Load balancing and work stealing move threads between CPUs without losing or duplicating any.\<close>

section \<open>Counting\<close>

lemma count_queues_lists:
  assumes "\<And>i. i \<in> set is \<Longrightarrow> path (\<lambda>a. tnext (T a)) (Q i) (L i)"
  shows "count_queues T Q is n = Some (n + of_nat (\<Sum>i \<leftarrow> is. length (L i)))"
  using assms
proof (induction "is" arbitrary: n)
  case (Cons i "is")
  then have "count_threads T (Q i) n = Some (n + of_nat (length (L i)))" by (intro count_threads_path) simp
  then show ?case using Cons by (simp add: algebra_simps)
qed simp

lemma runqueue_length_lists:
  assumes "ready_lists s Q" "unlocked s"
  shows "get_runqueue_length c s = Some (if c < MAX_CPUS then of_nat (\<Sum>p \<leftarrow> [0..<128]. length (Q c p)) else 0)"
proof (cases "c < MAX_CPUS")
  case True
  then have "\<not> rq_lock (runqueues s c)" using assms(2) by (simp add: unlocked_def)
  moreover have "count_queues (threads s) (ready_queues (runqueues s c)) [0..<128] 0 = Some (of_nat (\<Sum>p \<leftarrow> [0..<128]. length (Q c p)))"
    using count_queues_lists [of "[0..<128]" "threads s" "ready_queues (runqueues s c)" "Q c" 0] chains_path(1) [OF assms(1) True] by simp
  ultimately show ?thesis using True by (simp add: get_runqueue_length_def get_cpu_runqueue_def lock_free)
qed (simp add: get_runqueue_length_def get_cpu_runqueue_def)

lemma compare_cpus_some:
  assumes "ready_lists s Q" "unlocked s"
  obtains b m l f where "compare_cpus is r s = Some ((b, m), (l, f))"
    "b \<in> insert (fst (fst r)) (set is)" "l \<in> insert (fst (snd r)) (set is)"
proof -
  have "\<exists>b m l f. compare_cpus is r s = Some ((b, m), (l, f)) \<and> b \<in> insert (fst (fst r)) (set is) \<and> l \<in> insert (fst (snd r)) (set is)"
  proof (induction "is" arbitrary: r)
    case Nil
    then show ?case by (cases r) auto
  next
    case (Cons i "is")
    obtain n where n: "get_runqueue_length i s = Some n" using runqueue_length_lists [OF assms] by blast
    let ?r = "(if n > snd (fst r) then (i, n) else fst r, if n < snd (snd r) then (i, n) else snd r)"
    show ?case using Cons [of ?r] n by (auto split: if_splits)
  qed
  then show ?thesis using that by blast
qed

section \<open>Moving a thread\<close>

text \<open>Looking for a thread that is in no queue changes nothing.\<close>

lemma remove_from_cpus_absent:
  assumes "ready_lists s Q" "unlocked s" "t \<noteq> 0" "\<not> queued Q t" "p < 128" "set cs \<subseteq> {..<MAX_CPUS}"
  shows "remove_from_cpus t p cs s = Some s"
  using assms(6)
proof (induction cs)
  case (Cons d cs)
  have d: "d < MAX_CPUS" "\<not> rq_lock (runqueues s d)" using Cons.prems assms(2) by (auto simp: unlocked_def)
  have n: "t \<notin> set (Q d p)" using assms(4,5) d(1) by (auto simp: queued_def)
  note path = chains_path(1) [OF assms(1) d(1) assms(5)]
  have "ready_queues (runqueues s d) p \<noteq> t" using path n assms(3) by (cases "Q d p") auto
  moreover have "pred_thread (threads s) t (ready_queues (runqueues s d) p) = Some 0"
    using pred_thread_none [of "threads s", OF path n assms(3)] .
  moreover have "unlock_rq d (upd_rq d (\<lambda>rq. rq\<lparr>rq_lock := True\<rparr>) s) = s"
    using d(2) by (cases s) (auto simp: unlock_rq_def fun_eq_iff)
  ultimately show ?case using Cons d(2) by (simp add: lock_free)
qed simp

lemma take_lowest_lists:
  assumes ch: "ready_lists s Q" and c: "c < MAX_CPUS"
  obtains (none) "take_lowest c s = (0, 0, s)"
    | (some) t i s' ts where "take_lowest c s = (t, i, s')" "t \<noteq> 0" "i < 64" "Q c i = t # ts" "same s s'" "ready_lists s' (set_queue c i ts Q)"
proof (cases "find (\<lambda>i. ready_queues (runqueues s c) i \<noteq> 0) [0..<64]")
  case None
  then show ?thesis by (intro none) (simp add: take_lowest_def)
next
  case (Some i)
  then have i: "i < 64" "ready_queues (runqueues s c) i \<noteq> 0" by (auto simp: find_Some_iff)
  have p: "i < 128" using i by simp
  note path = chains_path(1) [OF ch c p]
  obtain t ts where q: "Q c i = t # ts" using path i(2) by (cases "Q c i") auto
  have t: "ready_queues (runqueues s c) i = t" "t \<noteq> 0" "path (links s) (tnext (threads s t)) ts" using path q by auto
  have d: "t \<notin> set ts" using path_distinct [OF path] q by simp
  let ?s = "upd_thread t (\<lambda>x. x\<lparr>tnext := 0\<rparr>) (set_ready c i (tnext (threads s t)) s)"
  have "links ?s = (links s)(t := 0)" by (auto simp: fun_eq_iff)
  then have pa: "path (links ?s) (ready_queues (runqueues ?s c) i) ts" using t(3) d by simp
  have "ready_lists ?s (set_queue c i ts Q)"
    using q chains_path(2) [OF ch c p] by (intro chains_change [OF ch c p pa]) auto
  moreover have "same s ?s" by (rule same_trans [OF same_ready same_link])
  moreover have "take_lowest c s = (t, i, ?s)" using Some t by (simp add: take_lowest_def Let_def)
  ultimately show ?thesis using some i(1) q t(2) by blast
qed

text \<open>A thread taken off a queue is in none.\<close>

lemma taken_not_queued:
  assumes ch: "ready_lists s Q" and c: "c < MAX_CPUS" "i < 128" "Q c i = t # ts"
  shows "\<not> queued (set_queue c i ts Q) t" "unat (priority (threads s t)) = i"
    "queued Q x \<longleftrightarrow> x = t \<or> queued (set_queue c i ts Q) x"
proof -
  show p: "unat (priority (threads s t)) = i" using chains_path(2) [OF ch c(1,2)] c(3) by simp
  have d: "t \<notin> set ts" using path_distinct [OF chains_path(1) [OF ch c(1,2)]] c(3) by simp
  show "\<not> queued (set_queue c i ts Q) t"
  proof
    assume "queued (set_queue c i ts Q) t"
    then obtain e r where er: "e < MAX_CPUS" "r < 128" "t \<in> set (set_queue c i ts Q e r)" by (auto simp: queued_def)
    then have ne: "(e, r) \<noteq> (c, i)" "t \<in> set (Q e r)" using d by (auto split: if_splits)
    then have "r = i" using chains_path(2) [OF ch er(1,2)] p by simp
    with ne show False using chains_disjoint [OF ch c(1) er(1) c(2)] c(3) by auto
  qed
  show "queued Q x \<longleftrightarrow> x = t \<or> queued (set_queue c i ts Q) x"
  proof
    assume "queued Q x"
    then obtain e r where er: "e < MAX_CPUS" "r < 128" "x \<in> set (Q e r)" by (auto simp: queued_def)
    show "x = t \<or> queued (set_queue c i ts Q) x"
    proof (cases "(e, r) = (c, i)")
      case True
      then have "x = t \<or> x \<in> set (set_queue c i ts Q c i)" using er(3) c(3) by auto
      then show ?thesis using c(1,2) unfolding queued_def by blast
    next
      case False
      then have "x \<in> set (set_queue c i ts Q e r)" using er(3) by auto
      then show ?thesis using er(1,2) unfolding queued_def by blast
    qed
  next
    assume "x = t \<or> queued (set_queue c i ts Q) x"
    then consider "x = t" | e r where "e < MAX_CPUS" "r < 128" "x \<in> set (set_queue c i ts Q e r)" by (auto simp: queued_def)
    then show "queued Q x"
    proof cases
      case 1
      then have "x \<in> set (Q c i)" using c(3) by simp
      then show ?thesis using c(1,2) unfolding queued_def by blast
    next
      case (2 e r)
      then have "x \<in> set (Q e r)" using c(3) by (auto split: if_splits)
      then show ?thesis using 2(1,2) unfolding queued_def by blast
    qed
  qed
qed

lemma queued_append:
  assumes "c < MAX_CPUS" "p < 128"
  shows "queued (set_queue c p (Q c p @ [t]) Q) x \<longleftrightarrow> x = t \<or> queued Q x"
proof
  assume "queued (set_queue c p (Q c p @ [t]) Q) x"
  then show "x = t \<or> queued Q x" unfolding queued_def by (auto split: if_splits)
next
  assume "x = t \<or> queued Q x"
  then consider "x = t" | e r where "e < MAX_CPUS" "r < 128" "x \<in> set (Q e r)" by (auto simp: queued_def)
  then show "queued (set_queue c p (Q c p @ [t]) Q) x"
  proof cases
    case 1
    then have "x \<in> set (set_queue c p (Q c p @ [t]) Q c p)" by simp
    then show ?thesis using assms unfolding queued_def by blast
  next
    case (2 e r)
    then have "x \<in> set (set_queue c p (Q c p @ [t]) Q e r)" by auto
    then show ?thesis using 2(1,2) unfolding queued_def by blast
  qed
qed

text \<open>Appending a thread that was taken off some queue.\<close>

lemma put_back:
  assumes "ready_lists s Q" "unlocked s" "t \<noteq> 0" "\<not> queued Q t" "unat (priority (threads s t)) = p" "p < 128" "c < MAX_CPUS"
  obtains s' where "add_to_ready_queue t c s = Some s'" "same s s'" "ready_lists s' (set_queue c p (Q c p @ [t]) Q)"
proof -
  have "get_current_runqueue c = c" using assms(7) by (simp add: get_current_runqueue_def)
  then show ?thesis using add_to_ready_queue_new [OF assms(1-6), of c] that by metis
qed

lemma lists_fields [simp]:
  "ready_lists (s\<lparr>last_balance := x\<rparr>) Q = ready_lists s Q" "unlocked (s\<lparr>last_balance := x\<rparr>) = unlocked s"
  "ready_lists (s\<lparr>steal_start := y\<rparr>) Q = ready_lists s Q" "unlocked (s\<lparr>steal_start := y\<rparr>) = unlocked s"
  by (simp_all add: ready_lists_def unlocked_def)

lemma locked_lists:
  assumes "ready_lists s Q" "\<not> rq_lock (runqueues s c)" "c < MAX_CPUS"
  defines "l \<equiv> upd_rq c (\<lambda>rq. rq\<lparr>rq_lock := True\<rparr>) s"
  obtains (none) "take_lowest c l = (0, 0, l)" "unlock_rq c l = s"
    | (some) t i s' ts where "take_lowest c l = (t, i, s')" "t \<noteq> 0" "i < 128" "Q c i = t # ts" "same s (unlock_rq c s')"
        "ready_lists (unlock_rq c s') (set_queue c i ts Q)"
proof -
  have ch: "ready_lists l Q" using assms(1) by (simp add: l_def)
  show ?thesis
  proof (cases rule: take_lowest_lists [OF ch assms(3)])
    case 1
    moreover have "unlock_rq c l = s" using assms(2) by (cases s) (auto simp: l_def unlock_rq_def fun_eq_iff)
    ultimately show ?thesis by (intro none)
  next
    case (2 t i s' ts)
    have "same s (unlock_rq c s')" using same_unlock [OF assms(2)] 2(5) by (simp add: l_def)
    then show ?thesis using 2 by (intro some [of t i s' ts]) simp_all
  qed
qed

lemma load_balance_lists:
  assumes ch: "ready_lists s Q" and u: "unlocked s" and num: "num_cpus \<le> MAX_CPUS"
  shows "\<exists>s' Q'. scheduler_load_balance num_cpus ticks s = Some s' \<and> ready_lists s' Q' \<and> unlocked s' \<and> (\<forall>t. queued Q' t \<longleftrightarrow> queued Q t)"
proof -
  let ?s = "s\<lparr>last_balance := ticks\<rparr>"
  have chs: "ready_lists ?s Q" "unlocked ?s" using ch u by simp_all
  show ?thesis
  proof (cases "num_cpus \<le> 1 \<or> ticks - last_balance s < LOAD_BALANCE_INTERVAL")
    case True
    then have "scheduler_load_balance num_cpus ticks s = Some s" by (auto simp: scheduler_load_balance_def)
    then show ?thesis using ch u by blast
  next
    case False
    obtain b m l f where cmp: "compare_cpus [0..<num_cpus] ((0, 0), (0, - 1)) ?s = Some ((b, m), (l, f))"
      and bl: "b \<in> insert 0 {0..<num_cpus}" "l \<in> insert 0 {0..<num_cpus}"
      by (rule compare_cpus_some [OF chs, of "[0..<num_cpus]" "((0, 0), (0, - 1))"]) auto
    have b: "b < MAX_CPUS" and l: "l < MAX_CPUS" using bl num by (auto simp: MAX_CPUS_def)
    show ?thesis
    proof (cases "m - f < LOAD_BALANCE_THRESHOLD")
      case True
      then have "scheduler_load_balance num_cpus ticks s = Some ?s" using False cmp by (simp add: scheduler_load_balance_def Let_def)
      then show ?thesis using chs by blast
    next
      case nt: False
      have lock: "\<not> rq_lock (runqueues ?s b)" using u b by (simp add: unlocked_def)
      show ?thesis
      proof (cases rule: locked_lists [OF chs(1) lock b])
        case 1
        then have "scheduler_load_balance num_cpus ticks s = Some ?s"
          using False nt cmp b lock by (simp add: scheduler_load_balance_def get_cpu_runqueue_def lock_free Let_def)
        then show ?thesis using chs by blast
      next
        case (2 t i s' ts)
        let ?u = "unlock_rq b s'" and ?Q = "set_queue b i ts Q"
        note tk = taken_not_queued [OF chs(1) b 2(3,4)]
        have uu: "unlocked ?u" using same_unlocked [OF 2(5)] chs(2) by simp
        have pr: "unat (priority (threads ?u t)) = i" using tk(2) same_thread(1) [OF 2(5)] by simp
        have "set [0..<MAX_CPUS] \<subseteq> {..<MAX_CPUS}" by auto
        then have rm: "remove_from_ready_queue t ?u = Some ?u"
          using remove_from_cpus_absent [OF 2(6) uu 2(2) tk(1) 2(3)] pr 2(3) by (simp add: remove_from_ready_queue_def queue_index_def)
        obtain v where v: "add_to_ready_queue t l ?u = Some v" "same ?u v" "ready_lists v (set_queue l i (?Q l i @ [t]) ?Q)"
          by (rule put_back [OF 2(6) uu 2(2) tk(1) pr 2(3) l])
        have "scheduler_load_balance num_cpus ticks s = Some v"
          using False nt cmp b lock 2(1,2) rm v(1)
          by (simp add: scheduler_load_balance_def get_cpu_runqueue_def lock_free move_thread_to_cpu_def Let_def)
        moreover have "unlocked v" using same_unlocked [OF v(2) uu] .
        moreover have "queued (set_queue l i (?Q l i @ [t]) ?Q) x \<longleftrightarrow> queued Q x" for x
          unfolding queued_append [OF l 2(3)] tk(3) ..
        ultimately show ?thesis using v(3) by blast
      qed
    qed
  qed
qed

section \<open>Work stealing\<close>

text \<open>A failed attempt leaves the victim's queues as they were; a successful one takes the head of its lowest queue.\<close>

lemma take_lowest_back:
  assumes "take_lowest c s = (t, i, s')" "t \<noteq> 0"
  shows "set_ready c i t (upd_thread t (\<lambda>x. x\<lparr>tnext := ready_queues (runqueues s' c) i\<rparr>) s') = s"
proof -
  obtain "t = ready_queues (runqueues s c) i" "s' = upd_thread t (\<lambda>x. x\<lparr>tnext := 0\<rparr>) (set_ready c i (tnext (threads s t)) s)"
    using assms by (auto simp: take_lowest_def Let_def split: option.splits)
  then show ?thesis by (cases s) (auto simp: fun_eq_iff)
qed

definition may_run :: "sched_state \<Rightarrow> u64 \<Rightarrow> nat \<Rightarrow> bool" where
  "may_run s t c \<longleftrightarrow> sint (cpu_affinity (threads s t)) < 0 \<or> cpu_affinity (threads s t) = of_nat c"

lemma try_steal_lists:
  assumes ch: "ready_lists s Q"
  obtains (none) "try_steal_from_cpu got thief victim s = (0, s)"
    | (some) t i s' ts where "try_steal_from_cpu got thief victim s = (t, s')" "t \<noteq> 0" "may_run s t thief" "victim < MAX_CPUS" "i < 128"
        "Q victim i = t # ts" "same s s'" "ready_lists s' (set_queue victim i ts Q)"
proof (cases "thief = victim \<or> MAX_CPUS \<le> victim \<or> \<not> got \<or> rq_lock (runqueues s victim)")
  case True
  then show ?thesis by (intro none) (auto simp: try_steal_from_cpu_def get_cpu_runqueue_def)
next
  case False
  then have v: "victim < MAX_CPUS" by simp
  show ?thesis
  proof (cases rule: take_lowest_lists [OF ch v])
    case 1
    then show ?thesis using False by (intro none) (simp add: try_steal_from_cpu_def get_cpu_runqueue_def)
  next
    case (2 t i s' ts)
    show ?thesis
    proof (cases "may_run s t thief")
      case True
      then have "try_steal_from_cpu got thief victim s = (t, s')"
        using False 2(1,2) by (auto simp: try_steal_from_cpu_def get_cpu_runqueue_def may_run_def)
      then show ?thesis using True 2 v by (intro some [of t s' i ts]) simp_all
    next
      case nm: False
      then have "try_steal_from_cpu got thief victim s = (0, s)"
        using False 2(1,2) take_lowest_back [OF 2(1,2)] by (simp add: try_steal_from_cpu_def get_cpu_runqueue_def may_run_def not_less)
      then show ?thesis by (rule none)
    qed
  qed
qed

definition steal_result :: "nat \<Rightarrow> sched_state \<Rightarrow> (nat \<Rightarrow> nat \<Rightarrow> u64 list) \<Rightarrow> (bool \<times> sched_state) option \<Rightarrow> bool" where
  "steal_result idle s Q r \<longleftrightarrow> (\<exists>b s' Q'. r = Some (b, s') \<and> ready_lists s' Q' \<and> unlocked s' \<and> (\<forall>t. queued Q' t \<longleftrightarrow> queued Q t) \<and>
     (if b then \<exists>t i. i < 128 \<and> Q' idle i = Q idle i @ [t] \<and> may_run s t idle else Q' = Q))"

lemma steal_result_none: "ready_lists s' Q \<Longrightarrow> unlocked s' \<Longrightarrow> steal_result idle s Q (Some (False, s'))"
  unfolding steal_result_def by (intro exI [of _ False] exI [of _ s'] exI [of _ Q]) simp

lemma steal_result_some:
  assumes "ready_lists s' Q'" "unlocked s'" "\<And>t. queued Q' t \<longleftrightarrow> queued Q t" "i < 128" "Q' idle i = Q idle i @ [t]" "may_run s t idle"
  shows "steal_result idle s Q (Some (True, s'))"
  unfolding steal_result_def using assms by (intro exI [of _ True] exI [of _ s'] exI [of _ Q']) auto

lemma steal_from_cpus_lists:
  assumes ch: "ready_lists s Q" and u: "unlocked s" and idle: "idle < MAX_CPUS"
  shows "steal_result idle s Q (steal_from_cpus got num idle start is s)"
proof (induction "is")
  case Nil
  then show ?case using ch u by (simp add: steal_result_none)
next
  case (Cons j "is")
  let ?v = "(start + j) mod num"
  show ?case
  proof (cases "?v = idle")
    case True
    then show ?thesis using Cons.IH by (simp add: Let_def)
  next
    case False
    show ?thesis
    proof (cases rule: try_steal_lists [OF ch, of "got ?v" idle ?v])
      case 1
      then show ?thesis using False Cons.IH by (simp add: Let_def)
    next
      case (2 t i s' ts)
      let ?Q = "set_queue ?v i ts Q"
      note tk = taken_not_queued [OF ch 2(4,5,6)]
      have us: "unlocked s'" using same_unlocked [OF 2(7) u] .
      have pr: "unat (priority (threads s' t)) = i" using tk(2) same_thread(1) [OF 2(7)] by simp
      obtain w where w: "add_to_ready_queue t idle s' = Some w" "same s' w" "ready_lists w (set_queue idle i (?Q idle i @ [t]) ?Q)"
        by (rule put_back [OF 2(8) us 2(2) tk(1) pr 2(5) idle])
      let ?w = "w\<lparr>steal_start := (steal_start w)(idle := (?v + 1) mod num)\<rparr>" and ?R = "set_queue idle i (?Q idle i @ [t]) ?Q"
      have "steal_from_cpus got num idle start (j # is) s = Some (True, ?w)" using False 2(1,2) w(1) by (simp add: Let_def)
      moreover have "steal_result idle s Q (Some (True, ?w))"
      proof (rule steal_result_some [OF _ _ _ 2(5) _ 2(3)])
        show "ready_lists ?w ?R" using w(3) by (simp only: lists_fields)
        show "unlocked ?w" using same_unlocked [OF w(2) us] by (simp only: lists_fields)
        show "queued ?R x \<longleftrightarrow> queued Q x" for x unfolding queued_append [OF idle 2(5)] tk(3) ..
        show "?R idle i = Q idle i @ [t]" using False by simp
      qed
      ultimately show ?thesis by (simp only:)
    qed
  qed
qed

section \<open>The property\<close>

text \<open>
  C38: balancing neither loses nor duplicates a thread. From well-formed ready queues and free locks, \<^verbatim>\<open>scheduler_load_balance\<close> and
  \<^verbatim>\<open>scheduler_try_work_stealing\<close> both return, with every lock released, well-formed queues (every thread at most once, at its own priority)
  and exactly the same queued threads. A steal that reports success has appended to one of the idle CPU's queues a thread whose affinity admits this
  CPU; one that reports failure has changed no queue.
\<close>

theorem balance_conserves_threads:
  assumes "ready_lists s Q" "unlocked s" "num_cpus \<le> MAX_CPUS" "idle < MAX_CPUS"
  shows "(\<exists>s' Q'. scheduler_load_balance num_cpus ticks s = Some s' \<and> ready_lists s' Q' \<and> unlocked s' \<and> (\<forall>t. queued Q' t \<longleftrightarrow> queued Q t)) \<and>
    (\<exists>b s' Q'. scheduler_try_work_stealing got num_cpus idle s = Some (b, s') \<and> ready_lists s' Q' \<and> unlocked s' \<and>
       (\<forall>t. queued Q' t \<longleftrightarrow> queued Q t) \<and> (if b then \<exists>t i. i < 128 \<and> Q' idle i = Q idle i @ [t] \<and> may_run s t idle else Q' = Q))"
proof -
  have "steal_result idle s Q (scheduler_try_work_stealing got num_cpus idle s)"
  proof (cases "num_cpus \<le> 1")
    case True
    then have "scheduler_try_work_stealing got num_cpus idle s = Some (False, s)" by (simp add: scheduler_try_work_stealing_def)
    then show ?thesis using assms(1,2) by (simp only: steal_result_none)
  next
    case False
    then have "scheduler_try_work_stealing got num_cpus idle s = steal_from_cpus got num_cpus idle (steal_start s idle) [0..<num_cpus] s"
      using assms(4) by (simp add: scheduler_try_work_stealing_def)
    then show ?thesis using steal_from_cpus_lists [OF assms(1,2,4)] by (simp only:)
  qed
  then show ?thesis unfolding steal_result_def by (intro conjI load_balance_lists [OF assms(1-3)])
qed

text \<open>Two threads of low priority on CPU 0, none on CPU 1, which steals the first.\<close>

definition demo_low :: sched_state where
  "demo_low = demo_sched\<lparr>
     threads := (\<lambda>a. if a = 0x100 then demo_thread 1 THREAD_STATE_READY 32 0x200
                     else if a = 0x200 then demo_thread 2 THREAD_STATE_READY 32 0 else demo_thread 0 THREAD_STATE_READY 0 0),
     runqueues := (\<lambda>c. (runqueues demo_sched c)\<lparr>ready_queues := (\<lambda>p. if c = 0 \<and> p = 32 then 0x100 else 0)\<rparr>)\<rparr>"

definition demo_low_lists :: "nat \<Rightarrow> nat \<Rightarrow> u64 list" where
  "demo_low_lists c p = (if c = 0 \<and> p = 32 then [0x100, 0x200] else [])"

lemma demo_low_ready: "ready_lists demo_low demo_low_lists" "unlocked demo_low"
  by (auto simp: ready_lists_def demo_low_def demo_sched_def demo_low_lists_def demo_thread_def unlocked_def)

theorem balance_conserves_threads_witness:
  "(\<exists>s' Q'. scheduler_load_balance 2 1000 demo_low = Some s' \<and> ready_lists s' Q' \<and> queued Q' 0x100 \<and> queued Q' 0x200) \<and>
   (\<exists>s' Q' b. scheduler_try_work_stealing (\<lambda>_. True) 2 1 demo_low = Some (b, s') \<and> ready_lists s' Q' \<and> queued Q' 0x100 \<and> queued Q' 0x200)"
proof -
  have q: "queued demo_low_lists 0x100" "queued demo_low_lists 0x200"
    by (auto simp: queued_def demo_low_lists_def MAX_CPUS_def)
  have n: "(2 :: nat) \<le> MAX_CPUS" "(1 :: nat) < MAX_CPUS" by (simp_all add: MAX_CPUS_def)
  note c = balance_conserves_threads [OF demo_low_ready n, of 1000 "\<lambda>_. True"]
  show ?thesis
  proof
    show "\<exists>s' Q'. scheduler_load_balance 2 1000 demo_low = Some s' \<and> ready_lists s' Q' \<and> queued Q' 0x100 \<and> queued Q' 0x200"
      using conjunct1 [OF c] q by blast
    show "\<exists>s' Q' b. scheduler_try_work_stealing (\<lambda>_. True) 2 1 demo_low = Some (b, s') \<and> ready_lists s' Q' \<and> queued Q' 0x100 \<and> queued Q' 0x200"
      using conjunct2 [OF c] q by blast
  qed
qed

end
