(* ===== verification/Spec2Isabelle.thy ===== *)
theory Spec2Isabelle
  imports Pmm_Props Ipc_Props Mutex Semaphore Rwlock Aes_Props Sha256_Props Sha512_Props Bn_Alg
    Cstring_Props Acl Rbac_Props Sandbox_Props Audit_Log Slab_Props Vmm_Props Lockfree_Props Sched_Balance
begin

text \<open>
  \<^bold>\<open>Verification of the Scarlett kernel.\<close>

  Scarlett is a small operating system: a kernel in C, user-space services and drivers in Rust, and
  graphical applications. This development models the parts of the kernel that decide about
  resources, rights and data, function by function, and proves what callers rely on. All paths
  below are relative to \<^verbatim>\<open>src/kernel\<close>.

  \<^bold>\<open>The parts and how they interact.\<close> Every allocation of memory ends in the physical
  memory manager (\<^verbatim>\<open>mm/pmm.c\<close>), which hands out page frames; the virtual memory manager (\<^verbatim>\<open>mm/vmm.c\<close>)
  puts page tables into them, and the heap (\<^verbatim>\<open>mm/heap.c\<close>) with its slab caches (\<^verbatim>\<open>mm/slab.c\<close>) cuts them
  into objects. Threads exchange messages through the
  ports of \<^verbatim>\<open>ipc/ipc.c\<close>; a send or a receive is admitted by the capability system
  (\<^verbatim>\<open>security/capability.c\<close>), blocks and wakes threads through the scheduler, and messages can carry
  capabilities. All of them run their critical sections under the spinlocks of \<^verbatim>\<open>sync/spinlock.c\<close>,
  on which mutexes, semaphores and read-write locks are built. Files are guarded by mode bits
  (\<^verbatim>\<open>fs/permissions.c\<close>) and access control lists (\<^verbatim>\<open>fs/acl.c\<close>), users by roles
  (\<^verbatim>\<open>security/rbac.c\<close>), processes by sandboxes (\<^verbatim>\<open>security/sandbox.c\<close>), and decisions are recorded in
  the audit log (\<^verbatim>\<open>security/audit.c\<close>), which uses the string library (\<^verbatim>\<open>core/string.c\<close>). The
  cryptographic library (\<^verbatim>\<open>crypto/\<close>) provides AES in CBC mode, SHA-256, SHA-512 and numbers of
  arbitrary size.

  \<^bold>\<open>Conventions.\<close> A C structure is a record with the fields of the source, an enumeration
  a datatype, an integer a word of its width (\<^verbatim>\<open>u8\<close> to \<^verbatim>\<open>u64\<close>, \<^verbatim>\<open>size_t\<close>, \<^verbatim>\<open>paddr_t\<close> in
  \<^verbatim>\<open>Prelude\<close>), so that arithmetic wraps as in the code. A loop counter whose bound is a small
  constant is a natural number. An array of the state is a function from indices, its used part
  the list \<^verbatim>\<open>cells a n\<close>; a buffer is a list, and an access outside it is the result \<^verbatim>\<open>None\<close>. A pointer
  that may be NULL is an option. Where a call of \<^verbatim>\<open>kmalloc\<close>, of the clock or of the file system
  decides the outcome, its result is an argument of the model. Error codes are those of
  \<^verbatim>\<open>include/errors.h\<close>. The code between taking and releasing a spinlock is one step, which
  \<^verbatim>\<open>Spinlock\<close> justifies; code that gives up the lock in between is cut there, and the pieces
  are interleaved. Console output is left out.

  \<^bold>\<open>Theories.\<close>
  \<^item> \<^verbatim>\<open>Prelude\<close>: types, error codes, bounded loops, searches, arrays with a count, and the locales
    \<^verbatim>\<open>transition_system\<close> (invariants of reachable states) and \<^verbatim>\<open>exclusive\<close> (mutual exclusion from a
    lock that names its holder). \<^verbatim>\<open>Tables\<close>: an array with a count as a finite map, the locales
    \<^verbatim>\<open>bounded_map\<close> and \<^verbatim>\<open>full_map\<close> for tables with insertion and removal, and sequences of calls.
    \<^verbatim>\<open>Msg_Queue\<close>: the message list of a port as a queue. \<^verbatim>\<open>Byte_Blocks\<close>: input consumed in blocks,
    shared by the two hash functions.
  \<^item> \<^verbatim>\<open>Pmm\<close>, \<^verbatim>\<open>Pmm_Alloc\<close>, \<^verbatim>\<open>Pmm_Props\<close>: the bitmap, the counters and the reference counts of
    \<^verbatim>\<open>mm/pmm.c\<close>. The counters are exact after every history of calls, allocations are disjoint and
    fail only for want of memory, runs of frames are found first-fit, shared frames survive until
    the last reference, and initialisation frees exactly the usable frames of the memory map.
  \<^item> \<^verbatim>\<open>Heap\<close>, \<^verbatim>\<open>Heap_Blocks\<close>, \<^verbatim>\<open>Heap_Alloc\<close>, \<^verbatim>\<open>Heap_Props\<close>, \<^verbatim>\<open>Slab_Props\<close>: the block list of \<^verbatim>\<open>mm/heap.c\<close> and
    the size classes of \<^verbatim>\<open>mm/slab.c\<close>, headers and payload as stores over addresses. Large objects stay
    disjoint and keep their bytes through every sequence of calls and the heap is one free block again
    when all are freed; a slab page hands out its free objects; the first small request deadlocks.
  \<^item> \<^verbatim>\<open>Vmm\<close>, \<^verbatim>\<open>Vmm_Walk\<close>, \<^verbatim>\<open>Vmm_Props\<close>: the page tables of \<^verbatim>\<open>mm/vmm.c\<close> as arrays of entries in physical
    pages, with the processor's translation defined beside them. The direct map is complete and keeps what was
    mapped before, a new address space shares exactly the kernel's half, and a page mapped later is
    mapped one level too deep.
  \<^item> \<^verbatim>\<open>Capability\<close>, \<^verbatim>\<open>Capability_Props\<close>: per-process tables of capabilities. Creation grants the
    rights asked for and nothing else, revocation removes one capability, numbers are unique, and a
    transfer writes a descriptor inside the message or nothing.
  \<^item> \<^verbatim>\<open>Ipc\<close>, \<^verbatim>\<open>Ipc_Props\<close>: ports and messages, the blocking calls as a step relation over threads.
    Messages are delivered in order and exactly once in every interleaving, carry their true
    sender, and come from admitted threads; a waiting receiver is woken, except in the window that
    \<^verbatim>\<open>ipc_wakeup_lost\<close> exhibits.
  \<^item> \<^verbatim>\<open>Spinlock\<close>, \<^verbatim>\<open>Mutex\<close>, \<^verbatim>\<open>Semaphore\<close>, \<^verbatim>\<open>Rwlock\<close>: the primitives of \<^verbatim>\<open>sync/\<close> as step relations over
    threads, spinlocks at single memory accesses. Mutual exclusion, exact counters, progress.
  \<^item> \<^verbatim>\<open>Lockfree\<close>, \<^verbatim>\<open>Lockfree_Stack\<close>, \<^verbatim>\<open>Lockfree_Queue\<close>, \<^verbatim>\<open>Lockfree_Props\<close>: the queue and the stack of
    \<^verbatim>\<open>sync/lockfree.c\<close>, interleaved at every access to shared memory. Without reuse of freed nodes both are
    linearizable and queue operations finish when they run alone; with it the stack loses its history.
  \<^item> \<^verbatim>\<open>Sched\<close>, \<^verbatim>\<open>Sched_Props\<close>, \<^verbatim>\<open>Sched_Balance\<close>: the run queues of \<^verbatim>\<open>sched/scheduler.c\<close> with load balancing,
    work stealing and affinity; \<^verbatim>\<open>Chains\<close> has the linked lists it shares with the lock-free structures. Threads
    of the highest priority take turns and balancing loses none; a thread created at the priority of the
    running one is lost, and a CPU with nothing to run ends in a deadlock.
  \<^item> \<^verbatim>\<open>Aes\<close>, \<^verbatim>\<open>Aes_Props\<close>: the three AES files and the dispatch of \<^verbatim>\<open>crypto/crypto.c\<close>. Decryption
    inverts encryption, the key schedules are those of FIPS 197, invalid calls are refused.
  \<^item> \<^verbatim>\<open>Sha256\<close>, \<^verbatim>\<open>Sha512\<close> and their \<^verbatim>\<open>_Props\<close>: streaming hashing. SHA-256 is that of FIPS 180-4 for
    every way of cutting the input; SHA-512 writes the length of its padding one byte off.
  \<^item> \<^verbatim>\<open>Bn\<close>, \<^verbatim>\<open>Bn_Props\<close>, \<^verbatim>\<open>Bn_Mul\<close>, \<^verbatim>\<open>Bn_Bytes\<close>, \<^verbatim>\<open>Bn_Alg\<close>: numbers as arrays of words. The operations
    refine natural-number arithmetic; division does so for divisors of one word only, which decides
    what the modular operations compute and when they return.
  \<^item> \<^verbatim>\<open>Cstring\<close>, \<^verbatim>\<open>Cstring_Props\<close>: the string library on objects of bytes, with leaving an object as an
    outcome of its own.
  \<^item> \<^verbatim>\<open>Acl\<close>, \<^verbatim>\<open>Rbac\<close>, \<^verbatim>\<open>Rbac_Props\<close>, \<^verbatim>\<open>Sandbox\<close>, \<^verbatim>\<open>Sandbox_Props\<close>, \<^verbatim>\<open>Audit_Log\<close>: access control lists
    refine a finite map and agree with the mode bits, roles refine relations between users, roles
    and permissions, sandboxes keep their limits in every interleaving, and the ring of the audit
    log keeps the latest entries.

  \<^bold>\<open>Bounds.\<close> Loops bounded by the source are structural recursion or \<^verbatim>\<open>for_range\<close>; loops that
  follow data (\<^verbatim>\<open>strlen\<close>, the scans of the audit ring, the big-number loops) are option-valued
  partial functions without fuel, and that they return is proved where it is claimed. Hypotheses
  of the properties that bound sizes name the width that would otherwise wrap.

  \<^bold>\<open>Not modelled.\<close> Assembly, processor registers and devices (\<^verbatim>\<open>hal/\<close>, \<^verbatim>\<open>drivers/\<close>, the boot
  loaders) have no description in C that a model could follow. Drawing, windows and interactive
  programs (\<^verbatim>\<open>graphics/\<close>, \<^verbatim>\<open>ui/\<close>, \<^verbatim>\<open>window/\<close>, the applications) are output. Processes, system calls, file systems, the network stack and the Rust
  services are not modelled; \<^verbatim>\<open>bn_is_prime\<close> is left out because its loop depends on the random
  numbers drawn.
\<close>

end
